(* ===== verification/Prelude.thy ===== *)
theory Prelude
  imports Main
begin

text \<open>
  Shared vocabulary of the development: pointers and faults, the error-propagating sequencing of
  C statements, typed heaps with checked access, chains of nodes (the singly linked lists that
  every component of the repository is built from), and the generic notion of the states a step
  relation reaches.

  A pointer is \<open>addr option\<close>, \<open>None\<close> being \<open>NULL\<close>. A heap of nodes of one C struct is a partial
  map from addresses; an address that is not in its domain was never allocated or was freed, and
  every access to it is a fault. The result of \<open>malloc\<close> is an argument of the operation that
  calls it: \<open>None\<close> when it fails, \<open>Some a\<close> for a block at \<open>a\<close>, which \<open>malloc_ok\<close> requires to be
  unused.
\<close>

section \<open>Faults and sequencing\<close>

type_synonym addr = nat
type_synonym ptr = "addr option"

text \<open>
  What can go wrong in a run of the C code: a null dereference, an access to memory that is not
  allocated (freed or out of thin air), an access outside an array, a failed \<open>assert\<close>, a call of
  \<open>abort\<close>, a thread locking a non-recursive mutex that it already holds, and a call that never
  returns for another reason.
\<close>

datatype fault = Null_Deref | Bad_Addr addr | Out_Of_Bounds | Assert_Failed | Aborted | Self_Deadlock | Hangs

named_theorems res_simps \<open>evaluation of sequenced, possibly faulting statements\<close>

fun ebind :: "'e + 'a \<Rightarrow> ('a \<Rightarrow> 'e + 'b) \<Rightarrow> 'e + 'b" where
  "ebind (Inl e) f = Inl e"
| "ebind (Inr x) f = f x"

declare ebind.simps [res_simps]

lemma ebind_Inr_iff: "ebind m f = Inr y \<longleftrightarrow> (\<exists>x. m = Inr x \<and> f x = Inr y)"
  by (cases m) auto

lemma ebind_Inl_iff: "ebind m f = Inl e \<longleftrightarrow> m = Inl e \<or> (\<exists>x. m = Inr x \<and> f x = Inl e)"
  by (cases m) auto

lemma ebind_assoc: "ebind (ebind m f) g = ebind m (\<lambda>x. ebind (f x) g)"
  by (cases m) auto

lemma ebind_cong [fundef_cong]:
  "m = m' \<Longrightarrow> (\<And>x. m' = Inr x \<Longrightarrow> f x = f' x) \<Longrightarrow> ebind m f = ebind m' f'"
  by (cases m') auto

definition check :: "bool \<Rightarrow> 'e \<Rightarrow> 'e + unit" where
  "check b e = (if b then Inr () else Inl e)"

lemma check_simps [simp, res_simps]: "check True e = Inr ()" "check False e = Inl e"
  by (simp_all add: check_def)

section \<open>Values of the C type int\<close>

text \<open>
  The value that an \<open>int\<close> of 32 bits takes when the result of an addition does not fit: two's complement.
  The C standard leaves that overflow undefined; a counter that is incremented in an endless loop is
  modelled with the wrap-around that the compilers' code has.
\<close>

definition int32 :: "int \<Rightarrow> int" where
  "int32 x = (x + 2147483648) mod 4294967296 - 2147483648"

lemma int32_id: "-2147483648 \<le> x \<Longrightarrow> x < 2147483648 \<Longrightarrow> int32 x = x"
  by (simp add: int32_def)

lemma int32_small [simp]: "int32 0 = 0" "int32 1 = 1"
  by (simp_all add: int32_def)

lemma int32_wraps: "int32 (2147483647 + 1) = -2147483648"
  by (simp add: int32_def)

lemma int32_add: "int32 (int32 x + y) = int32 (x + y)"
proof -
  have "((x + 2147483648) mod 4294967296 + y) mod 4294967296 = (x + 2147483648 + y) mod 4294967296"
    by (rule mod_add_left_eq)
  then show ?thesis by (simp add: int32_def algebra_simps)
qed

lemma int32_Suc: "int32 (int32 (int n) + 1) = int32 (int (Suc n))"
  using int32_add [of "int n" 1] by (simp add: add.commute)

text \<open>What a counter of type \<open>int\<close> that starts at \<open>0\<close> gives out in its first \<open>n\<close> turns.\<close>

definition int_counts :: "nat \<Rightarrow> int list" where
  "int_counts n = map (\<lambda>k. int32 (int k)) [0..<n]"

lemma int_counts_simps [simp]: "int_counts 0 = []" "int_counts (Suc n) = int_counts n @ [int32 (int n)]"
  "length (int_counts n) = n"
  by (simp_all add: int_counts_def)

lemma int_counts_small: "int n \<le> 2147483648 \<Longrightarrow> int_counts n = map int [0..<n]"
  by (auto simp: int_counts_def intro!: int32_id)

lemma int_counts_next: "int_counts n = int_counts k @ v # xs \<Longrightarrow> v = int32 (int k)"
proof -
  assume a: "int_counts n = int_counts k @ v # xs"
  then have "length (int_counts n) = length (int_counts k @ v # xs)" by simp
  then have "k < n" by simp
  then have "int_counts n ! k = int32 (int k)" by (simp add: int_counts_def)
  then show ?thesis unfolding a by (simp add: nth_append)
qed

section \<open>Heaps\<close>

definition load :: "(addr \<rightharpoonup> 'n) \<Rightarrow> ptr \<Rightarrow> fault + 'n" where
  "load h p = (case p of None \<Rightarrow> Inl Null_Deref
     | Some a \<Rightarrow> (case h a of None \<Rightarrow> Inl (Bad_Addr a) | Some n \<Rightarrow> Inr n))"

definition store :: "(addr \<rightharpoonup> 'n) \<Rightarrow> ptr \<Rightarrow> ('n \<Rightarrow> 'n) \<Rightarrow> fault + (addr \<rightharpoonup> 'n)" where
  "store h p f = (case p of None \<Rightarrow> Inl Null_Deref
     | Some a \<Rightarrow> (case h a of None \<Rightarrow> Inl (Bad_Addr a) | Some n \<Rightarrow> Inr (h(a \<mapsto> f n))))"

text \<open>\<open>free\<close>: freeing \<open>NULL\<close> does nothing, freeing what is not allocated is a fault.\<close>

definition release :: "(addr \<rightharpoonup> 'n) \<Rightarrow> ptr \<Rightarrow> fault + (addr \<rightharpoonup> 'n)" where
  "release h p = (case p of None \<Rightarrow> Inr h
     | Some a \<Rightarrow> (case h a of None \<Rightarrow> Inl (Bad_Addr a) | Some n \<Rightarrow> Inr (h(a := None))))"

definition malloc_ok :: "(addr \<rightharpoonup> 'n) \<Rightarrow> ptr \<Rightarrow> bool" where
  "malloc_ok h p = (case p of None \<Rightarrow> True | Some a \<Rightarrow> h a = None)"

lemma malloc_ok_Some [simp]: "malloc_ok h (Some a) \<longleftrightarrow> h a = None"
  by (simp add: malloc_ok_def)

lemma malloc_ok_None [simp]: "malloc_ok h None"
  by (simp add: malloc_ok_def)

lemma load_simps [simp, res_simps]:
  "load h None = Inl Null_Deref"
  "h a = Some n \<Longrightarrow> load h (Some a) = Inr n"
  "h a = None \<Longrightarrow> load h (Some a) = Inl (Bad_Addr a)"
  by (simp_all add: load_def)

lemma store_simps [simp, res_simps]:
  "store h None f = Inl Null_Deref"
  "h a = Some n \<Longrightarrow> store h (Some a) f = Inr (h(a \<mapsto> f n))"
  "h a = None \<Longrightarrow> store h (Some a) f = Inl (Bad_Addr a)"
  by (simp_all add: store_def)

lemma release_simps [simp, res_simps]:
  "release h None = Inr h"
  "h a = Some n \<Longrightarrow> release h (Some a) = Inr (h(a := None))"
  "h a = None \<Longrightarrow> release h (Some a) = Inl (Bad_Addr a)"
  by (simp_all add: release_def)

text \<open>An allocator for finite heaps.\<close>

lemma least_free: "finite (dom h) \<Longrightarrow> h (LEAST a. h a = None) = None" for h :: "addr \<rightharpoonup> 'n"
proof -
  assume "finite (dom h)"
  then obtain a where "a \<notin> dom h" using ex_new_if_finite [OF infinite_UNIV_nat] by blast
  then show ?thesis using LeastI [of "\<lambda>a. h a = None" a] by (simp add: domIff)
qed


section \<open>Chains of nodes\<close>

text \<open>
  \<open>path nx h p as q\<close>: following the link field \<open>nx\<close> from \<open>p\<close> in heap \<open>h\<close> visits exactly the
  nodes \<open>as\<close>, in this order, and then arrives at \<open>q\<close>.
\<close>

fun path :: "('n \<Rightarrow> ptr) \<Rightarrow> (addr \<rightharpoonup> 'n) \<Rightarrow> ptr \<Rightarrow> addr list \<Rightarrow> ptr \<Rightarrow> bool" where
  "path nx h p [] q \<longleftrightarrow> p = q"
| "path nx h p (a # as) q \<longleftrightarrow> p = Some a \<and> (\<exists>n. h a = Some n \<and> path nx h (nx n) as q)"

lemma path_append: "path nx h p (as @ bs) q \<longleftrightarrow> (\<exists>r. path nx h p as r \<and> path nx h r bs q)"
  by (induction as arbitrary: p) auto

lemma path_snoc: "path nx h p (as @ [a]) q \<longleftrightarrow>
    path nx h p as (Some a) \<and> (\<exists>n. h a = Some n \<and> nx n = q)"
  by (auto simp: path_append)

lemma path_dom: "path nx h p as q \<Longrightarrow> set as \<subseteq> dom h"
  by (induction as arbitrary: p) auto

lemma path_None [simp]: "path nx h None as q \<longleftrightarrow> as = [] \<and> q = None"
  by (cases as) auto

lemma path_Some_None: "path nx h (Some a) as None \<longleftrightarrow>
    (\<exists>n bs. as = a # bs \<and> h a = Some n \<and> path nx h (nx n) bs None)"
  by (cases as) auto

lemma path_upd [simp]: "a \<notin> set as \<Longrightarrow> path nx (h(a := x)) p as q \<longleftrightarrow> path nx h p as q"
  by (induction as arbitrary: p) auto

lemma path_cong_heap: "path nx h p as q \<Longrightarrow> (\<And>a. a \<in> set as \<Longrightarrow> h' a = h a) \<Longrightarrow> path nx h' p as q"
  by (induction as arbitrary: p) auto

lemma path_cong_next:
  "path nx h p as q \<Longrightarrow> (\<And>a n. a \<in> set as \<Longrightarrow> h a = Some n \<Longrightarrow> \<exists>m. h' a = Some m \<and> nx' m = nx n)
   \<Longrightarrow> path nx' h' p as q"
  by (induction as arbitrary: p) fastforce+

lemma path_unique: "path nx h p as None \<Longrightarrow> path nx h p bs None \<Longrightarrow> as = bs"
proof (induction as arbitrary: p bs)
  case Nil
  then show ?case by (cases bs) auto
next
  case (Cons a as)
  then show ?case by (cases bs) auto
qed

lemma path_distinct:
  assumes "path nx h p as None"
  shows "distinct as"
  using assms
proof (induction as arbitrary: p)
  case Nil
  then show ?case by simp
next
  case (Cons a as)
  from Cons.prems obtain n where n: "h a = Some n" and tl: "path nx h (nx n) as None" by auto
  have "a \<notin> set as"
  proof
    assume "a \<in> set as"
    then obtain xs ys where as: "as = xs @ a # ys" by (auto simp: in_set_conv_decomp)
    with tl n have "path nx h (nx n) ys None" by (auto simp: path_append)
    then have "ys = as" using tl by (rule path_unique)
    with as have "as = xs @ a # as" by simp
    then have "length as = length (xs @ a # as)" by (rule arg_cong)
    then show False by simp
  qed
  with tl Cons.IH show ?case by simp
qed

lemma path_last:
  "path nx h p as q \<Longrightarrow> as \<noteq> [] \<Longrightarrow> \<exists>n. h (last as) = Some n \<and> nx n = q"
  by (induction as arbitrary: p) (auto split: if_splits)

text \<open>Linking a fresh node \<open>b\<close> behind the last node of a chain.\<close>

lemma path_link_last:
  assumes "path nx h p as None" and "as \<noteq> []" and "b \<notin> set as"
    and "nx m = Some b" and "nx n = None"
  shows "path nx (h(last as \<mapsto> m, b \<mapsto> n)) p (as @ [b]) None"
proof -
  have d: "distinct as" using assms(1) by (rule path_distinct)
  from \<open>as \<noteq> []\<close> obtain xs x where as: "as = xs @ [x]" by (cases as rule: rev_cases) auto
  with d assms show ?thesis by (auto simp: path_append)
qed

section \<open>Freeing a chain\<close>

text \<open>
  The loop \<open>while (p) { tmp = p->next; free(p); p = tmp; }\<close> that every destructor of the
  repository ends with. It returns \<open>None\<close> only if it would run forever.
\<close>

partial_function (option) free_chain ::
  "('n \<Rightarrow> ptr) \<Rightarrow> (addr \<rightharpoonup> 'n) \<Rightarrow> ptr \<Rightarrow> (fault + (addr \<rightharpoonup> 'n)) option"
where
  "free_chain nx h p = (case p of None \<Rightarrow> Some (Inr h)
     | Some a \<Rightarrow> (case h a of None \<Rightarrow> Some (Inl (Bad_Addr a))
         | Some n \<Rightarrow> free_chain nx (h(a := None)) (nx n)))"

lemma free_chain_path:
  assumes "path nx h p as None"
  shows "free_chain nx h p = Some (Inr (h |` (- set as)))"
  using assms path_distinct [OF assms]
proof (induction as arbitrary: h p)
  case Nil
  then show ?case by (simp add: free_chain.simps)
next
  case (Cons a as)
  then obtain n where p: "p = Some a" and n: "h a = Some n" and tl: "path nx h (nx n) as None"
    and a: "a \<notin> set as" and d: "distinct as" by auto
  have "path nx (h(a := None)) (nx n) as None" by (rule path_upd [THEN iffD2, OF a tl])
  then have "free_chain nx (h(a := None)) (nx n) = Some (Inr ((h(a := None)) |` (- set as)))"
    using d by (rule Cons.IH)
  moreover have "(h(a := None)) |` (- set as) = h |` (- set (a # as))"
    by (auto simp: restrict_map_def)
  ultimately show ?case by (simp add: p n free_chain.simps [of nx h])
qed

section \<open>Reachable states\<close>

inductive reach :: "('s \<Rightarrow> 's \<Rightarrow> bool) \<Rightarrow> 's \<Rightarrow> 's \<Rightarrow> bool" for step where
  reach_refl: "reach step s s"
| reach_step: "reach step s t \<Longrightarrow> step t u \<Longrightarrow> reach step s u"

lemma reach_trans: "reach step t u \<Longrightarrow> reach step s t \<Longrightarrow> reach step s u"
  by (induction rule: reach.induct) (auto intro: reach.intros)

lemma reach_single: "step s t \<Longrightarrow> reach step s t"
  by (rule reach_step [OF reach_refl, of step s t])

lemma reach_one: "\<exists>t. step s t \<and> Q t \<Longrightarrow> \<exists>t. reach step s t \<and> Q t"
proof (elim exE conjE)
  fix t assume "step s t" "Q t"
  then have "reach step s t \<and> Q t" using reach_step [OF reach_refl, of step s t] by simp
  then show "\<exists>t. reach step s t \<and> Q t" ..
qed

lemma reach_mono: "reach step s t \<Longrightarrow> (\<And>u v. step u v \<Longrightarrow> step' u v) \<Longrightarrow> reach step' s t"
proof (induction rule: reach.induct)
  case (reach_refl s)
  show ?case by (rule reach.reach_refl)
next
  case (reach_step s t u)
  then show ?case by (metis reach.reach_step)
qed

lemma reach_invariant:
  "reach step s t \<Longrightarrow> I s \<Longrightarrow> (\<And>u v. I u \<Longrightarrow> step u v \<Longrightarrow> I v) \<Longrightarrow> I t"
  by (induction rule: reach.induct) auto

text \<open>A run given as the list of the states it visits, for building witnesses.\<close>

fun run_of :: "('s \<Rightarrow> 's \<Rightarrow> bool) \<Rightarrow> 's \<Rightarrow> 's list \<Rightarrow> bool" where
  "run_of step s [] \<longleftrightarrow> True"
| "run_of step s (t # ts) \<longleftrightarrow> step s t \<and> run_of step t ts"

lemma run_of_reach: "run_of step s ts \<Longrightarrow> reach step s (last (s # ts))"
proof (induction ts arbitrary: s)
  case Nil
  then show ?case by (simp add: reach_refl)
next
  case (Cons t ts)
  then have "reach step s t" by (auto intro: reach.intros)
  moreover from Cons have "reach step t (last (t # ts))" by simp
  ultimately have "reach step s (last (t # ts))" by (rule reach_trans [rotated])
  then show ?case by simp
qed

section \<open>Sums over the threads\<close>

text \<open>A sum over threads \<open>0..<n\<close> when one of them moves.\<close>

lemma sum_thread_upd:
  fixes w :: "'t \<Rightarrow> int" and t n :: nat
  assumes "t < n"
  shows "(\<Sum>u<n. w ((f(t := x)) u)) = (\<Sum>u<n. w (f u)) - w (f t) + w x"
proof -
  have t: "t \<in> {..<n}" using assms by simp
  have "(\<Sum>u<n. w ((f(t := x)) u)) = w x + (\<Sum>u\<in>{..<n} - {t}. w ((f(t := x)) u))"
    using sum.remove [OF finite_lessThan t, of "\<lambda>u. w ((f(t := x)) u)"] by simp
  also have "(\<Sum>u\<in>{..<n} - {t}. w ((f(t := x)) u)) = (\<Sum>u\<in>{..<n} - {t}. w (f u))"
    by (rule sum.cong) auto
  also have "\<dots> = (\<Sum>u<n. w (f u)) - w (f t)"
    using sum.remove [OF finite_lessThan t, of "\<lambda>u. w (f u)"] by simp
  finally show ?thesis by simp
qed

lemma sum_thread_upd_nat:
  fixes w :: "'t \<Rightarrow> 'm::comm_monoid_add" and t n :: nat
  assumes "t < n"
  shows "(\<Sum>u<n. w ((f(t := x)) u)) + w (f t) = (\<Sum>u<n. w (f u)) + w x"
proof -
  have t: "t \<in> {..<n}" using assms by simp
  have "(\<Sum>u\<in>{..<n} - {t}. w ((f(t := x)) u)) = (\<Sum>u\<in>{..<n} - {t}. w (f u))"
    by (rule sum.cong) auto
  then show ?thesis
    using sum.remove [OF finite_lessThan t, of "\<lambda>u. w ((f(t := x)) u)"]
      sum.remove [OF finite_lessThan t, of "\<lambda>u. w (f u)"] by (simp add: ac_simps)
qed

end
