(* ===== verification/Bounded_Fifo.thy ===== *)
theory Bounded_Fifo
  imports Prelude
begin

text \<open>
  The contract that the clients of the lab2 queues rely on (\<open>lab2/src/1/b.c\<close>,
  \<open>lab2/src/2/queue_threads.c\<close>, \<open>lab2/src/1/a.c\<close>): a queue of integers of bounded capacity, with
  \<open>queue_add\<close> refusing when it is full and \<open>queue_get\<close> refusing when it is empty. The contract is
  the locale \<open>bounded_fifo\<close>; the client programs are step relations over any two operations, and
  the client's guarantees are proved once, inside the locale.
\<close>

section \<open>Programs over a queue\<close>

text \<open>
  An arbitrary program over one queue: any sequence of calls, in any order, with any results of
  \<open>malloc\<close> that are unused addresses. The state collects the accepted values and the delivered
  ones.
\<close>

inductive fifo_step ::
  "('q \<Rightarrow> int \<Rightarrow> ptr \<Rightarrow> fault + int \<times> 'q) \<Rightarrow> ('q \<Rightarrow> int \<Rightarrow> fault + int \<times> int \<times> 'q) \<Rightarrow> ('q \<Rightarrow> ptr \<Rightarrow> bool)
   \<Rightarrow> int list \<times> int list \<times> 'q \<Rightarrow> int list \<times> int list \<times> 'q \<Rightarrow> bool"
  for add get ok
where
  fifo_add: "ok q p \<Longrightarrow> add q v p = Inr (r, q') \<Longrightarrow>
     fifo_step add get ok (acc, got, q) (if r = 0 then acc else acc @ [v], got, q')"
| fifo_get: "get q c = Inr (r, v, q') \<Longrightarrow>
     fifo_step add get ok (acc, got, q) (acc, if r = 0 then got else got @ [v], q')"

text \<open>
  The two loops of \<open>b.c\<close> and \<open>queue_threads.c\<close>, one call of the queue being one step: the writer
  adds \<open>i\<close> and counts up when that succeeds, the reader compares what it got with \<open>expected\<close>
  (printing the error line when they differ) and sets \<open>expected\<close> to the next value.
\<close>

record 'q rw_state =
  rw_i :: int
  rw_expected :: int
  rw_errors :: "(int \<times> int) list"
  rw_queue :: 'q

definition rw_init :: "'q \<Rightarrow> 'q rw_state" where
  "rw_init q = \<lparr>rw_i = 0, rw_expected = 0, rw_errors = [], rw_queue = q\<rparr>"

definition writer_iter ::
  "('q \<Rightarrow> int \<Rightarrow> ptr \<Rightarrow> fault + int \<times> 'q) \<Rightarrow> ptr \<Rightarrow> 'q rw_state \<Rightarrow> fault + 'q rw_state" where
  "writer_iter add p s = ebind (add (rw_queue s) (rw_i s) p) (\<lambda>(ok, q).
     if ok = 0 then Inr (s\<lparr>rw_queue := q\<rparr>)
     else Inr (s\<lparr>rw_queue := q, rw_i := rw_i s + 1\<rparr>))"

definition reader_iter ::
  "('q \<Rightarrow> int \<Rightarrow> fault + int \<times> int \<times> 'q) \<Rightarrow> 'q rw_state \<Rightarrow> fault + 'q rw_state" where
  "reader_iter get s = ebind (get (rw_queue s) (-1)) (\<lambda>(ok, val, q).
     if ok = 0 then Inr (s\<lparr>rw_queue := q\<rparr>)
     else Inr (s\<lparr>rw_queue := q,
       rw_errors := (if rw_expected s \<noteq> val then rw_errors s @ [(val, rw_expected s)] else rw_errors s),
       rw_expected := val + 1\<rparr>))"

inductive rw_step ::
  "('q \<Rightarrow> int \<Rightarrow> ptr \<Rightarrow> fault + int \<times> 'q) \<Rightarrow> ('q \<Rightarrow> int \<Rightarrow> fault + int \<times> int \<times> 'q) \<Rightarrow> ('q \<Rightarrow> ptr \<Rightarrow> bool)
   \<Rightarrow> 'q rw_state \<Rightarrow> 'q rw_state \<Rightarrow> bool"
  for add get ok
where
  rw_writer: "ok (rw_queue s) p \<Longrightarrow> writer_iter add p s = Inr s' \<Longrightarrow> rw_step add get ok s s'"
| rw_reader: "reader_iter get s = Inr s' \<Longrightarrow> rw_step add get ok s s'"

inductive_cases fifo_stepE: "fifo_step add get ok x y"
inductive_cases rw_stepE: "rw_step add get ok s s'"

section \<open>The contract\<close>

text \<open>
  \<open>rep q xs\<close>: the queue object \<open>q\<close> is well formed and holds \<open>xs\<close>, oldest first; \<open>cap q\<close> is its
  capacity and \<open>ok q p\<close> says that \<open>malloc\<close> may return \<open>p\<close> in it.
\<close>

locale bounded_fifo =
  fixes add :: "'q \<Rightarrow> int \<Rightarrow> ptr \<Rightarrow> fault + int \<times> 'q"
    and get :: "'q \<Rightarrow> int \<Rightarrow> fault + int \<times> int \<times> 'q"
    and ok :: "'q \<Rightarrow> ptr \<Rightarrow> bool"
    and rep :: "'q \<Rightarrow> int list \<Rightarrow> bool"
    and cap :: "'q \<Rightarrow> int"
  assumes rep_bound: "rep q xs \<Longrightarrow> int (length xs) \<le> cap q"
    and add_full: "rep q xs \<Longrightarrow> int (length xs) = cap q \<Longrightarrow>
      \<exists>q'. add q v p = Inr (0, q') \<and> rep q' xs \<and> cap q' = cap q"
    and add_oom: "rep q xs \<Longrightarrow> int (length xs) < cap q \<Longrightarrow> add q v None = Inl Aborted"
    and add_space: "rep q xs \<Longrightarrow> int (length xs) < cap q \<Longrightarrow> ok q (Some a) \<Longrightarrow>
      \<exists>q'. add q v (Some a) = Inr (1, q') \<and> rep q' (xs @ [v]) \<and> cap q' = cap q"
    and get_empty: "rep q [] \<Longrightarrow> \<exists>q'. get q c = Inr (0, c, q') \<and> rep q' [] \<and> cap q' = cap q"
    and get_cons: "rep q (x # xs) \<Longrightarrow> \<exists>q'. get q c = Inr (1, x, q') \<and> rep q' xs \<and> cap q' = cap q"
begin

lemma add_cases:
  assumes "rep q xs" and "ok q p" and "add q v p = Inr (r, q')"
  shows "cap q' = cap q \<and> (r = 0 \<and> rep q' xs \<or> r = 1 \<and> rep q' (xs @ [v]))"
proof (cases "int (length xs) = cap q")
  case True
  then show ?thesis using add_full [OF assms(1), of v p] assms(3) by auto
next
  case False
  with rep_bound [OF assms(1)] have lt: "int (length xs) < cap q" by simp
  then obtain a where "p = Some a"
    using assms add_oom [OF assms(1) lt] by (cases p) auto
  then show ?thesis using add_space [OF assms(1) lt, of a v] assms(2,3) by auto
qed

lemma get_cases:
  assumes "rep q xs" and "get q c = Inr (r, v, q')"
  shows "cap q' = cap q \<and> (r = 0 \<and> xs = [] \<and> rep q' [] \<or> r = 1 \<and> (\<exists>ys. xs = v # ys \<and> rep q' ys))"
proof (cases xs)
  case Nil
  then show ?thesis using get_empty [of q c] assms by auto
next
  case (Cons x ys)
  then show ?thesis using get_cons [of q x ys c] assms by auto
qed

text \<open>First in, first out: what was delivered, followed by what is inside, is what was accepted.\<close>

lemma fifo_order:
  assumes "reach (fifo_step add get ok) ([], [], q0) (acc, got, q)" and "rep q0 []"
  shows "\<exists>xs. rep q xs \<and> acc = got @ xs \<and> cap q = cap q0"
proof -
  let ?I = "\<lambda>(acc, got, q). \<exists>xs. rep q xs \<and> acc = got @ xs \<and> cap q = cap q0"
  have "?I (acc, got, q)"
  proof (rule reach_invariant [OF assms(1)])
    show "?I ([], [], q0)" using assms(2) by simp
  next
    fix u v assume I: "?I u" and st: "fifo_step add get ok u v"
    from st show "?I v"
    proof cases
      case (fifo_add q p v r q' acc got)
      with I obtain xs where "rep q xs" "acc = got @ xs" "cap q = cap q0" by auto
      with fifo_add add_cases [of q xs p v r q'] show ?thesis by auto
    next
      case (fifo_get q c r v q' acc got)
      with I obtain xs where "rep q xs" "acc = got @ xs" "cap q = cap q0" by auto
      with fifo_get get_cases [of q xs c r v q'] show ?thesis by auto
    qed
  qed
  then show ?thesis by simp
qed

text \<open>
  The reader never prints its error line: at every moment the queue holds the consecutive numbers
  from the one that the reader expects up to the one the writer is about to add.
\<close>

lemma rw_invariant:
  assumes "reach (rw_step add get ok) (rw_init q0) s" and "rep q0 []"
  shows "rw_errors s = [] \<and> rw_expected s \<le> rw_i s \<and> rep (rw_queue s) [rw_expected s..rw_i s - 1]"
proof (rule reach_invariant [OF assms(1)])
  show "rw_errors (rw_init q0) = [] \<and> rw_expected (rw_init q0) \<le> rw_i (rw_init q0) \<and>
      rep (rw_queue (rw_init q0)) [rw_expected (rw_init q0)..rw_i (rw_init q0) - 1]"
    using assms(2) by (simp add: rw_init_def)
next
  fix s t
  assume I: "rw_errors s = [] \<and> rw_expected s \<le> rw_i s \<and> rep (rw_queue s) [rw_expected s..rw_i s - 1]"
    and st: "rw_step add get ok s t"
  from st show "rw_errors t = [] \<and> rw_expected t \<le> rw_i t \<and> rep (rw_queue t) [rw_expected t..rw_i t - 1]"
  proof cases
    case (rw_writer p)
    then obtain r q' where a: "add (rw_queue s) (rw_i s) p = Inr (r, q')"
      and t: "t = (if r = 0 then s\<lparr>rw_queue := q'\<rparr> else s\<lparr>rw_queue := q', rw_i := rw_i s + 1\<rparr>)"
      by (auto simp: writer_iter_def ebind_Inr_iff split: if_splits)
    have "[rw_expected s..rw_i s - 1] @ [rw_i s] = [rw_expected s..rw_i s]"
      using I by (simp add: upto_rec2)
    then show ?thesis
      using add_cases [OF _ rw_writer(1) a, of "[rw_expected s..rw_i s - 1]"] I t by auto
  next
    case rw_reader
    then obtain r val q' where g: "get (rw_queue s) (-1) = Inr (r, val, q')"
      and t: "t = (if r = 0 then s\<lparr>rw_queue := q'\<rparr> else s\<lparr>rw_queue := q',
         rw_errors := (if rw_expected s \<noteq> val then rw_errors s @ [(val, rw_expected s)] else rw_errors s),
         rw_expected := val + 1\<rparr>)"
      by (auto simp: reader_iter_def ebind_Inr_iff split: if_splits)
    from I get_cases [OF _ g, of "[rw_expected s..rw_i s - 1]"]
    consider "r = 0" "[rw_expected s..rw_i s - 1] = []" "rep q' []"
      | ys where "r = 1" "[rw_expected s..rw_i s - 1] = val # ys" "rep q' ys" by auto
    then show ?thesis
    proof cases
      case 1
      then show ?thesis using I t by simp
    next
      case 2
      then have "rw_expected s \<le> rw_i s - 1" by (cases "rw_expected s \<le> rw_i s - 1") auto
      with 2 have "val = rw_expected s" "ys = [rw_expected s + 1..rw_i s - 1]"
        by (auto simp: upto_rec1)
      with 2 I t \<open>rw_expected s \<le> rw_i s - 1\<close> show ?thesis by simp
    qed
  qed
qed

text \<open>Neither loop ever faults, as long as \<open>malloc\<close> succeeds.\<close>

lemma rw_no_fault:
  assumes "reach (rw_step add get ok) (rw_init q0) s" and "rep q0 []" and "ok (rw_queue s) (Some a)"
  shows "(\<exists>s'. writer_iter add (Some a) s = Inr s') \<and> (\<exists>s'. reader_iter get s = Inr s')"
proof -
  define xs where "xs = [rw_expected s..rw_i s - 1]"
  have r: "rep (rw_queue s) xs" using rw_invariant [OF assms(1,2)] by (simp add: xs_def)
  have "\<exists>x. add (rw_queue s) (rw_i s) (Some a) = Inr x"
  proof (cases "int (length xs) = cap (rw_queue s)")
    case True
    then show ?thesis using add_full [OF r] by blast
  next
    case False
    then have "int (length xs) < cap (rw_queue s)" using rep_bound [OF r] by simp
    then show ?thesis using add_space [OF r _ assms(3)] by blast
  qed
  moreover have "\<exists>x. get (rw_queue s) (-1) = Inr x"
    using get_empty [of "rw_queue s" "-1"] get_cons [of "rw_queue s" _ _ "-1"] r
    by (cases xs) blast+
  ultimately show ?thesis by (auto simp: writer_iter_def reader_iter_def)
qed

end

end
