(* ===== verification/Queue.thy ===== *)
theory Queue
  imports Bounded_Fifo
begin

text \<open>
  The unsynchronised queue of \<open>lab2/src/1/queue/queue.c\<close>, as it behaves when only one thread uses
  it: \<open>queue_init\<close>, \<open>queue_add\<close>, \<open>queue_get\<close>, \<open>queue_destroy\<close> and \<open>queue_print_stats\<close> over an
  explicit heap of nodes, with the pointers \<open>first\<close> and \<open>last\<close>, the counter and the statistics of
  \<open>queue_t\<close>. The bodies of the lab2/2 queues are the same statements under a lock, so the records
  there extend this one and the operations here are polymorphic in the extension.

  \<open>int\<close> and \<open>long\<close> fields are integers: \<open>count\<close> stays between 0 and \<open>max_count\<close> (which is an
  \<open>int\<close>), and the statistics are 64-bit counters incremented by one.
\<close>

section \<open>State and operations\<close>

record qnode =
  qn_val :: int
  qn_next :: ptr

record queue =
  q_nodes :: "addr \<rightharpoonup> qnode"
  q_first :: ptr
  q_last :: ptr
  q_count :: int
  q_max_count :: int
  q_add_attempts :: int
  q_get_attempts :: int
  q_add_count :: int
  q_get_count :: int

text \<open>
  \<open>queue_init\<close>: \<open>q_ok\<close> says whether \<open>malloc\<close> of the \<open>queue_t\<close> succeeded, \<open>err\<close> is the result of
  creating the monitor thread.
\<close>

definition queue_init :: "bool \<Rightarrow> int \<Rightarrow> int \<Rightarrow> fault + queue" where
  "queue_init q_ok err max_count =
     ebind (check q_ok Aborted) (\<lambda>_.
     let q = \<lparr>q_nodes = Map.empty, q_first = None, q_last = None, q_count = 0, q_max_count = max_count,
              q_add_attempts = 0, q_get_attempts = 0, q_add_count = 0, q_get_count = 0\<rparr>
     in ebind (check (err = 0) Aborted) (\<lambda>_. Inr q))"

text \<open>The three statements that link the new node behind the last one (or make it the only one).\<close>

definition queue_link :: "addr \<Rightarrow> 'a queue_scheme \<Rightarrow> fault + 'a queue_scheme" where
  "queue_link new q =
     (if q_first q = None then Inr (q\<lparr>q_last := Some new, q_first := Some new\<rparr>)
      else ebind (store (q_nodes q) (q_last q) (qn_next_update (\<lambda>_. Some new))) (\<lambda>h.
           ebind (load h (q_last q)) (\<lambda>l.
           Inr (q\<lparr>q_nodes := h, q_last := qn_next l\<rparr>))))"

definition queue_add :: "'a queue_scheme \<Rightarrow> int \<Rightarrow> ptr \<Rightarrow> fault + int \<times> 'a queue_scheme" where
  "queue_add q v new =
     (let q = q\<lparr>q_add_attempts := q_add_attempts q + 1\<rparr> in
      ebind (check (q_count q \<le> q_max_count q) Assert_Failed) (\<lambda>_.
      if q_count q = q_max_count q then Inr (0, q)
      else (case new of None \<Rightarrow> Inl Aborted
        | Some a \<Rightarrow>
          ebind (queue_link a (q\<lparr>q_nodes := (q_nodes q)(a \<mapsto> \<lparr>qn_val = v, qn_next = None\<rparr>)\<rparr>)) (\<lambda>q.
          Inr (1, q\<lparr>q_count := q_count q + 1, q_add_count := q_add_count q + 1\<rparr>)))))"

text \<open>\<open>queue_get q val\<close>: the return value, the contents of \<open>*val\<close> afterwards, and the queue.\<close>

definition queue_get :: "'a queue_scheme \<Rightarrow> int \<Rightarrow> fault + int \<times> int \<times> 'a queue_scheme" where
  "queue_get q val =
     (let q = q\<lparr>q_get_attempts := q_get_attempts q + 1\<rparr> in
      ebind (check (0 \<le> q_count q) Assert_Failed) (\<lambda>_.
      if q_count q = 0 then Inr (0, val, q)
      else let tmp = q_first q in
        ebind (load (q_nodes q) tmp) (\<lambda>t.
        ebind (load (q_nodes q) (q_first q)) (\<lambda>f.
        let q = q\<lparr>q_first := qn_next f\<rparr> in
        ebind (release (q_nodes q) tmp) (\<lambda>h.
        Inr (1, qn_val t, q\<lparr>q_nodes := h, q_count := q_count q - 1, q_get_count := q_get_count q + 1\<rparr>))))))"

text \<open>
  \<open>queue_destroy\<close> of a queue or of \<open>NULL\<close>: the result is the heap of nodes that is left, \<open>None\<close>
  if the loop does not end.
\<close>

definition queue_destroy :: "'a queue_scheme option \<Rightarrow> (fault + (addr \<rightharpoonup> qnode)) option" where
  "queue_destroy qo = (case qo of None \<Rightarrow> Some (Inr Map.empty)
     | Some q \<Rightarrow> free_chain qn_next (q_nodes q) (q_first q))"

text \<open>The seven numbers that \<open>queue_print_stats\<close> prints, in order.\<close>

definition queue_print_stats :: "'a queue_scheme \<Rightarrow> int list" where
  "queue_print_stats q = [q_count q,
     q_add_attempts q, q_get_attempts q, q_add_attempts q - q_get_attempts q,
     q_add_count q, q_get_count q, q_add_count q - q_get_count q]"

section \<open>Well-formedness and contents\<close>

text \<open>
  The queue holds \<open>xs\<close> in the chain \<open>as\<close> of nodes: no node is lost (the heap holds nothing else),
  \<open>last\<close> points to the last node unless the chain is empty, and the counters agree.
\<close>

definition queue_chain :: "'a queue_scheme \<Rightarrow> addr list \<Rightarrow> int list \<Rightarrow> bool" where
  "queue_chain q as xs \<longleftrightarrow>
     path qn_next (q_nodes q) (q_first q) as None \<and> dom (q_nodes q) = set as \<and>
     map (\<lambda>a. qn_val (the (q_nodes q a))) as = xs \<and>
     (as \<noteq> [] \<longrightarrow> q_last q = Some (last as))"

definition queue_rep :: "'a queue_scheme \<Rightarrow> int list \<Rightarrow> bool" where
  "queue_rep q xs \<longleftrightarrow> (\<exists>as. queue_chain q as xs) \<and>
     q_count q = int (length xs) \<and> q_count q \<le> q_max_count q \<and>
     q_add_count q = q_get_count q + q_count q"

definition queue_malloc :: "'a queue_scheme \<Rightarrow> ptr \<Rightarrow> bool" where
  "queue_malloc q p = malloc_ok (q_nodes q) p"

lemma queue_malloc_Some [simp]: "queue_malloc q (Some a) \<longleftrightarrow> q_nodes q a = None"
  by (simp add: queue_malloc_def)

lemma queue_chain_length: "queue_chain q as xs \<Longrightarrow> length as = length xs"
  by (auto simp: queue_chain_def)

lemma queue_chain_distinct: "queue_chain q as xs \<Longrightarrow> distinct as"
  by (auto simp: queue_chain_def dest: path_distinct)

lemma queue_chain_counters [simp]:
  "queue_chain (q\<lparr>q_count := c\<rparr>) as xs = queue_chain q as xs"
  "queue_chain (q\<lparr>q_add_attempts := c\<rparr>) as xs = queue_chain q as xs"
  "queue_chain (q\<lparr>q_get_attempts := c\<rparr>) as xs = queue_chain q as xs"
  "queue_chain (q\<lparr>q_add_count := c\<rparr>) as xs = queue_chain q as xs"
  "queue_chain (q\<lparr>q_get_count := c\<rparr>) as xs = queue_chain q as xs"
  by (simp_all add: queue_chain_def)

text \<open>Linking a new node appends its value, and never faults.\<close>

lemma queue_link_chain:
  assumes "queue_chain q as xs" and "q_nodes q a = None"
  shows "\<exists>h f l. queue_link a (q\<lparr>q_nodes := (q_nodes q)(a \<mapsto> \<lparr>qn_val = v, qn_next = None\<rparr>)\<rparr>) =
        Inr (q\<lparr>q_nodes := h, q_first := f, q_last := l\<rparr>) \<and>
     queue_chain (q\<lparr>q_nodes := h, q_first := f, q_last := l\<rparr>) (as @ [a]) (xs @ [v])"
proof (cases "as = []")
  case True
  with assms have "queue_link a (q\<lparr>q_nodes := (q_nodes q)(a \<mapsto> \<lparr>qn_val = v, qn_next = None\<rparr>)\<rparr>) =
      Inr (q\<lparr>q_nodes := [a \<mapsto> \<lparr>qn_val = v, qn_next = None\<rparr>], q_first := Some a, q_last := Some a\<rparr>)"
    by (simp add: queue_chain_def queue_link_def)
  moreover have "queue_chain (q\<lparr>q_nodes := [a \<mapsto> \<lparr>qn_val = v, qn_next = None\<rparr>], q_first := Some a,
      q_last := Some a\<rparr>) (as @ [a]) (xs @ [v])"
    using assms True by (auto simp: queue_chain_def)
  ultimately show ?thesis by blast
next
  case False
  from assms(2) assms(1) have a: "a \<notin> set as" by (auto simp: queue_chain_def)
  from assms(1) have p: "path qn_next (q_nodes q) (q_first q) as None" by (simp add: queue_chain_def)
  with False obtain n where last: "q_last q = Some (last as)" "q_nodes q (last as) = Some n"
    and first: "q_first q \<noteq> None"
    using path_last [OF p False] assms(1) by (cases "q_first q") (auto simp: queue_chain_def)
  have la: "last as \<noteq> a" using a False last_in_set by metis
  let ?h = "(q_nodes q)(last as \<mapsto> n\<lparr>qn_next := Some a\<rparr>, a \<mapsto> \<lparr>qn_val = v, qn_next = None\<rparr>)"
  have h: "(q_nodes q)(a \<mapsto> \<lparr>qn_val = v, qn_next = None\<rparr>, last as \<mapsto> n\<lparr>qn_next := Some a\<rparr>) = ?h"
    using la by (simp add: fun_upd_twist)
  have "path qn_next ?h (q_first q) (as @ [a]) None"
    using p False a by (rule path_link_last) simp_all
  moreover have "map (\<lambda>b. qn_val (the (?h b))) (as @ [a]) = xs @ [v]"
    using assms(1) a last(2) by (auto simp: queue_chain_def)
  moreover have "dom ?h = set (as @ [a])"
    using assms(1) last(2) by (auto simp: queue_chain_def)
  ultimately have "queue_chain (q\<lparr>q_nodes := ?h, q_first := q_first q, q_last := Some a\<rparr>) (as @ [a]) (xs @ [v])"
    by (simp add: queue_chain_def)
  moreover have "queue_link a (q\<lparr>q_nodes := (q_nodes q)(a \<mapsto> \<lparr>qn_val = v, qn_next = None\<rparr>)\<rparr>) =
      Inr (q\<lparr>q_nodes := ?h, q_first := q_first q, q_last := Some a\<rparr>)"
    using first last la h by (auto simp: queue_link_def)
  ultimately show ?thesis by blast
qed

text \<open>Unlinking the first node removes the oldest value and frees exactly its node.\<close>

lemma queue_unlink_chain:
  assumes "queue_chain q as (x # xs)"
  shows "\<exists>a bs n. as = a # bs \<and> q_first q = Some a \<and> q_nodes q a = Some n \<and> qn_val n = x \<and>
     queue_chain (q\<lparr>q_nodes := (q_nodes q)(a := None), q_first := qn_next n\<rparr>) bs xs"
proof -
  from assms obtain a bs n where as: "as = a # bs" and f: "q_first q = Some a" and n: "q_nodes q a = Some n"
    and p: "path qn_next (q_nodes q) (qn_next n) bs None" and x: "qn_val n = x"
    by (auto simp: queue_chain_def)
  have a: "a \<notin> set bs" using queue_chain_distinct [OF assms] as by simp
  have "path qn_next ((q_nodes q)(a := None)) (qn_next n) bs None"
    by (rule path_upd [THEN iffD2, OF a p])
  moreover have "map (\<lambda>b. qn_val (the (((q_nodes q)(a := None)) b))) bs = xs"
    using assms a as by (auto simp: queue_chain_def)
  moreover have "dom ((q_nodes q)(a := None)) = set bs"
    using assms as a by (auto simp: queue_chain_def)
  ultimately show ?thesis using assms as f n x by (auto simp: queue_chain_def)
qed

section \<open>The operations meet the contract\<close>

lemma queue_init_rep: "queue_init True 0 m = Inr q \<Longrightarrow> 0 \<le> m \<Longrightarrow> queue_rep q []"
  by (auto simp: queue_init_def queue_rep_def queue_chain_def)

lemma queue_init_max: "queue_init True 0 m = Inr q \<Longrightarrow> q_max_count q = m"
  by (auto simp: queue_init_def)

lemma queue_add_full:
  assumes "queue_rep q xs" and "int (length xs) = q_max_count q"
  shows "queue_add q v p = Inr (0, q\<lparr>q_add_attempts := q_add_attempts q + 1\<rparr>)"
  using assms by (auto simp: queue_rep_def queue_add_def)

lemma queue_add_space:
  assumes "queue_rep q xs" and "int (length xs) < q_max_count q" and "q_nodes q a = None"
  shows "\<exists>h f l q'. queue_add q v (Some a) = Inr (1, q') \<and> queue_rep q' (xs @ [v]) \<and>
    q' = q\<lparr>q_nodes := h, q_first := f, q_last := l, q_count := q_count q + 1,
           q_add_attempts := q_add_attempts q + 1, q_add_count := q_add_count q + 1\<rparr>"
proof -
  let ?q = "q\<lparr>q_add_attempts := q_add_attempts q + 1\<rparr>"
  from assms(1) obtain as where ch: "queue_chain ?q as xs" by (auto simp: queue_rep_def)
  from queue_link_chain [OF ch, of a v] assms(3) obtain h f l where l:
    "queue_link a (?q\<lparr>q_nodes := (q_nodes ?q)(a \<mapsto> \<lparr>qn_val = v, qn_next = None\<rparr>)\<rparr>) =
       Inr (?q\<lparr>q_nodes := h, q_first := f, q_last := l\<rparr>)"
    "queue_chain (?q\<lparr>q_nodes := h, q_first := f, q_last := l\<rparr>) (as @ [a]) (xs @ [v])" by auto
  let ?r = "q\<lparr>q_nodes := h, q_first := f, q_last := l, q_count := q_count q + 1,
      q_add_attempts := q_add_attempts q + 1, q_add_count := q_add_count q + 1\<rparr>"
  have "queue_add q v (Some a) = Inr (1, ?r)"
    using assms(1,2) l(1) by (simp add: queue_add_def queue_rep_def Let_def)
  moreover have "queue_chain ?r (as @ [a]) (xs @ [v])"
    using l(2) by (simp add: queue_chain_def)
  then have "queue_rep ?r (xs @ [v])"
    using assms(1,2) by (auto simp: queue_rep_def)
  ultimately show ?thesis by blast
qed

lemma queue_add_oom:
  "queue_rep q xs \<Longrightarrow> int (length xs) < q_max_count q \<Longrightarrow> queue_add q v None = Inl Aborted"
  by (auto simp: queue_rep_def queue_add_def)

lemma queue_get_empty:
  "queue_rep q [] \<Longrightarrow> queue_get q c = Inr (0, c, q\<lparr>q_get_attempts := q_get_attempts q + 1\<rparr>)"
  by (auto simp: queue_rep_def queue_get_def)

lemma queue_get_cons:
  assumes "queue_rep q (x # xs)"
  shows "\<exists>h f q'. queue_get q c = Inr (1, x, q') \<and> queue_rep q' xs \<and>
    q' = q\<lparr>q_nodes := h, q_first := f, q_count := q_count q - 1,
           q_get_attempts := q_get_attempts q + 1, q_get_count := q_get_count q + 1\<rparr>"
proof -
  let ?q = "q\<lparr>q_get_attempts := q_get_attempts q + 1\<rparr>"
  from assms obtain as where "queue_chain ?q as (x # xs)" by (auto simp: queue_rep_def)
  from queue_unlink_chain [OF this] obtain a bs n where a: "q_first q = Some a" "q_nodes q a = Some n"
    "qn_val n = x" "queue_chain (?q\<lparr>q_nodes := (q_nodes q)(a := None), q_first := qn_next n\<rparr>) bs xs"
    by auto
  let ?r = "q\<lparr>q_nodes := (q_nodes q)(a := None), q_first := qn_next n, q_count := q_count q - 1,
      q_get_attempts := q_get_attempts q + 1, q_get_count := q_get_count q + 1\<rparr>"
  have "queue_get q c = Inr (1, x, ?r)"
    using assms a by (simp add: queue_get_def queue_rep_def Let_def)
  moreover have "queue_chain ?r bs xs"
    using a(4) by (simp add: queue_chain_def)
  then have "queue_rep ?r xs"
    using assms by (auto simp: queue_rep_def)
  ultimately show ?thesis by blast
qed

interpretation plain: bounded_fifo queue_add queue_get queue_malloc queue_rep q_max_count
proof unfold_locales
  fix q :: "'a queue_scheme" and xs v p x c and a :: addr
  show "queue_rep q xs \<Longrightarrow> int (length xs) \<le> q_max_count q" by (auto simp: queue_rep_def)
  show "\<exists>q'. queue_add q v p = Inr (0, q') \<and> queue_rep q' xs \<and> q_max_count q' = q_max_count q"
    if "queue_rep q xs" "int (length xs) = q_max_count q"
    using queue_add_full [OF that] that by (auto simp: queue_rep_def)
  show "queue_add q v None = Inl Aborted" if "queue_rep q xs" "int (length xs) < q_max_count q"
    using that by (rule queue_add_oom)
  show "\<exists>q'. queue_add q v (Some a) = Inr (1, q') \<and> queue_rep q' (xs @ [v]) \<and> q_max_count q' = q_max_count q"
    if "queue_rep q xs" "int (length xs) < q_max_count q" "queue_malloc q (Some a)"
    using queue_add_space [OF that(1,2), of a v] that(3) by auto
  show "\<exists>q'. queue_get q c = Inr (0, c, q') \<and> queue_rep q' [] \<and> q_max_count q' = q_max_count q"
    if "queue_rep q []"
    using queue_get_empty [OF that] that by (auto simp: queue_rep_def)
  show "\<exists>q'. queue_get q c = Inr (1, x, q') \<and> queue_rep q' xs \<and> q_max_count q' = q_max_count q"
    if "queue_rep q (x # xs)"
    using queue_get_cons [OF that, of c] by auto
qed

text \<open>The freeing loop of \<open>queue_destroy\<close> on a whole chain.\<close>

lemma queue_chain_freed:
  assumes "queue_chain q as xs"
  shows "free_chain qn_next (q_nodes q) (q_first q) = Some (Inr Map.empty)"
proof -
  from assms have "path qn_next (q_nodes q) (q_first q) as None" and "dom (q_nodes q) = set as"
    by (auto simp: queue_chain_def)
  then have "free_chain qn_next (q_nodes q) (q_first q) = Some (Inr (q_nodes q |` (- dom (q_nodes q))))"
    by (simp add: free_chain_path)
  then show ?thesis by (simp add: restrict_map_def dom_def fun_eq_iff cong: if_cong)
qed

lemma queue_rep_freed: "queue_rep q xs \<Longrightarrow> free_chain qn_next (q_nodes q) (q_first q) = Some (Inr Map.empty)"
  by (auto simp: queue_rep_def queue_chain_freed)

section \<open>Properties\<close>

text \<open>A concrete queue of capacity 2 used by the witnesses.\<close>

definition queue_demo :: queue where
  "queue_demo = \<lparr>q_nodes = Map.empty, q_first = None, q_last = None, q_count = 0, q_max_count = 2,
     q_add_attempts = 0, q_get_attempts = 0, q_add_count = 0, q_get_count = 0\<rparr>"

lemma queue_demo_init: "queue_init True 0 2 = Inr queue_demo"
  by (simp add: queue_init_def queue_demo_def)

lemma queue_demo_rep: "queue_rep queue_demo []"
  using queue_demo_init by (rule queue_init_rep) simp

text \<open>C3: starting from \<open>queue_init(m)\<close>, whatever calls of \<open>queue_add\<close> and \<open>queue_get\<close> follow, the
  queue is first in, first out: the delivered values followed by the contents are the accepted
  values in their order; at most \<open>m\<close> values are inside, no node is lost or shared, and
  \<open>add_count - get_count\<close> is the number of values inside.\<close>

theorem queue_fifo:
  assumes "queue_init True 0 m = Inr q0" and "0 \<le> m"
    and "reach (fifo_step queue_add queue_get queue_malloc) ([], [], q0) (acc, got, q)"
  shows "\<exists>xs. acc = got @ xs \<and> queue_rep q xs \<and> int (length xs) \<le> m \<and>
    q_add_count q - q_get_count q = int (length xs) \<and> card (dom (q_nodes q)) = length xs"
proof -
  have "queue_rep q0 []" using assms(1,2) by (rule queue_init_rep)
  from plain.fifo_order [OF assms(3) this] obtain xs where
    xs: "queue_rep q xs" "acc = got @ xs" "q_max_count q = q_max_count q0" by auto
  from xs(1) obtain as where as: "queue_chain q as xs" by (auto simp: queue_rep_def)
  have "card (dom (q_nodes q)) = length xs"
    using as queue_chain_distinct [OF as] by (auto simp: queue_chain_def distinct_card)
  with xs queue_init_max [OF assms(1)] show ?thesis by (auto simp: queue_rep_def)
qed

theorem queue_fifo_witness:
  "\<exists>q xs. [7] = [7 :: int] @ xs \<and> queue_rep (q :: queue) xs \<and> q_add_count q = 1"
proof -
  obtain q1 where q1: "queue_add queue_demo 7 (Some 10) = Inr (1, q1)" "queue_rep q1 [7]"
    "q_add_count q1 = 1"
    using queue_add_space [OF queue_demo_rep, of 10 7] by (auto simp: queue_demo_def)
  obtain q2 where q2: "queue_get q1 0 = Inr (1, 7, q2)" "q_add_count q2 = 1"
    using queue_get_cons [OF q1(2), of 0] q1(3) by auto
  have "reach (fifo_step queue_add queue_get queue_malloc) ([], [], queue_demo) ([7], [7], q2)"
    using run_of_reach [of "fifo_step queue_add queue_get queue_malloc" "([], [], queue_demo)"
        "[([7], [], q1), ([7], [7], q2)]"]
      fifo_add [of queue_malloc queue_demo "Some 10" queue_add 7 1 q1 queue_get "[]" "[]"]
      fifo_get [of queue_get q1 0 1 7 q2 queue_add queue_malloc "[7]" "[]"] q1(1) q2(1)
    by (simp add: queue_demo_def)
  from queue_fifo [OF queue_demo_init _ this] q2(2) show ?thesis by auto
qed

text \<open>the reader and writer loops of \<open>b.c\<close>, taking turns in any order over one queue, never make
  the reader print its error line, and the queue always holds exactly the numbers from the reader's
  \<open>expected\<close> up to the writer's \<open>i - 1\<close>.\<close>

theorem queue_reader_no_error:
  assumes "queue_init True 0 m = Inr q0" and "0 \<le> m"
    and "reach (rw_step queue_add queue_get queue_malloc) (rw_init q0) s"
  shows "rw_errors s = [] \<and> queue_rep (rw_queue s) [rw_expected s..rw_i s - 1]"
  using plain.rw_invariant [OF assms(3) queue_init_rep [OF assms(1,2)]] by blast

theorem queue_reader_no_error_witness:
  "\<exists>s. reach (rw_step queue_add queue_get queue_malloc) (rw_init queue_demo) s \<and> rw_i s = 1 \<and>
     rw_errors s = [] \<and> queue_rep (rw_queue s) [rw_expected s..0]"
proof -
  obtain q1 where q1: "queue_add queue_demo 0 (Some 10) = Inr (1, q1)"
    using queue_add_space [OF queue_demo_rep, of 10 0] by (auto simp: queue_demo_def)
  let ?s = "(rw_init queue_demo)\<lparr>rw_queue := q1, rw_i := 1\<rparr>"
  have "rw_step queue_add queue_get queue_malloc (rw_init queue_demo) ?s"
    using q1 by (intro rw_writer [of _ _ "Some 10"]) (auto simp: writer_iter_def rw_init_def queue_demo_def)
  then have r: "reach (rw_step queue_add queue_get queue_malloc) (rw_init queue_demo) ?s"
    by (rule reach_step [OF reach_refl])
  from queue_reader_no_error [OF queue_demo_init _ r] r show ?thesis
    by (intro exI [of _ ?s]) simp
qed

text \<open>\<open>queue_add\<close> on a well-formed queue is, on its three branches, exactly the enqueue of a bounded
  list: refused with result 0 when full, \<open>abort\<close> when \<open>malloc\<close> fails, and otherwise result 1 with the
  value appended; it never dereferences a wild pointer and never fails its assertion.\<close>

theorem queue_add_refines:
  assumes "queue_rep q xs" and "queue_malloc q p"
  shows "case queue_add q v p of
      Inl e \<Rightarrow> e = Aborted \<and> p = None \<and> int (length xs) < q_max_count q
    | Inr (r, q') \<Rightarrow> q_max_count q' = q_max_count q \<and>
        (if int (length xs) = q_max_count q then r = 0 \<and> queue_rep q' xs
         else r = 1 \<and> p \<noteq> None \<and> queue_rep q' (xs @ [v]))"
proof (cases "int (length xs) = q_max_count q")
  case True
  then show ?thesis using assms(1) queue_add_full [OF assms(1) True, of v p] by (simp add: queue_rep_def)
next
  case False
  then have lt: "int (length xs) < q_max_count q" using plain.rep_bound [OF assms(1)] by simp
  show ?thesis
  proof (cases p)
    case None
    then show ?thesis using queue_add_oom [OF assms(1) lt, of v] lt by simp
  next
    case (Some a)
    then show ?thesis using queue_add_space [OF assms(1) lt, of a v] assms(2) False by auto
  qed
qed

theorem queue_add_refines_witness:
  "\<exists>q' :: queue. queue_add queue_demo 7 (Some 10) = Inr (1, q') \<and> queue_rep q' [7]"
proof -
  have "queue_malloc queue_demo (Some 10)" by (simp add: queue_demo_def)
  from queue_add_refines [OF queue_demo_rep this, of 7] show ?thesis
    by (auto simp: queue_demo_def split: sum.splits)
qed

text \<open>\<open>queue_destroy\<close> on a well-formed queue terminates without touching a freed node and frees
  every node; on \<open>NULL\<close> it does nothing.\<close>

theorem queue_destroy_frees_all:
  assumes "case qo of None \<Rightarrow> True | Some q \<Rightarrow> \<exists>xs. queue_rep q xs"
  shows "queue_destroy qo = Some (Inr Map.empty)"
  using assms by (auto simp: queue_destroy_def queue_rep_def queue_chain_freed split: option.splits)

theorem queue_destroy_frees_all_witness:
  "queue_destroy (Some queue_demo) = Some (Inr Map.empty)"
  using queue_destroy_frees_all [of "Some queue_demo"] queue_demo_rep by auto

end
