(* ===== verification/Locked_Object.thy ===== *)
theory Locked_Object
  imports Prelude
begin

text \<open>
  An object shared by any number of threads, every operation of which takes one lock first and
  gives it back last: the scheme of \<open>lab2/src/2/queue_mutex\<close> and \<open>lab2/src/2/queue_spinlock\<close>.
  The body of an operation is a program of atomic steps; \<open>lsys_step\<close> interleaves the threads step
  by step. The locale \<open>locked_object\<close> states what a sequential proof of the bodies has to provide
  (an assertion for every control point), and proves once for all that then, under every
  interleaving, the lock gives mutual exclusion, no thread faults, and the completed operations in
  the order of their unlocks are a sequential history of the object.
\<close>

section \<open>The system\<close>

datatype ('op, 'l) tstate = Idle | Trying 'op | Inside 'op 'l

text \<open>
  \<open>ls_hist\<close> is a ghost: the operations completed so far with their results. \<open>ls_fault\<close> is set when
  a step faults; the process is then dead.
\<close>

record ('op, 'l, 'r, 'g) lsys =
  ls_locked :: bool
  ls_obj :: 'g
  ls_thr :: "nat \<Rightarrow> ('op, 'l) tstate"
  ls_hist :: "('op \<times> 'r) list"
  ls_fault :: "fault option"

definition lsys_init :: "'g \<Rightarrow> ('op, 'l, 'r, 'g) lsys" where
  "lsys_init g = \<lparr>ls_locked = False, ls_obj = g, ls_thr = (\<lambda>_. Idle), ls_hist = [], ls_fault = None\<rparr>"

text \<open>
  \<open>try_lock\<close> is the atomic attempt to take the lock: the new value of the lock word and whether the
  attempt succeeded. A thread whose attempt fails stays where it is and tries again.
\<close>

inductive lsys_step ::
  "(bool \<Rightarrow> bool \<times> bool) \<Rightarrow> (bool \<Rightarrow> bool) \<Rightarrow> ('op \<Rightarrow> 'l) \<Rightarrow> ('l \<Rightarrow> 'r option) \<Rightarrow>
   (ptr \<Rightarrow> 'l \<Rightarrow> 'g \<Rightarrow> fault + 'l \<times> 'g) \<Rightarrow> ('g \<Rightarrow> ptr \<Rightarrow> bool) \<Rightarrow>
   ('op, 'l, 'r, 'g) lsys \<Rightarrow> ('op, 'l, 'r, 'g) lsys \<Rightarrow> bool"
  for try_lock un_lock start finish step ok
where
  ls_call: "ls_fault s = None \<Longrightarrow> ls_thr s t = Idle \<Longrightarrow>
     lsys_step try_lock un_lock start finish step ok s (s\<lparr>ls_thr := (ls_thr s)(t := Trying op)\<rparr>)"
| ls_try: "ls_fault s = None \<Longrightarrow> ls_thr s t = Trying op \<Longrightarrow> try_lock (ls_locked s) = (lk, won) \<Longrightarrow>
     lsys_step try_lock un_lock start finish step ok s
       (s\<lparr>ls_locked := lk, ls_thr := (ls_thr s)(t := if won then Inside op (start op) else Trying op)\<rparr>)"
| ls_body: "ls_fault s = None \<Longrightarrow> ls_thr s t = Inside op l \<Longrightarrow> finish l = None \<Longrightarrow> ok (ls_obj s) p \<Longrightarrow>
     step p l (ls_obj s) = Inr (l', g') \<Longrightarrow>
     lsys_step try_lock un_lock start finish step ok s
       (s\<lparr>ls_obj := g', ls_thr := (ls_thr s)(t := Inside op l')\<rparr>)"
| ls_crash: "ls_fault s = None \<Longrightarrow> ls_thr s t = Inside op l \<Longrightarrow> finish l = None \<Longrightarrow> ok (ls_obj s) p \<Longrightarrow>
     step p l (ls_obj s) = Inl e \<Longrightarrow>
     lsys_step try_lock un_lock start finish step ok s (s\<lparr>ls_fault := Some e\<rparr>)"
| ls_unlock: "ls_fault s = None \<Longrightarrow> ls_thr s t = Inside op l \<Longrightarrow> finish l = Some r \<Longrightarrow>
     lsys_step try_lock un_lock start finish step ok s
       (s\<lparr>ls_locked := un_lock (ls_locked s), ls_thr := (ls_thr s)(t := Idle), ls_hist := ls_hist s @ [(op, r)]\<rparr>)"

inductive_cases lsys_stepE: "lsys_step try_lock un_lock start finish step ok s s'"

text \<open>
  A scheduler's choices, as data: which thread moves, and the result of \<open>malloc\<close> for a step of a
  body. \<open>lsys_run\<close> executes a list of choices (\<open>None\<close> when one of them is not possible), so that
  concrete interleavings can be evaluated.
\<close>

datatype 'op choice = Call nat 'op | Attempt nat | Body nat ptr | Unlock nat

definition lsys_do ::
  "(bool \<Rightarrow> bool \<times> bool) \<Rightarrow> (bool \<Rightarrow> bool) \<Rightarrow> ('op \<Rightarrow> 'l) \<Rightarrow> ('l \<Rightarrow> 'r option) \<Rightarrow>
   (ptr \<Rightarrow> 'l \<Rightarrow> 'g \<Rightarrow> fault + 'l \<times> 'g) \<Rightarrow> ('g \<Rightarrow> ptr \<Rightarrow> bool) \<Rightarrow>
   'op choice \<Rightarrow> ('op, 'l, 'r, 'g) lsys \<Rightarrow> ('op, 'l, 'r, 'g) lsys option"
where
  "lsys_do try_lock un_lock start finish step ok e s = (if ls_fault s \<noteq> None then None else case e of
     Call t op \<Rightarrow> (case ls_thr s t of Idle \<Rightarrow> Some (s\<lparr>ls_thr := (ls_thr s)(t := Trying op)\<rparr>) | _ \<Rightarrow> None)
   | Attempt t \<Rightarrow> (case ls_thr s t of
       Trying op \<Rightarrow> (case try_lock (ls_locked s) of (lk, won) \<Rightarrow>
         Some (s\<lparr>ls_locked := lk, ls_thr := (ls_thr s)(t := if won then Inside op (start op) else Trying op)\<rparr>))
     | _ \<Rightarrow> None)
   | Body t p \<Rightarrow> (case ls_thr s t of
       Inside op l \<Rightarrow> (if finish l = None \<and> ok (ls_obj s) p then (case step p l (ls_obj s) of
           Inl e \<Rightarrow> Some (s\<lparr>ls_fault := Some e\<rparr>)
         | Inr (l', g') \<Rightarrow> Some (s\<lparr>ls_obj := g', ls_thr := (ls_thr s)(t := Inside op l')\<rparr>)) else None)
     | _ \<Rightarrow> None)
   | Unlock t \<Rightarrow> (case ls_thr s t of
       Inside op l \<Rightarrow> (case finish l of None \<Rightarrow> None | Some r \<Rightarrow>
         Some (s\<lparr>ls_locked := un_lock (ls_locked s), ls_thr := (ls_thr s)(t := Idle), ls_hist := ls_hist s @ [(op, r)]\<rparr>))
     | _ \<Rightarrow> None))"

fun lsys_run ::
  "(bool \<Rightarrow> bool \<times> bool) \<Rightarrow> (bool \<Rightarrow> bool) \<Rightarrow> ('op \<Rightarrow> 'l) \<Rightarrow> ('l \<Rightarrow> 'r option) \<Rightarrow>
   (ptr \<Rightarrow> 'l \<Rightarrow> 'g \<Rightarrow> fault + 'l \<times> 'g) \<Rightarrow> ('g \<Rightarrow> ptr \<Rightarrow> bool) \<Rightarrow>
   'op choice list \<Rightarrow> ('op, 'l, 'r, 'g) lsys \<Rightarrow> ('op, 'l, 'r, 'g) lsys option"
where
  "lsys_run try_lock un_lock start finish step ok [] s = Some s"
| "lsys_run try_lock un_lock start finish step ok (e # es) s =
     Option.bind (lsys_do try_lock un_lock start finish step ok e s) (lsys_run try_lock un_lock start finish step ok es)"

lemma lsys_do_step:
  assumes "lsys_do try_lock un_lock start finish step ok e s = Some s'"
  shows "lsys_step try_lock un_lock start finish step ok s s'"
proof (cases e)
  case (Call t op)
  with assms show ?thesis
    by (auto simp: lsys_do_def intro: ls_call split: if_splits tstate.splits)
next
  case (Attempt t)
  with assms obtain op lk won where a: "ls_fault s = None" "ls_thr s t = Trying op"
      "try_lock (ls_locked s) = (lk, won)"
      "s' = s\<lparr>ls_locked := lk, ls_thr := (ls_thr s)(t := if won then Inside op (start op) else Trying op)\<rparr>"
    by (auto simp: lsys_do_def simp del: if_split split: if_splits tstate.splits prod.splits)
  show ?thesis unfolding a(4) using a(1-3) by (rule ls_try)
next
  case (Body t p)
  with assms show ?thesis
    by (auto simp: lsys_do_def intro: ls_body ls_crash split: if_splits tstate.splits sum.splits prod.splits)
next
  case (Unlock t)
  with assms show ?thesis
    by (auto simp: lsys_do_def intro: ls_unlock split: if_splits tstate.splits option.splits)
qed

lemma lsys_run_reach:
  "lsys_run try_lock un_lock start finish step ok es s = Some s' \<Longrightarrow>
   reach (lsys_step try_lock un_lock start finish step ok) s s'"
proof (induction es arbitrary: s)
  case Nil
  then show ?case by (simp add: reach_refl)
next
  case (Cons e es)
  then obtain t where "lsys_do try_lock un_lock start finish step ok e s = Some t"
    "lsys_run try_lock un_lock start finish step ok es t = Some s'" by (auto split: Option.bind_splits)
  with Cons.IH lsys_do_step show ?case
    by (blast intro: reach_trans reach_step [OF reach_refl])
qed

text \<open>Replaying a history on the abstract object: \<open>None\<close> when some result is not the specified one.\<close>

fun replay :: "('a \<Rightarrow> 'op \<Rightarrow> 'r \<times> 'a) \<Rightarrow> 'a \<Rightarrow> ('op \<times> 'r) list \<Rightarrow> 'a option" where
  "replay spec a [] = Some a"
| "replay spec a ((op, r) # h) = (case spec a op of (r', a') \<Rightarrow> if r' = r then replay spec a' h else None)"

lemma replay_append: "replay spec a (h @ h') = Option.bind (replay spec a h) (\<lambda>b. replay spec b h')"
  by (induction h arbitrary: a) (auto split: prod.splits)

section \<open>The contract and its consequences\<close>

locale locked_object =
  fixes try_lock :: "bool \<Rightarrow> bool \<times> bool" and un_lock :: "bool \<Rightarrow> bool"
    and start :: "'op \<Rightarrow> 'l" and finish :: "'l \<Rightarrow> 'r option"
    and step :: "ptr \<Rightarrow> 'l \<Rightarrow> 'g \<Rightarrow> fault + 'l \<times> 'g" and ok :: "'g \<Rightarrow> ptr \<Rightarrow> bool"
    and rep :: "'g \<Rightarrow> 'a \<Rightarrow> bool" and spec :: "'a \<Rightarrow> 'op \<Rightarrow> 'r \<times> 'a"
    and inside :: "'op \<Rightarrow> 'l \<Rightarrow> 'g \<Rightarrow> 'a \<Rightarrow> bool"
  assumes try_free: "try_lock False = (True, True)"
    and try_held: "try_lock True = (True, False)"
    and un_lock_held: "un_lock True = False"
    and inside_start: "rep g a \<Longrightarrow> inside op (start op) g a"
    and inside_step: "inside op l g a \<Longrightarrow> finish l = None \<Longrightarrow> ok g p \<Longrightarrow>
      case step p l g of Inl e \<Rightarrow> e = Aborted \<and> p = None | Inr (l', g') \<Rightarrow> inside op l' g' a"
    and inside_finish: "inside op l g a \<Longrightarrow> finish l = Some r \<Longrightarrow> \<exists>a'. spec a op = (r, a') \<and> rep g a'"
begin

abbreviation "stp \<equiv> lsys_step try_lock un_lock start finish step ok"

definition lsys_inv :: "'a \<Rightarrow> ('op, 'l, 'r, 'g) lsys \<Rightarrow> bool" where
  "lsys_inv a0 s \<longleftrightarrow>
     (\<exists>a. replay spec a0 (ls_hist s) = Some a \<and>
       (if ls_locked s
        then \<exists>t op l. ls_thr s t = Inside op l \<and> inside op l (ls_obj s) a \<and>
               (\<forall>u op' l'. u \<noteq> t \<longrightarrow> ls_thr s u \<noteq> Inside op' l')
        else rep (ls_obj s) a \<and> (\<forall>u op' l'. ls_thr s u \<noteq> Inside op' l'))) \<and>
     (ls_fault s = None \<or> ls_fault s = Some Aborted)"

lemma lsys_inv_init: "rep g a \<Longrightarrow> lsys_inv a (lsys_init g)"
  by (simp add: lsys_inv_def lsys_init_def)

lemma lsys_inv_held:
  assumes "replay spec a0 (ls_hist s) = Some a" and "ls_locked s" and "ls_thr s t = Inside op l"
    and "inside op l (ls_obj s) a" and "\<And>v op l. v \<noteq> t \<Longrightarrow> ls_thr s v \<noteq> Inside op l"
    and "ls_fault s = None \<or> ls_fault s = Some Aborted"
  shows "lsys_inv a0 s"
  unfolding lsys_inv_def using assms by (intro conjI exI [of _ a]) (simp_all, blast)

lemma lsys_inv_free:
  assumes "replay spec a0 (ls_hist s) = Some a" and "\<not> ls_locked s" and "rep (ls_obj s) a"
    and "\<And>v op l. ls_thr s v \<noteq> Inside op l" and "ls_fault s = None \<or> ls_fault s = Some Aborted"
  shows "lsys_inv a0 s"
  unfolding lsys_inv_def using assms by (intro conjI exI [of _ a]) simp_all

lemma lsys_inv_heldE:
  assumes "lsys_inv a0 s" and "ls_locked s"
  obtains a t op l where "replay spec a0 (ls_hist s) = Some a" "ls_thr s t = Inside op l"
    "inside op l (ls_obj s) a" "\<And>v op l. v \<noteq> t \<Longrightarrow> ls_thr s v \<noteq> Inside op l"
  using assms unfolding lsys_inv_def by (simp, blast)

lemma lsys_inv_freeE:
  assumes "lsys_inv a0 s" and "\<not> ls_locked s"
  obtains a where "replay spec a0 (ls_hist s) = Some a" "rep (ls_obj s) a"
    "\<And>v op l. ls_thr s v \<noteq> Inside op l"
  using assms unfolding lsys_inv_def by auto

lemma lsys_inv_holder:
  assumes I: "lsys_inv a0 s" and t: "ls_thr s t = Inside op l"
  obtains a where "replay spec a0 (ls_hist s) = Some a" "ls_locked s" "inside op l (ls_obj s) a"
    "\<And>v op l. v \<noteq> t \<Longrightarrow> ls_thr s v \<noteq> Inside op l"
proof (cases "ls_locked s")
  case True
  with I obtain a u op' l' where a: "replay spec a0 (ls_hist s) = Some a"
    "ls_thr s u = Inside op' l'" "inside op' l' (ls_obj s) a"
    and uniq: "\<And>v op l. v \<noteq> u \<Longrightarrow> ls_thr s v \<noteq> Inside op l" by (rule lsys_inv_heldE) blast
  have "t = u" using t uniq by blast
  with a t have "inside op l (ls_obj s) a" by simp
  from that [OF a(1) True this] uniq \<open>t = u\<close> show thesis by blast
next
  case False
  from I False t show thesis by (auto elim: lsys_inv_freeE)
qed

lemma lsys_inv_fault: "lsys_inv a0 s \<Longrightarrow> ls_fault s = None \<or> ls_fault s = Some Aborted"
  by (simp add: lsys_inv_def)

lemma lsys_inv_step:
  assumes I: "lsys_inv a0 s" and st: "stp s s'"
  shows "lsys_inv a0 s'"
  using st
proof cases
  case (ls_call t op)
  show ?thesis
  proof (cases "ls_locked s")
    case True
    with I obtain a u op' l where a: "replay spec a0 (ls_hist s) = Some a" "ls_thr s u = Inside op' l"
      "inside op' l (ls_obj s) a" and uniq: "\<And>v op l. v \<noteq> u \<Longrightarrow> ls_thr s v \<noteq> Inside op l"
      by (rule lsys_inv_heldE) blast
    from a(2) ls_call(3) have "u \<noteq> t" by auto
    with a uniq ls_call(1) True lsys_inv_fault [OF I] show ?thesis
      by (intro lsys_inv_held [of a0 s' a u op' l]) simp_all
  next
    case False
    with I obtain a where "replay spec a0 (ls_hist s) = Some a" "rep (ls_obj s) a"
      "\<And>v op l. ls_thr s v \<noteq> Inside op l" by (rule lsys_inv_freeE) blast
    with ls_call False show ?thesis by (intro lsys_inv_free [of a0 s' a]) auto
  qed
next
  case (ls_try t op lk won)
  show ?thesis
  proof (cases "ls_locked s")
    case True
    with ls_try try_held have "lk" "\<not> won" by auto
    with ls_try True have "s' = s" by (auto simp: fun_upd_idem)
    with I show ?thesis by simp
  next
    case False
    with ls_try try_free have w: "lk" "won" by auto
    from I False obtain a where "replay spec a0 (ls_hist s) = Some a" "rep (ls_obj s) a"
      "\<And>v op l. ls_thr s v \<noteq> Inside op l" by (rule lsys_inv_freeE) blast
    with ls_try w inside_start [of "ls_obj s" a op] show ?thesis
      by (intro lsys_inv_held [of a0 s' a t op "start op"]) (auto split: if_splits)
  qed
next
  case (ls_body t op l p l' g')
  from I ls_body(3) obtain a where a: "replay spec a0 (ls_hist s) = Some a" "ls_locked s"
    "inside op l (ls_obj s) a" and u: "\<And>v op l. v \<noteq> t \<Longrightarrow> ls_thr s v \<noteq> Inside op l"
    by (rule lsys_inv_holder) blast
  have "inside op l' g' a" using inside_step [OF a(3) ls_body(4,5)] ls_body(6) by simp
  with a u ls_body show ?thesis
    by (intro lsys_inv_held [of a0 s' a t op l']) (auto split: if_splits)
next
  case (ls_crash t op l p e)
  from I ls_crash(3) obtain a where a: "replay spec a0 (ls_hist s) = Some a" "ls_locked s"
    "inside op l (ls_obj s) a" and u: "\<And>v op l. v \<noteq> t \<Longrightarrow> ls_thr s v \<noteq> Inside op l"
    by (rule lsys_inv_holder) blast
  have "e = Aborted" using inside_step [OF a(3) ls_crash(4,5)] ls_crash(6) by simp
  with a u ls_crash show ?thesis by (intro lsys_inv_held [of a0 s' a t op l]) auto
next
  case (ls_unlock t op l r)
  from I ls_unlock(3) obtain a where a: "replay spec a0 (ls_hist s) = Some a" "ls_locked s"
    "inside op l (ls_obj s) a" and u: "\<And>v op l. v \<noteq> t \<Longrightarrow> ls_thr s v \<noteq> Inside op l"
    by (rule lsys_inv_holder) blast
  from inside_finish [OF a(3) ls_unlock(4)] obtain a' where "spec a op = (r, a')" "rep (ls_obj s) a'" by auto
  with a u ls_unlock un_lock_held show ?thesis
    by (intro lsys_inv_free [of a0 s' a']) (auto simp: replay_append split: if_splits)
qed

lemma lsys_inv_reach: "reach stp (lsys_init g) s \<Longrightarrow> rep g a0 \<Longrightarrow> lsys_inv a0 s"
  by (erule reach_invariant) (auto intro: lsys_inv_init lsys_inv_step)

lemma mutual_exclusion:
  assumes "reach stp (lsys_init g) s" and "rep g a0"
    and "ls_thr s t = Inside op l" and "ls_thr s u = Inside op' l'"
  shows "t = u"
  using lsys_inv_reach [OF assms(1,2)] assms(3,4) by (metis lsys_inv_holder)

lemma linearizable:
  assumes "reach stp (lsys_init g) s" and "rep g a0"
  shows "\<exists>a. replay spec a0 (ls_hist s) = Some a \<and> (\<not> ls_locked s \<longrightarrow> rep (ls_obj s) a)"
  using lsys_inv_reach [OF assms] unfolding lsys_inv_def by (auto split: if_splits)

lemma fault_free:
  assumes "reach stp (lsys_init g) s" and "rep g a0"
  shows "ls_fault s = None \<or> ls_fault s = Some Aborted"
  using lsys_inv_reach [OF assms] by (rule lsys_inv_fault)

text \<open>
  No deadlock: a taken lock has an owner whose next step is enabled (whatever block a succeeding
  \<open>malloc\<close> returns), and an attempt on a free lock succeeds.
\<close>

lemma owner_enabled:
  assumes "reach stp (lsys_init g) s" and "rep g a0"
  shows "if ls_locked s
    then \<exists>t op l. ls_thr s t = Inside op l \<and>
      (finish l \<noteq> None \<or> (\<forall>a. ok (ls_obj s) (Some a) \<longrightarrow> (\<exists>x. step (Some a) l (ls_obj s) = Inr x)))
    else snd (try_lock (ls_locked s))"
proof (cases "ls_locked s")
  case True
  from lsys_inv_reach [OF assms] True obtain a t op l where t: "ls_thr s t = Inside op l"
    and i: "inside op l (ls_obj s) a" by (rule lsys_inv_heldE) blast
  have "\<exists>x. step (Some b) l (ls_obj s) = Inr x" if "finish l = None" "ok (ls_obj s) (Some b)" for b
    using inside_step [OF i that] by (cases "step (Some b) l (ls_obj s)") auto
  then have "finish l \<noteq> None \<or> (\<forall>b. ok (ls_obj s) (Some b) \<longrightarrow> (\<exists>x. step (Some b) l (ls_obj s) = Inr x))"
    by blast
  with t True show ?thesis by (simp only: if_True) blast
next
  case False
  then show ?thesis by (simp add: try_free)
qed

end

end
