(* ===== verification/Queue_Steps.thy ===== *)
theory Queue_Steps
  imports Queue Locked_Object
begin

text \<open>
  The bodies of \<open>queue_add\<close> and \<open>queue_get\<close> cut into atomic steps, one per statement or controlling
  expression of the source, with \<open>count++\<close> and \<open>count--\<close> split into their load and store. The same
  steps serve the unsynchronised queue of \<open>lab2/src/1\<close> (theory \<open>Queue_Race\<close>) and the locked queues
  of \<open>lab2/src/2\<close> (theory \<open>Queue_Locked\<close>). Run without interruption they compute exactly
  \<open>queue_add\<close> and \<open>queue_get\<close> of theory \<open>Queue\<close>; for the locked queues every control point has an
  assertion, which the steps preserve.
\<close>

section \<open>Thread-local state and steps\<close>

datatype qop = Op_Add int | Op_Get int

datatype qpc =
    Add_Attempts | Add_Assert | Add_Full | Add_Malloc | Add_Empty | Add_Set_Last | Add_Set_First
  | Add_Link_Next | Add_Move_Last | Add_Load_Count | Add_Store_Count | Add_Stat
  | Get_Attempts | Get_Assert | Get_Empty | Get_Tmp | Get_Val | Get_Move | Get_Free
  | Get_Load_Count | Get_Store_Count | Get_Stat | Return

text \<open>
  Locals of a call: the argument \<open>val\<close> (for \<open>queue_get\<close> the cell it points to), the pointers \<open>new\<close>
  and \<open>tmp\<close>, the register that holds \<open>count\<close> and the return value.
\<close>

record qlocal =
  l_pc :: qpc
  l_val :: int
  l_new :: ptr
  l_tmp :: ptr
  l_reg :: int
  l_ret :: int

definition qstart :: "qop \<Rightarrow> qlocal" where
  "qstart op = (case op of
     Op_Add v \<Rightarrow> \<lparr>l_pc = Add_Attempts, l_val = v, l_new = None, l_tmp = None, l_reg = 0, l_ret = 0\<rparr>
   | Op_Get c \<Rightarrow> \<lparr>l_pc = Get_Attempts, l_val = c, l_new = None, l_tmp = None, l_reg = 0, l_ret = 0\<rparr>)"

definition qfinish :: "qlocal \<Rightarrow> (int \<times> int) option" where
  "qfinish l = (if l_pc l = Return then Some (l_ret l, l_val l) else None)"

definition qstep :: "ptr \<Rightarrow> qlocal \<Rightarrow> 'a queue_scheme \<Rightarrow> fault + qlocal \<times> 'a queue_scheme" where
  "qstep m l q = (case l_pc l of
     Add_Attempts \<Rightarrow> Inr (l\<lparr>l_pc := Add_Assert\<rparr>, q\<lparr>q_add_attempts := q_add_attempts q + 1\<rparr>)
   | Add_Assert \<Rightarrow> ebind (check (q_count q \<le> q_max_count q) Assert_Failed) (\<lambda>_. Inr (l\<lparr>l_pc := Add_Full\<rparr>, q))
   | Add_Full \<Rightarrow> Inr (if q_count q = q_max_count q then l\<lparr>l_pc := Return, l_ret := 0\<rparr> else l\<lparr>l_pc := Add_Malloc\<rparr>, q)
   | Add_Malloc \<Rightarrow> (case m of None \<Rightarrow> Inl Aborted
       | Some a \<Rightarrow> Inr (l\<lparr>l_pc := Add_Empty, l_new := Some a\<rparr>,
           q\<lparr>q_nodes := (q_nodes q)(a \<mapsto> \<lparr>qn_val = l_val l, qn_next = None\<rparr>)\<rparr>))
   | Add_Empty \<Rightarrow> Inr (l\<lparr>l_pc := if q_first q = None then Add_Set_Last else Add_Link_Next\<rparr>, q)
   | Add_Set_Last \<Rightarrow> Inr (l\<lparr>l_pc := Add_Set_First\<rparr>, q\<lparr>q_last := l_new l\<rparr>)
   | Add_Set_First \<Rightarrow> Inr (l\<lparr>l_pc := Add_Load_Count\<rparr>, q\<lparr>q_first := l_new l\<rparr>)
   | Add_Link_Next \<Rightarrow> ebind (store (q_nodes q) (q_last q) (qn_next_update (\<lambda>_. l_new l)))
       (\<lambda>h. Inr (l\<lparr>l_pc := Add_Move_Last\<rparr>, q\<lparr>q_nodes := h\<rparr>))
   | Add_Move_Last \<Rightarrow> ebind (load (q_nodes q) (q_last q))
       (\<lambda>n. Inr (l\<lparr>l_pc := Add_Load_Count\<rparr>, q\<lparr>q_last := qn_next n\<rparr>))
   | Add_Load_Count \<Rightarrow> Inr (l\<lparr>l_pc := Add_Store_Count, l_reg := q_count q\<rparr>, q)
   | Add_Store_Count \<Rightarrow> Inr (l\<lparr>l_pc := Add_Stat\<rparr>, q\<lparr>q_count := l_reg l + 1\<rparr>)
   | Add_Stat \<Rightarrow> Inr (l\<lparr>l_pc := Return, l_ret := 1\<rparr>, q\<lparr>q_add_count := q_add_count q + 1\<rparr>)
   | Get_Attempts \<Rightarrow> Inr (l\<lparr>l_pc := Get_Assert\<rparr>, q\<lparr>q_get_attempts := q_get_attempts q + 1\<rparr>)
   | Get_Assert \<Rightarrow> ebind (check (0 \<le> q_count q) Assert_Failed) (\<lambda>_. Inr (l\<lparr>l_pc := Get_Empty\<rparr>, q))
   | Get_Empty \<Rightarrow> Inr (if q_count q = 0 then l\<lparr>l_pc := Return, l_ret := 0\<rparr> else l\<lparr>l_pc := Get_Tmp\<rparr>, q)
   | Get_Tmp \<Rightarrow> Inr (l\<lparr>l_pc := Get_Val, l_tmp := q_first q\<rparr>, q)
   | Get_Val \<Rightarrow> ebind (load (q_nodes q) (l_tmp l)) (\<lambda>n. Inr (l\<lparr>l_pc := Get_Move, l_val := qn_val n\<rparr>, q))
   | Get_Move \<Rightarrow> ebind (load (q_nodes q) (q_first q)) (\<lambda>n. Inr (l\<lparr>l_pc := Get_Free\<rparr>, q\<lparr>q_first := qn_next n\<rparr>))
   | Get_Free \<Rightarrow> ebind (release (q_nodes q) (l_tmp l)) (\<lambda>h. Inr (l\<lparr>l_pc := Get_Load_Count\<rparr>, q\<lparr>q_nodes := h\<rparr>))
   | Get_Load_Count \<Rightarrow> Inr (l\<lparr>l_pc := Get_Store_Count, l_reg := q_count q\<rparr>, q)
   | Get_Store_Count \<Rightarrow> Inr (l\<lparr>l_pc := Get_Stat\<rparr>, q\<lparr>q_count := l_reg l - 1\<rparr>)
   | Get_Stat \<Rightarrow> Inr (l\<lparr>l_pc := Return, l_ret := 1\<rparr>, q\<lparr>q_get_count := q_get_count q + 1\<rparr>)
   | Return \<Rightarrow> Inr (l, q))"

section \<open>Running alone\<close>

text \<open>
  A call that nobody interrupts: at most \<open>n\<close> steps, every \<open>malloc\<close> answered by \<open>m\<close>. Eleven steps
  are enough for either operation.
\<close>

fun qalone :: "nat \<Rightarrow> ptr \<Rightarrow> qlocal \<Rightarrow> 'a queue_scheme \<Rightarrow> (fault + (int \<times> int) \<times> 'a queue_scheme) option" where
  "qalone 0 m l q = (case qfinish l of None \<Rightarrow> None | Some r \<Rightarrow> Some (Inr (r, q)))"
| "qalone (Suc n) m l q = (case qfinish l of Some r \<Rightarrow> Some (Inr (r, q))
     | None \<Rightarrow> (case qstep m l q of Inl e \<Rightarrow> Some (Inl e) | Inr (l', q') \<Rightarrow> qalone n m l' q'))"

lemma qalone_add:
  "qalone 11 m (qstart (Op_Add v)) q =
     Some (ebind (queue_add q v m) (\<lambda>(r, q'). Inr ((r, v), q')))"
  by (cases "q_first q"; cases m)
    (simp_all add: numeral_eq_Suc qstart_def qfinish_def qstep_def queue_add_def queue_link_def Let_def
      check_def load_def store_def split: option.splits)

lemma qalone_get:
  "qalone 11 m (qstart (Op_Get c)) q =
     Some (ebind (queue_get q c) (\<lambda>(r, v, q'). Inr ((r, v), q')))"
  by (simp add: numeral_eq_Suc qstart_def qfinish_def qstep_def queue_get_def Let_def
      check_def load_def release_def split: option.splits sum.splits)


section \<open>Assertions at the control points\<close>

text \<open>The chain of \<open>queue_chain\<close> without its claim about \<open>last\<close>.\<close>

definition queue_body :: "'a queue_scheme \<Rightarrow> addr list \<Rightarrow> int list \<Rightarrow> bool" where
  "queue_body q as xs \<longleftrightarrow> path qn_next (q_nodes q) (q_first q) as None \<and> dom (q_nodes q) = set as \<and>
     map (\<lambda>a. qn_val (the (q_nodes q a))) as = xs"

lemma queue_chain_body: "queue_chain q as xs \<longleftrightarrow> queue_body q as xs \<and> (as \<noteq> [] \<longrightarrow> q_last q = Some (last as))"
  by (auto simp: queue_chain_def queue_body_def)

lemma queue_body_cong:
  "q_nodes q' = q_nodes q \<Longrightarrow> q_first q' = q_first q \<Longrightarrow> queue_body q' as xs = queue_body q as xs"
  by (simp add: queue_body_def)

lemma queue_body_first: "queue_body q as xs \<Longrightarrow> q_first q = None \<longleftrightarrow> as = []"
  by (cases as) (auto simp: queue_body_def)

text \<open>A node that is allocated but not linked yet: the chain of the rest, and the node beside it.\<close>

definition queue_pending :: "'a queue_scheme \<Rightarrow> addr list \<Rightarrow> int list \<Rightarrow> addr \<Rightarrow> int \<Rightarrow> bool" where
  "queue_pending q as xs a v \<longleftrightarrow> a \<notin> set as \<and> q_nodes q a = Some \<lparr>qn_val = v, qn_next = None\<rparr> \<and>
     path qn_next (q_nodes q) (q_first q) as None \<and> dom (q_nodes q) = insert a (set as) \<and>
     map (\<lambda>b. qn_val (the (q_nodes q b))) as = xs"

lemma queue_pending_new:
  assumes "queue_body q as xs" and "q_nodes q a = None"
  shows "queue_pending (q\<lparr>q_nodes := (q_nodes q)(a \<mapsto> \<lparr>qn_val = v, qn_next = None\<rparr>)\<rparr>) as xs a v"
proof -
  have "a \<notin> set as" using assms by (auto simp: queue_body_def)
  then show ?thesis using assms by (auto simp: queue_pending_def queue_body_def)
qed

lemma queue_pending_cong:
  "q_nodes q' = q_nodes q \<Longrightarrow> q_first q' = q_first q \<Longrightarrow> queue_pending q' as xs a v = queue_pending q as xs a v"
  by (simp add: queue_pending_def)

lemma queue_pending_first: "queue_pending q as xs a v \<Longrightarrow> q_first q = None \<longleftrightarrow> as = []"
  by (cases as) (auto simp: queue_pending_def)

lemma queue_pending_only: "queue_pending q [] xs a v \<Longrightarrow> queue_body (q\<lparr>q_first := Some a\<rparr>) [a] (xs @ [v])"
  by (auto simp: queue_pending_def queue_body_def)

lemma queue_pending_link:
  assumes "queue_pending q as xs a v" and "as \<noteq> []"
  shows "\<exists>n. q_nodes q (last as) = Some n \<and>
    queue_body (q\<lparr>q_nodes := (q_nodes q)(last as \<mapsto> n\<lparr>qn_next := Some a\<rparr>)\<rparr>) (as @ [a]) (xs @ [v])"
proof -
  from assms(1) have p: "path qn_next (q_nodes q) (q_first q) as None" and a: "a \<notin> set as"
    and na: "q_nodes q a = Some \<lparr>qn_val = v, qn_next = None\<rparr>" by (auto simp: queue_pending_def)
  obtain n where n: "q_nodes q (last as) = Some n" using path_last [OF p assms(2)] by auto
  have la: "last as \<noteq> a" using a assms(2) last_in_set by metis
  let ?h = "(q_nodes q)(last as \<mapsto> n\<lparr>qn_next := Some a\<rparr>)"
  have "?h(a \<mapsto> \<lparr>qn_val = v, qn_next = None\<rparr>) = ?h" using na la by (simp add: fun_upd_idem)
  moreover have "path qn_next (?h(a \<mapsto> \<lparr>qn_val = v, qn_next = None\<rparr>)) (q_first q) (as @ [a]) None"
    using p assms(2) a by (rule path_link_last) simp_all
  moreover have "map (\<lambda>b. qn_val (the (?h b))) (as @ [a]) = xs @ [v]"
    using assms(1) la n by (auto simp: queue_pending_def)
  moreover have "dom ?h = set (as @ [a])" using assms(1) n by (auto simp: queue_pending_def)
  ultimately show ?thesis using n by (auto simp: queue_body_def)
qed

text \<open>
  What holds when the thread that runs \<open>op\<close> is at its control point, the queue having held \<open>xs\<close> with
  capacity \<open>c\<close> when it took the lock.
\<close>

definition queue_counts :: "'a queue_scheme \<Rightarrow> int \<Rightarrow> int \<Rightarrow> int \<Rightarrow> bool" where
  "queue_counts q c n k \<longleftrightarrow> q_max_count q = c \<and> q_count q = n \<and> q_add_count q = q_get_count q + k"

fun inside_at :: "qop \<Rightarrow> qpc \<Rightarrow> qlocal \<Rightarrow> 'a queue_scheme \<Rightarrow> addr list \<Rightarrow> int list \<Rightarrow> int \<Rightarrow> int \<Rightarrow> bool" where
  "inside_at (Op_Add v) Add_Attempts l q as xs n c \<longleftrightarrow> queue_chain q as xs \<and> queue_counts q c n n"
| "inside_at (Op_Add v) Add_Assert l q as xs n c \<longleftrightarrow> queue_chain q as xs \<and> queue_counts q c n n"
| "inside_at (Op_Add v) Add_Full l q as xs n c \<longleftrightarrow> queue_chain q as xs \<and> queue_counts q c n n"
| "inside_at (Op_Add v) Add_Malloc l q as xs n c \<longleftrightarrow> n < c \<and> queue_chain q as xs \<and> queue_counts q c n n"
| "inside_at (Op_Add v) Add_Empty l q as xs n c \<longleftrightarrow> n < c \<and> (\<exists>a. l_new l = Some a \<and> queue_pending q as xs a v) \<and>
     (as \<noteq> [] \<longrightarrow> q_last q = Some (last as)) \<and> queue_counts q c n n"
| "inside_at (Op_Add v) Add_Set_Last l q as xs n c \<longleftrightarrow> n < c \<and> (\<exists>a. l_new l = Some a \<and> queue_pending q as xs a v) \<and>
     as = [] \<and> queue_counts q c n n"
| "inside_at (Op_Add v) Add_Set_First l q as xs n c \<longleftrightarrow> n < c \<and> (\<exists>a. l_new l = Some a \<and> queue_pending q as xs a v) \<and>
     as = [] \<and> q_last q = l_new l \<and> queue_counts q c n n"
| "inside_at (Op_Add v) Add_Link_Next l q as xs n c \<longleftrightarrow> n < c \<and> (\<exists>a. l_new l = Some a \<and> queue_pending q as xs a v) \<and>
     as \<noteq> [] \<and> q_last q = Some (last as) \<and> queue_counts q c n n"
| "inside_at (Op_Add v) Add_Move_Last l q as xs n c \<longleftrightarrow> n < c \<and> (\<exists>a. queue_body q (as @ [a]) (xs @ [v])) \<and>
     as \<noteq> [] \<and> q_last q = Some (last as) \<and> queue_counts q c n n"
| "inside_at (Op_Add v) Add_Load_Count l q as xs n c \<longleftrightarrow> n < c \<and> queue_chain q as (xs @ [v]) \<and> queue_counts q c n n"
| "inside_at (Op_Add v) Add_Store_Count l q as xs n c \<longleftrightarrow> n < c \<and> queue_chain q as (xs @ [v]) \<and> l_reg l = n \<and>
     queue_counts q c n n"
| "inside_at (Op_Add v) Add_Stat l q as xs n c \<longleftrightarrow> n < c \<and> queue_chain q as (xs @ [v]) \<and> queue_counts q c (n + 1) n"
| "inside_at (Op_Add v) Return l q as xs n c \<longleftrightarrow>
     (if n = c then l_ret l = 0 \<and> queue_chain q as xs \<and> queue_counts q c n n
      else l_ret l = 1 \<and> queue_chain q as (xs @ [v]) \<and> queue_counts q c (n + 1) (n + 1))"
| "inside_at (Op_Get v) Get_Attempts l q as xs n c \<longleftrightarrow> l_val l = v \<and> queue_chain q as xs \<and> queue_counts q c n n"
| "inside_at (Op_Get v) Get_Assert l q as xs n c \<longleftrightarrow> l_val l = v \<and> queue_chain q as xs \<and> queue_counts q c n n"
| "inside_at (Op_Get v) Get_Empty l q as xs n c \<longleftrightarrow> l_val l = v \<and> queue_chain q as xs \<and> queue_counts q c n n"
| "inside_at (Op_Get v) Get_Tmp l q as xs n c \<longleftrightarrow> xs \<noteq> [] \<and> queue_chain q as xs \<and> queue_counts q c n n"
| "inside_at (Op_Get v) Get_Val l q as xs n c \<longleftrightarrow> xs \<noteq> [] \<and> queue_chain q as xs \<and> l_tmp l = q_first q \<and>
     queue_counts q c n n"
| "inside_at (Op_Get v) Get_Move l q as xs n c \<longleftrightarrow> xs \<noteq> [] \<and> queue_chain q as xs \<and> l_tmp l = q_first q \<and>
     l_val l = hd xs \<and> queue_counts q c n n"
| "inside_at (Op_Get v) Get_Free l q as xs n c \<longleftrightarrow> xs \<noteq> [] \<and> l_val l = hd xs \<and>
     (\<exists>a. l_tmp l = Some a \<and> a \<in> dom (q_nodes q) \<and> queue_chain (q\<lparr>q_nodes := (q_nodes q)(a := None)\<rparr>) as (tl xs)) \<and>
     queue_counts q c n n"
| "inside_at (Op_Get v) Get_Load_Count l q as xs n c \<longleftrightarrow> xs \<noteq> [] \<and> l_val l = hd xs \<and> queue_chain q as (tl xs) \<and>
     queue_counts q c n n"
| "inside_at (Op_Get v) Get_Store_Count l q as xs n c \<longleftrightarrow> xs \<noteq> [] \<and> l_val l = hd xs \<and> queue_chain q as (tl xs) \<and>
     l_reg l = n \<and> queue_counts q c n n"
| "inside_at (Op_Get v) Get_Stat l q as xs n c \<longleftrightarrow> xs \<noteq> [] \<and> l_val l = hd xs \<and> queue_chain q as (tl xs) \<and>
     queue_counts q c (n - 1) n"
| "inside_at (Op_Get v) Return l q as xs n c \<longleftrightarrow>
     (case xs of [] \<Rightarrow> l_ret l = 0 \<and> l_val l = v \<and> queue_chain q as xs \<and> queue_counts q c n n
      | x # ys \<Rightarrow> l_ret l = 1 \<and> l_val l = x \<and> queue_chain q as ys \<and> queue_counts q c (n - 1) (n - 1))"
| "inside_at op pc l q as xs n c \<longleftrightarrow> False"

definition queue_inside :: "qop \<Rightarrow> qlocal \<Rightarrow> 'a queue_scheme \<Rightarrow> int list \<times> int \<Rightarrow> bool" where
  "queue_inside op l q a \<longleftrightarrow> int (length (fst a)) \<le> snd a \<and>
     (case op of Op_Add v \<Rightarrow> l_val l = v | Op_Get v \<Rightarrow> True) \<and>
     (\<exists>as. inside_at op (l_pc l) l q as (fst a) (int (length (fst a))) (snd a))"

lemma queue_chain_first: "queue_chain q as xs \<Longrightarrow> q_first q = None \<longleftrightarrow> as = []"
  by (auto simp: queue_chain_body queue_body_first)

lemma queue_body_last:
  "queue_body q (as @ [a]) xs \<Longrightarrow> queue_chain (q\<lparr>q_last := Some a\<rparr>) (as @ [a]) xs"
  by (simp add: queue_chain_body queue_body_def)

lemma add_step_malloc:
  assumes "queue_chain q as xs" and "q_nodes q a = None"
  shows "queue_pending (q\<lparr>q_nodes := (q_nodes q)(a \<mapsto> \<lparr>qn_val = v, qn_next = None\<rparr>)\<rparr>) as xs a v"
  using assms by (intro queue_pending_new) (simp_all add: queue_chain_body)

lemma add_step_link:
  assumes "queue_pending q as xs a v" and "as \<noteq> []" and "q_last q = Some (last as)"
  shows "\<exists>h. store (q_nodes q) (q_last q) (qn_next_update (\<lambda>_. Some a)) = Inr h \<and>
     queue_body (q\<lparr>q_nodes := h\<rparr>) (as @ [a]) (xs @ [v])"
  using queue_pending_link [OF assms(1,2)] assms(3) by auto

lemma add_step_move:
  assumes "queue_body q (as @ [a]) xs" and "as \<noteq> []" and "q_last q = Some (last as)"
  shows "\<exists>n. load (q_nodes q) (q_last q) = Inr n \<and> queue_chain (q\<lparr>q_last := qn_next n\<rparr>) (as @ [a]) xs"
proof -
  from assms(2) obtain bs b where as: "as = bs @ [b]" by (cases as rule: rev_cases) auto
  with assms(1) obtain n where "q_nodes q b = Some n" "qn_next n = Some a"
    by (auto simp: queue_body_def path_append)
  with as assms(3) queue_body_last [OF assms(1)] show ?thesis by auto
qed

lemma add_step:
  assumes I: "inside_at (Op_Add v) (l_pc l) l q as xs n c" and v: "l_val l = v"
    and n: "n = int (length xs)" "n \<le> c" and f: "qfinish l = None" and m: "queue_malloc q p"
  shows "case qstep p l q of Inl e \<Rightarrow> e = Aborted \<and> p = None
    | Inr (l', q') \<Rightarrow> l_val l' = v \<and> (\<exists>as. inside_at (Op_Add v) (l_pc l') l' q' as xs n c)"
proof (cases "l_pc l")
  case Add_Malloc
  with I v m show ?thesis
    by (cases p) (auto simp: qstep_def queue_counts_def intro!: exI [of _ as] add_step_malloc
        dest: queue_chain_body [THEN iffD1])
next
  case Add_Empty
  with I v obtain a where "queue_pending q as xs a v" by auto
  then have "q_first q = None \<longleftrightarrow> as = []" by (rule queue_pending_first)
  with Add_Empty I v show ?thesis
    by (cases "as = []") (auto simp: qstep_def queue_counts_def intro!: exI [of _ as])
next
  case Add_Set_First
  with I v obtain a where "l_new l = Some a" "queue_pending q [] xs a v" "as = []" "q_last q = Some a" by auto
  with queue_pending_only [of q xs a v] have "queue_chain (q\<lparr>q_first := l_new l\<rparr>) [a] (xs @ [v])"
    by (simp add: queue_chain_body)
  with Add_Set_First I v show ?thesis by (auto simp: qstep_def queue_counts_def)
next
  case Add_Link_Next
  with I v obtain a where a: "l_new l = Some a" and "queue_pending q as xs a v" "as \<noteq> []"
    "q_last q = Some (last as)" by auto
  from add_step_link [OF this(2-4)] obtain h where
    "store (q_nodes q) (q_last q) (qn_next_update (\<lambda>_. Some a)) = Inr h"
    "queue_body (q\<lparr>q_nodes := h\<rparr>) (as @ [a]) (xs @ [v])" by auto
  with Add_Link_Next I v a show ?thesis
    by (auto simp: qstep_def queue_counts_def intro!: exI [of _ as])
next
  case Add_Move_Last
  with I v obtain a where "queue_body q (as @ [a]) (xs @ [v])" "as \<noteq> []" "q_last q = Some (last as)" by auto
  from add_step_move [OF this] obtain b where "load (q_nodes q) (q_last q) = Inr b"
    "queue_chain (q\<lparr>q_last := qn_next b\<rparr>) (as @ [a]) (xs @ [v])" by auto
  with Add_Move_Last I v show ?thesis
    by (auto simp: qstep_def queue_counts_def intro!: exI [of _ "as @ [a]"])
next
  case Add_Set_Last
  with I v show ?thesis
    by (auto simp: qstep_def queue_counts_def queue_pending_cong [of "q\<lparr>q_last := x\<rparr>" q for x])
qed (use I v n f in \<open>auto simp: qstep_def qfinish_def queue_counts_def\<close>)

lemma get_step_free:
  assumes "queue_chain q as xs" and "xs \<noteq> []"
  shows "\<exists>a n bs. q_first q = Some a \<and> q_nodes q a = Some n \<and> qn_val n = hd xs \<and>
    queue_chain (q\<lparr>q_first := qn_next n, q_nodes := (q_nodes q)(a := None)\<rparr>) bs (tl xs)"
proof -
  from assms(2) obtain x ys where "xs = x # ys" by (cases xs) auto
  with assms(1) have "queue_chain q as (x # ys)" by simp
  from queue_unlink_chain [OF this] obtain a bs n where "q_first q = Some a" "q_nodes q a = Some n"
    "qn_val n = x" "queue_chain (q\<lparr>q_nodes := (q_nodes q)(a := None), q_first := qn_next n\<rparr>) bs ys" by auto
  moreover from this(4) have "queue_chain (q\<lparr>q_first := qn_next n, q_nodes := (q_nodes q)(a := None)\<rparr>) bs ys"
    by (simp add: queue_chain_def)
  ultimately show ?thesis using \<open>xs = x # ys\<close> by auto
qed

lemma get_step:
  assumes I: "inside_at (Op_Get v) (l_pc l) l q as xs n c"
    and n: "n = int (length xs)" "n \<le> c" and f: "qfinish l = None" and m: "queue_malloc q p"
  shows "case qstep p l q of Inl e \<Rightarrow> e = Aborted \<and> p = None
    | Inr (l', q') \<Rightarrow> \<exists>as. inside_at (Op_Get v) (l_pc l') l' q' as xs n c"
proof (cases "l_pc l")
  case Get_Val
  with I get_step_free [of q as xs] show ?thesis by (auto simp: qstep_def queue_counts_def)
next
  case Get_Move
  with I have "queue_chain q as xs" "xs \<noteq> []" by simp_all
  from get_step_free [OF this] obtain a b bs where "q_first q = Some a" "q_nodes q a = Some b"
    "queue_chain (q\<lparr>q_first := qn_next b, q_nodes := (q_nodes q)(a := None)\<rparr>) bs (tl xs)" by auto
  with Get_Move I show ?thesis by (auto simp: qstep_def queue_counts_def intro!: exI [of _ bs])
next
  case Get_Empty
  with I n show ?thesis
    by (auto simp: qstep_def queue_counts_def intro!: exI [of _ as] split: list.splits)
next
  case Get_Stat
  with I show ?thesis
    by (auto simp: qstep_def queue_counts_def intro!: exI [of _ as] split: list.splits)
qed (use I n f in \<open>auto simp: qstep_def qfinish_def queue_counts_def\<close>)

text \<open>The two bodies against the specification of a bounded first-in-first-out list.\<close>

definition fifo_spec :: "int list \<times> int \<Rightarrow> qop \<Rightarrow> (int \<times> int) \<times> (int list \<times> int)" where
  "fifo_spec a op = (let (xs, c) = a in case op of
     Op_Add v \<Rightarrow> if int (length xs) = c then ((0, v), (xs, c)) else ((1, v), (xs @ [v], c))
   | Op_Get v \<Rightarrow> (case xs of [] \<Rightarrow> ((0, v), (xs, c)) | x # ys \<Rightarrow> ((1, x), (ys, c))))"

definition queue_holds :: "'a queue_scheme \<Rightarrow> int list \<times> int \<Rightarrow> bool" where
  "queue_holds q a \<longleftrightarrow> queue_rep q (fst a) \<and> q_max_count q = snd a"

lemma queue_inside_start: "queue_holds q a \<Longrightarrow> queue_inside op (qstart op) q a"
  by (cases op) (auto simp: queue_holds_def queue_inside_def queue_rep_def qstart_def queue_counts_def)

lemma queue_inside_step:
  assumes "queue_inside op l q a" and "qfinish l = None" and "queue_malloc q p"
  shows "case qstep p l q of Inl e \<Rightarrow> e = Aborted \<and> p = None | Inr (l', q') \<Rightarrow> queue_inside op l' q' a"
proof -
  obtain xs c where a: "a = (xs, c)" by (cases a)
  from assms(1) a obtain as where i: "inside_at op (l_pc l) l q as xs (int (length xs)) c"
    and b: "int (length xs) \<le> c" and v: "case op of Op_Add v \<Rightarrow> l_val l = v | Op_Get v \<Rightarrow> True"
    by (auto simp: queue_inside_def)
  show ?thesis
  proof (cases op)
    case (Op_Add v)
    with add_step [OF _ _ refl b assms(2,3)] i v a b show ?thesis
      by (fastforce simp: queue_inside_def split: sum.splits)
  next
    case (Op_Get v)
    with get_step [OF _ refl b assms(2,3)] i a b show ?thesis
      by (fastforce simp: queue_inside_def split: sum.splits)
  qed
qed

lemma queue_inside_finish:
  assumes "queue_inside op l q a" and "qfinish l = Some r"
  shows "\<exists>a'. fifo_spec a op = (r, a') \<and> queue_holds q a'"
proof -
  obtain xs c where a: "a = (xs, c)" by (cases a)
  from assms(2) have r: "l_pc l = Return" "r = (l_ret l, l_val l)" by (auto simp: qfinish_def split: if_splits)
  with assms(1) a show ?thesis
    by (cases op; cases xs)
      (auto simp: queue_inside_def fifo_spec_def queue_holds_def queue_rep_def queue_counts_def split: if_splits)
qed

end
