(* ===== verification/Queue_Locked.thy ===== *)
theory Queue_Locked
  imports Queue_Steps
begin

text \<open>
  The queues of \<open>lab2/src/2/queue_mutex/queue.c\<close> (a \<open>pthread_mutex_t\<close> around each body) and
  \<open>lab2/src/2/queue_spinlock/queue.c\<close> (a test-and-set spinlock around each body). The bodies
  between lock and unlock are the statements of \<open>lab2/src/1/queue/queue.c\<close>, so the records extend
  \<open>queue\<close> and the sequential operations are lock, body, unlock (both early returns unlock too). The
  concurrent systems interleave the steps of the bodies under the lock; the properties are the
  facts of the locale \<open>locked_object\<close> for the two locks.
\<close>

section \<open>The two locks\<close>

text \<open>
  \<open>pthread_mutex_lock\<close> takes the mutex if it is free and otherwise keeps the thread waiting: one
  attempt leaves a held mutex held.
\<close>

definition mutex_try :: "bool \<Rightarrow> bool \<times> bool" where
  "mutex_try lk = (if lk then (lk, False) else (True, True))"

definition mutex_release :: "bool \<Rightarrow> bool" where
  "mutex_release lk = False"

text \<open>\<open>my_spinlock_t\<close>: \<open>__atomic_test_and_set\<close> returns the old value and leaves the flag set.\<close>

record spinlock =
  spin_flag :: bool

definition test_and_set :: "bool \<Rightarrow> bool \<times> bool" where
  "test_and_set flag = (flag, True)"

definition spinlock_init :: "bool \<Rightarrow> fault + spinlock" where
  "spinlock_init malloc_succeeds = ebind (check malloc_succeeds Aborted) (\<lambda>_. Inr \<lparr>spin_flag = False\<rparr>)"

partial_function (option) spinlock_lock :: "spinlock \<Rightarrow> spinlock option" where
  "spinlock_lock s = (let (old, flag) = test_and_set (spin_flag s); s = s\<lparr>spin_flag := flag\<rparr>
     in if old then spinlock_lock s else Some s)"

definition spinlock_unlock :: "spinlock \<Rightarrow> spinlock" where
  "spinlock_unlock s = s\<lparr>spin_flag := False\<rparr>"

text \<open>One round of the loop of \<open>spinlock_lock\<close>, as the interleaved system sees it.\<close>

definition spinlock_try :: "bool \<Rightarrow> bool \<times> bool" where
  "spinlock_try flag = (let (old, flag') = test_and_set flag in (flag', \<not> old))"

definition spinlock_clear :: "bool \<Rightarrow> bool" where
  "spinlock_clear flag = spin_flag (spinlock_unlock \<lparr>spin_flag = flag\<rparr>)"

lemma spinlock_lock_free: "\<not> spin_flag s \<Longrightarrow> spinlock_lock s = Some (s\<lparr>spin_flag := True\<rparr>)"
  by (simp add: spinlock_lock.simps test_and_set_def)

text \<open>Alone on a held lock, the loop never ends.\<close>

lemma spinlock_lock_held:
  assumes "spin_flag s"
  shows "spinlock_lock s = None"
proof (rule ccontr)
  assume "spinlock_lock s \<noteq> None"
  then obtain r where "spinlock_lock s = Some r" by blast
  then have "\<not> spin_flag s"
  proof (rule spinlock_lock.raw_induct [where P = "\<lambda>s r. \<not> spin_flag s", rotated])
    fix f :: "spinlock \<Rightarrow> spinlock option" and s r
    assume "\<And>s r. f s = Some r \<Longrightarrow> \<not> spin_flag s"
      and "(let (old, flag) = test_and_set (spin_flag s); s = s\<lparr>spin_flag := flag\<rparr>
        in if old then f s else Some s) = Some r"
    then show "\<not> spin_flag s" by (fastforce simp: test_and_set_def split: if_splits)
  qed
  with assms show False by simp
qed

section \<open>The mutex queue\<close>

record mutex_queue = queue +
  mq_mutex :: bool

definition mutex_queue_init :: "bool \<Rightarrow> int \<Rightarrow> int \<Rightarrow> fault + mutex_queue" where
  "mutex_queue_init q_ok err max_count =
     ebind (check q_ok Aborted) (\<lambda>_.
     let q = \<lparr>q_nodes = Map.empty, q_first = None, q_last = None, q_count = 0, q_max_count = max_count,
              q_add_attempts = 0, q_get_attempts = 0, q_add_count = 0, q_get_count = 0, mq_mutex = False\<rparr>
     in ebind (check (err = 0) Aborted) (\<lambda>_. Inr q))"

definition mutex_queue_lock :: "mutex_queue \<Rightarrow> fault + mutex_queue" where
  "mutex_queue_lock q = (case mutex_try (mq_mutex q) of (lk, won) \<Rightarrow>
     ebind (check won Self_Deadlock) (\<lambda>_. Inr (q\<lparr>mq_mutex := lk\<rparr>)))"

definition mutex_queue_unlock :: "mutex_queue \<Rightarrow> mutex_queue" where
  "mutex_queue_unlock q = q\<lparr>mq_mutex := mutex_release (mq_mutex q)\<rparr>"

definition mutex_queue_add :: "mutex_queue \<Rightarrow> int \<Rightarrow> ptr \<Rightarrow> fault + int \<times> mutex_queue" where
  "mutex_queue_add q v new = ebind (mutex_queue_lock q) (\<lambda>q.
     ebind (queue_add q v new) (\<lambda>(r, q). Inr (r, mutex_queue_unlock q)))"

definition mutex_queue_get :: "mutex_queue \<Rightarrow> int \<Rightarrow> fault + int \<times> int \<times> mutex_queue" where
  "mutex_queue_get q val = ebind (mutex_queue_lock q) (\<lambda>q.
     ebind (queue_get q val) (\<lambda>(r, v, q). Inr (r, v, mutex_queue_unlock q)))"

text \<open>\<open>queue_destroy\<close> takes the mutex and does not give it back: the queue is freed with it.\<close>

definition mutex_queue_destroy :: "mutex_queue option \<Rightarrow> (fault + (addr \<rightharpoonup> qnode)) option" where
  "mutex_queue_destroy qo = (case qo of None \<Rightarrow> Some (Inr Map.empty)
     | Some q \<Rightarrow> (case mutex_queue_lock q of Inl e \<Rightarrow> Some (Inl e)
         | Inr q \<Rightarrow> free_chain qn_next (q_nodes q) (q_first q)))"

section \<open>The spinlock queue\<close>

record spin_queue = queue +
  sq_lock :: spinlock

definition spin_queue_init :: "bool \<Rightarrow> bool \<Rightarrow> int \<Rightarrow> int \<Rightarrow> fault + spin_queue" where
  "spin_queue_init q_ok lock_ok err max_count =
     ebind (check q_ok Aborted) (\<lambda>_.
     ebind (spinlock_init lock_ok) (\<lambda>lk.
     let q = \<lparr>q_nodes = Map.empty, q_first = None, q_last = None, q_count = 0, q_max_count = max_count,
              q_add_attempts = 0, q_get_attempts = 0, q_add_count = 0, q_get_count = 0, sq_lock = lk\<rparr>
     in ebind (check (err = 0) Aborted) (\<lambda>_. Inr q)))"

text \<open>A call of \<open>spinlock_lock\<close> that spins forever is reported as \<open>Self_Deadlock\<close>.\<close>

definition spin_queue_lock :: "spin_queue \<Rightarrow> fault + spin_queue" where
  "spin_queue_lock q = (case spinlock_lock (sq_lock q) of None \<Rightarrow> Inl Self_Deadlock
     | Some lk \<Rightarrow> Inr (q\<lparr>sq_lock := lk\<rparr>))"

definition spin_queue_unlock :: "spin_queue \<Rightarrow> spin_queue" where
  "spin_queue_unlock q = q\<lparr>sq_lock := spinlock_unlock (sq_lock q)\<rparr>"

definition spin_queue_add :: "spin_queue \<Rightarrow> int \<Rightarrow> ptr \<Rightarrow> fault + int \<times> spin_queue" where
  "spin_queue_add q v new = ebind (spin_queue_lock q) (\<lambda>q.
     ebind (queue_add q v new) (\<lambda>(r, q). Inr (r, spin_queue_unlock q)))"

definition spin_queue_get :: "spin_queue \<Rightarrow> int \<Rightarrow> fault + int \<times> int \<times> spin_queue" where
  "spin_queue_get q val = ebind (spin_queue_lock q) (\<lambda>q.
     ebind (queue_get q val) (\<lambda>(r, v, q). Inr (r, v, spin_queue_unlock q)))"

definition spin_queue_destroy :: "spin_queue option \<Rightarrow> (fault + (addr \<rightharpoonup> qnode)) option" where
  "spin_queue_destroy qo = (case qo of None \<Rightarrow> Some (Inr Map.empty)
     | Some q \<Rightarrow> (case spin_queue_lock q of Inl e \<Rightarrow> Some (Inl e)
         | Inr q \<Rightarrow> free_chain qn_next (q_nodes q) (q_first q)))"

section \<open>Both are bounded queues when used by one thread\<close>

lemma queue_rep_more [simp]:
  "queue_rep (q\<lparr>mq_mutex := b\<rparr>) xs = queue_rep q xs"
  "queue_rep (q'\<lparr>sq_lock := k\<rparr>) xs = queue_rep q' xs"
  "queue_rep (q''\<lparr>q_add_attempts := n\<rparr>) xs = queue_rep q'' xs"
  "queue_rep (q''\<lparr>q_get_attempts := n\<rparr>) xs = queue_rep q'' xs"
  by (simp_all add: queue_rep_def queue_chain_def)

lemma mutex_queue_lock_free: "\<not> mq_mutex q \<Longrightarrow> mutex_queue_lock q = Inr (q\<lparr>mq_mutex := True\<rparr>)"
  by (simp add: mutex_queue_lock_def mutex_try_def)

lemma spin_queue_lock_free:
  "\<not> spin_flag (sq_lock q) \<Longrightarrow> spin_queue_lock q = Inr (q\<lparr>sq_lock := (sq_lock q)\<lparr>spin_flag := True\<rparr>\<rparr>)"
  by (simp add: spin_queue_lock_def spinlock_lock_free)

definition mutex_queue_rep :: "mutex_queue \<Rightarrow> int list \<Rightarrow> bool" where
  "mutex_queue_rep q xs \<longleftrightarrow> queue_rep q xs \<and> \<not> mq_mutex q"

definition spin_queue_rep :: "spin_queue \<Rightarrow> int list \<Rightarrow> bool" where
  "spin_queue_rep q xs \<longleftrightarrow> queue_rep q xs \<and> \<not> spin_flag (sq_lock q)"

interpretation mutex_fifo:
  bounded_fifo mutex_queue_add mutex_queue_get queue_malloc mutex_queue_rep q_max_count
proof unfold_locales
  fix q :: mutex_queue and xs v p x c and a :: addr
  let ?q = "q\<lparr>mq_mutex := True\<rparr>"
  show "mutex_queue_rep q xs \<Longrightarrow> int (length xs) \<le> q_max_count q"
    by (auto simp: mutex_queue_rep_def queue_rep_def)
  show "\<exists>q'. mutex_queue_add q v p = Inr (0, q') \<and> mutex_queue_rep q' xs \<and> q_max_count q' = q_max_count q"
    if "mutex_queue_rep q xs" "int (length xs) = q_max_count q"
    using queue_add_full [of ?q xs v p] that
    by (auto simp: mutex_queue_rep_def mutex_queue_add_def mutex_queue_lock_free mutex_queue_unlock_def
        mutex_release_def)
  show "mutex_queue_add q v None = Inl Aborted" if "mutex_queue_rep q xs" "int (length xs) < q_max_count q"
    using queue_add_oom [of ?q xs v] that
    by (simp add: mutex_queue_rep_def mutex_queue_add_def mutex_queue_lock_free)
  show "\<exists>q'. mutex_queue_add q v (Some a) = Inr (1, q') \<and> mutex_queue_rep q' (xs @ [v]) \<and>
      q_max_count q' = q_max_count q"
    if "mutex_queue_rep q xs" "int (length xs) < q_max_count q" "queue_malloc q (Some a)"
  proof -
    from queue_add_space [of ?q xs a v] that obtain q' where
      q': "queue_add ?q v (Some a) = Inr (1, q')" "queue_rep q' (xs @ [v])" "q_max_count q' = q_max_count q"
      by (auto simp: mutex_queue_rep_def)
    from q'(2) have "queue_rep (mutex_queue_unlock q') (xs @ [v])"
      by (simp only: mutex_queue_unlock_def queue_rep_more)
    with q' that(1) show ?thesis
      by (simp add: mutex_queue_rep_def mutex_queue_add_def mutex_queue_lock_free mutex_queue_unlock_def mutex_release_def)
  qed
  show "\<exists>q'. mutex_queue_get q c = Inr (0, c, q') \<and> mutex_queue_rep q' [] \<and> q_max_count q' = q_max_count q"
    if "mutex_queue_rep q []"
    using queue_get_empty [of ?q c] that
    by (auto simp: mutex_queue_rep_def mutex_queue_get_def mutex_queue_lock_free mutex_queue_unlock_def
        mutex_release_def)
  show "\<exists>q'. mutex_queue_get q c = Inr (1, x, q') \<and> mutex_queue_rep q' xs \<and> q_max_count q' = q_max_count q"
    if "mutex_queue_rep q (x # xs)"
  proof -
    from queue_get_cons [of ?q x xs c] that obtain q' where
      q': "queue_get ?q c = Inr (1, x, q')" "queue_rep q' xs" "q_max_count q' = q_max_count q"
      by (auto simp: mutex_queue_rep_def)
    from q'(2) have "queue_rep (mutex_queue_unlock q') xs"
      by (simp only: mutex_queue_unlock_def queue_rep_more)
    with q' that(1) show ?thesis
      by (simp add: mutex_queue_rep_def mutex_queue_get_def mutex_queue_lock_free mutex_queue_unlock_def mutex_release_def)
  qed
qed

interpretation spin_fifo:
  bounded_fifo spin_queue_add spin_queue_get queue_malloc spin_queue_rep q_max_count
proof unfold_locales
  fix q :: spin_queue and xs v p x c and a :: addr
  let ?q = "q\<lparr>sq_lock := (sq_lock q)\<lparr>spin_flag := True\<rparr>\<rparr>"
  show "spin_queue_rep q xs \<Longrightarrow> int (length xs) \<le> q_max_count q"
    by (auto simp: spin_queue_rep_def queue_rep_def)
  show "\<exists>q'. spin_queue_add q v p = Inr (0, q') \<and> spin_queue_rep q' xs \<and> q_max_count q' = q_max_count q"
    if "spin_queue_rep q xs" "int (length xs) = q_max_count q"
    using queue_add_full [of ?q xs v p] that
    by (auto simp: spin_queue_rep_def spin_queue_add_def spin_queue_lock_free spin_queue_unlock_def
        spinlock_unlock_def)
  show "spin_queue_add q v None = Inl Aborted" if "spin_queue_rep q xs" "int (length xs) < q_max_count q"
    using queue_add_oom [of ?q xs v] that
    by (simp add: spin_queue_rep_def spin_queue_add_def spin_queue_lock_free)
  show "\<exists>q'. spin_queue_add q v (Some a) = Inr (1, q') \<and> spin_queue_rep q' (xs @ [v]) \<and>
      q_max_count q' = q_max_count q"
    if "spin_queue_rep q xs" "int (length xs) < q_max_count q" "queue_malloc q (Some a)"
  proof -
    from queue_add_space [of ?q xs a v] that obtain q' where
      q': "queue_add ?q v (Some a) = Inr (1, q')" "queue_rep q' (xs @ [v])" "q_max_count q' = q_max_count q"
      by (auto simp: spin_queue_rep_def)
    from q'(2) have "queue_rep (spin_queue_unlock q') (xs @ [v])"
      by (simp only: spin_queue_unlock_def queue_rep_more)
    with q' that(1) show ?thesis
      by (simp add: spin_queue_rep_def spin_queue_add_def spin_queue_lock_free spin_queue_unlock_def spinlock_unlock_def)
  qed
  show "\<exists>q'. spin_queue_get q c = Inr (0, c, q') \<and> spin_queue_rep q' [] \<and> q_max_count q' = q_max_count q"
    if "spin_queue_rep q []"
    using queue_get_empty [of ?q c] that
    by (auto simp: spin_queue_rep_def spin_queue_get_def spin_queue_lock_free spin_queue_unlock_def
        spinlock_unlock_def)
  show "\<exists>q'. spin_queue_get q c = Inr (1, x, q') \<and> spin_queue_rep q' xs \<and> q_max_count q' = q_max_count q"
    if "spin_queue_rep q (x # xs)"
  proof -
    from queue_get_cons [of ?q x xs c] that obtain q' where
      q': "queue_get ?q c = Inr (1, x, q')" "queue_rep q' xs" "q_max_count q' = q_max_count q"
      by (auto simp: spin_queue_rep_def)
    from q'(2) have "queue_rep (spin_queue_unlock q') xs"
      by (simp only: spin_queue_unlock_def queue_rep_more)
    with q' that(1) show ?thesis
      by (simp add: spin_queue_rep_def spin_queue_get_def spin_queue_lock_free spin_queue_unlock_def spinlock_unlock_def)
  qed
qed

section \<open>Many threads\<close>

text \<open>
  Any number of threads calling \<open>queue_add\<close> and \<open>queue_get\<close> at any time, interleaved step by step.
\<close>

type_synonym queue_system = "(qop, qlocal, int \<times> int, queue) lsys"

definition mutex_queue_step :: "queue_system \<Rightarrow> queue_system \<Rightarrow> bool" where
  "mutex_queue_step = lsys_step mutex_try mutex_release qstart qfinish qstep queue_malloc"

definition spin_queue_step :: "queue_system \<Rightarrow> queue_system \<Rightarrow> bool" where
  "spin_queue_step = lsys_step spinlock_try spinlock_clear qstart qfinish qstep queue_malloc"

interpretation mutex_obj: locked_object mutex_try mutex_release qstart qfinish
  "qstep :: ptr \<Rightarrow> qlocal \<Rightarrow> queue \<Rightarrow> _" queue_malloc queue_holds fifo_spec queue_inside
  by (unfold_locales; (rule queue_inside_start queue_inside_step queue_inside_finish; assumption
      | simp add: mutex_try_def mutex_release_def))

interpretation spin_obj: locked_object spinlock_try spinlock_clear qstart qfinish
  "qstep :: ptr \<Rightarrow> qlocal \<Rightarrow> queue \<Rightarrow> _" queue_malloc queue_holds fifo_spec queue_inside
  by (unfold_locales; (rule queue_inside_start queue_inside_step queue_inside_finish; assumption
      | simp add: spinlock_try_def spinlock_clear_def spinlock_unlock_def test_and_set_def))

text \<open>What the completed calls of a history put in and took out, in the order of their unlocks.\<close>

fun hist_added :: "(qop \<times> int \<times> int) list \<Rightarrow> int list" where
  "hist_added [] = []"
| "hist_added ((Op_Add v, r, _) # h) = (if r = 0 then hist_added h else v # hist_added h)"
| "hist_added ((Op_Get c, _) # h) = hist_added h"

fun hist_got :: "(qop \<times> int \<times> int) list \<Rightarrow> int list" where
  "hist_got [] = []"
| "hist_got ((Op_Add v, _) # h) = hist_got h"
| "hist_got ((Op_Get c, r, v) # h) = (if r = 0 then hist_got h else v # hist_got h)"

lemma fifo_spec_simps [simp]:
  "fifo_spec (xs, c) (Op_Add v) = (if int (length xs) = c then ((0, v), (xs, c)) else ((1, v), (xs @ [v], c)))"
  "fifo_spec ([], c) (Op_Get v) = ((0, v), ([], c))"
  "fifo_spec (x # xs, c) (Op_Get v) = ((1, x), (xs, c))"
  by (simp_all add: fifo_spec_def)

lemma replay_fifo:
  "replay fifo_spec (xs, c) h = Some a \<Longrightarrow> snd a = c \<and> xs @ hist_added h = hist_got h @ fst a"
proof (induction h arbitrary: xs rule: hist_added.induct)
  case 1
  then show ?case by auto
next
  case (2 v r u h)
  show ?case
  proof (cases "int (length xs) = c")
    case True
    with "2.prems" have "r = 0" "replay fifo_spec (xs, c) h = Some a"
      by (auto split: if_splits)
    with "2.IH"(1) show ?thesis by simp
  next
    case False
    with "2.prems" have "r = 1" "replay fifo_spec (xs @ [v], c) h = Some a"
      by (auto split: if_splits)
    with "2.IH"(2) show ?thesis by fastforce
  qed
next
  case (3 d r h)
  obtain k v where r: "r = (k, v)" by (cases r)
  show ?case
  proof (cases xs)
    case Nil
    with "3.prems" r have "k = 0" "replay fifo_spec ([], c) h = Some a" by (auto split: if_splits)
    with "3.IH" [of "[]"] Nil r show ?thesis by simp
  next
    case (Cons x ys)
    with "3.prems" r have "k = 1" "v = x" "replay fifo_spec (ys, c) h = Some a" by (auto split: if_splits)
    with "3.IH" [of ys] Cons r show ?thesis by simp
  qed
qed

lemma queue_init_holds: "queue_init True 0 m = Inr q \<Longrightarrow> 0 \<le> m \<Longrightarrow> queue_holds q ([], m)"
  by (simp add: queue_holds_def queue_init_rep queue_init_max)

section \<open>Properties\<close>

text \<open>The queue that \<open>queue_init\<close> returns, for a capacity \<open>m\<close>.\<close>

lemma queue_demo_holds: "queue_holds queue_demo ([], 2)"
  using queue_demo_init by (rule queue_init_holds) simp

text \<open>Thread 0 adds 7, thread 1 tries the lock in vain while it is held, then gets 7.\<close>

definition locked_demo :: "qop choice list" where
  "locked_demo = [Call 0 (Op_Add 7), Call 1 (Op_Get 0), Attempt 0] @ replicate 3 (Body 0 None) @
     [Attempt 1, Body 0 (Some 10)] @ replicate 6 (Body 0 None) @ [Unlock 0, Attempt 1] @
     replicate 10 (Body 1 None) @ [Unlock 1]"

text \<open>C1: the mutex queue is linearizable: whatever threads call \<open>queue_add\<close> and \<open>queue_get\<close> and however
  their steps interleave, the calls completed so far are, in the order of their unlocks, a
  sequential run of a bounded first-in-first-out list; what was taken out followed by what is inside
  is what was put in; and no thread faults (\<open>abort\<close> when \<open>malloc\<close> fails excepted).\<close>

theorem mutex_queue_linearizable:
  assumes "queue_init True 0 m = Inr q0" and "0 \<le> m" and "reach mutex_queue_step (lsys_init q0) s"
  shows "\<exists>xs. replay fifo_spec ([], m) (ls_hist s) = Some (xs, m) \<and>
    hist_added (ls_hist s) = hist_got (ls_hist s) @ xs \<and>
    (\<not> ls_locked s \<longrightarrow> queue_rep (ls_obj s) xs) \<and> (ls_fault s = None \<or> ls_fault s = Some Aborted)"
proof -
  note r = assms(3) [unfolded mutex_queue_step_def] and h = queue_init_holds [OF assms(1,2)]
  from mutex_obj.linearizable [OF r h] obtain a where
    a: "replay fifo_spec ([], m) (ls_hist s) = Some a" "\<not> ls_locked s \<longrightarrow> queue_holds (ls_obj s) a" by blast
  from replay_fifo [OF a(1)] a mutex_obj.fault_free [OF r h] show ?thesis
    by (intro exI [of _ "fst a"]) (auto simp: queue_holds_def)
qed

theorem mutex_queue_linearizable_witness:
  "\<exists>s xs. ls_hist (s :: queue_system) = [(Op_Add 7, 1, 7), (Op_Get 0, 1, 7)] \<and> \<not> ls_locked s \<and>
     [7] = [7] @ xs \<and> queue_rep (ls_obj s) xs"
proof -
  have "\<exists>s. lsys_run mutex_try mutex_release qstart qfinish qstep queue_malloc locked_demo (lsys_init queue_demo) = Some s \<and>
      ls_hist s = [(Op_Add 7, 1, 7), (Op_Get 0, 1, 7)] \<and> \<not> ls_locked s"
    by (simp add: locked_demo_def numeral_eq_Suc lsys_do_def lsys_init_def mutex_try_def mutex_release_def
        qstart_def qfinish_def qstep_def queue_demo_def queue_malloc_def)
  then obtain s where s: "ls_hist s = [(Op_Add 7, 1, 7), (Op_Get 0, 1, 7)]" "\<not> ls_locked s"
    and r: "reach mutex_queue_step (lsys_init queue_demo) s"
    using lsys_run_reach unfolding mutex_queue_step_def by blast
  from mutex_queue_linearizable [OF queue_demo_init _ r] s show ?thesis by auto
qed

text \<open>C20: the test-and-set spinlock of \<open>queue_spinlock\<close> gives mutual exclusion: in no reachable state
  are two threads between \<open>spinlock_lock\<close> and \<open>spinlock_unlock\<close>, a thread is there exactly when the
  flag is set, and then its next step can be made, so that the lock is always given back.\<close>

theorem spin_queue_exclusion:
  assumes "queue_init True 0 m = Inr q0" and "0 \<le> m" and "reach spin_queue_step (lsys_init q0) s"
  shows "(\<forall>t u. (\<exists>op l. ls_thr s t = Inside op l) \<and> (\<exists>op l. ls_thr s u = Inside op l) \<longrightarrow> t = u) \<and>
    (if ls_locked s
     then \<exists>t op l. ls_thr s t = Inside op l \<and> (qfinish l \<noteq> None \<or>
        (\<forall>a. q_nodes (ls_obj s) a = None \<longrightarrow> (\<exists>x. qstep (Some a) l (ls_obj s) = Inr x)))
     else snd (spinlock_try (ls_locked s)))"
proof -
  note r = assms(3) [unfolded spin_queue_step_def] and h = queue_init_holds [OF assms(1,2)]
  show ?thesis
    using spin_obj.mutual_exclusion [OF r h] spin_obj.owner_enabled [OF r h]
    by (intro conjI) (blast, simp only: queue_malloc_Some)
qed

theorem spin_queue_exclusion_witness:
  "\<exists>s. reach spin_queue_step (lsys_init queue_demo) s \<and> ls_locked s \<and>
     (\<exists>t op l. ls_thr s t = Inside op l \<and> (qfinish l \<noteq> None \<or>
        (\<forall>a. q_nodes (ls_obj s) a = None \<longrightarrow> (\<exists>x. qstep (Some a) l (ls_obj s) = Inr x))))"
proof -
  have "\<exists>s. lsys_run spinlock_try spinlock_clear qstart qfinish qstep queue_malloc
      [Call 0 (Op_Add 7), Call 1 (Op_Get 0), Attempt 0, Body 0 None, Attempt 1] (lsys_init queue_demo) = Some s \<and> ls_locked s"
    by (simp add: lsys_do_def lsys_init_def spinlock_try_def test_and_set_def
        qstart_def qfinish_def qstep_def queue_demo_def queue_malloc_def)
  then obtain s where s: "ls_locked s" and r: "reach spin_queue_step (lsys_init queue_demo) s"
    using lsys_run_reach unfolding spin_queue_step_def by blast
  from spin_queue_exclusion [OF queue_demo_init _ r] s have
    "\<exists>t op l. ls_thr s t = Inside op l \<and> (qfinish l \<noteq> None \<or>
       (\<forall>a. q_nodes (ls_obj s) a = None \<longrightarrow> (\<exists>x. qstep (Some a) l (ls_obj s) = Inr x)))"
    by (simp only: if_True)
  with r s show ?thesis by blast
qed

text \<open>run without interruption, the steps that the concurrent systems interleave compute exactly the
  sequential operations: same result, same queue, same fault, for any queue and any \<open>malloc\<close>.\<close>

theorem queue_steps_equiv:
  "qalone 11 m (qstart (Op_Add v)) q = Some (ebind (queue_add q v m) (\<lambda>(r, q'). Inr ((r, v), q'))) \<and>
   qalone 11 m (qstart (Op_Get c)) q = Some (ebind (queue_get q c) (\<lambda>(r, v, q'). Inr ((r, v), q')))"
  by (simp only: qalone_add qalone_get)

text \<open>the mutex queue used by one thread refines a bounded list and gives its lock back on every path:
  after any calls, delivered values and contents are the accepted values in order, and the mutex is
  free, so the next call does not block.\<close>

theorem mutex_queue_sequential:
  assumes "mutex_queue_init True 0 m = Inr q0" and "0 \<le> m"
    and "reach (fifo_step mutex_queue_add mutex_queue_get queue_malloc) ([], [], q0) (acc, got, q)"
  shows "\<exists>xs. acc = got @ xs \<and> queue_rep q xs \<and> q_max_count q = m \<and>
    mutex_queue_lock q = Inr (q\<lparr>mq_mutex := True\<rparr>)"
proof -
  from assms(1,2) have q0: "mutex_queue_rep q0 []" "q_max_count q0 = m"
    by (auto simp: mutex_queue_init_def mutex_queue_rep_def queue_rep_def queue_chain_def)
  from mutex_fifo.fifo_order [OF assms(3) q0(1)] q0(2) show ?thesis
    by (auto simp: mutex_queue_rep_def mutex_queue_lock_free)
qed

theorem mutex_queue_sequential_witness:
  "\<exists>q0 q. mutex_queue_init True 0 2 = Inr q0 \<and> mutex_queue_add q0 5 (Some 3) = Inr (1, q) \<and>
     queue_rep q [5] \<and> mutex_queue_lock q = Inr (q\<lparr>mq_mutex := True\<rparr>)"
proof -
  obtain q0 where q0: "mutex_queue_init True 0 2 = Inr q0" "mutex_queue_rep q0 []" "q_nodes q0 3 = None" "q_max_count q0 = 2"
    by (auto simp: mutex_queue_init_def mutex_queue_rep_def queue_rep_def queue_chain_def)
  obtain q where q: "mutex_queue_add q0 5 (Some 3) = Inr (1, q)"
    using mutex_fifo.add_space [OF q0(2), of 3 5] q0 by auto
  have "fifo_step mutex_queue_add mutex_queue_get queue_malloc ([], [], q0) ([5], [], q)"
    using fifo_add [of queue_malloc q0 "Some 3" mutex_queue_add 5 1 q mutex_queue_get "[]" "[]"] q q0(3) by simp
  then have "reach (fifo_step mutex_queue_add mutex_queue_get queue_malloc) ([], [], q0) ([5], [], q)"
    by (rule reach_step [OF reach_refl])
  from mutex_queue_sequential [OF q0(1) _ this] q q0(1) show ?thesis by auto
qed

end
