(* ===== verification/Queue_Race.thy ===== *)
theory Queue_Race
  imports Queue_Locked
begin

text \<open>
  The queue of \<open>lab2/src/1/queue/queue.c\<close> shared by two threads with no lock, as \<open>lab2/src/1/b.c\<close>
  does: the system of theory \<open>Locked_Object\<close> over the same steps, with an attempt that always
  succeeds. The two comments in \<open>queue_add\<close> and \<open>queue_get\<close> predict a lost value and a segmentation
  fault; here are the interleavings, evaluated step by step, with one writer (thread 0) and one
  reader (thread 1) that follow the loops of \<open>b.c\<close>.
\<close>

section \<open>The system without a lock\<close>

definition no_lock_try :: "bool \<Rightarrow> bool \<times> bool" where
  "no_lock_try lk = (lk, True)"

definition no_lock_release :: "bool \<Rightarrow> bool" where
  "no_lock_release lk = lk"

definition race_step :: "queue_system \<Rightarrow> queue_system \<Rightarrow> bool" where
  "race_step = lsys_step no_lock_try no_lock_release qstart qfinish qstep queue_malloc"

definition race_run :: "qop choice list \<Rightarrow> queue_system option" where
  "race_run es = lsys_run no_lock_try no_lock_release qstart qfinish qstep queue_malloc es (lsys_init queue_demo)"

lemma race_run_reach: "race_run es = Some s \<Longrightarrow> reach race_step (lsys_init queue_demo) s"
  unfolding race_run_def race_step_def by (rule lsys_run_reach)

lemmas race_eval = race_run_def lsys_do_def lsys_init_def no_lock_try_def no_lock_release_def
  qstart_def qfinish_def qstep_def queue_demo_def queue_malloc_def numeral_eq_Suc

definition steps :: "nat \<Rightarrow> nat \<Rightarrow> qop choice list" where
  "steps n t = replicate n (Body t None)"

text \<open>The writer adds \<open>v\<close> in a node at \<open>a\<close>: up to and including the test \<open>if (!q->first)\<close>.\<close>

definition writer_to_test :: "int \<Rightarrow> addr \<Rightarrow> qop choice list" where
  "writer_to_test v a = [Call 0 (Op_Add v), Attempt 0] @ steps 3 0 @ [Body 0 (Some a)] @ steps 1 0"

text \<open>The reader gets: up to and including \<open>q->first = q->first->next\<close>.\<close>

definition reader_to_move :: "qop choice list" where
  "reader_to_move = [Call 1 (Op_Get (-1)), Attempt 1] @ steps 6 1"

text \<open>
  The case marked A in the source: the writer has seen a non-empty queue, the reader takes the last
  node out, and the writer links its node behind that one.
\<close>

definition lost_value :: "qop choice list" where
  "lost_value = writer_to_test 0 10 @ steps 5 0 @ [Unlock 0] @ writer_to_test 1 11 @ reader_to_move @
     steps 5 0 @ [Unlock 0] @ steps 4 1 @ [Unlock 1]"

text \<open>
  The case marked B: the reader takes and frees the node that the writer has just linked behind,
  before the writer reads \<open>q->last->next\<close>.
\<close>

definition freed_last :: "qop choice list" where
  "freed_last = writer_to_test 0 10 @ steps 5 0 @ [Unlock 0] @ writer_to_test 1 11 @ steps 1 0 @
     reader_to_move @ steps 4 1 @ [Unlock 1] @ steps 1 0"

text \<open>The load and store of \<open>count++\<close> with a whole \<open>queue_get\<close> between them.\<close>

definition lost_decrement :: "qop choice list" where
  "lost_decrement = writer_to_test 0 10 @ steps 5 0 @ [Unlock 0] @ writer_to_test 1 11 @ steps 3 0 @
     reader_to_move @ steps 4 1 @ [Unlock 1] @ steps 2 0 @ [Unlock 0]"

section \<open>Properties\<close>

text \<open>without a lock a value that \<open>queue_add\<close> accepted is lost (case A of the source): after both
  calls of the writer and one of the reader have returned, 0 and 1 were accepted and 0 delivered, but
  the queue's chain is empty while its node is leaked and \<open>count\<close> is 1; the reader's next call then
  dereferences \<open>NULL\<close>.\<close>

theorem queue_race_lost_value:
  "\<exists>s. reach race_step (lsys_init queue_demo) s \<and> ls_fault s = None \<and>
     ls_thr s 0 = Idle \<and> ls_thr s 1 = Idle \<and>
     hist_added (ls_hist s) = [0, 1] \<and> hist_got (ls_hist s) = [0] \<and>
     q_first (ls_obj s) = None \<and> q_count (ls_obj s) = 1 \<and> dom (q_nodes (ls_obj s)) = {11} \<and>
     queue_get (ls_obj s) (-1) = Inl Null_Deref"
proof -
  have "\<exists>s. race_run lost_value = Some s \<and> ls_fault s = None \<and> ls_thr s 0 = Idle \<and> ls_thr s 1 = Idle \<and>
     hist_added (ls_hist s) = [0, 1] \<and> hist_got (ls_hist s) = [0] \<and>
     q_first (ls_obj s) = None \<and> q_count (ls_obj s) = 1 \<and> dom (q_nodes (ls_obj s)) = {11}"
    by (simp add: lost_value_def writer_to_test_def reader_to_move_def steps_def race_eval)
  then obtain s where s: "race_run lost_value = Some s" "ls_fault s = None" "ls_thr s 0 = Idle" "ls_thr s 1 = Idle"
     "hist_added (ls_hist s) = [0, 1]" "hist_got (ls_hist s) = [0]"
     "q_first (ls_obj s) = None" "q_count (ls_obj s) = 1" "dom (q_nodes (ls_obj s)) = {11}" by blast
  moreover have "queue_get (ls_obj s) (-1) = Inl Null_Deref" using s by (simp add: queue_get_def)
  ultimately show ?thesis using race_run_reach by blast
qed

text \<open>without a lock the writer uses freed memory (case B of the source): the statement
  \<open>q->last = q->last->next\<close> reads the node at 10 that the reader has freed, so the process faults.\<close>

theorem queue_race_use_after_free:
  "\<exists>s. reach race_step (lsys_init queue_demo) s \<and> ls_fault s = Some (Bad_Addr 10) \<and>
     (\<exists>l. ls_thr s 0 = Inside (Op_Add 1) l \<and> l_pc l = Add_Move_Last) \<and> hist_got (ls_hist s) = [0]"
proof -
  have "\<exists>s. race_run freed_last = Some s \<and> ls_fault s = Some (Bad_Addr 10) \<and>
     (\<exists>l. ls_thr s 0 = Inside (Op_Add 1) l \<and> l_pc l = Add_Move_Last) \<and> hist_got (ls_hist s) = [0]"
    by (simp add: freed_last_def writer_to_test_def reader_to_move_def steps_def race_eval)
  then show ?thesis using race_run_reach by blast
qed

text \<open>without a lock the counter drifts: a \<open>queue_get\<close> between the load and the store of \<open>count++\<close>
  leaves \<open>count\<close> at 2 with a single node in the queue, and no call in progress.\<close>

theorem queue_race_count_drifts:
  "\<exists>s. reach race_step (lsys_init queue_demo) s \<and> ls_fault s = None \<and>
     ls_thr s 0 = Idle \<and> ls_thr s 1 = Idle \<and>
     path qn_next (q_nodes (ls_obj s)) (q_first (ls_obj s)) [11] None \<and> q_count (ls_obj s) = 2"
proof -
  have "\<exists>s. race_run lost_decrement = Some s \<and> ls_fault s = None \<and> ls_thr s 0 = Idle \<and> ls_thr s 1 = Idle \<and>
     path qn_next (q_nodes (ls_obj s)) (q_first (ls_obj s)) [11] None \<and> q_count (ls_obj s) = 2"
    by (simp add: lost_decrement_def writer_to_test_def reader_to_move_def steps_def race_eval)
  then show ?thesis using race_run_reach by blast
qed

end
