(* ===== verification/Queue_Clients.thy ===== *)
theory Queue_Clients
  imports Queue_Locked
begin

text \<open>
  The whole program \<open>lab2/src/2/queue_threads.c\<close>: \<open>main\<close> creates the reader and the writer, cancels
  and joins them after a while and destroys the queue. The two threads run the loops of \<open>reader\<close> and
  \<open>writer\<close>, their calls of the queue being interleaved atomic step by atomic step (theory
  \<open>Queue_Locked\<close>). The model is parametrised by the lock of the queue and its \<open>queue_destroy\<close>; the
  locale \<open>queue_program\<close> adds the law of \<open>queue_destroy\<close> to those of \<open>locked_object\<close> and is interpreted
  for the mutex queue and for the spinlock queue.
\<close>

section \<open>The program\<close>

text \<open>The constants of the file and the numbers by which the queue system knows the two threads.\<close>

definition queue_capacity :: int where
  "queue_capacity = 1000000"

definition reader_tid :: nat where
  "reader_tid = 1"

definition writer_tid :: nat where
  "writer_tid = 2"

text \<open>
  Where \<open>main\<close> is (the number is the exit status that follows), and where a thread is: before
  \<open>pthread_testcancel\<close>, before the call of the queue, or inside that call. Printing, \<open>set_cpu\<close>,
  \<open>sched_yield\<close>, \<open>sleep\<close> and \<open>profile_time\<close> do not touch this state; how long \<open>main\<close> sleeps is left to
  the scheduler.
\<close>

datatype main_pc =
    M_Create_Reader | M_Create_Writer | M_Cancel_Reader | M_Cancel_Writer
  | M_Join_Reader | M_Join_Writer | M_Destroy int | M_Return int | M_Exit int

datatype client_pc = Not_Created | At_Test | At_Call | In_Call | Thread_Ended

text \<open>
  \<open>qc_left\<close> is \<open>None\<close> while the queue exists, and then what \<open>queue_destroy\<close> left of its nodes;
  \<open>qc_dangling\<close> is set when a thread touches the queue after that.
\<close>

record queue_clients =
  qc_main :: main_pc
  qc_thread :: "nat \<Rightarrow> client_pc"
  qc_cancel :: "nat \<Rightarrow> bool"
  qc_expected :: int
  qc_i :: int
  qc_errors :: "(int \<times> int) list"
  qc_sys :: queue_system
  qc_left :: "(addr \<rightharpoonup> qnode) option"
  qc_dangling :: bool

definition clients_init :: "queue \<Rightarrow> queue_clients" where
  "clients_init q = \<lparr>qc_main = M_Create_Reader, qc_thread = (\<lambda>_. Not_Created), qc_cancel = (\<lambda>_. False),
     qc_expected = 0, qc_i = 0, qc_errors = [], qc_sys = lsys_init q, qc_left = None, qc_dangling = False\<rparr>"

text \<open>The start of \<open>main\<close>: \<open>queue_init\<close> returns a queue or aborts.\<close>

definition queue_threads_start :: "bool \<Rightarrow> int \<Rightarrow> fault + queue_clients" where
  "queue_threads_start q_ok err = ebind (queue_init q_ok err queue_capacity) (\<lambda>q. Inr (clients_init q))"

text \<open>
  One statement of \<open>main\<close>; \<open>err\<close> is the result of \<open>pthread_create\<close>. \<open>None\<close>: the statement cannot go
  on now (\<open>pthread_join\<close> of a thread that runs, \<open>queue_destroy\<close> waiting for the lock).
\<close>

definition client_main ::
  "(bool \<Rightarrow> bool \<times> bool) \<Rightarrow> (queue \<Rightarrow> (fault + (addr \<rightharpoonup> qnode)) option) \<Rightarrow> int \<Rightarrow> queue_clients \<Rightarrow>
   queue_clients option"
where
  "client_main try_lock destroy err s = (case qc_main s of
     M_Create_Reader \<Rightarrow> Some (if err \<noteq> 0 then s\<lparr>qc_main := M_Destroy 1\<rparr>
       else s\<lparr>qc_main := M_Create_Writer, qc_thread := (qc_thread s)(reader_tid := At_Test)\<rparr>)
   | M_Create_Writer \<Rightarrow> Some (if err \<noteq> 0 then s\<lparr>qc_main := M_Destroy 1\<rparr>
       else s\<lparr>qc_main := M_Cancel_Reader, qc_thread := (qc_thread s)(writer_tid := At_Test)\<rparr>)
   | M_Cancel_Reader \<Rightarrow> Some (s\<lparr>qc_main := M_Cancel_Writer, qc_cancel := (qc_cancel s)(reader_tid := True)\<rparr>)
   | M_Cancel_Writer \<Rightarrow> Some (s\<lparr>qc_main := M_Join_Reader, qc_cancel := (qc_cancel s)(writer_tid := True)\<rparr>)
   | M_Join_Reader \<Rightarrow> (if qc_thread s reader_tid = Thread_Ended then Some (s\<lparr>qc_main := M_Join_Writer\<rparr>) else None)
   | M_Join_Writer \<Rightarrow> (if qc_thread s writer_tid = Thread_Ended then Some (s\<lparr>qc_main := M_Destroy 0\<rparr>) else None)
   | M_Destroy rc \<Rightarrow> (if snd (try_lock (ls_locked (qc_sys s)))
       then (case destroy (ls_obj (qc_sys s)) of None \<Rightarrow> None
         | Some (Inl e) \<Rightarrow> Some (s\<lparr>qc_sys := (qc_sys s)\<lparr>ls_fault := Some e\<rparr>\<rparr>)
         | Some (Inr h) \<Rightarrow> Some (s\<lparr>qc_main := M_Return rc, qc_left := Some h\<rparr>))
       else None)
   | M_Return rc \<Rightarrow> Some (s\<lparr>qc_main := M_Exit rc\<rparr>)
   | M_Exit rc \<Rightarrow> None)"

text \<open>The call each thread makes, and what it does with the result.\<close>

definition client_op :: "queue_clients \<Rightarrow> nat \<Rightarrow> qop" where
  "client_op s t = (if t = reader_tid then Op_Get (-1) else Op_Add (qc_i s))"

definition client_result :: "nat \<Rightarrow> int \<times> int \<Rightarrow> queue_clients \<Rightarrow> queue_clients" where
  "client_result t r s = (case r of (ok, val) \<Rightarrow>
     if ok = 0 then s
     else if t = reader_tid then
       s\<lparr>qc_errors := (if qc_expected s \<noteq> val then qc_errors s @ [(val, qc_expected s)] else qc_errors s),
         qc_expected := int32 (val + 1)\<rparr>
     else s\<lparr>qc_i := int32 (qc_i s + 1)\<rparr>)"

text \<open>
  A scheduler's choice: \<open>main\<close> or a thread makes its next step (\<open>C_Attempt\<close>, \<open>C_Body\<close> and
  \<open>C_Return\<close> are the steps inside a call of the queue).
\<close>

datatype client_choice = C_Main int | C_Test nat | C_Call nat | C_Attempt nat | C_Body nat ptr | C_Return nat

text \<open>A step inside a call, on the queue if it still exists.\<close>

definition client_touch :: "queue_clients \<Rightarrow> (queue_system \<Rightarrow> queue_clients) \<Rightarrow> queue_system option \<Rightarrow> queue_clients option" where
  "client_touch s k r = (case r of None \<Rightarrow> None
     | Some sys \<Rightarrow> Some (if qc_left s = None then k sys else s\<lparr>qc_dangling := True\<rparr>))"

definition client_do ::
  "(bool \<Rightarrow> bool \<times> bool) \<Rightarrow> (bool \<Rightarrow> bool) \<Rightarrow> (queue \<Rightarrow> (fault + (addr \<rightharpoonup> qnode)) option) \<Rightarrow>
   client_choice \<Rightarrow> queue_clients \<Rightarrow> queue_clients option"
where
  "client_do try_lock un_lock destroy e s =
    (let sysdo = (\<lambda>c. lsys_do try_lock un_lock qstart qfinish qstep queue_malloc c (qc_sys s)) in
     if ls_fault (qc_sys s) \<noteq> None \<or> qc_dangling s \<or> (case qc_main s of M_Exit _ \<Rightarrow> True | _ \<Rightarrow> False) then None
     else case e of
       C_Main err \<Rightarrow> client_main try_lock destroy err s
     | C_Test t \<Rightarrow> (if qc_thread s t = At_Test
         then Some (s\<lparr>qc_thread := (qc_thread s)(t := if qc_cancel s t then Thread_Ended else At_Call)\<rparr>) else None)
     | C_Call t \<Rightarrow> (if qc_thread s t = At_Call
         then (case sysdo (Call t (client_op s t)) of None \<Rightarrow> None
           | Some sys \<Rightarrow> Some (s\<lparr>qc_sys := sys, qc_thread := (qc_thread s)(t := In_Call)\<rparr>)) else None)
     | C_Attempt t \<Rightarrow> client_touch s (\<lambda>sys. s\<lparr>qc_sys := sys\<rparr>) (sysdo (Attempt t))
     | C_Body t p \<Rightarrow> client_touch s (\<lambda>sys. s\<lparr>qc_sys := sys\<rparr>) (sysdo (Body t p))
     | C_Return t \<Rightarrow> client_touch s (\<lambda>sys. client_result t (snd (last (ls_hist sys)))
         (s\<lparr>qc_sys := sys, qc_thread := (qc_thread s)(t := At_Test)\<rparr>)) (sysdo (Unlock t)))"

fun client_run ::
  "(bool \<Rightarrow> bool \<times> bool) \<Rightarrow> (bool \<Rightarrow> bool) \<Rightarrow> (queue \<Rightarrow> (fault + (addr \<rightharpoonup> qnode)) option) \<Rightarrow>
   client_choice list \<Rightarrow> queue_clients \<Rightarrow> queue_clients option"
where
  "client_run try_lock un_lock destroy [] s = Some s"
| "client_run try_lock un_lock destroy (e # es) s =
     Option.bind (client_do try_lock un_lock destroy e s) (client_run try_lock un_lock destroy es)"

inductive client_step ::
  "(bool \<Rightarrow> bool \<times> bool) \<Rightarrow> (bool \<Rightarrow> bool) \<Rightarrow> (queue \<Rightarrow> (fault + (addr \<rightharpoonup> qnode)) option) \<Rightarrow>
   queue_clients \<Rightarrow> queue_clients \<Rightarrow> bool"
  for try_lock un_lock destroy
where
  client_move: "client_do try_lock un_lock destroy e s = Some s' \<Longrightarrow> client_step try_lock un_lock destroy s s'"

inductive_cases client_stepE: "client_step try_lock un_lock destroy s s'"

lemma client_run_reach:
  "client_run try_lock un_lock destroy es s = Some s' \<Longrightarrow> reach (client_step try_lock un_lock destroy) s s'"
proof (induction es arbitrary: s)
  case Nil
  then show ?case by (simp add: reach_refl)
next
  case (Cons e es)
  then obtain t where "client_do try_lock un_lock destroy e s = Some t"
    "client_run try_lock un_lock destroy es t = Some s'" by (auto split: Option.bind_splits)
  with Cons.IH show ?case by (blast intro: client_move reach_trans reach_step [OF reach_refl])
qed

section \<open>What the steps do to the queue system\<close>

text \<open>The operation a thread is in.\<close>

fun thr_op :: "('op, 'l) tstate \<Rightarrow> 'op option" where
  "thr_op Idle = None"
| "thr_op (Trying op) = Some op"
| "thr_op (Inside op l) = Some op"

lemma lsys_do_Call:
  assumes "lsys_do tk uk st fi bo ok (Call t op) s = Some s'"
  shows "thr_op (ls_thr s t) = None" and "thr_op (ls_thr s' u) = (if u = t then Some op else thr_op (ls_thr s u))"
    and "ls_hist s' = ls_hist s"
  using assms by (auto simp: lsys_do_def split: if_splits tstate.splits)

lemma lsys_do_Attempt:
  assumes "lsys_do tk uk st fi bo ok (Attempt t) s = Some s'"
  shows "thr_op (ls_thr s t) \<noteq> None" and "thr_op (ls_thr s' u) = thr_op (ls_thr s u)"
    and "ls_hist s' = ls_hist s"
  using assms by (auto simp: lsys_do_def split: if_splits tstate.splits prod.splits)

lemma lsys_do_Body:
  assumes "lsys_do tk uk st fi bo ok (Body t p) s = Some s'"
  shows "thr_op (ls_thr s t) \<noteq> None" and "thr_op (ls_thr s' u) = thr_op (ls_thr s u)"
    and "ls_hist s' = ls_hist s"
  using assms by (auto simp: lsys_do_def split: if_splits tstate.splits prod.splits sum.splits)

lemma lsys_do_Unlock:
  assumes "lsys_do tk uk st fi bo ok (Unlock t) s = Some s'"
  obtains op r where "thr_op (ls_thr s t) = Some op" "ls_hist s' = ls_hist s @ [(op, r)]"
    "\<And>u. thr_op (ls_thr s' u) = (if u = t then None else thr_op (ls_thr s u))"
  using assms by (auto simp: lsys_do_def split: if_splits tstate.splits option.splits)

lemma hist_append:
  "hist_added (h @ h') = hist_added h @ hist_added h'" "hist_got (h @ h') = hist_got h @ hist_got h'"
  by (induction h rule: hist_added.induct) auto

text \<open>The abstract queue never holds more than its capacity.\<close>

lemma replay_bound:
  "replay fifo_spec (xs, c) h = Some a \<Longrightarrow> int (length xs) \<le> c \<Longrightarrow> int (length (fst a)) \<le> c"
proof (induction h arbitrary: xs rule: hist_added.induct)
  case 1
  then show ?case by auto
next
  case (2 v r u h)
  show ?case
  proof (cases "int (length xs) = c")
    case True
    with 2 show ?thesis by (cases "r = 0") (auto split: if_splits)
  next
    case False
    with 2 show ?thesis by (cases "r = 0") (auto split: if_splits)
  qed
next
  case (3 d r h)
  then show ?case by (cases xs) (auto split: if_splits)
qed

section \<open>The invariant\<close>

definition thread_alive :: "queue_clients \<Rightarrow> nat \<Rightarrow> bool" where
  "thread_alive s t \<longleftrightarrow> qc_thread s t \<noteq> Not_Created \<and> qc_thread s t \<noteq> Thread_Ended"

text \<open>
  The data: the writer has put in the successive values of its counter, the reader has got the first of
  them, the two counters are what these histories make them (modulo the width of \<open>int\<close>), and the queue
  system sees exactly the calls the two threads are in.
\<close>

definition client_data :: "queue_clients \<Rightarrow> bool" where
  "client_data s \<longleftrightarrow> qc_i s = int32 (int (length (hist_added (ls_hist (qc_sys s))))) \<and>
     qc_expected s = int32 (int (length (hist_got (ls_hist (qc_sys s))))) \<and> qc_errors s = [] \<and>
     hist_added (ls_hist (qc_sys s)) = int_counts (length (hist_added (ls_hist (qc_sys s)))) \<and>
     hist_got (ls_hist (qc_sys s)) = int_counts (length (hist_got (ls_hist (qc_sys s)))) \<and>
     (\<forall>t. thr_op (ls_thr (qc_sys s) t) = (if qc_thread s t = In_Call then Some (client_op s t) else None))"

text \<open>
  The control: which threads there are at each statement of \<open>main\<close>, and which are cancelled. The
  queue is gone exactly after \<open>queue_destroy\<close>, with nothing left; and by then the threads have ended, unless the writer could not
  be created.
\<close>

definition threads_over :: "int \<Rightarrow> client_pc \<Rightarrow> client_pc \<Rightarrow> bool" where
  "threads_over rc r w \<longleftrightarrow> rc = 0 \<and> r = Thread_Ended \<and> w = Thread_Ended \<or> rc = 1 \<and> w = Not_Created"

fun threads_at :: "main_pc \<Rightarrow> client_pc \<Rightarrow> client_pc \<Rightarrow> bool" where
  "threads_at M_Create_Reader r w \<longleftrightarrow> r = Not_Created \<and> w = Not_Created"
| "threads_at M_Create_Writer r w \<longleftrightarrow> r \<noteq> Not_Created \<and> w = Not_Created"
| "threads_at M_Join_Writer r w \<longleftrightarrow> r = Thread_Ended \<and> w \<noteq> Not_Created"
| "threads_at (M_Destroy rc) r w \<longleftrightarrow> threads_over rc r w"
| "threads_at (M_Return rc) r w \<longleftrightarrow> threads_over rc r w"
| "threads_at (M_Exit rc) r w \<longleftrightarrow> threads_over rc r w"
| "threads_at _ r w \<longleftrightarrow> r \<noteq> Not_Created \<and> w \<noteq> Not_Created"

fun cancels_at :: "main_pc \<Rightarrow> bool \<Rightarrow> bool \<Rightarrow> bool" where
  "cancels_at M_Cancel_Writer r w \<longleftrightarrow> r"
| "cancels_at M_Join_Reader r w \<longleftrightarrow> r \<and> w"
| "cancels_at M_Join_Writer r w \<longleftrightarrow> w"
| "cancels_at _ r w \<longleftrightarrow> True"

fun left_at :: "main_pc \<Rightarrow> (addr \<rightharpoonup> qnode) option" where
  "left_at (M_Return rc) = Some Map.empty"
| "left_at (M_Exit rc) = Some Map.empty"
| "left_at _ = None"

definition client_control :: "queue_clients \<Rightarrow> bool" where
  "client_control s \<longleftrightarrow>
     (\<forall>t. t \<noteq> reader_tid \<and> t \<noteq> writer_tid \<longrightarrow> qc_thread s t = Not_Created) \<and>
     threads_at (qc_main s) (qc_thread s reader_tid) (qc_thread s writer_tid) \<and>
     cancels_at (qc_main s) (qc_cancel s reader_tid) (qc_cancel s writer_tid) \<and>
     qc_left s = left_at (qc_main s) \<and> (qc_dangling s \<longrightarrow> qc_main s = M_Return 1)"

lemma tids [simp]: "reader_tid \<noteq> writer_tid" "writer_tid \<noteq> reader_tid"
  by (simp_all add: reader_tid_def writer_tid_def)

lemma client_data_cong:
  assumes "client_data s" and "ls_hist (qc_sys s') = ls_hist (qc_sys s)" and "qc_i s' = qc_i s"
    and "qc_expected s' = qc_expected s" and "qc_errors s' = qc_errors s"
    and "\<And>t. thr_op (ls_thr (qc_sys s') t) = (if qc_thread s' t = In_Call then Some (client_op s t) else None)"
  shows "client_data s'"
  using assms by (simp add: client_data_def client_op_def)

lemma client_data_op:
  "client_data s \<Longrightarrow> thr_op (ls_thr (qc_sys s) t) = (if qc_thread s t = In_Call then Some (client_op s t) else None)"
  by (simp add: client_data_def)

lemma client_data_in_call:
  "client_data s \<Longrightarrow> thr_op (ls_thr (qc_sys s) t) = Some op \<Longrightarrow> qc_thread s t = In_Call \<and> op = client_op s t"
  by (auto simp: client_data_op split: if_splits)

lemma client_control_tid: "client_control s \<Longrightarrow> thread_alive s t \<Longrightarrow> t = reader_tid \<or> t = writer_tid"
  by (auto simp: client_control_def thread_alive_def)

text \<open>A thread that moves leaves the control as it is.\<close>

lemma threads_at_move:
  "threads_at pc r w \<Longrightarrow> r \<noteq> Not_Created \<Longrightarrow> r \<noteq> Thread_Ended \<Longrightarrow> x \<noteq> Not_Created \<Longrightarrow> threads_at pc x w"
  "threads_at pc r w \<Longrightarrow> w \<noteq> Not_Created \<Longrightarrow> w \<noteq> Thread_Ended \<Longrightarrow> x \<noteq> Not_Created \<Longrightarrow> threads_at pc r x"
  by (cases pc; simp add: threads_over_def)+

lemma client_control_thread:
  assumes C: "client_control s" and "thread_alive s t" and "x \<noteq> Not_Created"
    and "qc_main s' = qc_main s" and "qc_left s' = qc_left s" and "qc_dangling s' = qc_dangling s"
    and "qc_cancel s' = qc_cancel s"
    and u: "\<And>u. qc_thread s' u = (if u = t then x else qc_thread s u)"
  shows "client_control s'"
proof -
  from client_control_tid [OF assms(1,2)]
  have "threads_at (qc_main s) (qc_thread s' reader_tid) (qc_thread s' writer_tid)"
  proof
    assume [simp]: "t = reader_tid"
    from assms show ?thesis
      by (simp add: client_control_def thread_alive_def threads_at_move(1) [of _ "qc_thread s reader_tid"])
  next
    assume [simp]: "t = writer_tid"
    from assms show ?thesis
      by (simp add: client_control_def thread_alive_def threads_at_move(2) [of _ _ "qc_thread s writer_tid"])
  qed
  moreover have "qc_thread s' v = Not_Created" if "v \<noteq> reader_tid" "v \<noteq> writer_tid" for v
    using that client_control_tid [OF assms(1,2)] C u by (auto simp: client_control_def)
  ultimately show ?thesis using assms by (simp add: client_control_def)
qed

lemma client_control_same:
  assumes "client_control s" and "qc_main s' = qc_main s" and "qc_left s' = qc_left s"
    and "qc_dangling s' = qc_dangling s" and "qc_thread s' = qc_thread s" and "qc_cancel s' = qc_cancel s"
  shows "client_control s'"
  using assms by (simp add: client_control_def)

text \<open>A thread in a call finds the queue gone only when the writer could not be created.\<close>

lemma client_control_touch:
  assumes "client_control s" and "thread_alive s t" and "qc_left s \<noteq> None"
    and "\<And>rc. qc_main s \<noteq> M_Exit rc"
  shows "client_control (s\<lparr>qc_dangling := True\<rparr>)"
proof -
  from assms(1,3,4) obtain rc where m: "qc_main s = M_Return rc"
    by (cases "qc_main s") (auto simp: client_control_def)
  with client_control_tid [OF assms(1,2)] assms(1,2) have "rc = 1"
    by (auto simp: client_control_def thread_alive_def threads_over_def)
  with assms(1) m show ?thesis by (simp add: client_control_def)
qed

text \<open>The result of a call, when the reader gets the next number of those the writer put in.\<close>

lemma client_data_result:
  assumes I: "client_data s" and C: "client_control s" and t: "qc_thread s t = In_Call"
    and h: "ls_hist sys = ls_hist (qc_sys s) @ [(client_op s t, r)]"
    and o: "\<And>u. thr_op (ls_thr sys u) = (if u = t then None else thr_op (ls_thr (qc_sys s) u))"
    and f: "hist_added (ls_hist sys) = hist_got (ls_hist sys) @ xs"
  shows "client_data (client_result t (snd (last (ls_hist sys))) (s\<lparr>qc_sys := sys, qc_thread := (qc_thread s)(t := At_Test)\<rparr>))"
proof -
  obtain ok val where r: "r = (ok, val)" by (cases r)
  have other: "qc_thread s u \<noteq> In_Call" if "u \<noteq> reader_tid" "u \<noteq> writer_tid" for u
    using C that by (auto simp: client_control_def)
  from C have "t = reader_tid \<or> t = writer_tid" by (rule client_control_tid) (simp add: thread_alive_def t)
  then show ?thesis
  proof
    assume [simp]: "t = reader_tid"
    show ?thesis
    proof (cases "ok = 0")
      case True
      with I r h o show ?thesis by (auto simp: client_data_def client_result_def client_op_def hist_append)
    next
      case False
      have a: "hist_added (ls_hist (qc_sys s)) = hist_got (ls_hist (qc_sys s)) @ val # xs"
        using r h f False by (simp add: client_op_def hist_append)
      have "val = int32 (int (length (hist_got (ls_hist (qc_sys s)))))"
        by (rule int_counts_next [of "length (hist_added (ls_hist (qc_sys s)))" _ _ xs])
          (use a I in \<open>unfold client_data_def, metis\<close>)
      with I r h o False show ?thesis
        by (simp add: client_data_def client_result_def client_op_def hist_append int32_Suc)
    qed
  next
    assume [simp]: "t = writer_tid"
    have op: "client_op s t = Op_Add (qc_i s)" by (simp add: client_op_def)
    from I r h o other show ?thesis
      by (auto simp: client_data_def client_result_def client_op_def hist_append int32_Suc)
  qed
qed

section \<open>The contract of the queue, and what follows for the program\<close>

text \<open>Creating a thread, and the other statements of \<open>main\<close>, keep the data.\<close>

lemma client_data_main:
  assumes "client_data s" and "qc_sys s' = qc_sys s" and "qc_i s' = qc_i s"
    and "qc_expected s' = qc_expected s" and "qc_errors s' = qc_errors s"
    and "\<And>t. qc_thread s' t = In_Call \<longleftrightarrow> qc_thread s t = In_Call"
  shows "client_data s'"
  using assms by (simp add: client_data_def client_op_def)

locale queue_program =
  locked_object try_lock un_lock qstart qfinish "qstep :: ptr \<Rightarrow> qlocal \<Rightarrow> queue \<Rightarrow> fault + qlocal \<times> queue"
    queue_malloc queue_holds fifo_spec queue_inside for try_lock un_lock +
  fixes destroy :: "queue \<Rightarrow> (fault + (addr \<rightharpoonup> qnode)) option"
  assumes destroy_all: "queue_holds q a \<Longrightarrow> destroy q = Some (Inr Map.empty)"
begin

definition client_inv :: "int \<Rightarrow> queue_clients \<Rightarrow> bool" where
  "client_inv m s \<longleftrightarrow> lsys_inv ([], m) (qc_sys s) \<and> client_data s \<and> client_control s"

lemma client_invI: "lsys_inv ([], m) (qc_sys s) \<Longrightarrow> client_data s \<Longrightarrow> client_control s \<Longrightarrow> client_inv m s"
  by (simp add: client_inv_def)

lemma client_inv_init: "queue_holds q ([], m) \<Longrightarrow> client_inv m (clients_init q)"
  by (simp add: client_inv_def clients_init_def client_data_def client_control_def lsys_inv_init)
    (simp add: lsys_init_def)

lemma client_inv_main:
  assumes I: "client_inv m s" and st: "client_main try_lock destroy err s = Some s'"
    and run: "\<not> qc_dangling s"
  shows "client_inv m s'"
proof -
  from I have L: "lsys_inv ([], m) (qc_sys s)" and D: "client_data s" and C: "client_control s"
    by (simp_all add: client_inv_def)
  show ?thesis
  proof (cases "qc_main s")
    case (M_Destroy rc)
    have free: "\<not> ls_locked (qc_sys s)" using st M_Destroy try_held by (auto simp: client_main_def split: if_splits)
    from L free obtain a where "queue_holds (ls_obj (qc_sys s)) a" by (rule lsys_inv_freeE) blast
    with st M_Destroy have s': "s' = s\<lparr>qc_main := M_Return rc, qc_left := Some Map.empty\<rparr>"
      by (auto simp: client_main_def destroy_all split: if_splits)
    from C M_Destroy run have "client_control s'" by (simp add: s' client_control_def)
    with L D show ?thesis by (auto simp: s' intro!: client_invI elim: client_data_main)
  next
    case M_Create_Reader
    with st C L run show ?thesis
      by (auto simp: client_main_def client_control_def threads_over_def intro!: client_invI
          client_data_main [OF D] split: if_splits)
  next
    case M_Create_Writer
    with st C L run show ?thesis
      by (auto simp: client_main_def client_control_def threads_over_def intro!: client_invI
          client_data_main [OF D] split: if_splits)
  qed (use st C D L run in \<open>auto simp: client_main_def client_control_def threads_over_def intro!: client_invI
          elim: client_data_main split: if_splits\<close>)
qed

lemma client_inv_touch:
  assumes I: "client_inv m s" and t: "thr_op (ls_thr (qc_sys s) t) \<noteq> None"
    and "\<And>rc. qc_main s \<noteq> M_Exit rc" and "qc_left s \<noteq> None"
  shows "client_inv m (s\<lparr>qc_dangling := True\<rparr>)"
proof -
  from I t have "thread_alive s t" by (auto simp: client_inv_def thread_alive_def dest: client_data_in_call)
  with I assms(3,4) have "client_control (s\<lparr>qc_dangling := True\<rparr>)"
    by (intro client_control_touch [of s t]) (simp_all add: client_inv_def)
  with I show ?thesis by (auto simp: client_inv_def elim: client_data_main)
qed

lemma sys_inv_do:
  "client_inv m s \<Longrightarrow> lsys_do try_lock un_lock qstart qfinish qstep queue_malloc c (qc_sys s) = Some sys \<Longrightarrow>
   lsys_inv ([], m) sys"
  using lsys_inv_step [OF _ lsys_do_step] by (auto simp: client_inv_def)

text \<open>A step inside a call that is not its last.\<close>

lemma client_inv_inner:
  assumes I: "client_inv m s" and d: "lsys_do try_lock un_lock qstart qfinish qstep queue_malloc c (qc_sys s) = Some sys"
    and t: "thr_op (ls_thr (qc_sys s) t) \<noteq> None"
    and o: "\<And>u. thr_op (ls_thr sys u) = thr_op (ls_thr (qc_sys s) u)" and h: "ls_hist sys = ls_hist (qc_sys s)"
    and run: "\<And>rc. qc_main s \<noteq> M_Exit rc"
  shows "client_inv m (if qc_left s = None then s\<lparr>qc_sys := sys\<rparr> else s\<lparr>qc_dangling := True\<rparr>)"
proof -
  from I have D: "client_data s" and C: "client_control s" by (simp_all add: client_inv_def)
  have "client_inv m (s\<lparr>qc_sys := sys\<rparr>)"
    using sys_inv_do [OF I d] C
    by (auto intro!: client_invI client_data_cong [OF D] simp: h o client_data_op [OF D] client_control_def)
  with client_inv_touch [OF I t run] show ?thesis by simp
qed

lemma client_inv_return:
  assumes I: "client_inv m s"
    and d: "lsys_do try_lock un_lock qstart qfinish qstep queue_malloc (Unlock t) (qc_sys s) = Some sys"
    and run: "\<And>rc. qc_main s \<noteq> M_Exit rc"
  shows "client_inv m (if qc_left s = None then client_result t (snd (last (ls_hist sys)))
      (s\<lparr>qc_sys := sys, qc_thread := (qc_thread s)(t := At_Test)\<rparr>) else s\<lparr>qc_dangling := True\<rparr>)"
proof -
  from I have D: "client_data s" and C: "client_control s" by (simp_all add: client_inv_def)
  note L = sys_inv_do [OF I d]
  from d obtain op r where o: "thr_op (ls_thr (qc_sys s) t) = Some op" "ls_hist sys = ls_hist (qc_sys s) @ [(op, r)]"
    "\<And>u. thr_op (ls_thr sys u) = (if u = t then None else thr_op (ls_thr (qc_sys s) u))"
    by (rule lsys_do_Unlock) blast
  note t = client_data_in_call [OF D o(1)]
  from L obtain a where "replay fifo_spec ([], m) (ls_hist sys) = Some a" unfolding lsys_inv_def by blast
  then have f: "hist_added (ls_hist sys) = hist_got (ls_hist sys) @ fst a" using replay_fifo by fastforce
  let ?k = "client_result t (snd (last (ls_hist sys))) (s\<lparr>qc_sys := sys, qc_thread := (qc_thread s)(t := At_Test)\<rparr>)"
  have "client_data ?k" by (rule client_data_result [OF D C _ _ o(3) f]) (use t o(2) in auto)
  moreover have "client_control ?k"
    by (rule client_control_thread [OF C, of t At_Test])
      (use t in \<open>auto simp: client_result_def thread_alive_def split: prod.splits\<close>)
  moreover have "qc_sys ?k = sys" by (simp add: client_result_def split: prod.splits)
  ultimately have "client_inv m ?k" using L by (simp add: client_inv_def)
  with client_inv_touch [OF I _ run] o(1) show ?thesis by auto
qed

lemma client_inv_call:
  assumes I: "client_inv m s" and t: "qc_thread s t = At_Call"
    and d: "lsys_do try_lock un_lock qstart qfinish qstep queue_malloc (Call t (client_op s t)) (qc_sys s) = Some sys"
  shows "client_inv m (s\<lparr>qc_sys := sys, qc_thread := (qc_thread s)(t := In_Call)\<rparr>)" (is "client_inv m ?s")
proof -
  from I have D: "client_data s" and C: "client_control s" by (simp_all add: client_inv_def)
  have "client_control ?s"
    by (rule client_control_thread [OF C, of t]) (use t in \<open>auto simp: thread_alive_def\<close>)
  moreover have "client_data ?s"
    by (rule client_data_cong [OF D]) (use lsys_do_Call [OF d] client_data_op [OF D] in auto)
  ultimately show ?thesis using sys_inv_do [OF I d] by (simp add: client_inv_def)
qed

lemma client_inv_test:
  assumes I: "client_inv m s" and t: "qc_thread s t = At_Test" and x: "x = Thread_Ended \<or> x = At_Call"
  shows "client_inv m (s\<lparr>qc_thread := (qc_thread s)(t := x)\<rparr>)" (is "client_inv m ?s")
proof -
  from I have D: "client_data s" and C: "client_control s" by (simp_all add: client_inv_def)
  have "client_control ?s"
    by (rule client_control_thread [OF C, of t]) (use t x in \<open>auto simp: thread_alive_def\<close>)
  moreover have "client_data ?s" by (rule client_data_main [OF D]) (use t x in auto)
  ultimately show ?thesis using I by (simp add: client_inv_def)
qed

lemma client_inv_step:
  assumes I: "client_inv m s" and "client_step try_lock un_lock destroy s s'"
  shows "client_inv m s'"
proof -
  from assms(2) obtain e where e: "client_do try_lock un_lock destroy e s = Some s'" by (rule client_stepE)
  then have run: "\<not> qc_dangling s" "\<And>rc. qc_main s \<noteq> M_Exit rc" by (auto simp: client_do_def split: if_splits)
  show ?thesis
  proof (cases e)
    case (C_Main err)
    with e I run show ?thesis by (auto simp: client_do_def split: if_splits intro: client_inv_main)
  next
    case (C_Test t)
    with e I show ?thesis by (auto simp: client_do_def split: if_splits intro!: client_inv_test)
  next
    case (C_Call t)
    with e I show ?thesis by (auto simp: client_do_def split: if_splits option.splits intro: client_inv_call)
  next
    case (C_Attempt t)
    with e obtain sys where d: "lsys_do try_lock un_lock qstart qfinish qstep queue_malloc (Attempt t) (qc_sys s) = Some sys"
      and s': "s' = (if qc_left s = None then s\<lparr>qc_sys := sys\<rparr> else s\<lparr>qc_dangling := True\<rparr>)"
      by (auto simp: client_do_def client_touch_def split: if_splits option.splits)
    show ?thesis unfolding s' by (rule client_inv_inner [OF I d lsys_do_Attempt [OF d] run(2)])
  next
    case (C_Body t p)
    with e obtain sys where d: "lsys_do try_lock un_lock qstart qfinish qstep queue_malloc (Body t p) (qc_sys s) = Some sys"
      and s': "s' = (if qc_left s = None then s\<lparr>qc_sys := sys\<rparr> else s\<lparr>qc_dangling := True\<rparr>)"
      by (auto simp: client_do_def client_touch_def split: if_splits option.splits)
    show ?thesis unfolding s' by (rule client_inv_inner [OF I d lsys_do_Body [OF d] run(2)])
  next
    case (C_Return t)
    with e obtain sys where d: "lsys_do try_lock un_lock qstart qfinish qstep queue_malloc (Unlock t) (qc_sys s) = Some sys"
      and s': "s' = (if qc_left s = None then client_result t (snd (last (ls_hist sys)))
        (s\<lparr>qc_sys := sys, qc_thread := (qc_thread s)(t := At_Test)\<rparr>) else s\<lparr>qc_dangling := True\<rparr>)"
      by (auto simp: client_do_def client_touch_def split: if_splits option.splits)
    show ?thesis unfolding s' by (rule client_inv_return [OF I d run(2)])
  qed
qed

lemma client_inv_reach:
  "reach (client_step try_lock un_lock destroy) (clients_init q) s \<Longrightarrow> queue_holds q ([], m) \<Longrightarrow> client_inv m s"
  by (erule reach_invariant) (auto intro: client_inv_init client_inv_step)

end

section \<open>The program can always be finished\<close>

text \<open>How many steps of its body a call has left, at most.\<close>

fun steps_left :: "qpc \<Rightarrow> nat" where
  "steps_left Add_Attempts = 10" | "steps_left Add_Assert = 9" | "steps_left Add_Full = 8"
| "steps_left Add_Malloc = 7" | "steps_left Add_Empty = 6" | "steps_left Add_Set_Last = 5"
| "steps_left Add_Set_First = 4" | "steps_left Add_Link_Next = 5" | "steps_left Add_Move_Last = 4"
| "steps_left Add_Load_Count = 3" | "steps_left Add_Store_Count = 2" | "steps_left Add_Stat = 1"
| "steps_left Get_Attempts = 10" | "steps_left Get_Assert = 9" | "steps_left Get_Empty = 8"
| "steps_left Get_Tmp = 7" | "steps_left Get_Val = 6" | "steps_left Get_Move = 5" | "steps_left Get_Free = 4"
| "steps_left Get_Load_Count = 3" | "steps_left Get_Store_Count = 2" | "steps_left Get_Stat = 1"
| "steps_left Return = 0"

lemma qstep_steps_left:
  "qfinish l = None \<Longrightarrow> qstep p l q = Inr (l', q') \<Longrightarrow> steps_left (l_pc l') < steps_left (l_pc l)"
  by (cases "l_pc l") (auto simp: qstep_def qfinish_def ebind_Inr_iff split: option.splits if_splits)

lemma queue_chain_finite: "queue_chain q as xs \<Longrightarrow> finite (dom (q_nodes q))"
  by (simp add: queue_chain_def)

lemma queue_body_finite: "queue_body q as xs \<Longrightarrow> finite (dom (q_nodes q))"
  by (simp add: queue_body_def)

lemma queue_pending_finite: "queue_pending q as xs a v \<Longrightarrow> finite (dom (q_nodes q))"
  by (simp add: queue_pending_def)

lemma inside_at_finite: "inside_at op pc l q as xs n c \<Longrightarrow> finite (dom (q_nodes q))"
  by (cases op; cases pc)
    (auto dest: queue_chain_finite queue_body_finite queue_pending_finite split: if_splits list.splits)

lemma queue_inside_fresh:
  assumes "queue_inside op l q a"
  shows "\<exists>b. queue_malloc q (Some b)"
proof -
  from assms have "finite (dom (q_nodes q))" by (auto simp: queue_inside_def dest: inside_at_finite)
  from least_free [OF this] show ?thesis by auto
qed

text \<open>
  What the runs below leave alone: the control of \<open>main\<close>, the queue's existence, and the threads that
  have ended.
\<close>

definition same_main :: "queue_clients \<Rightarrow> queue_clients \<Rightarrow> bool" where
  "same_main s s' \<longleftrightarrow> qc_main s' = qc_main s \<and> qc_cancel s' = qc_cancel s \<and> qc_left s' = None \<and>
     \<not> qc_dangling s' \<and> ls_fault (qc_sys s') = None \<and>
     (\<forall>t. qc_thread s t = Thread_Ended \<longrightarrow> qc_thread s' t = Thread_Ended)"

lemma same_main_trans: "same_main s s' \<Longrightarrow> same_main s' s'' \<Longrightarrow> same_main s s''"
  by (simp add: same_main_def)

context queue_program
begin

abbreviation "cstep \<equiv> client_step try_lock un_lock destroy"

lemma client_inv_steps: "reach cstep s s' \<Longrightarrow> client_inv m s \<Longrightarrow> client_inv m s'"
  by (erule reach_invariant) (auto intro: client_inv_step)

text \<open>A state in which a thread can make a step.\<close>

definition client_live :: "int \<Rightarrow> queue_clients \<Rightarrow> bool" where
  "client_live m s \<longleftrightarrow> client_inv m s \<and> qc_left s = None \<and> \<not> qc_dangling s \<and> ls_fault (qc_sys s) = None"

lemma client_liveD:
  assumes "client_live m s"
  shows "client_inv m s" "qc_left s = None" "\<not> qc_dangling s" "ls_fault (qc_sys s) = None"
    "(case qc_main s of M_Exit _ \<Rightarrow> True | _ \<Rightarrow> False) = False" "client_data s" "client_control s"
    "lsys_inv ([], m) (qc_sys s)"
  using assms by (auto simp: client_live_def client_inv_def client_control_def split: main_pc.splits)

lemma client_live_step:
  "client_live m s \<Longrightarrow> cstep s s' \<Longrightarrow> same_main s s' \<Longrightarrow> client_live m s'"
  using client_inv_step by (auto simp: client_live_def same_main_def)

lemma client_live_steps:
  "client_live m s \<Longrightarrow> reach cstep s s' \<Longrightarrow> same_main s s' \<Longrightarrow> client_live m s'"
  using client_inv_steps by (auto simp: client_live_def same_main_def)

text \<open>The owner of the lock returns from its call, whatever the other threads are doing.\<close>

lemma owner_can_return:
  assumes "client_live m s" and "ls_thr (qc_sys s) t = Inside op l"
  shows "\<exists>s'. reach cstep s s' \<and> same_main s s' \<and> \<not> ls_locked (qc_sys s') \<and>
    qc_thread s' = (qc_thread s)(t := At_Test)"
  using assms
proof (induction "steps_left (l_pc l)" arbitrary: s l rule: less_induct)
  case less
  note live = client_liveD [OF less.prems(1)]
  have t: "qc_thread s t = In_Call" using client_data_in_call [OF live(6), of t op] less.prems(2) by simp
  from live(8) less.prems(2) obtain a where a: "ls_locked (qc_sys s)" "queue_inside op l (ls_obj (qc_sys s)) a"
    by (rule lsys_inv_holder) blast
  show ?case
  proof (cases "qfinish l")
    case (Some r)
    let ?sys = "(qc_sys s)\<lparr>ls_locked := un_lock (ls_locked (qc_sys s)), ls_thr := (ls_thr (qc_sys s))(t := Idle),
      ls_hist := ls_hist (qc_sys s) @ [(op, r)]\<rparr>"
    let ?s = "client_result t r (s\<lparr>qc_sys := ?sys, qc_thread := (qc_thread s)(t := At_Test)\<rparr>)"
    have k: "qc_sys ?s = ?sys" "qc_main ?s = qc_main s" "qc_cancel ?s = qc_cancel s" "qc_left ?s = qc_left s"
      "qc_dangling ?s = qc_dangling s" "qc_thread ?s = (qc_thread s)(t := At_Test)"
      by (simp_all add: client_result_def split: prod.splits)
    have "client_do try_lock un_lock destroy (C_Return t) s = Some ?s"
      using live less.prems(2) Some by (simp add: client_do_def client_touch_def lsys_do_def)
    then have "reach cstep s ?s" by (intro reach_step [OF reach_refl] client_move)
    moreover have "same_main s ?s" using live t unfolding same_main_def k by simp
    moreover have "\<not> ls_locked (qc_sys ?s)" using a un_lock_held unfolding k by simp
    ultimately show ?thesis using k(6) by blast
  next
    case None
    obtain b where b: "queue_malloc (ls_obj (qc_sys s)) (Some b)" using queue_inside_fresh [OF a(2)] by blast
    from inside_step [OF a(2) None b] obtain l' q' where st: "qstep (Some b) l (ls_obj (qc_sys s)) = Inr (l', q')"
      by (cases "qstep (Some b) l (ls_obj (qc_sys s))") auto
    let ?s = "s\<lparr>qc_sys := (qc_sys s)\<lparr>ls_obj := q', ls_thr := (ls_thr (qc_sys s))(t := Inside op l')\<rparr>\<rparr>"
    have "client_do try_lock un_lock destroy (C_Body t (Some b)) s = Some ?s"
      using live less.prems(2) None b st
      by (simp add: client_do_def client_touch_def lsys_do_def del: queue_malloc_Some)
    then have c: "cstep s ?s" by (rule client_move)
    have sm: "same_main s ?s" using live by (simp add: same_main_def)
    from less.hyps [OF qstep_steps_left [OF None st] client_live_step [OF less.prems(1) c sm]]
    obtain s' where "reach cstep ?s s'" "same_main ?s s'" "\<not> ls_locked (qc_sys s')"
      "qc_thread s' = (qc_thread ?s)(t := At_Test)" by auto
    with c sm show ?thesis
      by (intro exI [of _ s']) (auto intro: same_main_trans reach_trans reach_step [OF reach_refl])
  qed
qed

text \<open>A cancelled thread can be brought to its end from wherever it is.\<close>

definition qthread_ends :: "queue_clients \<Rightarrow> nat \<Rightarrow> bool" where
  "qthread_ends s t \<longleftrightarrow> (\<exists>s'. reach cstep s s' \<and> same_main s s' \<and> qc_thread s' t = Thread_Ended)"

lemma qthread_ends_after: "reach cstep s s' \<Longrightarrow> same_main s s' \<Longrightarrow> qthread_ends s' t \<Longrightarrow> qthread_ends s t"
  unfolding qthread_ends_def by (blast intro: reach_trans same_main_trans)

lemma qthread_ends_step: "cstep s s' \<Longrightarrow> same_main s s' \<Longrightarrow> qthread_ends s' t \<Longrightarrow> qthread_ends s t"
  by (rule qthread_ends_after [OF reach_step [OF reach_refl]])

lemma test_can_end:
  assumes "client_live m s" and "qc_cancel s t" and "qc_thread s t = At_Test"
  shows "qthread_ends s t"
proof -
  note live = client_liveD [OF assms(1)]
  let ?s = "s\<lparr>qc_thread := (qc_thread s)(t := Thread_Ended)\<rparr>"
  have "client_do try_lock un_lock destroy (C_Test t) s = Some ?s"
    using live assms by (simp add: client_do_def)
  then have "cstep s ?s" by (rule client_move)
  moreover have "same_main s ?s" using live by (simp add: same_main_def)
  moreover have "qthread_ends ?s t" using live reach_refl [of cstep ?s] by (auto simp: qthread_ends_def same_main_def)
  ultimately show ?thesis by (rule qthread_ends_step)
qed

lemma inside_can_end:
  assumes "client_live m s" and "qc_cancel s t" and "ls_thr (qc_sys s) t = Inside op l"
  shows "qthread_ends s t"
proof -
  from owner_can_return [OF assms(1,3)] obtain s' where s': "reach cstep s s'" "same_main s s'"
    "qc_thread s' = (qc_thread s)(t := At_Test)" by blast
  from s'(2) assms(2) have "qc_cancel s' t" by (simp add: same_main_def)
  with client_live_steps [OF assms(1) s'(1,2)] have "qthread_ends s' t" by (rule test_can_end) (simp add: s'(3))
  with s'(1,2) show ?thesis by (rule qthread_ends_after)
qed

lemma free_can_end:
  assumes "client_live m s" and "qc_cancel s t" and "qc_thread s t = In_Call" and "\<not> ls_locked (qc_sys s)"
  shows "qthread_ends s t"
proof -
  note live = client_liveD [OF assms(1)]
  have "thr_op (ls_thr (qc_sys s) t) \<noteq> None" using client_data_op [OF live(6), of t] assms(3) by simp
  moreover from live(8) assms(4) have "\<And>op l. ls_thr (qc_sys s) t \<noteq> Inside op l" by (rule lsys_inv_freeE) blast
  ultimately obtain op where t: "ls_thr (qc_sys s) t = Trying op" by (cases "ls_thr (qc_sys s) t") auto
  let ?s = "s\<lparr>qc_sys := (qc_sys s)\<lparr>ls_locked := True, ls_thr := (ls_thr (qc_sys s))(t := Inside op (qstart op))\<rparr>\<rparr>"
  have "client_do try_lock un_lock destroy (C_Attempt t) s = Some ?s"
    using live t assms(4) by (simp add: client_do_def client_touch_def lsys_do_def try_free)
  then have c: "cstep s ?s" by (rule client_move)
  have sm: "same_main s ?s" using live by (simp add: same_main_def)
  have "qthread_ends ?s t"
    by (rule inside_can_end [OF client_live_step [OF assms(1) c sm], of t op "qstart op"]) (simp_all add: assms(2))
  with c sm show ?thesis by (rule qthread_ends_step)
qed

lemma call_can_end:
  assumes "client_live m s" and "qc_cancel s t" and "qc_thread s t = In_Call"
  shows "qthread_ends s t"
proof (cases "ls_locked (qc_sys s)")
  case False
  with assms show ?thesis by (rule free_can_end)
next
  case True
  note live = client_liveD [OF assms(1)]
  from live(8) True obtain u op l where u: "ls_thr (qc_sys s) u = Inside op l" by (rule lsys_inv_heldE) blast
  show ?thesis
  proof (cases "u = t")
    case same: True
    with assms u show ?thesis by (blast intro: inside_can_end)
  next
    case diff: False
    from owner_can_return [OF assms(1) u] obtain s' where s': "reach cstep s s'" "same_main s s'"
      "\<not> ls_locked (qc_sys s')" "qc_thread s' = (qc_thread s)(u := At_Test)" by blast
    from s'(2) assms(2) have "qc_cancel s' t" by (simp add: same_main_def)
    with client_live_steps [OF assms(1) s'(1,2)] have "qthread_ends s' t"
      by (rule free_can_end) (use diff assms(3) s'(3,4) in auto)
    with s'(1,2) show ?thesis by (rule qthread_ends_after)
  qed
qed

lemma thread_can_end:
  assumes "client_live m s" and "qc_cancel s t" and "qc_thread s t \<noteq> Not_Created"
  shows "qthread_ends s t"
proof (cases "qc_thread s t")
  case At_Call
  note live = client_liveD [OF assms(1)]
  have "thr_op (ls_thr (qc_sys s) t) = None" using client_data_op [OF live(6), of t] At_Call by simp
  then have t: "ls_thr (qc_sys s) t = Idle" by (cases "ls_thr (qc_sys s) t") auto
  let ?s = "s\<lparr>qc_sys := (qc_sys s)\<lparr>ls_thr := (ls_thr (qc_sys s))(t := Trying (client_op s t))\<rparr>,
    qc_thread := (qc_thread s)(t := In_Call)\<rparr>"
  have "client_do try_lock un_lock destroy (C_Call t) s = Some ?s"
    using live t At_Call by (simp add: client_do_def lsys_do_def)
  then have c: "cstep s ?s" by (rule client_move)
  have sm: "same_main s ?s" using live At_Call by (simp add: same_main_def)
  have "qthread_ends ?s t" by (rule call_can_end [OF client_live_step [OF assms(1) c sm]]) (simp_all add: assms(2))
  with c sm show ?thesis by (rule qthread_ends_step)
next
  case Thread_Ended
  with client_liveD [OF assms(1)] reach_refl [of cstep s] show ?thesis by (auto simp: qthread_ends_def same_main_def)
qed (use assms test_can_end call_can_end in auto)

text \<open>The statements of \<open>main\<close> that follow, backwards from \<open>return\<close>.\<close>

definition can_exit :: "queue_clients \<Rightarrow> bool" where
  "can_exit s \<longleftrightarrow> (\<exists>s'. reach cstep s s' \<and> qc_main s' = M_Exit 0 \<and> qc_left s' = Some Map.empty \<and>
     \<not> qc_dangling s' \<and> ls_fault (qc_sys s') = None)"

lemma can_exit_after: "reach cstep s s' \<Longrightarrow> can_exit s' \<Longrightarrow> can_exit s"
  unfolding can_exit_def by (blast intro: reach_trans)

lemma program_main_step:
  assumes "client_main try_lock destroy 0 s = Some s'" and "\<not> qc_dangling s" and "ls_fault (qc_sys s) = None"
    and "\<And>rc. qc_main s \<noteq> M_Exit rc"
  shows "reach cstep s s'"
proof -
  have "client_do try_lock un_lock destroy (C_Main 0) s = Some s'"
    using assms by (simp add: client_do_def split: main_pc.splits)
  then show ?thesis by (intro reach_step [OF reach_refl] client_move)
qed

lemma main_can_exit:
  assumes "client_main try_lock destroy 0 s = Some s'" and "\<not> qc_dangling s" and "ls_fault (qc_sys s) = None"
    and "\<And>rc. qc_main s \<noteq> M_Exit rc" and "can_exit s'"
  shows "can_exit s"
  using program_main_step [OF assms(1-4)] assms(5) by (rule can_exit_after)

lemma return_can_exit:
  assumes "qc_main s = M_Return 0" and "qc_left s = Some Map.empty" and "\<not> qc_dangling s"
    and "ls_fault (qc_sys s) = None"
  shows "can_exit s"
proof (rule main_can_exit [of s "s\<lparr>qc_main := M_Exit 0\<rparr>"])
  show "can_exit (s\<lparr>qc_main := M_Exit 0\<rparr>)" unfolding can_exit_def using assms
    by (intro exI [of _ "s\<lparr>qc_main := M_Exit 0\<rparr>"]) (simp add: reach_refl)
qed (use assms in \<open>simp_all add: client_main_def\<close>)

lemma destroy_can_exit:
  assumes "client_live m s" and "qc_main s = M_Destroy 0"
  shows "can_exit s"
proof -
  note live = client_liveD [OF assms(1)]
  have idle: "thr_op (ls_thr (qc_sys s) t) = None" for t
    using live(7) assms(2) client_data_op [OF live(6), of t]
    by (cases "t = reader_tid \<or> t = writer_tid") (auto simp: client_control_def threads_over_def)
  have "\<not> ls_locked (qc_sys s)"
  proof
    assume "ls_locked (qc_sys s)"
    with live(8) obtain t op l where "ls_thr (qc_sys s) t = Inside op l" by (rule lsys_inv_heldE) blast
    with idle [of t] show False by simp
  qed
  with live(8) obtain a where f: "\<not> ls_locked (qc_sys s)" "queue_holds (ls_obj (qc_sys s)) a"
    by (metis lsys_inv_freeE)
  let ?s = "s\<lparr>qc_main := M_Return 0, qc_left := Some Map.empty\<rparr>"
  show ?thesis
  proof (rule main_can_exit [of s ?s])
    show "client_main try_lock destroy 0 s = Some ?s"
      using f assms(2) destroy_all [OF f(2)] by (simp add: client_main_def try_free)
    show "can_exit ?s" by (rule return_can_exit) (use live in simp_all)
  qed (use live assms(2) in simp_all)
qed

lemma live_main_can_exit:
  assumes "client_live m s" and "client_main try_lock destroy 0 s = Some s'"
    and "qc_left s' = None" and "\<not> qc_dangling s'" and "ls_fault (qc_sys s') = None"
    and "client_live m s' \<Longrightarrow> can_exit s'"
  shows "can_exit s"
proof (rule main_can_exit [OF assms(2)])
  note live = client_liveD [OF assms(1)]
  have "client_inv m s'" using live(1) assms(2) live(3) by (rule client_inv_main)
  with assms show "can_exit s'" by (simp add: client_live_def)
  show "qc_main s \<noteq> M_Exit rc" for rc using live(5) by auto
qed (use client_liveD [OF assms(1)] in simp_all)

lemma join_writer_can_exit:
  assumes "client_live m s" and "qc_main s = M_Join_Writer"
  shows "can_exit s"
proof -
  from client_liveD(7) [OF assms(1)] assms(2) have "qc_cancel s writer_tid" "qc_thread s writer_tid \<noteq> Not_Created"
    by (simp_all add: client_control_def)
  from thread_can_end [OF assms(1) this] obtain s' where s': "reach cstep s s'" "same_main s s'"
    "qc_thread s' writer_tid = Thread_Ended" by (auto simp: qthread_ends_def)
  have "can_exit s'"
    by (rule live_main_can_exit [OF client_live_steps [OF assms(1) s'(1,2)], of "s'\<lparr>qc_main := M_Destroy 0\<rparr>"])
      (use s' assms(2) in \<open>auto simp: client_main_def same_main_def intro: destroy_can_exit\<close>)
  with s'(1) show ?thesis by (rule can_exit_after)
qed

lemma join_reader_can_exit:
  assumes "client_live m s" and "qc_main s = M_Join_Reader"
  shows "can_exit s"
proof -
  from client_liveD(7) [OF assms(1)] assms(2) have "qc_cancel s reader_tid" "qc_thread s reader_tid \<noteq> Not_Created"
    by (simp_all add: client_control_def)
  from thread_can_end [OF assms(1) this] obtain s' where s': "reach cstep s s'" "same_main s s'"
    "qc_thread s' reader_tid = Thread_Ended" by (auto simp: qthread_ends_def)
  have "can_exit s'"
    by (rule live_main_can_exit [OF client_live_steps [OF assms(1) s'(1,2)], of "s'\<lparr>qc_main := M_Join_Writer\<rparr>"])
      (use s' assms(2) in \<open>auto simp: client_main_def same_main_def intro: join_writer_can_exit\<close>)
  with s'(1) show ?thesis by (rule can_exit_after)
qed

lemma cancel_writer_can_exit:
  assumes "client_live m s" and "qc_main s = M_Cancel_Writer"
  shows "can_exit s"
  by (rule live_main_can_exit [OF assms(1), of "s\<lparr>qc_main := M_Join_Reader, qc_cancel := (qc_cancel s)(writer_tid := True)\<rparr>"])
    (use assms client_liveD [OF assms(1)] in \<open>auto simp: client_main_def intro: join_reader_can_exit\<close>)

lemma cancel_reader_can_exit:
  assumes "client_live m s" and "qc_main s = M_Cancel_Reader"
  shows "can_exit s"
  by (rule live_main_can_exit [OF assms(1), of "s\<lparr>qc_main := M_Cancel_Writer, qc_cancel := (qc_cancel s)(reader_tid := True)\<rparr>"])
    (use assms client_liveD [OF assms(1)] in \<open>auto simp: client_main_def intro: cancel_writer_can_exit\<close>)

lemma writer_not_dangling: "client_inv m s \<Longrightarrow> qc_thread s writer_tid \<noteq> Not_Created \<Longrightarrow> \<not> qc_dangling s"
  by (auto simp: client_inv_def client_control_def threads_over_def)

lemma program_can_exit:
  assumes I: "client_inv m s" and w: "qc_thread s writer_tid \<noteq> Not_Created" and f: "ls_fault (qc_sys s) = None"
  shows "can_exit s"
proof -
  have C: "client_control s" using I by (simp add: client_inv_def)
  have d: "\<not> qc_dangling s" using I w by (rule writer_not_dangling)
  have live: "client_live m s" if "qc_left s = None" using that I d f by (simp add: client_live_def)
  show ?thesis
  proof (cases "qc_main s")
    case (M_Destroy rc)
    with C w have "rc = 0" "qc_left s = None" by (auto simp: client_control_def threads_over_def)
    with M_Destroy show ?thesis by (auto intro: destroy_can_exit live)
  next
    case (M_Return rc)
    with C w have "rc = 0" "qc_left s = Some Map.empty" by (auto simp: client_control_def threads_over_def)
    with M_Return d f show ?thesis by (auto intro: return_can_exit)
  next
    case (M_Exit rc)
    with C w have "rc = 0" "qc_left s = Some Map.empty" by (auto simp: client_control_def threads_over_def)
    with M_Exit d f reach_refl [of cstep s] show ?thesis by (auto simp: can_exit_def)
  qed (use C w live in \<open>auto simp: client_control_def intro: cancel_reader_can_exit cancel_writer_can_exit
      join_reader_can_exit join_writer_can_exit\<close>)
qed

text \<open>What the reader prints and what the two have exchanged, in every state of the program.\<close>

lemma program_order:
  assumes "client_inv m s" and "0 \<le> m"
  shows "qc_errors s = [] \<and>
    hist_got (ls_hist (qc_sys s)) = int_counts (length (hist_got (ls_hist (qc_sys s)))) \<and>
    hist_added (ls_hist (qc_sys s)) = int_counts (length (hist_added (ls_hist (qc_sys s)))) \<and>
    length (hist_got (ls_hist (qc_sys s))) \<le> length (hist_added (ls_hist (qc_sys s))) \<and>
    int (length (hist_added (ls_hist (qc_sys s)))) \<le> int (length (hist_got (ls_hist (qc_sys s)))) + m"
proof -
  from assms(1) have D: "client_data s" and "lsys_inv ([], m) (qc_sys s)" by (simp_all add: client_inv_def)
  then obtain a where a: "replay fifo_spec ([], m) (ls_hist (qc_sys s)) = Some a" unfolding lsys_inv_def by blast
  from replay_fifo [OF a] have "hist_added (ls_hist (qc_sys s)) = hist_got (ls_hist (qc_sys s)) @ fst a" by simp
  then have "length (hist_added (ls_hist (qc_sys s))) = length (hist_got (ls_hist (qc_sys s))) + length (fst a)"
    by simp
  moreover have "int (length (fst a)) \<le> m" using replay_bound [OF a] assms(2) by simp
  ultimately show ?thesis using D by (simp add: client_data_def)
qed

lemma program_shutdown:
  assumes "client_inv m s" and "qc_main s = M_Exit 0"
  shows "qc_left s = Some Map.empty \<and> \<not> qc_dangling s \<and>
    qc_thread s reader_tid = Thread_Ended \<and> qc_thread s writer_tid = Thread_Ended"
  using assms by (simp add: client_inv_def client_control_def threads_over_def)

end

section \<open>The program with each of the two locks\<close>

text \<open>The locked queues as the queue system has them, with the lock word beside the queue.\<close>

definition mutex_clients_destroy :: "queue \<Rightarrow> (fault + (addr \<rightharpoonup> qnode)) option" where
  "mutex_clients_destroy q = mutex_queue_destroy (Some (queue.extend q (mutex_queue.fields False)))"

definition spin_clients_destroy :: "queue \<Rightarrow> (fault + (addr \<rightharpoonup> qnode)) option" where
  "spin_clients_destroy q = spin_queue_destroy (Some (queue.extend q (spin_queue.fields \<lparr>spin_flag = False\<rparr>)))"

definition mutex_program_step :: "queue_clients \<Rightarrow> queue_clients \<Rightarrow> bool" where
  "mutex_program_step = client_step mutex_try mutex_release mutex_clients_destroy"

definition spin_program_step :: "queue_clients \<Rightarrow> queue_clients \<Rightarrow> bool" where
  "spin_program_step = client_step spinlock_try spinlock_clear spin_clients_destroy"

lemma clients_destroy_all:
  assumes "queue_holds q a"
  shows "mutex_clients_destroy q = Some (Inr Map.empty)" "spin_clients_destroy q = Some (Inr Map.empty)"
  using assms queue_rep_freed [of q "fst a"]
  by (simp_all add: queue_holds_def mutex_clients_destroy_def spin_clients_destroy_def mutex_queue_destroy_def
      spin_queue_destroy_def mutex_queue_lock_free spin_queue_lock_free queue.defs mutex_queue.defs spin_queue.defs)

interpretation mutex_program: queue_program mutex_try mutex_release mutex_clients_destroy
  by unfold_locales (rule clients_destroy_all)

interpretation spin_program: queue_program spinlock_try spinlock_clear spin_clients_destroy
  by unfold_locales (rule clients_destroy_all)

section \<open>Properties\<close>

lemma queue_threads_startD:
  assumes "queue_threads_start True 0 = Inr s"
  obtains q where "s = clients_init q" "queue_holds q ([], queue_capacity)"
  using assms queue_init_holds [of queue_capacity]
  by (auto simp: queue_threads_start_def ebind_Inr_iff queue_capacity_def)

text \<open>
  A run: the writer adds 0, the reader is refused the lock while it does and gets 0 afterwards.
\<close>

definition clients_demo :: "client_choice list" where
  "clients_demo = [C_Main 0, C_Main 0, C_Test writer_tid, C_Call writer_tid, C_Attempt writer_tid,
     C_Test reader_tid, C_Call reader_tid, C_Attempt reader_tid] @ replicate 3 (C_Body writer_tid None) @
     C_Body writer_tid (Some 10) # replicate 6 (C_Body writer_tid None) @ [C_Return writer_tid, C_Attempt reader_tid] @
     replicate 10 (C_Body reader_tid None) @ [C_Return reader_tid]"

text \<open>A run in which the writer cannot be created while the reader is about to call \<open>queue_get\<close>.\<close>

definition failure_demo :: "client_choice list" where
  "failure_demo = [C_Main 0, C_Test reader_tid, C_Main 1, C_Main 0, C_Call reader_tid, C_Attempt reader_tid]"

definition clients_demo_start :: queue_clients where
  "clients_demo_start = clients_init \<lparr>q_nodes = Map.empty, q_first = None, q_last = None, q_count = 0,
     q_max_count = queue_capacity, q_add_attempts = 0, q_get_attempts = 0, q_add_count = 0, q_get_count = 0\<rparr>"

lemma clients_demo_start: "queue_threads_start True 0 = Inr clients_demo_start"
  by (simp add: queue_threads_start_def queue_init_def clients_demo_start_def)

text \<open>C15: whatever the interleaving of \<open>main\<close>, the reader and the writer of \<open>queue_threads.c\<close> over the
  mutex queue, the reader never prints its error line: what the writer has put in and what the reader
  has got are the successive values \<open>0, 1, 2, \<dots>\<close> of an \<open>int\<close> counter (which, after \<open>2 ^ 31\<close> values, goes on
  from \<open>- 2 ^ 31\<close> when the overflow wraps around, as \<open>int32\<close> says), with no gap in the sequence and no
  position twice; the reader never has got more than the writer has put in, and the writer is never
  more than the capacity of the queue ahead.\<close>

theorem queue_threads_order:
  assumes "queue_threads_start True 0 = Inr s0" and "reach mutex_program_step s0 s"
  shows "qc_errors s = [] \<and>
    hist_got (ls_hist (qc_sys s)) = int_counts (length (hist_got (ls_hist (qc_sys s)))) \<and>
    hist_added (ls_hist (qc_sys s)) = int_counts (length (hist_added (ls_hist (qc_sys s)))) \<and>
    length (hist_got (ls_hist (qc_sys s))) \<le> length (hist_added (ls_hist (qc_sys s))) \<and>
    int (length (hist_added (ls_hist (qc_sys s)))) \<le> int (length (hist_got (ls_hist (qc_sys s)))) + queue_capacity"
proof -
  from assms(1) obtain q where "s0 = clients_init q" "queue_holds q ([], queue_capacity)"
    by (rule queue_threads_startD)
  with assms(2) have "mutex_program.client_inv queue_capacity s"
    unfolding mutex_program_step_def by (blast intro: mutex_program.client_inv_reach)
  then show ?thesis by (rule mutex_program.program_order) (simp add: queue_capacity_def)
qed

theorem queue_threads_order_witness:
  "\<exists>s. reach mutex_program_step clients_demo_start s \<and> qc_i s = 1 \<and> qc_expected s = 1 \<and> qc_errors s = [] \<and>
     length (hist_got (ls_hist (qc_sys s))) = 1 \<and> hist_got (ls_hist (qc_sys s)) = [0]"
proof -
  have "\<exists>s. client_run mutex_try mutex_release mutex_clients_destroy clients_demo clients_demo_start = Some s \<and>
      qc_i s = 1 \<and> qc_expected s = 1 \<and> length (hist_got (ls_hist (qc_sys s))) = 1"
    by (simp add: clients_demo_def numeral_eq_Suc client_do_def client_main_def client_touch_def client_result_def
        client_op_def lsys_do_def lsys_init_def clients_init_def clients_demo_start_def mutex_try_def mutex_release_def
        qstart_def qfinish_def qstep_def queue_malloc_def queue_capacity_def reader_tid_def writer_tid_def)
  then obtain s where s: "qc_i s = 1" "qc_expected s = 1" "length (hist_got (ls_hist (qc_sys s))) = 1"
    and r: "reach mutex_program_step clients_demo_start s"
    using client_run_reach unfolding mutex_program_step_def by blast
  from queue_threads_order [OF clients_demo_start r] have e: "qc_errors s = []"
    and g: "hist_got (ls_hist (qc_sys s)) = int_counts (length (hist_got (ls_hist (qc_sys s))))" by simp_all
  have "hist_got (ls_hist (qc_sys s)) = [0]" using g unfolding s(3) by (simp add: int_counts_def)
  with s e r show ?thesis by blast
qed

text \<open>C16: over the spinlock queue, once the writer exists and as long as no \<open>malloc\<close> has failed, the
  program can be brought to its regular end from every state it can be in: the threads are cancelled
  and joined, \<open>queue_destroy\<close> frees every node and no thread has touched the queue after that.\<close>

theorem queue_threads_finish:
  assumes "queue_threads_start True 0 = Inr s0" and "reach spin_program_step s0 s"
    and "qc_thread s writer_tid \<noteq> Not_Created" and "ls_fault (qc_sys s) = None"
  shows "\<exists>s'. reach spin_program_step s s' \<and> qc_main s' = M_Exit 0 \<and> qc_left s' = Some Map.empty \<and>
    \<not> qc_dangling s' \<and> ls_fault (qc_sys s') = None \<and> qc_errors s' = [] \<and>
    qc_thread s' reader_tid = Thread_Ended \<and> qc_thread s' writer_tid = Thread_Ended"
proof -
  from assms(1) obtain q where "s0 = clients_init q" "queue_holds q ([], queue_capacity)"
    by (rule queue_threads_startD)
  with assms(2) have I: "spin_program.client_inv queue_capacity s"
    unfolding spin_program_step_def by (blast intro: spin_program.client_inv_reach)
  from spin_program.program_can_exit [OF I assms(3,4)] obtain s' where
    s': "reach spin_program_step s s'" "qc_main s' = M_Exit 0" "ls_fault (qc_sys s') = None"
    unfolding spin_program.can_exit_def spin_program_step_def by blast
  then have I': "spin_program.client_inv queue_capacity s'"
    using spin_program.client_inv_steps [OF _ I] by (simp add: spin_program_step_def)
  from spin_program.program_order [OF this] have "qc_errors s' = []" by (simp add: queue_capacity_def)
  with s' spin_program.program_shutdown [OF I' s'(2)] show ?thesis by blast
qed

theorem queue_threads_finish_witness:
  "\<exists>s s'. qc_expected s = 1 \<and> reach spin_program_step s s' \<and> qc_main s' = M_Exit 0 \<and> qc_left s' = Some Map.empty"
proof -
  have "\<exists>s. client_run spinlock_try spinlock_clear spin_clients_destroy clients_demo clients_demo_start = Some s \<and>
      qc_expected s = 1 \<and> qc_thread s writer_tid \<noteq> Not_Created \<and> ls_fault (qc_sys s) = None"
    by (simp add: clients_demo_def numeral_eq_Suc client_do_def client_main_def client_touch_def client_result_def
        client_op_def lsys_do_def lsys_init_def clients_init_def clients_demo_start_def spinlock_try_def
        spinlock_clear_def spinlock_unlock_def test_and_set_def
        qstart_def qfinish_def qstep_def queue_malloc_def queue_capacity_def reader_tid_def writer_tid_def)
  then obtain s where s: "qc_expected s = 1" "qc_thread s writer_tid \<noteq> Not_Created" "ls_fault (qc_sys s) = None"
    and r: "reach spin_program_step clients_demo_start s"
    using client_run_reach unfolding spin_program_step_def by blast
  from queue_threads_finish [OF clients_demo_start r s(2,3)] s(1) show ?thesis by blast
qed

text \<open>when the writer cannot be created, \<open>main\<close> destroys the queue without stopping the reader, which
  then uses the freed queue.\<close>

theorem queue_threads_create_failure:
  "\<exists>s. reach mutex_program_step clients_demo_start s \<and> qc_main s = M_Return 1 \<and> qc_left s = Some Map.empty \<and>
     qc_dangling s"
proof -
  have "mutex_clients_destroy (ls_obj (qc_sys clients_demo_start)) = Some (Inr Map.empty)"
    by (rule clients_destroy_all(1) [of _ "([], queue_capacity)"])
      (simp add: clients_demo_start_def clients_init_def lsys_init_def queue_holds_def queue_rep_def queue_chain_def
        queue_capacity_def)
  then have "\<exists>s. client_run mutex_try mutex_release mutex_clients_destroy failure_demo clients_demo_start = Some s \<and>
      qc_main s = M_Return 1 \<and> qc_left s = Some Map.empty \<and> qc_dangling s"
    by (simp add: failure_demo_def client_do_def client_main_def client_touch_def
        client_op_def lsys_do_def lsys_init_def clients_init_def clients_demo_start_def mutex_try_def
        reader_tid_def writer_tid_def)
  then show ?thesis using client_run_reach unfolding mutex_program_step_def by blast
qed

end
