(* ===== verification/Race_Order.thy ===== *)
theory Race_Order
  imports Queue_Race Queue_Clients
begin

text \<open>
  The whole program \<open>lab2/src/1/b.c\<close>: \<open>main\<close> creates the reader and the writer and ends with
  \<open>pthread_exit\<close>; the two threads use the queue without a lock, interleaved at the atomic steps of
  theory \<open>Queue_Steps\<close>. Theory \<open>Queue_Race\<close> shows how this goes wrong; here is what still holds in
  every interleaving as long as no freed or unallocated memory has been touched: the reader gets the values in increasing order, so that its
  error lines report lost values only, never a value that comes twice or out of order.
\<close>

section \<open>The program\<close>

datatype race_main_pc = B_Create_Reader | B_Create_Writer | B_Pthread_Exit | B_Main_Over | B_Exit int

record race_clients =
  bc_main :: race_main_pc
  bc_thread :: "nat \<Rightarrow> client_pc"
  bc_expected :: int
  bc_i :: int
  bc_errors :: "(int \<times> int) list"
  bc_sys :: queue_system

definition race_init :: "queue \<Rightarrow> race_clients" where
  "race_init q = \<lparr>bc_main = B_Create_Reader, bc_thread = (\<lambda>_. Not_Created), bc_expected = 0, bc_i = 0,
     bc_errors = [], bc_sys = lsys_init q\<rparr>"

definition race_start :: "bool \<Rightarrow> int \<Rightarrow> fault + race_clients" where
  "race_start q_ok err = ebind (queue_init q_ok err 1000000) (\<lambda>q. Inr (race_init q))"

text \<open>
  One statement of \<open>main\<close>; \<open>err\<close> is the result of \<open>pthread_create\<close>. After \<open>pthread_exit\<close> the process goes
  on with the other threads.
\<close>

definition race_main :: "int \<Rightarrow> race_clients \<Rightarrow> race_clients option" where
  "race_main err s = (case bc_main s of
     B_Create_Reader \<Rightarrow> Some (if err \<noteq> 0 then s\<lparr>bc_main := B_Exit (-1)\<rparr>
       else s\<lparr>bc_main := B_Create_Writer, bc_thread := (bc_thread s)(reader_tid := At_Call)\<rparr>)
   | B_Create_Writer \<Rightarrow> Some (if err \<noteq> 0 then s\<lparr>bc_main := B_Exit (-1)\<rparr>
       else s\<lparr>bc_main := B_Pthread_Exit, bc_thread := (bc_thread s)(writer_tid := At_Call)\<rparr>)
   | B_Pthread_Exit \<Rightarrow> Some (s\<lparr>bc_main := B_Main_Over\<rparr>)
   | B_Main_Over \<Rightarrow> None
   | B_Exit rc \<Rightarrow> None)"

definition race_op :: "race_clients \<Rightarrow> nat \<Rightarrow> qop" where
  "race_op s t = (if t = reader_tid then Op_Get (-1) else Op_Add (bc_i s))"

definition race_result :: "nat \<Rightarrow> int \<times> int \<Rightarrow> race_clients \<Rightarrow> race_clients" where
  "race_result t r s = (case r of (ok, val) \<Rightarrow>
     if ok = 0 then s
     else if t = reader_tid then
       s\<lparr>bc_errors := (if bc_expected s \<noteq> val then bc_errors s @ [(val, bc_expected s)] else bc_errors s),
         bc_expected := int32 (val + 1)\<rparr>
     else s\<lparr>bc_i := int32 (bc_i s + 1)\<rparr>)"

datatype race_choice = B_Main int | B_Call nat | B_Attempt nat | B_Body nat ptr | B_Return nat

definition race_do :: "race_choice \<Rightarrow> race_clients \<Rightarrow> race_clients option" where
  "race_do e s =
    (let sysdo = (\<lambda>c. lsys_do no_lock_try no_lock_release qstart qfinish qstep queue_malloc c (bc_sys s)) in
     if ls_fault (bc_sys s) \<noteq> None \<or> (case bc_main s of B_Exit _ \<Rightarrow> True | _ \<Rightarrow> False) then None
     else case e of
       B_Main err \<Rightarrow> race_main err s
     | B_Call t \<Rightarrow> (if bc_thread s t = At_Call
         then map_option (\<lambda>sys. s\<lparr>bc_sys := sys, bc_thread := (bc_thread s)(t := In_Call)\<rparr>) (sysdo (Call t (race_op s t)))
         else None)
     | B_Attempt t \<Rightarrow> map_option (\<lambda>sys. s\<lparr>bc_sys := sys\<rparr>) (sysdo (Attempt t))
     | B_Body t p \<Rightarrow> map_option (\<lambda>sys. s\<lparr>bc_sys := sys\<rparr>) (sysdo (Body t p))
     | B_Return t \<Rightarrow> map_option (\<lambda>sys. race_result t (snd (last (ls_hist sys)))
         (s\<lparr>bc_sys := sys, bc_thread := (bc_thread s)(t := At_Call)\<rparr>)) (sysdo (Unlock t)))"

fun race_program_run :: "race_choice list \<Rightarrow> race_clients \<Rightarrow> race_clients option" where
  "race_program_run [] s = Some s"
| "race_program_run (e # es) s = Option.bind (race_do e s) (race_program_run es)"

inductive race_program_step :: "race_clients \<Rightarrow> race_clients \<Rightarrow> bool" where
  race_move: "race_do e s = Some s' \<Longrightarrow> race_program_step s s'"

inductive_cases race_program_stepE: "race_program_step s s'"

lemma race_program_reach: "race_program_run es s = Some s' \<Longrightarrow> reach race_program_step s s'"
proof (induction es arbitrary: s)
  case Nil
  then show ?case by (simp add: reach_refl)
next
  case (Cons e es)
  then obtain t where "race_do e s = Some t" "race_program_run es t = Some s'" by (auto split: Option.bind_splits)
  with Cons.IH show ?case by (blast intro: race_move reach_trans reach_step [OF reach_refl])
qed

section \<open>What holds at the control points\<close>

text \<open>
  The nodes \<open>as\<close> that the reader will still see hang from \<open>first\<close>. The writer's node is \<open>unlinked\<close> until
  it hangs there; nodes may be outside both (lost ones, or the one being freed).
\<close>

definition last_ok :: "queue \<Rightarrow> addr list \<Rightarrow> bool" where
  "last_ok q as \<longleftrightarrow> (as \<noteq> [] \<longrightarrow> q_last q = Some (last as))"

definition fresh_node :: "queue \<Rightarrow> addr list \<Rightarrow> qlocal \<Rightarrow> bool" where
  "fresh_node q as l \<longleftrightarrow> (\<exists>a. l_new l = Some a \<and> q_nodes q a = Some \<lparr>qn_val = l_val l, qn_next = None\<rparr> \<and> a \<notin> set as)"

fun writer_at :: "qpc \<Rightarrow> queue \<Rightarrow> addr list \<Rightarrow> qlocal \<Rightarrow> bool" where
  "writer_at Add_Empty q as l \<longleftrightarrow> last_ok q as \<and> fresh_node q as l"
| "writer_at Add_Set_Last q as l \<longleftrightarrow> as = [] \<and> fresh_node q as l"
| "writer_at Add_Set_First q as l \<longleftrightarrow> as = [] \<and> fresh_node q as l \<and> q_last q = l_new l"
| "writer_at Add_Link_Next q as l \<longleftrightarrow> last_ok q as \<and> fresh_node q as l"
| "writer_at Add_Move_Last q as l \<longleftrightarrow> (\<exists>a. l_new l = Some a \<and> (as = [] \<or> last as = a) \<and>
     (\<forall>b n. q_last q = Some b \<and> q_nodes q b = Some n \<longrightarrow> qn_next n = Some a))"
| "writer_at Get_Attempts q as l \<longleftrightarrow> False" | "writer_at Get_Assert q as l \<longleftrightarrow> False"
| "writer_at Get_Empty q as l \<longleftrightarrow> False" | "writer_at Get_Tmp q as l \<longleftrightarrow> False"
| "writer_at Get_Val q as l \<longleftrightarrow> False" | "writer_at Get_Move q as l \<longleftrightarrow> False"
| "writer_at Get_Free q as l \<longleftrightarrow> False" | "writer_at Get_Load_Count q as l \<longleftrightarrow> False"
| "writer_at Get_Store_Count q as l \<longleftrightarrow> False" | "writer_at Get_Stat q as l \<longleftrightarrow> False"
| "writer_at _ q as l \<longleftrightarrow> last_ok q as"

definition unlinked :: "qlocal option \<Rightarrow> ptr" where
  "unlinked W = (case W of None \<Rightarrow> None
     | Some l \<Rightarrow> if l_pc l \<in> {Add_Empty, Add_Set_Last, Add_Set_First, Add_Link_Next} then l_new l else None)"

fun reader_at :: "qpc \<Rightarrow> queue \<Rightarrow> addr list \<Rightarrow> qlocal \<Rightarrow> ptr \<Rightarrow> bool" where
  "reader_at Get_Val q as l u \<longleftrightarrow> l_tmp l = None \<or> l_tmp l = q_first q"
| "reader_at Get_Move q as l u \<longleftrightarrow> as \<noteq> [] \<and> l_tmp l = Some (hd as) \<and> l_val l = qn_val (the (q_nodes q (hd as)))"
| "reader_at Get_Free q as l u \<longleftrightarrow> (\<exists>t. l_tmp l = Some t \<and> t \<notin> set as \<and> u \<noteq> Some t \<and> q_nodes q t \<noteq> None)"
| "reader_at Get_Attempts q as l u \<longleftrightarrow> True" | "reader_at Get_Assert q as l u \<longleftrightarrow> True"
| "reader_at Get_Empty q as l u \<longleftrightarrow> True" | "reader_at Get_Tmp q as l u \<longleftrightarrow> True"
| "reader_at Get_Load_Count q as l u \<longleftrightarrow> True" | "reader_at Get_Store_Count q as l u \<longleftrightarrow> True"
| "reader_at Get_Stat q as l u \<longleftrightarrow> True" | "reader_at Return q as l u \<longleftrightarrow> True"
| "reader_at _ q as l u \<longleftrightarrow> False"

text \<open>The value the reader has taken out but not returned yet, and a bound on all values that were linked.\<close>

definition pending :: "qlocal option \<Rightarrow> int list" where
  "pending R = (case R of None \<Rightarrow> []
     | Some l \<Rightarrow> if l_pc l \<in> {Get_Free, Get_Load_Count, Get_Store_Count, Get_Stat} \<or> l_pc l = Return \<and> l_ret l \<noteq> 0
         then [l_val l] else [])"

definition bound :: "qlocal option \<Rightarrow> int \<Rightarrow> int" where
  "bound W i = (case W of None \<Rightarrow> i
     | Some l \<Rightarrow> if l_pc l \<in> {Add_Move_Last, Add_Load_Count, Add_Store_Count, Add_Stat} \<or> l_pc l = Return \<and> l_ret l \<noteq> 0
         then i + 1 else i)"

definition node_vals :: "queue \<Rightarrow> addr list \<Rightarrow> int list" where
  "node_vals q as = map (\<lambda>a. qn_val (the (q_nodes q a))) as"

text \<open>\<open>W\<close> and \<open>R\<close> are the locals of the writer and of the reader while they are inside a call.\<close>

definition race_shape_at :: "queue \<Rightarrow> addr list \<Rightarrow> qlocal option \<Rightarrow> qlocal option \<Rightarrow> int list \<Rightarrow> int \<Rightarrow> bool" where
  "race_shape_at q as W R got i \<longleftrightarrow> 0 \<le> i \<and>
     path qn_next (q_nodes q) (q_first q) as None \<and>
     (case W of None \<Rightarrow> last_ok q as | Some l \<Rightarrow> l_val l = i \<and> writer_at (l_pc l) q as l) \<and>
     (case R of None \<Rightarrow> True | Some l \<Rightarrow> reader_at (l_pc l) q as l (unlinked W)) \<and>
     sorted_wrt (<) (-1 # got @ pending R @ node_vals q as) \<and>
     (\<forall>x\<in>set (got @ pending R @ node_vals q as). x < bound W i)"

definition race_shape :: "queue \<Rightarrow> qlocal option \<Rightarrow> qlocal option \<Rightarrow> int list \<Rightarrow> int \<Rightarrow> bool" where
  "race_shape q W R got i \<longleftrightarrow> (\<exists>as. race_shape_at q as W R got i)"

lemma race_shape_atI:
  assumes "0 \<le> i" and "path qn_next (q_nodes q) (q_first q) as None"
    and "case W of None \<Rightarrow> last_ok q as | Some l \<Rightarrow> l_val l = i \<and> writer_at (l_pc l) q as l"
    and "case R of None \<Rightarrow> True | Some l \<Rightarrow> reader_at (l_pc l) q as l (unlinked W)"
    and "sorted_wrt (<) (-1 # got @ pending R @ node_vals q as)"
    and "\<And>x. x \<in> set (got @ pending R @ node_vals q as) \<Longrightarrow> x < bound W i"
  shows "race_shape_at q as W R got i"
  using assms by (simp add: race_shape_at_def)

lemma node_vals_cong:
  "(\<And>a. a \<in> set as \<Longrightarrow> qn_val (the (q_nodes q' a)) = qn_val (the (q_nodes q a))) \<Longrightarrow> node_vals q' as = node_vals q as"
  by (simp add: node_vals_def)

section \<open>A step of the writer\<close>

text \<open>The writer leaves the reader's assertion alone: it frees nothing and moves \<open>first\<close> only from \<open>NULL\<close>.\<close>

lemma reader_frame:
  assumes "reader_at pc q as l u" and "set as \<subseteq> dom (q_nodes q)"
    and "\<And>b n. q_nodes q b = Some n \<Longrightarrow> \<exists>m. q_nodes q' b = Some m \<and> qn_val m = qn_val n"
    and "as \<noteq> [] \<Longrightarrow> as' \<noteq> [] \<and> hd as' = hd as"
    and "\<And>t. t \<notin> set as \<Longrightarrow> u \<noteq> Some t \<Longrightarrow> q_nodes q t \<noteq> None \<Longrightarrow> t \<notin> set as' \<and> u' \<noteq> Some t"
    and "q_first q = None \<or> q_first q' = q_first q"
  shows "reader_at pc q' as' l u'"
proof (cases pc)
  case Get_Move
  with assms(1) have "as \<noteq> []" "l_tmp l = Some (hd as)" "l_val l = qn_val (the (q_nodes q (hd as)))" by simp_all
  moreover from this(1) assms(2) obtain n where "q_nodes q (hd as) = Some n" by (cases as) auto
  ultimately show ?thesis using assms(3) [of "hd as" n] assms(4) Get_Move by auto
next
  case Get_Free
  with assms(1) obtain t where "l_tmp l = Some t" "t \<notin> set as" "u \<noteq> Some t" "q_nodes q t \<noteq> None" by auto
  then show ?thesis using assms(3) [of t] assms(5) [of t] Get_Free by auto
qed (use assms(1,6) in auto)

lemma reader_frame_opt:
  assumes "case R of None \<Rightarrow> True | Some l \<Rightarrow> reader_at (l_pc l) q as l u" and "set as \<subseteq> dom (q_nodes q)"
    and "\<And>b n. q_nodes q b = Some n \<Longrightarrow> \<exists>m. q_nodes q' b = Some m \<and> qn_val m = qn_val n"
    and "as \<noteq> [] \<Longrightarrow> as' \<noteq> [] \<and> hd as' = hd as"
    and "\<And>t. t \<notin> set as \<Longrightarrow> u \<noteq> Some t \<Longrightarrow> q_nodes q t \<noteq> None \<Longrightarrow> t \<notin> set as' \<and> u' \<noteq> Some t"
    and "q_first q = None \<or> q_first q' = q_first q"
  shows "case R of None \<Rightarrow> True | Some l \<Rightarrow> reader_at (l_pc l) q' as' l u'"
proof (cases R)
  case (Some l)
  with reader_frame [OF _ assms(2-6), of "l_pc l" l] assms(1) show ?thesis by simp
qed simp

lemma writer_at_cong:
  "q_nodes q' = q_nodes q \<Longrightarrow> q_last q' = q_last q \<Longrightarrow> writer_at pc q' as l = writer_at pc q as l"
  by (cases pc) (auto simp: last_ok_def fresh_node_def)

text \<open>Steps of the writer that leave nodes and \<open>first\<close> alone.\<close>

lemma writer_step_same:
  assumes S: "race_shape_at q as (Some l) R got i"
    and q': "q_nodes q' = q_nodes q" "q_first q' = q_first q"
    and w: "l_val l' = l_val l" "writer_at (l_pc l') q' as l'" "unlinked (Some l') = unlinked (Some l) \<or> unlinked (Some l') = None"
    and b: "bound (Some l) i \<le> bound (Some l') i"
  shows "race_shape_at q' as (Some l') R got i"
proof (rule race_shape_atI)
  have D: "set as \<subseteq> dom (q_nodes q)" 
    by (rule path_dom [of qn_next _ "q_first q" _ None]) (use S in \<open>simp add: race_shape_at_def\<close>)
  show "path qn_next (q_nodes q') (q_first q') as None" "0 \<le> i" using S q' by (simp_all add: race_shape_at_def)
  show "case Some l' of None \<Rightarrow> last_ok q' as | Some l \<Rightarrow> l_val l = i \<and> writer_at (l_pc l) q' as l"
    using S w(1,2) by (simp add: race_shape_at_def)
  show "case R of None \<Rightarrow> True | Some l \<Rightarrow> reader_at (l_pc l) q' as l (unlinked (Some l'))"
    by (rule reader_frame_opt [where q = q and as = as and u = "unlinked (Some l)"])
      (use S q' w(3) D in \<open>auto simp: race_shape_at_def\<close>)
  have v: "node_vals q' as = node_vals q as" by (rule node_vals_cong) (simp add: q')
  show "sorted_wrt (<) (-1 # got @ pending R @ node_vals q' as)" unfolding v using S by (simp add: race_shape_at_def)
  show "x < bound (Some l') i" if "x \<in> set (got @ pending R @ node_vals q' as)" for x
    using S that b unfolding v race_shape_at_def by fastforce
qed

lemma writer_malloc:
  assumes S: "race_shape_at q as (Some l) R got i" and pc: "l_pc l = Add_Malloc" and a: "q_nodes q a = None"
  shows "race_shape_at (q\<lparr>q_nodes := (q_nodes q)(a \<mapsto> \<lparr>qn_val = l_val l, qn_next = None\<rparr>)\<rparr>) as
     (Some (l\<lparr>l_pc := Add_Empty, l_new := Some a\<rparr>)) R got i" (is "race_shape_at ?q as (Some ?l) R got i")
proof (rule race_shape_atI)
  have P: "path qn_next (q_nodes q) (q_first q) as None" and lo: "last_ok q as" and v: "l_val l = i"
    using S pc by (simp_all add: race_shape_at_def)
  have na: "a \<notin> set as" using path_dom [OF P] a by auto
  then show "path qn_next (q_nodes ?q) (q_first ?q) as None" using P by simp
  show "0 \<le> i" using S by (simp add: race_shape_at_def)
  show "case Some ?l of None \<Rightarrow> last_ok ?q as | Some l \<Rightarrow> l_val l = i \<and> writer_at (l_pc l) ?q as l"
    using lo v na by (simp add: last_ok_def fresh_node_def)
  show "case R of None \<Rightarrow> True | Some l \<Rightarrow> reader_at (l_pc l) ?q as l (unlinked (Some ?l))"
    by (rule reader_frame_opt [where q = q and as = as and u = "unlinked (Some l)"])
      (use S a path_dom [OF P] in \<open>auto simp: race_shape_at_def unlinked_def\<close>)
  have vs: "node_vals ?q as = node_vals q as" by (rule node_vals_cong) (use na in auto)
  show "sorted_wrt (<) (-1 # got @ pending R @ node_vals ?q as)" unfolding vs using S by (simp add: race_shape_at_def)
  show "x < bound (Some ?l) i" if "x \<in> set (got @ pending R @ node_vals ?q as)" for x
    using S that pc unfolding vs by (simp add: race_shape_at_def bound_def)
qed

lemma writer_set_first:
  assumes S: "race_shape_at q as (Some l) R got i" and pc: "l_pc l = Add_Set_First"
  shows "\<exists>as'. race_shape_at (q\<lparr>q_first := l_new l\<rparr>) as' (Some (l\<lparr>l_pc := Add_Load_Count\<rparr>)) R got i"
    (is "\<exists>as'. race_shape_at ?q as' (Some ?l) R got i")
proof -
  from S pc obtain a where as: "as = []" and a: "l_new l = Some a" "q_nodes q a = Some \<lparr>qn_val = i, qn_next = None\<rparr>"
    and la: "q_last q = Some a" by (auto simp: race_shape_at_def fresh_node_def)
  have f: "q_first q = None" using S as by (simp add: race_shape_at_def)
  have "race_shape_at ?q [a] (Some ?l) R got i"
  proof (rule race_shape_atI)
    show "path qn_next (q_nodes ?q) (q_first ?q) [a] None" using a by simp
    show i: "0 \<le> i" using S by (simp add: race_shape_at_def)
    show "case Some ?l of None \<Rightarrow> last_ok ?q [a] | Some l \<Rightarrow> l_val l = i \<and> writer_at (l_pc l) ?q [a] l"
      using S la by (simp add: race_shape_at_def last_ok_def)
    show "case R of None \<Rightarrow> True | Some l \<Rightarrow> reader_at (l_pc l) ?q [a] l (unlinked (Some ?l))"
      by (rule reader_frame_opt [where q = q and as = as and u = "unlinked (Some l)"])
        (use S pc a f as in \<open>auto simp: race_shape_at_def unlinked_def\<close>)
    have v: "node_vals ?q [a] = [i]" using a by (simp add: node_vals_def)
    have B: "x < i" if "x \<in> set (got @ pending R)" for x
      using S that pc as by (auto simp: race_shape_at_def bound_def node_vals_def)
    have "sorted_wrt (<) (-1 # got @ pending R)" using S as by (simp add: race_shape_at_def node_vals_def)
    then show "sorted_wrt (<) (-1 # got @ pending R @ node_vals ?q [a])"
      unfolding v using B i by (auto simp: sorted_wrt_append)
    show "x < bound (Some ?l) i" if "x \<in> set (got @ pending R @ node_vals ?q [a])" for x
      using B that unfolding v by (fastforce simp: bound_def)
  qed
  then show ?thesis by blast
qed

lemma writer_link_next:
  assumes S: "race_shape_at q as (Some l) R got i" and pc: "l_pc l = Add_Link_Next"
    and b: "q_last q = Some b" "q_nodes q b = Some n"
  shows "\<exists>as'. race_shape_at (q\<lparr>q_nodes := (q_nodes q)(b \<mapsto> n\<lparr>qn_next := l_new l\<rparr>)\<rparr>) as'
     (Some (l\<lparr>l_pc := Add_Move_Last\<rparr>)) R got i" (is "\<exists>as'. race_shape_at ?q as' (Some ?l) R got i")
proof -
  from S pc obtain a where a: "l_new l = Some a" "q_nodes q a = Some \<lparr>qn_val = i, qn_next = None\<rparr>" "a \<notin> set as"
    and lo: "last_ok q as" by (auto simp: race_shape_at_def fresh_node_def)
  have P: "path qn_next (q_nodes q) (q_first q) as None" and i: "0 \<le> i" and lv: "l_val l = i"
    using S by (simp_all add: race_shape_at_def)
  let ?as = "if as = [] then [] else as @ [a]"
  have P': "path qn_next (q_nodes ?q) (q_first ?q) ?as None"
  proof (cases "as = []")
    case False
    then have l: "b = last as" using lo b by (simp add: last_ok_def)
    then have "a \<noteq> b" using a(3) False by auto
    then have "(q_nodes q)(last as \<mapsto> n\<lparr>qn_next := Some a\<rparr>, a \<mapsto> \<lparr>qn_val = i, qn_next = None\<rparr>) = q_nodes ?q"
      using a(1,2) l by (auto simp: fun_eq_iff)
    with path_link_last [OF P False a(3), of "n\<lparr>qn_next := Some a\<rparr>" "\<lparr>qn_val = i, qn_next = None\<rparr>"] False
    show ?thesis by simp
  qed (use P in simp)
  have B: "x < i" if "x \<in> set (got @ pending R @ node_vals q as)" for x
    using S that pc by (simp add: race_shape_at_def bound_def)
  have v: "node_vals ?q ?as = (if as = [] then [] else node_vals q as @ [i])"
    using a(2) b by (auto simp: node_vals_def)
  have "race_shape_at ?q ?as (Some ?l) R got i"
  proof (rule race_shape_atI [OF i P'])
    show "case Some ?l of None \<Rightarrow> last_ok ?q ?as | Some l \<Rightarrow> l_val l = i \<and> writer_at (l_pc l) ?q ?as l"
      using a b lv by auto
    show "case R of None \<Rightarrow> True | Some l \<Rightarrow> reader_at (l_pc l) ?q ?as l (unlinked (Some ?l))"
      by (rule reader_frame_opt [where q = q and as = as and u = "unlinked (Some l)"])
        (use S pc a(1) b path_dom [OF P] in \<open>auto simp: race_shape_at_def unlinked_def hd_append\<close>)
    show "sorted_wrt (<) (-1 # got @ pending R @ node_vals ?q ?as)"
    proof (cases "as = []")
      case True
      then show ?thesis using S by (simp add: race_shape_at_def node_vals_def)
    next
      case False
      have "sorted_wrt (<) ((-1 # got @ pending R @ node_vals q as) @ [i])"
        unfolding sorted_wrt_append using S B i by (auto simp: race_shape_at_def)
      then show ?thesis unfolding v using False by simp
    qed
    show "x < bound (Some ?l) i" if "x \<in> set (got @ pending R @ node_vals ?q ?as)" for x
      using B that unfolding v by (fastforce simp: bound_def split: if_splits)
  qed
  then show ?thesis by blast
qed

lemma writer_move_last:
  assumes S: "race_shape_at q as (Some l) R got i" and pc: "l_pc l = Add_Move_Last"
    and b: "q_last q = Some b" "q_nodes q b = Some n"
  shows "race_shape_at (q\<lparr>q_last := qn_next n\<rparr>) as (Some (l\<lparr>l_pc := Add_Load_Count\<rparr>)) R got i"
proof -
  from S pc obtain a where "l_new l = Some a" "as = [] \<or> last as = a" "qn_next n = Some a"
    using b by (auto simp: race_shape_at_def)
  then show ?thesis
    by (intro writer_step_same [OF S]) (auto simp: last_ok_def unlinked_def bound_def)
qed

lemma writer_step:
  assumes S: "race_shape q (Some l) R got i" and f: "qfinish l = None" and m: "queue_malloc q p"
    and st: "qstep p l q = Inr (l', q')"
  shows "race_shape q' (Some l') R got i"
proof -
  from S obtain as where A: "race_shape_at q as (Some l) R got i" by (auto simp: race_shape_def)
  then have w: "writer_at (l_pc l) q as l" by (simp add: race_shape_at_def)
  have P: "path qn_next (q_nodes q) (q_first q) as None" using A by (simp add: race_shape_at_def)
  note same = writer_step_same [OF A]
  have "\<exists>as'. race_shape_at q' as' (Some l') R got i"
  proof (cases "l_pc l")
    case Add_Malloc
    with st m obtain a where "p = Some a" "q_nodes q a = None" by (auto simp: qstep_def split: option.splits)
    with st Add_Malloc writer_malloc [OF A Add_Malloc] show ?thesis by (auto simp: qstep_def)
  next
    case Add_Empty
    have "as = [] \<longleftrightarrow> q_first q = None" using P by (cases as) auto
    with st Add_Empty w show ?thesis
      by (intro exI [of _ as] same) (auto simp: qstep_def unlinked_def bound_def fresh_node_def split: if_splits)
  next
    case Add_Set_Last
    with st w show ?thesis
      by (intro exI [of _ as] same) (auto simp: qstep_def unlinked_def bound_def fresh_node_def)
  next
    case Add_Set_First
    with st writer_set_first [OF A Add_Set_First] show ?thesis by (auto simp: qstep_def)
  next
    case Add_Link_Next
    with st obtain b n where "q_last q = Some b" "q_nodes q b = Some n"
      by (auto simp: qstep_def store_def ebind_Inr_iff split: option.splits)
    with st Add_Link_Next writer_link_next [OF A Add_Link_Next this] show ?thesis by (auto simp: qstep_def)
  next
    case Add_Move_Last
    with st obtain b n where "q_last q = Some b" "q_nodes q b = Some n"
      by (auto simp: qstep_def load_def ebind_Inr_iff split: option.splits)
    with st Add_Move_Last writer_move_last [OF A Add_Move_Last this] show ?thesis by (auto simp: qstep_def)
  next
    case Add_Full
    with st w show ?thesis
      by (intro exI [of _ as] same) (auto simp: qstep_def unlinked_def bound_def split: if_splits)
  qed (rule exI [of _ as], rule same;
      use st w f in \<open>auto simp: qstep_def qfinish_def ebind_Inr_iff unlinked_def bound_def last_ok_def split: if_splits\<close>)+
  then show ?thesis by (simp add: race_shape_def)
qed

section \<open>A step of the reader\<close>

text \<open>The reader frees only nodes that it has taken out, and does not touch \<open>last\<close>.\<close>

lemma writer_frame:
  assumes "writer_at pc q as l" and "q_last q' = q_last q"
    and "as' = as \<or> as' = tl as"
    and "\<And>b n. q_nodes q' b = Some n \<Longrightarrow> q_nodes q b = Some n"
    and "\<And>a. pc \<in> {Add_Empty, Add_Set_Last, Add_Set_First, Add_Link_Next} \<Longrightarrow> l_new l = Some a \<Longrightarrow> q_nodes q' a = q_nodes q a"
  shows "writer_at pc q' as' l"
proof -
  have lo: "last_ok q as \<Longrightarrow> last_ok q' as'"
    using assms(2,3) by (cases as) (auto simp: last_ok_def)
  have sub: "set as' \<subseteq> set as" using assms(3) by (cases as) auto
  have fr: "pc \<in> {Add_Empty, Add_Set_Last, Add_Set_First, Add_Link_Next} \<Longrightarrow> fresh_node q as l \<Longrightarrow> fresh_node q' as' l"
    using assms(5) sub by (fastforce simp: fresh_node_def)
  show ?thesis
  proof (cases pc)
    case Add_Move_Last
    with assms(1) obtain a where a: "l_new l = Some a" "as = [] \<or> last as = a"
      "\<forall>b n. q_last q = Some b \<and> q_nodes q b = Some n \<longrightarrow> qn_next n = Some a" by auto
    have "as' = [] \<or> last as' = a" using a(2) assms(3) by (cases as; cases "tl as") auto
    with a(1,3) assms(2,4) Add_Move_Last show ?thesis by auto
  next
    case Add_Set_Last
    with assms(1,3) fr show ?thesis by auto
  next
    case Add_Set_First
    with assms(1-3) fr show ?thesis by auto
  qed (use assms(1) lo fr in auto)
qed

lemma writer_frame_opt:
  assumes "case W of None \<Rightarrow> last_ok q as | Some l \<Rightarrow> l_val l = i \<and> writer_at (l_pc l) q as l" and "q_last q' = q_last q"
    and "as' = as \<or> as' = tl as"
    and "\<And>b n. q_nodes q' b = Some n \<Longrightarrow> q_nodes q b = Some n"
    and "\<And>a. unlinked W = Some a \<Longrightarrow> q_nodes q' a = q_nodes q a"
  shows "case W of None \<Rightarrow> last_ok q' as' | Some l \<Rightarrow> l_val l = i \<and> writer_at (l_pc l) q' as' l"
proof (cases W)
  case None
  with assms(1-3) show ?thesis by (cases as) (auto simp: last_ok_def)
next
  case (Some l)
  with writer_frame [OF _ assms(2-4), of "l_pc l" l] assms(1,5) show ?thesis by (auto simp: unlinked_def)
qed

text \<open>Any step of the reader: \<open>as'\<close> are the nodes it leaves, and what it holds and what is left is what was there.\<close>

lemma reader_step_at:
  assumes S: "race_shape_at q as W (Some l) got i"
    and "path qn_next (q_nodes q') (q_first q') as' None" and "q_last q' = q_last q" and "as' = as \<or> as' = tl as"
    and "\<And>b n. q_nodes q' b = Some n \<Longrightarrow> q_nodes q b = Some n"
    and "\<And>a. unlinked W = Some a \<Longrightarrow> q_nodes q' a = q_nodes q a"
    and "reader_at (l_pc l') q' as' l' (unlinked W)"
    and v: "pending (Some l') @ node_vals q' as' = pending (Some l) @ node_vals q as"
  shows "race_shape_at q' as' W (Some l') got i"
proof (rule race_shape_atI)
  show "case W of None \<Rightarrow> last_ok q' as' | Some l \<Rightarrow> l_val l = i \<and> writer_at (l_pc l) q' as' l"
    by (rule writer_frame_opt [OF _ assms(3-6)]) (use S in \<open>simp add: race_shape_at_def\<close>)
  show "sorted_wrt (<) (-1 # got @ pending (Some l') @ node_vals q' as')" unfolding v using S by (simp add: race_shape_at_def)
  show "x < bound W i" if "x \<in> set (got @ pending (Some l') @ node_vals q' as')" for x
    using that S unfolding v by (simp add: race_shape_at_def)
  show "0 \<le> i" using S by (simp add: race_shape_at_def)
  show "path qn_next (q_nodes q') (q_first q') as' None" by (rule assms(2))
  show "case Some l' of None \<Rightarrow> True | Some l \<Rightarrow> reader_at (l_pc l) q' as' l (unlinked W)" using assms(7) by simp
qed

lemma reader_step_same:
  assumes S: "race_shape_at q as W (Some l) got i"
    and q': "q_nodes q' = q_nodes q" "q_first q' = q_first q" "q_last q' = q_last q"
    and r: "reader_at (l_pc l') q' as l' (unlinked W)" "pending (Some l') = pending (Some l)"
  shows "race_shape_at q' as W (Some l') got i"
  by (rule reader_step_at [OF S]) (use S q' r node_vals_cong [of as q' q] in \<open>simp_all add: race_shape_at_def\<close>)

lemma unlinked_not_linked:
  "race_shape_at q as W R got i \<Longrightarrow> unlinked W = Some a \<Longrightarrow> a \<notin> set as"
  by (cases W; cases "l_pc (the W)") (auto simp: race_shape_at_def unlinked_def fresh_node_def)

lemma reader_move:
  assumes S: "race_shape_at q as W (Some l) got i" and pc: "l_pc l = Get_Move"
    and n: "q_first q = Some b" "q_nodes q b = Some n"
  shows "race_shape_at (q\<lparr>q_first := qn_next n\<rparr>) (tl as) W (Some (l\<lparr>l_pc := Get_Free\<rparr>)) got i"
    (is "race_shape_at ?q _ _ (Some ?l) _ _")
proof -
  have P: "path qn_next (q_nodes q) (q_first q) as None" and r: "as \<noteq> []" "l_tmp l = Some (hd as)"
    "l_val l = qn_val (the (q_nodes q (hd as)))" using S pc by (simp_all add: race_shape_at_def)
  then obtain bs where as: "as = b # bs" using n by (cases as) auto
  have P': "path qn_next (q_nodes q) (Some b) (b # bs) None" using P n(1) as by simp
  have b: "b \<notin> set bs" using path_distinct [OF P'] by simp
  have u: "unlinked W \<noteq> Some b" using unlinked_not_linked [OF S, of b] as by auto
  show ?thesis
  proof (rule reader_step_at [OF S])
    show "path qn_next (q_nodes ?q) (q_first ?q) (tl as) None" using P' n(2) as by simp
    show "reader_at (l_pc ?l) ?q (tl as) ?l (unlinked W)" using r b u n(2) as by simp
    have "node_vals q as = l_val l # node_vals ?q (tl as)" by (simp add: node_vals_def r(3) as)
    then show "pending (Some ?l) @ node_vals ?q (tl as) = pending (Some l) @ node_vals q as"
      using pc by (simp add: pending_def)
  qed simp_all
qed

lemma reader_free:
  assumes S: "race_shape_at q as W (Some l) got i" and pc: "l_pc l = Get_Free" and h: "release (q_nodes q) (l_tmp l) = Inr h"
  shows "race_shape_at (q\<lparr>q_nodes := h\<rparr>) as W (Some (l\<lparr>l_pc := Get_Load_Count\<rparr>)) got i"
proof -
  from S pc obtain t n where t: "l_tmp l = Some t" "t \<notin> set as" "unlinked W \<noteq> Some t" "q_nodes q t = Some n"
    by (auto simp: race_shape_at_def)
  with h have h': "h = (q_nodes q)(t := None)" by simp
  have P: "path qn_next (q_nodes q) (q_first q) as None" using S by (simp add: race_shape_at_def)
  have "node_vals (q\<lparr>q_nodes := h\<rparr>) as = node_vals q as" by (rule node_vals_cong) (use t h' in auto)
  then show ?thesis
    by (intro reader_step_at [OF S]) (use P t h' pc in \<open>auto simp: pending_def split: if_splits\<close>)
qed

lemma reader_step:
  assumes S: "race_shape q W (Some l) got i" and f: "qfinish l = None" and st: "qstep p l q = Inr (l', q')"
  shows "race_shape q' W (Some l') got i"
proof -
  from S obtain as where A: "race_shape_at q as W (Some l) got i" by (auto simp: race_shape_def)
  then have r: "reader_at (l_pc l) q as l (unlinked W)" and P: "path qn_next (q_nodes q) (q_first q) as None"
    by (simp_all add: race_shape_at_def)
  note same = reader_step_same [OF A]
  have "\<exists>as'. race_shape_at q' as' W (Some l') got i"
  proof (cases "l_pc l")
    case Get_Val
    then obtain n where n: "load (q_nodes q) (l_tmp l) = Inr n" "l' = l\<lparr>l_pc := Get_Move, l_val := qn_val n\<rparr>" "q' = q"
      using st by (cases "load (q_nodes q) (l_tmp l)") (simp_all add: qstep_def)
    then obtain t where t: "l_tmp l = Some t" "q_nodes q t = Some n" by (auto simp: load_def split: option.splits)
    with r Get_Val have "q_first q = Some t" by simp
    with P have "as \<noteq> [] \<and> hd as = t" by (cases as) auto
    with t n Get_Val show ?thesis by (intro exI [of _ as] same) (auto simp: pending_def)
  next
    case Get_Move
    with st obtain b n where "q_first q = Some b" "q_nodes q b = Some n"
      by (auto simp: qstep_def load_def ebind_Inr_iff split: option.splits)
    with st Get_Move reader_move [OF A Get_Move this] show ?thesis by (auto simp: qstep_def)
  next
    case Get_Free
    with st obtain h where "release (q_nodes q) (l_tmp l) = Inr h" by (auto simp: qstep_def ebind_Inr_iff)
    with st Get_Free reader_free [OF A Get_Free this] show ?thesis by (auto simp: qstep_def)
  next
    case Get_Empty
    with st r show ?thesis by (intro exI [of _ as] same) (auto simp: qstep_def pending_def split: if_splits)
  qed (rule exI [of _ as], rule same;
      use st r f in \<open>auto simp: qstep_def qfinish_def ebind_Inr_iff pending_def split: if_splits\<close>)+
  then show ?thesis by (simp add: race_shape_def)
qed

section \<open>Entering and leaving a call\<close>

lemma writer_enter:
  assumes "race_shape q None R got i"
  shows "race_shape q (Some (qstart (Op_Add i))) R got i"
proof -
  from assms obtain as where A: "race_shape_at q as None R got i" by (auto simp: race_shape_def)
  have u: "unlinked (Some (qstart (Op_Add i))) = unlinked None" and b: "bound (Some (qstart (Op_Add i))) i = bound None i"
    by (simp_all add: unlinked_def bound_def qstart_def)
  have "race_shape_at q as (Some (qstart (Op_Add i))) R got i"
    using A unfolding race_shape_at_def u b by (simp add: qstart_def)
  then show ?thesis by (auto simp: race_shape_def)
qed

lemma reader_enter:
  "race_shape q W None got i \<Longrightarrow> race_shape q W (Some (qstart (Op_Get c))) got i"
  by (auto simp: race_shape_def race_shape_at_def qstart_def pending_def)

lemma writer_leave:
  assumes "race_shape q (Some l) R got i" and "qfinish l = Some (ok, v)"
  shows "race_shape q None R got (if ok = 0 then i else i + 1)"
proof -
  from assms(1) obtain as where A: "race_shape_at q as (Some l) R got i" by (auto simp: race_shape_def)
  from assms(2) have l: "l_pc l = Return" "l_ret l = ok" by (auto simp: qfinish_def split: if_splits)
  have b: "bound None (if ok = 0 then i else i + 1) = bound (Some l) i" using l by (simp add: bound_def)
  have u: "unlinked (Some l) = unlinked None" using l by (simp add: unlinked_def)
  have "race_shape_at q as None R got (if ok = 0 then i else i + 1)"
    using A l unfolding race_shape_at_def b u by auto
  then show ?thesis by (auto simp: race_shape_def)
qed

lemma reader_leave:
  assumes "race_shape q W (Some l) got i" and "qfinish l = Some (ok, v)"
  shows "race_shape q W None (if ok = 0 then got else got @ [v]) i"
  using assms by (auto simp: race_shape_def race_shape_at_def qfinish_def pending_def split: if_splits)

lemma reader_leave_sorted:
  assumes "race_shape q W (Some l) got i" and "qfinish l = Some (ok, v)" and "ok \<noteq> 0"
  shows "sorted_wrt (<) (-1 # got @ [v])"
  using reader_leave [OF assms(1,2)] assms(3) by (auto simp: race_shape_def race_shape_at_def sorted_wrt_append)

section \<open>The error lines\<close>

text \<open>
  The lines of the reader, \<open>get value is val but expected - expected\<close>, as pairs \<open>(val, expected)\<close>: each one
  names the values from \<open>expected\<close> to \<open>val - 1\<close>, and together they name all values below \<open>expected\<close>
  that have not come.
\<close>

definition named_by :: "(int \<times> int) list \<Rightarrow> int set" where
  "named_by errs = (\<Union>(val, expected)\<in>set errs. {expected..<val})"

definition losses_ok :: "int \<Rightarrow> int list \<Rightarrow> (int \<times> int) list \<Rightarrow> bool" where
  "losses_ok e got errs \<longleftrightarrow> e = last (-1 # got) + 1 \<and> list_all (\<lambda>(val, expected). expected < val) errs \<and>
     named_by errs = {0..<e} - set got"

lemma losses_ok_next:
  assumes L: "losses_ok e got errs" and S: "sorted_wrt (<) (-1 # got @ [v])"
  shows "losses_ok (v + 1) (got @ [v]) (if e \<noteq> v then errs @ [(v, e)] else errs)"
proof -
  have g: "x < e" if "x \<in> set got" for x
  proof -
    have "sorted_wrt (<) got" and "got \<noteq> []" using S that by (auto simp: sorted_wrt_append)
    then have "sorted_wrt (<) (butlast got @ [last got])" by simp
    with that \<open>got \<noteq> []\<close> have "x \<le> last got"
      by (metis append_butlast_last_id in_set_butlastD less_imp_le order_refl rotate1.simps(2) set_ConsD set_rotate1 sorted_wrt_append list.set_intros(1))
    with L \<open>got \<noteq> []\<close> show ?thesis by (simp add: losses_ok_def)
  qed
  have e: "e \<le> v" "0 \<le> e" using S last_in_set [of "-1 # got"] L by (auto simp: losses_ok_def sorted_wrt_append)
  have "named_by (if e \<noteq> v then errs @ [(v, e)] else errs) = named_by errs \<union> {e..<v}" by (auto simp: named_by_def)
  also have "\<dots> = {0..<v + 1} - set (got @ [v])" using L e g by (force simp: losses_ok_def)
  finally show ?thesis using L e by (auto simp: losses_ok_def)
qed

section \<open>The invariant of the program\<close>

fun local_of :: "('op, 'l) tstate \<Rightarrow> 'l option" where
  "local_of (Inside op l) = Some l"
| "local_of _ = None"

definition sys_shape :: "queue_system \<Rightarrow> int \<Rightarrow> bool" where
  "sys_shape sys i \<longleftrightarrow> race_shape (ls_obj sys) (local_of (ls_thr sys writer_tid)) (local_of (ls_thr sys reader_tid))
     (hist_got (ls_hist sys)) i"

definition race_inv :: "race_clients \<Rightarrow> bool" where
  "race_inv s \<longleftrightarrow> sys_shape (bc_sys s) (bc_i s) \<and>
     (\<forall>t. thr_op (ls_thr (bc_sys s) t) = (if bc_thread s t = In_Call then Some (race_op s t) else None)) \<and>
     (\<forall>t. t \<noteq> reader_tid \<and> t \<noteq> writer_tid \<longrightarrow> bc_thread s t = Not_Created) \<and>
     (bc_main s = B_Create_Reader \<longrightarrow> (\<forall>t. bc_thread s t = Not_Created)) \<and>
     (bc_main s = B_Create_Writer \<longrightarrow> bc_thread s writer_tid = Not_Created) \<and>
     hist_added (ls_hist (bc_sys s)) = map int [0..<nat (bc_i s)] \<and>
     losses_ok (bc_expected s) (hist_got (ls_hist (bc_sys s))) (bc_errors s)"

text \<open>What the reader has got is in increasing order and not above the number the writer is at.\<close>

lemma sys_shape_got:
  assumes "sys_shape sys i"
  shows "sorted_wrt (<) (hist_got (ls_hist sys))" "set (hist_got (ls_hist sys)) \<subseteq> {0..i}"
proof -
  from assms obtain q as W R where A: "race_shape_at q as W R (hist_got (ls_hist sys)) i"
    unfolding sys_shape_def race_shape_def by blast
  then show "sorted_wrt (<) (hist_got (ls_hist sys))" by (simp add: race_shape_at_def sorted_wrt_append)
  have "bound W i \<le> i + 1" by (simp add: bound_def split: option.splits)
  moreover have "-1 < x \<and> x < bound W i" if "x \<in> set (hist_got (ls_hist sys))" for x
    using A that unfolding race_shape_at_def by simp
  ultimately show "set (hist_got (ls_hist sys)) \<subseteq> {0..i}" by force
qed

lemma race_result_sys: "bc_sys (race_result t r s) = bc_sys s"
  by (simp add: race_result_def split: prod.splits)

lemma race_inv_in_call:
  assumes "race_inv s" and "thr_op (ls_thr (bc_sys s) t) = Some op"
  shows "bc_thread s t = In_Call \<and> (t = reader_tid \<and> op = Op_Get (-1) \<or> t = writer_tid \<and> op = Op_Add (bc_i s))"
proof -
  have "bc_thread s t = In_Call" "op = race_op s t" using assms by (auto simp: race_inv_def split: if_splits)
  moreover have "t = reader_tid \<or> t = writer_tid" using assms(1) calculation(1) by (auto simp: race_inv_def)
  ultimately show ?thesis by (auto simp: race_op_def)
qed

lemma race_inv_sys:
  assumes "race_inv s" and "sys_shape sys (bc_i s)" and "ls_hist sys = ls_hist (bc_sys s)"
    and "\<And>t. thr_op (ls_thr sys t) = thr_op (ls_thr (bc_sys s) t)"
  shows "race_inv (s\<lparr>bc_sys := sys\<rparr>)"
  using assms by (simp add: race_inv_def race_op_def)

lemma race_inv_init: "queue_rep q [] \<Longrightarrow> race_inv (race_init q)"
  by (auto simp: race_inv_def race_init_def sys_shape_def lsys_init_def race_shape_def race_shape_at_def last_ok_def
      losses_ok_def named_by_def queue_rep_def queue_chain_def unlinked_def pending_def bound_def node_vals_def)

lemma race_inv_main: "race_inv s \<Longrightarrow> race_main err s = Some s' \<Longrightarrow> race_inv s'"
  by (auto simp: race_main_def race_inv_def race_op_def split: race_main_pc.splits if_splits)

lemma race_inv_call:
  assumes I: "race_inv s" and c: "bc_thread s t = At_Call"
    and d: "lsys_do no_lock_try no_lock_release qstart qfinish qstep queue_malloc (Call t (race_op s t)) (bc_sys s) = Some sys"
  shows "race_inv (s\<lparr>bc_sys := sys, bc_thread := (bc_thread s)(t := In_Call)\<rparr>)"
proof -
  from d have t: "ls_thr (bc_sys s) t = Idle"
    and sys: "sys = (bc_sys s)\<lparr>ls_thr := (ls_thr (bc_sys s))(t := Trying (race_op s t))\<rparr>"
    by (auto simp: lsys_do_def split: if_splits tstate.splits)
  have "sys_shape sys (bc_i s)" using I t by (auto simp: race_inv_def sys_shape_def sys)
  with I c show ?thesis by (auto simp: race_inv_def sys race_op_def)
qed

text \<open>Steps inside a call.\<close>

lemma race_attempt:
  assumes I: "race_inv s" and d: "lsys_do no_lock_try no_lock_release qstart qfinish qstep queue_malloc (Attempt t) (bc_sys s) = Some sys"
  shows "sys_shape sys (bc_i s)"
proof -
  from d obtain op where t: "ls_thr (bc_sys s) t = Trying op"
    and sys: "sys = (bc_sys s)\<lparr>ls_thr := (ls_thr (bc_sys s))(t := Inside op (qstart op))\<rparr>"
    by (auto simp: lsys_do_def no_lock_try_def split: if_splits tstate.splits)
  from race_inv_in_call [OF I, of t op] t
  have "t = reader_tid \<and> op = Op_Get (-1) \<or> t = writer_tid \<and> op = Op_Add (bc_i s)" by simp
  then show ?thesis using I t by (auto simp: race_inv_def sys_shape_def sys intro: writer_enter reader_enter)
qed

lemma race_body:
  assumes I: "race_inv s" and d: "lsys_do no_lock_try no_lock_release qstart qfinish qstep queue_malloc (Body t p) (bc_sys s) = Some sys"
  shows "sys_shape sys (bc_i s)"
proof -
  from d obtain op l where t: "ls_thr (bc_sys s) t = Inside op l" and f: "qfinish l = None" "queue_malloc (ls_obj (bc_sys s)) p"
    and sys: "sys = (case qstep p l (ls_obj (bc_sys s)) of Inl e \<Rightarrow> (bc_sys s)\<lparr>ls_fault := Some e\<rparr>
      | Inr (l', q') \<Rightarrow> (bc_sys s)\<lparr>ls_obj := q', ls_thr := (ls_thr (bc_sys s))(t := Inside op l')\<rparr>)"
    by (auto simp: lsys_do_def split: if_splits tstate.splits sum.splits)
  have S: "sys_shape (bc_sys s) (bc_i s)" using I by (simp add: race_inv_def)
  show ?thesis
  proof (cases "qstep p l (ls_obj (bc_sys s))")
    case (Inl e)
    then show ?thesis using S by (simp add: sys sys_shape_def)
  next
    case (Inr x)
    obtain l' q' where x: "x = (l', q')" by (cases x)
    from race_inv_in_call [OF I, of t op] t consider "t = reader_tid" | "t = writer_tid" by auto
    then show ?thesis
    proof cases
      case 1
      with S t have "race_shape (ls_obj (bc_sys s)) (local_of (ls_thr (bc_sys s) writer_tid)) (Some l)
        (hist_got (ls_hist (bc_sys s))) (bc_i s)" by (simp add: sys_shape_def)
      from reader_step [OF this f(1) Inr [unfolded x]] show ?thesis using 1 by (simp add: sys sys_shape_def Inr x)
    next
      case 2
      with S t have "race_shape (ls_obj (bc_sys s)) (Some l) (local_of (ls_thr (bc_sys s) reader_tid))
        (hist_got (ls_hist (bc_sys s))) (bc_i s)" by (simp add: sys_shape_def)
      from writer_step [OF this f Inr [unfolded x]] show ?thesis using 2 by (simp add: sys sys_shape_def Inr x)
    qed
  qed
qed

lemma upto_Suc: "0 \<le> i \<Longrightarrow> map int [0..<nat (i + 1)] = map int [0..<nat i] @ [i]"
  by (simp add: nat_add_distrib)

lemma race_return:
  assumes I: "race_inv s" and d: "lsys_do no_lock_try no_lock_release qstart qfinish qstep queue_malloc (Unlock t) (bc_sys s) = Some sys"
    and small: "int (length (hist_added (ls_hist sys))) < 2147483647"
  shows "race_inv (race_result t (snd (last (ls_hist sys))) (s\<lparr>bc_sys := sys, bc_thread := (bc_thread s)(t := At_Call)\<rparr>))"
proof -
  from d obtain op l ok v where t: "ls_thr (bc_sys s) t = Inside op l" and f: "qfinish l = Some (ok, v)"
    and sys: "sys = (bc_sys s)\<lparr>ls_locked := ls_locked (bc_sys s), ls_thr := (ls_thr (bc_sys s))(t := Idle),
      ls_hist := ls_hist (bc_sys s) @ [(op, (ok, v))]\<rparr>"
    by (auto simp: lsys_do_def no_lock_release_def split: if_splits tstate.splits option.splits)
  have S: "sys_shape (bc_sys s) (bc_i s)" using I by (simp add: race_inv_def)
  have c: "bc_thread s t = In_Call" using race_inv_in_call [OF I, of t op] t by simp
  have i: "0 \<le> bc_i s" using S by (auto simp: sys_shape_def race_shape_def race_shape_at_def)
  have added: "hist_added (ls_hist (bc_sys s)) = map int [0..<nat (bc_i s)]" using I by (simp add: race_inv_def)
  from race_inv_in_call [OF I, of t op] t consider "t = reader_tid" "op = Op_Get (-1)"
    | "t = writer_tid" "op = Op_Add (bc_i s)" by auto
  then show ?thesis
  proof cases
    case 1
    then have R: "race_shape (ls_obj (bc_sys s)) (local_of (ls_thr (bc_sys s) writer_tid)) (Some l) (hist_got (ls_hist (bc_sys s))) (bc_i s)"
      using S t by (simp add: sys_shape_def)
    from reader_leave [OF R f] have "sys_shape sys (bc_i s)" using 1 by (simp add: sys_shape_def sys hist_append split: if_splits)
    moreover have "ok \<noteq> 0 \<Longrightarrow> losses_ok (v + 1) (hist_got (ls_hist (bc_sys s)) @ [v])
      (if bc_expected s \<noteq> v then bc_errors s @ [(v, bc_expected s)] else bc_errors s)"
      using losses_ok_next [OF _ reader_leave_sorted [OF R f]] I by (simp add: race_inv_def)
    moreover have "int32 (v + 1) = v + 1" if "ok \<noteq> 0"
    proof (rule int32_id)
      have "-1 < v" using reader_leave_sorted [OF R f that] by (simp add: sorted_wrt_append)
      then show "-2147483648 \<le> v + 1" by simp
      have "v \<le> bc_i s"
        using sys_shape_got(2) [OF calculation(1)] 1 that by (simp add: sys hist_append)
      moreover have "bc_i s < 2147483647" using small added i 1 by (simp add: sys hist_append)
      ultimately show "v + 1 < 2147483648" by simp
    qed
    ultimately show ?thesis using I 1 c by (auto simp: race_inv_def race_result_def race_op_def sys hist_append)
  next
    case 2
    then have R: "race_shape (ls_obj (bc_sys s)) (Some l) (local_of (ls_thr (bc_sys s) reader_tid)) (hist_got (ls_hist (bc_sys s))) (bc_i s)"
      using S t by (simp add: sys_shape_def)
    from writer_leave [OF R f] have "sys_shape sys (if ok = 0 then bc_i s else bc_i s + 1)"
      using 2 by (simp add: sys_shape_def sys hist_append)
    moreover note i
    moreover have "int32 (bc_i s + 1) = bc_i s + 1" if "ok \<noteq> 0"
      using small added i 2 that by (intro int32_id) (auto simp: sys hist_append)
    ultimately show ?thesis using I 2 c by (auto simp: race_inv_def race_result_def race_op_def sys hist_append upto_Suc)
  qed
qed

lemma race_inv_do:
  assumes I: "race_inv s" and d: "race_do e s = Some s'"
    and small: "int (length (hist_added (ls_hist (bc_sys s')))) < 2147483647"
  shows "race_inv s'"
proof (cases e)
  case (B_Main err)
  with d have "race_main err s = Some s'" by (auto simp: race_do_def split: if_splits)
  with I show ?thesis by (rule race_inv_main)
next
  case (B_Call t)
  with d show ?thesis by (auto simp: race_do_def split: if_splits intro: race_inv_call [OF I])
next
  case (B_Attempt t)
  with d obtain sys where
    s: "lsys_do no_lock_try no_lock_release qstart qfinish qstep queue_malloc (Attempt t) (bc_sys s) = Some sys" "s' = s\<lparr>bc_sys := sys\<rparr>"
    by (auto simp: race_do_def split: if_splits)
  show ?thesis unfolding s(2)
    by (rule race_inv_sys [OF I race_attempt [OF I s(1)]]) (use lsys_do_Attempt [OF s(1)] in simp_all)
next
  case (B_Body t p)
  with d obtain sys where
    s: "lsys_do no_lock_try no_lock_release qstart qfinish qstep queue_malloc (Body t p) (bc_sys s) = Some sys" "s' = s\<lparr>bc_sys := sys\<rparr>"
    by (auto simp: race_do_def split: if_splits)
  show ?thesis unfolding s(2)
    by (rule race_inv_sys [OF I race_body [OF I s(1)]]) (use lsys_do_Body [OF s(1)] in simp_all)
next
  case (B_Return t)
  with d obtain sys where
    s: "lsys_do no_lock_try no_lock_release qstart qfinish qstep queue_malloc (Unlock t) (bc_sys s) = Some sys"
      "s' = race_result t (snd (last (ls_hist sys))) (s\<lparr>bc_sys := sys, bc_thread := (bc_thread s)(t := At_Call)\<rparr>)"
    by (auto simp: race_do_def split: if_splits)
  have "bc_sys s' = sys" by (simp add: s(2) race_result_sys)
  with small have "int (length (hist_added (ls_hist sys))) < 2147483647" by simp
  with race_return [OF I s(1)] show ?thesis by (simp add: s(2))
qed

text \<open>The history only grows, so a bound on its length holds for all earlier states.\<close>

lemma race_hist_grows:
  assumes d: "race_do e s = Some s'"
  shows "length (hist_added (ls_hist (bc_sys s))) \<le> length (hist_added (ls_hist (bc_sys s')))"
proof (cases e)
  case (B_Main err)
  with d have "race_main err s = Some s'" by (auto simp: race_do_def split: if_splits)
  then have "bc_sys s' = bc_sys s" by (auto simp: race_main_def split: race_main_pc.splits if_splits)
  then show ?thesis by simp
next
  case (B_Return t)
  with d obtain sys where
    s: "lsys_do no_lock_try no_lock_release qstart qfinish qstep queue_malloc (Unlock t) (bc_sys s) = Some sys"
      "bc_sys s' = sys" by (auto simp: race_do_def race_result_sys split: if_splits)
  from s(1) obtain op r where "ls_hist sys = ls_hist (bc_sys s) @ [(op, r)]" by (rule lsys_do_Unlock) blast
  with s(2) show ?thesis by (simp add: hist_append)
qed (use d in \<open>auto simp: race_do_def split: if_splits dest: lsys_do_Call(3) lsys_do_Attempt(3) lsys_do_Body(3)\<close>)

lemma race_inv_reach:
  "reach race_program_step s s' \<Longrightarrow> race_inv s \<Longrightarrow>
   int (length (hist_added (ls_hist (bc_sys s')))) < 2147483647 \<Longrightarrow> race_inv s'"
proof (induction rule: reach.induct)
  case (reach_step s t u)
  from reach_step.hyps(2) obtain e where e: "race_do e t = Some u" by (rule race_program_stepE)
  have "race_inv t" using reach_step.IH reach_step.prems race_hist_grows [OF e] by simp
  from race_inv_do [OF this e reach_step.prems(2)] show ?case .
qed simp

lemma race_inv_start:
  assumes "race_start q_ok err = Inr s"
  shows "race_inv s"
proof -
  from assms obtain q where "queue_init q_ok err 1000000 = Inr q" and s: "s = race_init q"
    by (auto simp: race_start_def ebind_Inr_iff)
  then have "queue_rep q []" by (auto simp: queue_init_def Let_def ebind_Inr_iff queue_rep_def queue_chain_def)
  then show ?thesis unfolding s by (rule race_inv_init)
qed

lemma race_inv_got:
  assumes "race_inv s"
  shows "sorted_wrt (<) (hist_got (ls_hist (bc_sys s)))" "set (hist_got (ls_hist (bc_sys s))) \<subseteq> {0..bc_i s}"
  using sys_shape_got [of "bc_sys s" "bc_i s"] assms by (simp_all add: race_inv_def)

section \<open>A run that loses a value\<close>

definition w_to_test :: "addr \<Rightarrow> race_choice list" where
  "w_to_test a = [B_Call 2, B_Attempt 2] @ replicate 3 (B_Body 2 None) @ [B_Body 2 (Some a), B_Body 2 None]"

definition w_finish :: "race_choice list" where
  "w_finish = replicate 5 (B_Body 2 None) @ [B_Return 2]"

definition r_to_move :: "race_choice list" where
  "r_to_move = [B_Call 1, B_Attempt 1] @ replicate 6 (B_Body 1 None)"

definition r_finish :: "race_choice list" where
  "r_finish = replicate 4 (B_Body 1 None) @ [B_Return 1]"

text \<open>\<open>0\<close> comes, \<open>1\<close> is linked behind the node that the reader takes out, \<open>2\<close> comes where \<open>1\<close> is expected.\<close>

definition losing_run :: "race_choice list" where
  "losing_run = [B_Main 0, B_Main 0, B_Main 0] @ w_to_test 10 @ w_finish @ w_to_test 11 @ r_to_move @ w_finish @ r_finish @
     w_to_test 12 @ w_finish @ r_to_move @ r_finish"

lemma losing_run_errors:
  "\<exists>s0 s. race_start True 0 = Inr s0 \<and> race_program_run losing_run s0 = Some s \<and> bc_errors s = [(2, 1)] \<and>
     hist_got (ls_hist (bc_sys s)) = [0, 2] \<and> hist_added (ls_hist (bc_sys s)) = [0, 1, 2]"
  by (simp add: race_start_def race_init_def queue_init_def losing_run_def w_to_test_def w_finish_def r_to_move_def r_finish_def
      race_do_def race_main_def race_op_def race_result_def reader_tid_def writer_tid_def Let_def int32_def race_eval)

section \<open>Properties\<close>

text \<open>C17: in every interleaving of \<open>b.c\<close>, the race included, up to the first access to freed or unallocated
  memory (where the model stops) and as long as fewer than \<open>2 ^ 31 - 1\<close> values have been put in (so that the
  two \<open>int\<close> counters have not overflowed), the writer has put in \<open>0, 1, \<dots>, i - 1\<close>, the reader has got some
  of these (or \<open>i\<close>, whose \<open>queue_add\<close> has not returned) in increasing order, and its error lines name
  exactly the values below \<open>expected\<close> that it has not got: the missing lock loses values, but none comes
  twice, late or corrupted.\<close>

theorem race_errors_name_the_losses:
  assumes "race_start q_ok err = Inr s0" and "reach race_program_step s0 s"
    and "int (length (hist_added (ls_hist (bc_sys s)))) < 2147483647"
  shows "hist_added (ls_hist (bc_sys s)) = map int [0..<nat (bc_i s)] \<and>
     sorted_wrt (<) (hist_got (ls_hist (bc_sys s))) \<and> set (hist_got (ls_hist (bc_sys s))) \<subseteq> {0..bc_i s} \<and>
     list_all (\<lambda>(val, expected). expected < val) (bc_errors s) \<and>
     named_by (bc_errors s) = {0..<bc_expected s} - set (hist_got (ls_hist (bc_sys s)))"
proof -
  have I: "race_inv s" by (rule race_inv_reach [OF assms(2) race_inv_start [OF assms(1)] assms(3)])
  then show ?thesis using race_inv_got [OF I] by (simp add: race_inv_def losses_ok_def)
qed

theorem race_errors_name_the_losses_witness:
  "\<exists>s0 s. race_start True 0 = Inr s0 \<and> reach race_program_step s0 s \<and> bc_errors s = [(2, 1)] \<and>
     hist_got (ls_hist (bc_sys s)) = [0, 2] \<and> hist_added (ls_hist (bc_sys s)) = [0, 1, 2] \<and>
     named_by (bc_errors s) = {0..<bc_expected s} - {0, 2}"
proof -
  obtain s0 s where r: "race_start True 0 = Inr s0" "race_program_run losing_run s0 = Some s" "bc_errors s = [(2, 1)]"
     "hist_got (ls_hist (bc_sys s)) = [0, 2]" "hist_added (ls_hist (bc_sys s)) = [0, 1, 2]" using losing_run_errors by blast
  have "named_by (bc_errors s) = {0..<bc_expected s} - {0, 2}"
    using race_errors_name_the_losses [OF r(1) race_program_reach [OF r(2)]] r(4,5) by simp
  with r race_program_reach [OF r(2)] show ?thesis by blast
qed

end
