(* ===== verification/Queue_Example.thy ===== *)
theory Queue_Example
  imports Queue
begin

text \<open>
  The single-threaded test program of the queue, \<open>lab2/src/1/a.c\<close> (and its older copy
  \<open>lab2/src/old/queue-example.c\<close>): ten calls of \<open>queue_add\<close>, twelve of \<open>queue_get\<close>, with the
  statistics printed after each, and \<open>queue_destroy\<close>. What it prints is derived from the contract of
  the queue, for every \<open>malloc\<close> that does not fail.
\<close>

section \<open>The program\<close>

text \<open>The two lines a round prints: result and value, then the numbers of \<open>queue_print_stats\<close>.\<close>

datatype example_line = Line_Added int int "int list" | Line_Got int int "int list"

fun example_add :: "(queue \<Rightarrow> ptr) \<Rightarrow> int list \<Rightarrow> queue \<Rightarrow> fault + example_line list \<times> queue" where
  "example_add malloc [] q = Inr ([], q)"
| "example_add malloc (i # is) q = ebind (queue_add q i (malloc q)) (\<lambda>(ok, q).
     ebind (example_add malloc is q) (\<lambda>(ls, q').
     Inr (Line_Added ok i (queue_print_stats q) # ls, q')))"

fun example_get :: "nat \<Rightarrow> queue \<Rightarrow> fault + example_line list \<times> queue" where
  "example_get 0 q = Inr ([], q)"
| "example_get (Suc n) q = ebind (queue_get q (-1)) (\<lambda>(ok, val, q).
     ebind (example_get n q) (\<lambda>(ls, q').
     Inr (Line_Got ok val (queue_print_stats q) # ls, q')))"

text \<open>The result is what is printed and what is left of the nodes.\<close>

definition example_main :: "(queue \<Rightarrow> ptr) \<Rightarrow> bool \<Rightarrow> int \<Rightarrow> fault + example_line list \<times> (addr \<rightharpoonup> qnode)" where
  "example_main malloc q_ok err =
     ebind (queue_init q_ok err 1000) (\<lambda>q.
     ebind (example_add malloc [0..9] q) (\<lambda>(added, q).
     ebind (example_get 12 q) (\<lambda>(got, q).
     case queue_destroy (Some q) of None \<Rightarrow> Inl Hangs
     | Some r \<Rightarrow> ebind r (\<lambda>h. Inr (added @ got, h)))))"

section \<open>What it prints\<close>

text \<open>
  The expected lines, computed from the four statistics alone: \<open>aa\<close> and \<open>ga\<close> are the attempts, \<open>ac\<close>
  and \<open>gc\<close> the successful calls.
\<close>

definition stats_line :: "int \<Rightarrow> int \<Rightarrow> int \<Rightarrow> int \<Rightarrow> int list" where
  "stats_line aa ga ac gc = [ac - gc, aa, ga, aa - ga, ac, gc, ac - gc]"

fun added_lines :: "int \<Rightarrow> int \<Rightarrow> int \<Rightarrow> int \<Rightarrow> int list \<Rightarrow> example_line list" where
  "added_lines aa ga ac gc [] = []"
| "added_lines aa ga ac gc (i # is) =
     Line_Added 1 i (stats_line (aa + 1) ga (ac + 1) gc) # added_lines (aa + 1) ga (ac + 1) gc is"

fun got_lines :: "int \<Rightarrow> int \<Rightarrow> int \<Rightarrow> int \<Rightarrow> nat \<Rightarrow> int list \<Rightarrow> example_line list" where
  "got_lines aa ga ac gc 0 xs = []"
| "got_lines aa ga ac gc (Suc n) [] =
     Line_Got 0 (-1) (stats_line aa (ga + 1) ac gc) # got_lines aa (ga + 1) ac gc n []"
| "got_lines aa ga ac gc (Suc n) (x # xs) =
     Line_Got 1 x (stats_line aa (ga + 1) ac (gc + 1)) # got_lines aa (ga + 1) ac (gc + 1) n xs"

lemma queue_stats_line:
  "queue_rep q xs \<Longrightarrow> queue_print_stats q =
     stats_line (q_add_attempts q) (q_get_attempts q) (q_add_count q) (q_get_count q)"
  by (simp add: queue_print_stats_def stats_line_def queue_rep_def)

text \<open>How a call changes the statistics.\<close>

lemma queue_add_stats:
  "queue_add q v p = Inr (1, q') \<Longrightarrow> q_add_attempts q' = q_add_attempts q + 1 \<and>
     q_get_attempts q' = q_get_attempts q \<and> q_add_count q' = q_add_count q + 1 \<and> q_get_count q' = q_get_count q"
  by (auto simp: queue_add_def queue_link_def Let_def ebind_Inr_iff split: if_splits option.splits)

lemma queue_get_stats:
  "queue_get q c = Inr (r, v, q') \<Longrightarrow> q_add_attempts q' = q_add_attempts q \<and>
     q_get_attempts q' = q_get_attempts q + 1 \<and> q_add_count q' = q_add_count q \<and> q_get_count q' = q_get_count q + r"
  by (auto simp: queue_get_def Let_def ebind_Inr_iff split: if_splits)

lemma example_add_lines:
  assumes "queue_rep q xs" and "int (length xs + length is) \<le> q_max_count q"
    and "\<And>q. finite (dom (q_nodes q)) \<Longrightarrow> \<exists>a. malloc q = Some a \<and> q_nodes q a = None"
  shows "\<exists>q'. example_add malloc is q =
      Inr (added_lines (q_add_attempts q) (q_get_attempts q) (q_add_count q) (q_get_count q) is, q') \<and>
    queue_rep q' (xs @ is) \<and> q_add_attempts q' = q_add_attempts q + int (length is) \<and>
    q_get_attempts q' = q_get_attempts q \<and> q_add_count q' = q_add_count q + int (length is) \<and>
    q_get_count q' = q_get_count q"
  using assms(1,2)
proof (induction "is" arbitrary: q xs)
  case Nil
  then show ?case by simp
next
  case (Cons i "is")
  have "finite (dom (q_nodes q))" using Cons.prems(1) by (auto simp: queue_rep_def queue_chain_def)
  from assms(3) [OF this] obtain a where a: "malloc q = Some a" "q_nodes q a = None" by blast
  with queue_add_space [of q xs a i] Cons.prems obtain q1 where
    q1: "queue_add q i (Some a) = Inr (1, q1)" "queue_rep q1 (xs @ [i])" "q_max_count q1 = q_max_count q" by auto
  from Cons.IH [OF q1(2)] Cons.prems(2) q1(3) queue_add_stats [OF q1(1)] a(1) q1(1) queue_stats_line [OF q1(2)]
  show ?case by (auto simp: algebra_simps)
qed

lemma example_get_lines:
  assumes "queue_rep q xs"
  shows "\<exists>q'. example_get n q =
      Inr (got_lines (q_add_attempts q) (q_get_attempts q) (q_add_count q) (q_get_count q) n xs, q') \<and>
    queue_rep q' (drop n xs)"
  using assms
proof (induction n arbitrary: q xs)
  case 0
  then show ?case by simp
next
  case (Suc n)
  show ?case
  proof (cases xs)
    case Nil
    with queue_get_empty [of q "-1"] Suc.prems obtain q1 where
      q1: "queue_get q (-1) = Inr (0, -1, q1)" "queue_rep q1 []"
      by (auto simp: queue_rep_def queue_chain_def)
    from Suc.IH [OF q1(2)] q1(1) queue_get_stats [OF q1(1)] queue_stats_line [OF q1(2)] Nil
    show ?thesis by auto
  next
    case (Cons x ys)
    with queue_get_cons [of q x ys "-1"] Suc.prems obtain q1 where
      q1: "queue_get q (-1) = Inr (1, x, q1)" "queue_rep q1 ys" by auto
    from Suc.IH [OF q1(2)] q1(1) queue_get_stats [OF q1(1)] queue_stats_line [OF q1(2)] Cons
    show ?thesis by auto
  qed
qed

section \<open>Property\<close>

text \<open>the test program adds 0 to 9 with success, gets them back in this order, fails twice on the
  empty queue leaving the value at -1, prints consistent statistics throughout (the difference of the
  attempts ends at -2), and frees every node.\<close>

theorem queue_example_output:
  assumes "\<And>q. finite (dom (q_nodes q)) \<Longrightarrow> \<exists>a. malloc q = Some a \<and> q_nodes q a = None"
  shows "example_main malloc True 0 = Inr
    (map (\<lambda>i. Line_Added 1 i [i + 1, i + 1, 0, i + 1, i + 1, 0, i + 1]) [0..9] @
     map (\<lambda>i. Line_Got 1 i [9 - i, 10, i + 1, 9 - i, 10, i + 1, 9 - i]) [0..9] @
     [Line_Got 0 (-1) [0, 10, 11, -1, 10, 10, 0], Line_Got 0 (-1) [0, 10, 12, -2, 10, 10, 0]], Map.empty)"
proof -
  obtain q where q: "queue_init True 0 1000 = Inr q" "queue_rep q []" "q_max_count q = 1000"
    "q_add_attempts q = 0" "q_get_attempts q = 0" "q_add_count q = 0" "q_get_count q = 0"
    using queue_init_rep [of 1000] by (auto simp: queue_init_def)
  from example_add_lines [OF q(2), of "[0..9]" malloc] assms q obtain q1 where
    q1: "example_add malloc [0..9] q = Inr (added_lines 0 0 0 0 [0..9], q1)" "queue_rep q1 [0..9]"
      "q_add_attempts q1 = 10" "q_get_attempts q1 = 0" "q_add_count q1 = 10" "q_get_count q1 = 0" by auto
  from example_get_lines [OF q1(2), of 12] q1 obtain q2 where
    q2: "example_get 12 q1 = Inr (got_lines 10 0 10 0 12 [0..9], q2)" "queue_rep q2 (drop 12 [0..9])" by auto
  have "queue_destroy (Some q2) = Some (Inr Map.empty)"
    using queue_rep_freed [OF q2(2)] by (simp add: queue_destroy_def)
  moreover have "added_lines 0 0 0 0 [0..9] =
      map (\<lambda>i. Line_Added 1 i [i + 1, i + 1, 0, i + 1, i + 1, 0, i + 1]) [0..9]"
    by (simp add: stats_line_def upto_rec1)
  moreover have "got_lines 10 0 10 0 12 [0..9] =
      map (\<lambda>i. Line_Got 1 i [9 - i, 10, i + 1, 9 - i, 10, i + 1, 9 - i]) [0..9] @
      [Line_Got 0 (-1) [0, 10, 11, -1, 10, 10, 0], Line_Got 0 (-1) [0, 10, 12, -2, 10, 10, 0]]"
    by (simp add: stats_line_def upto_rec1 numeral_eq_Suc)
  ultimately show ?thesis using q(1) q1(1) q2(1) by (simp add: example_main_def)
qed

theorem queue_example_output_witness:
  "\<exists>ls. example_main (\<lambda>q. Some (LEAST a. q_nodes q a = None)) True 0 = Inr (ls, Map.empty) \<and> length ls = 22 \<and>
     ls ! 13 = Line_Got 1 3 [6, 10, 4, 6, 10, 4, 6]"
proof -
  have "\<exists>a. Some (LEAST a. q_nodes q a = None) = Some a \<and> q_nodes q a = None"
    if "finite (dom (q_nodes q))" for q :: queue
    using least_free [OF that] by simp
  from queue_example_output [of "\<lambda>q. Some (LEAST a. q_nodes q a = None)", OF this] show ?thesis
    by (simp add: upto_rec1)
qed

end
