(* ===== verification/Queue_Condvar.thy ===== *)
theory Queue_Condvar
  imports Queue_Steps
begin

text \<open>
  The queue of \<open>lab2/src/2/queue_condvar/queue.c\<close>: one mutex and two condition variables. An
  operation locks the mutex, sleeps while the queue is full (empty), runs the statements of the
  common body, signals the other condition variable and unlocks.

  The system interleaves any number of threads. The mutex is its owner, as \<open>pthread_mutex_t\<close> records
  it; the threads asleep on a condition variable are those in state \<open>C_Waiting\<close> with an operation of
  the matching kind. \<open>pthread_cond_wait\<close> releases the mutex and falls asleep in one step, may return
  spuriously, and takes the mutex again before it returns; \<open>pthread_cond_signal\<close> wakes one thread of
  the scheduler's choice, or none when none sleeps.
\<close>

section \<open>Threads and the system\<close>

datatype cthread =
    C_Idle
  | C_Lock qop              \<comment> \<open>in \<open>pthread_mutex_lock\<close>\<close>
  | C_Test qop              \<comment> \<open>holds the mutex, at the condition of the \<open>while\<close> loop\<close>
  | C_Waiting qop           \<comment> \<open>asleep in \<open>pthread_cond_wait\<close>\<close>
  | C_Relock qop            \<comment> \<open>woken, in \<open>pthread_cond_wait\<close>, before the mutex is taken again\<close>
  | C_Body qop qlocal       \<comment> \<open>holds the mutex, in the body\<close>
  | C_Unlock qop "int \<times> int" \<comment> \<open>holds the mutex, at \<open>pthread_mutex_unlock\<close>\<close>
  | C_Cancelled qop         \<comment> \<open>woken by a cancellation, before the mutex is taken again\<close>
  | C_Dead                  \<comment> \<open>terminated by a cancellation\<close>

text \<open>
  \<open>cs_hist\<close> is a ghost: the operations with their results, in the order in which their bodies ended.
\<close>

record csys =
  cs_owner :: "nat option"
  cs_obj :: queue
  cs_thr :: "nat \<Rightarrow> cthread"
  cs_hist :: "(qop \<times> int \<times> int) list"
  cs_fault :: "fault option"

fun is_get :: "qop \<Rightarrow> bool" where
  "is_get (Op_Get c) = True"
| "is_get (Op_Add v) = False"

text \<open>The conditions of the two \<open>while\<close> loops.\<close>

definition must_wait :: "qop \<Rightarrow> 'a queue_scheme \<Rightarrow> bool" where
  "must_wait op q = (case op of Op_Add v \<Rightarrow> q_count q = q_max_count q | Op_Get c \<Rightarrow> q_count q = 0)"

definition waits_for :: "bool \<Rightarrow> cthread \<Rightarrow> bool" where
  "waits_for g c = (case c of C_Waiting op \<Rightarrow> is_get op = g | _ \<Rightarrow> False)"

definition wake :: "cthread \<Rightarrow> cthread" where
  "wake c = (case c of C_Waiting op \<Rightarrow> C_Relock op | _ \<Rightarrow> c)"

definition cond_queue_init :: "bool \<Rightarrow> int \<Rightarrow> int \<Rightarrow> fault + csys" where
  "cond_queue_init q_ok err max_count =
     ebind (check q_ok Aborted) (\<lambda>_.
     let q = \<lparr>q_nodes = Map.empty, q_first = None, q_last = None, q_count = 0, q_max_count = max_count,
              q_add_attempts = 0, q_get_attempts = 0, q_add_count = 0, q_get_count = 0\<rparr>;
         s = \<lparr>cs_owner = None, cs_obj = q, cs_thr = (\<lambda>_. C_Idle), cs_hist = [], cs_fault = None\<rparr>
     in ebind (check (err = 0) Aborted) (\<lambda>_. Inr s))"

text \<open>
  \<open>queue_destroy\<close>, called when the other threads have ended: the outer \<open>None\<close> is a call that never
  returns, here also one that waits for a mutex whose owner is gone.
\<close>

definition cond_queue_destroy :: "csys option \<Rightarrow> (fault + (addr \<rightharpoonup> qnode)) option" where
  "cond_queue_destroy so = (case so of None \<Rightarrow> Some (Inr Map.empty)
     | Some s \<Rightarrow> (if cs_owner s = None then free_chain qn_next (q_nodes (cs_obj s)) (q_first (cs_obj s)) else None))"

definition cs_goto :: "nat \<Rightarrow> cthread \<Rightarrow> csys \<Rightarrow> csys" where
  "cs_goto t c s = s\<lparr>cs_thr := (cs_thr s)(t := c)\<rparr>"

text \<open>
  \<open>pthread_cond_signal\<close> by a thread that finished \<open>op\<close>: \<open>u\<close> is the scheduler's choice of the thread
  that wakes up; it has to be one that waits on the signalled variable, unless there is none.
\<close>

definition cond_signal :: "nat \<Rightarrow> qop \<Rightarrow> nat option \<Rightarrow> csys \<Rightarrow> csys option" where
  "cond_signal n op u s = (case u of
     None \<Rightarrow> if list_ex (\<lambda>t. waits_for (\<not> is_get op) (cs_thr s t)) [0..<n] then None else Some s
   | Some t \<Rightarrow> if t < n \<and> waits_for (\<not> is_get op) (cs_thr s t) then Some (cs_goto t (wake (cs_thr s t)) s) else None)"

datatype cchoice =
    CC_Call nat qop | CC_Move nat ptr "nat option" | CC_Spurious nat

text \<open>
  One step of the system of threads \<open>0..<n\<close>: the choice names the thread, the answer of \<open>malloc\<close> and
  the thread that a signal wakes. \<open>None\<close>: the choice is not possible.
\<close>

definition cond_move :: "nat \<Rightarrow> nat \<Rightarrow> ptr \<Rightarrow> nat option \<Rightarrow> csys \<Rightarrow> csys option" where
  "cond_move n t p u s = (case cs_thr s t of
     C_Lock op \<Rightarrow> if cs_owner s = None then Some (cs_goto t (C_Test op) (s\<lparr>cs_owner := Some t\<rparr>)) else None
   | C_Relock op \<Rightarrow> if cs_owner s = None then Some (cs_goto t (C_Test op) (s\<lparr>cs_owner := Some t\<rparr>)) else None
   | C_Test op \<Rightarrow> if must_wait op (cs_obj s) then Some (cs_goto t (C_Waiting op) (s\<lparr>cs_owner := None\<rparr>))
       else Some (cs_goto t (C_Body op (qstart op)) s)
   | C_Body op l \<Rightarrow> (case qfinish l of
       None \<Rightarrow> if queue_malloc (cs_obj s) p then (case qstep p l (cs_obj s) of
           Inl e \<Rightarrow> Some (s\<lparr>cs_fault := Some e\<rparr>)
         | Inr (l', q') \<Rightarrow> Some (cs_goto t (C_Body op l') (s\<lparr>cs_obj := q'\<rparr>))) else None
     | Some r \<Rightarrow> (let s' = cs_goto t (C_Unlock op r) (s\<lparr>cs_hist := cs_hist s @ [(op, r)]\<rparr>)
         in if fst r = 0 then Some s' else cond_signal n op u s'))
   | C_Unlock op r \<Rightarrow> Some (cs_goto t C_Idle (s\<lparr>cs_owner := None\<rparr>))
   | C_Cancelled op \<Rightarrow> if cs_owner s = None then Some (cs_goto t C_Dead (s\<lparr>cs_owner := Some t\<rparr>)) else None
   | _ \<Rightarrow> None)"

definition cond_do :: "nat \<Rightarrow> cchoice \<Rightarrow> csys \<Rightarrow> csys option" where
  "cond_do n e s = (if cs_fault s \<noteq> None then None else case e of
     CC_Call t op \<Rightarrow> if t < n \<and> cs_thr s t = C_Idle then Some (cs_goto t (C_Lock op) s) else None
   | CC_Move t p u \<Rightarrow> if t < n then cond_move n t p u s else None
   | CC_Spurious t \<Rightarrow> if t < n \<and> (waits_for True (cs_thr s t) \<or> waits_for False (cs_thr s t))
       then Some (cs_goto t (wake (cs_thr s t)) s) else None)"

inductive cond_step :: "nat \<Rightarrow> csys \<Rightarrow> csys \<Rightarrow> bool" for n where
  cond_stepI: "cond_do n e s = Some s' \<Longrightarrow> cond_step n s s'"

inductive_cases cond_stepE: "cond_step n s s'"

text \<open>
  The same system while \<open>main\<close> cancels the threads: \<open>pthread_cond_wait\<close> is a cancellation point, and
  a thread cancelled there takes the mutex again before it terminates; the test at the head of the
  client loops lets an idle thread terminate.
\<close>

definition cond_cancel :: "nat \<Rightarrow> csys \<Rightarrow> csys option" where
  "cond_cancel t s = (case cs_thr s t of
     C_Waiting op \<Rightarrow> Some (cs_goto t (C_Cancelled op) s)
   | C_Idle \<Rightarrow> Some (cs_goto t C_Dead s)
   | _ \<Rightarrow> None)"

inductive cond_cancel_step :: "nat \<Rightarrow> csys \<Rightarrow> csys \<Rightarrow> bool" for n where
  cancel_run: "cond_do n e s = Some s' \<Longrightarrow> cond_cancel_step n s s'"
| cancel_now: "cs_fault s = None \<Longrightarrow> t < n \<Longrightarrow> cond_cancel t s = Some s' \<Longrightarrow> cond_cancel_step n s s'"

fun cond_run :: "nat \<Rightarrow> cchoice list \<Rightarrow> csys \<Rightarrow> csys option" where
  "cond_run n [] s = Some s"
| "cond_run n (e # es) s = Option.bind (cond_do n e s) (cond_run n es)"

lemma cond_run_reach: "cond_run n es s = Some s' \<Longrightarrow> reach (cond_step n) s s'"
proof (induction es arbitrary: s)
  case Nil
  then show ?case by (simp add: reach_refl)
next
  case (Cons e es)
  then obtain u where u: "cond_do n e s = Some u" "cond_run n es u = Some s'"
    by (auto split: Option.bind_splits)
  have "reach (cond_step n) s u" using u(1) by (intro reach_single cond_stepI)
  with Cons.IH [OF u(2)] show ?case by (rule reach_trans)
qed


section \<open>The invariant\<close>

definition holds_mutex :: "cthread \<Rightarrow> bool" where
  "holds_mutex c = (case c of C_Test op \<Rightarrow> True | C_Body op l \<Rightarrow> True | C_Unlock op r \<Rightarrow> True | _ \<Rightarrow> False)"

definition cancel_free :: "cthread \<Rightarrow> bool" where
  "cancel_free c = (case c of C_Cancelled op \<Rightarrow> False | C_Dead \<Rightarrow> False | _ \<Rightarrow> True)"

text \<open>
  A thread that will look at the queue before it sleeps again: it weighs one for the condition
  variable of its kind.
\<close>

definition alert :: "bool \<Rightarrow> cthread \<Rightarrow> int" where
  "alert g c = (case c of C_Relock op \<Rightarrow> of_bool (is_get op = g) | C_Test op \<Rightarrow> of_bool (is_get op = g)
     | C_Body op l \<Rightarrow> of_bool (is_get op = g) | _ \<Rightarrow> 0)"

definition alert_count :: "nat \<Rightarrow> bool \<Rightarrow> (nat \<Rightarrow> cthread) \<Rightarrow> int" where
  "alert_count n g f = (\<Sum>t<n. alert g (f t))"

text \<open>What is there for the readers (\<open>True\<close>) and for the writers (\<open>False\<close>).\<close>

definition avail :: "bool \<Rightarrow> int list \<times> int \<Rightarrow> int" where
  "avail g a = (if g then int (length (fst a)) else snd a - int (length (fst a)))"

definition cond_assert :: "cthread \<Rightarrow> queue \<Rightarrow> int list \<times> int \<Rightarrow> bool" where
  "cond_assert c q a = (case c of C_Test op \<Rightarrow> queue_holds q a
     | C_Body op l \<Rightarrow> queue_inside op l q a \<and> 0 < avail (is_get op) a
     | C_Unlock op r \<Rightarrow> queue_holds q a | _ \<Rightarrow> False)"

definition cmutex_inv :: "csys \<Rightarrow> int list \<times> int \<Rightarrow> bool" where
  "cmutex_inv s a \<longleftrightarrow> (\<forall>t. holds_mutex (cs_thr s t) \<longleftrightarrow> cs_owner s = Some t) \<and>
     (case cs_owner s of None \<Rightarrow> queue_holds (cs_obj s) a | Some t \<Rightarrow> cond_assert (cs_thr s t) (cs_obj s) a)"

definition wakeup_inv :: "nat \<Rightarrow> (nat \<Rightarrow> cthread) \<Rightarrow> int list \<times> int \<Rightarrow> bool" where
  "wakeup_inv n f a \<longleftrightarrow> (\<forall>g. (\<exists>t. waits_for g (f t)) \<longrightarrow> avail g a \<le> alert_count n g f)"

definition cond_inv :: "nat \<Rightarrow> int \<Rightarrow> csys \<Rightarrow> int list \<Rightarrow> bool" where
  "cond_inv n c s xs \<longleftrightarrow> replay fifo_spec ([], c) (cs_hist s) = Some (xs, c) \<and>
     cmutex_inv s (xs, c) \<and> wakeup_inv n (cs_thr s) (xs, c) \<and>
     (\<forall>h \<in> set (cs_hist s). fst (snd h) = 1) \<and>
     (\<forall>t. cancel_free (cs_thr s t)) \<and> (\<forall>t\<ge>n. cs_thr s t = C_Idle) \<and>
     (cs_fault s = None \<or> cs_fault s = Some Aborted)"

lemma cs_goto_simps [simp]:
  "cs_thr (cs_goto t c s) = (cs_thr s)(t := c)" "cs_owner (cs_goto t c s) = cs_owner s"
  "cs_obj (cs_goto t c s) = cs_obj s" "cs_hist (cs_goto t c s) = cs_hist s" "cs_fault (cs_goto t c s) = cs_fault s"
  by (simp_all add: cs_goto_def)

lemma alert_upd: "t < n \<Longrightarrow> alert_count n g (f(t := c)) = alert_count n g f - alert g (f t) + alert g c"
  unfolding alert_count_def by (rule sum_thread_upd)

lemma wakeup_inv_mono:
  assumes "wakeup_inv n f a" and "t < n"
    and "\<And>g. waits_for g c \<Longrightarrow> avail g b \<le> 0" and "\<And>g. avail g b - alert g c \<le> avail g a - alert g (f t)"
  shows "wakeup_inv n (f(t := c)) b"
  unfolding wakeup_inv_def
proof (intro allI impI)
  fix g assume w: "\<exists>u. waits_for g ((f(t := c)) u)"
  show "avail g b \<le> alert_count n g (f(t := c))"
  proof (cases "waits_for g c")
    case True
    have "0 \<le> alert_count n g (f(t := c))"
      unfolding alert_count_def by (rule sum_nonneg) (simp add: alert_def split: cthread.split)
    with assms(3) [OF True] show ?thesis by linarith
  next
    case False
    with w have "\<exists>u. waits_for g (f u)" by (auto split: if_splits)
    with assms(1) have "avail g a \<le> alert_count n g f" by (simp add: wakeup_inv_def)
    with assms(2) assms(4) [of g] show ?thesis by (simp add: alert_upd)
  qed
qed

text \<open>The end of a body: the operation was not blocked, so it succeeded and moved one unit of avail.\<close>

lemma cond_body_end:
  assumes "queue_inside op l q (xs, c)" and "qfinish l = Some r" and "0 < avail (is_get op) (xs, c)"
  shows "\<exists>ys. fifo_spec (xs, c) op = (r, (ys, c)) \<and> queue_holds q (ys, c) \<and> fst r = 1 \<and>
    avail (is_get op) (ys, c) = avail (is_get op) (xs, c) - 1 \<and>
    avail (\<not> is_get op) (ys, c) = avail (\<not> is_get op) (xs, c) + 1"
  using queue_inside_finish [OF assms(1,2)] assms(3)
  by (cases op; cases xs) (auto simp: fifo_spec_def avail_def split: if_splits)

lemma must_wait_avail:
  "queue_holds q a \<Longrightarrow> must_wait op q \<longleftrightarrow> avail (is_get op) a \<le> 0"
  by (cases op; cases a) (auto simp: must_wait_def avail_def queue_holds_def queue_rep_def)

lemma queue_holds_avail: "queue_holds q a \<Longrightarrow> 0 \<le> avail g a"
  by (auto simp: avail_def queue_holds_def queue_rep_def)

lemma cmutex_inv_goto_free:
  assumes "cmutex_inv s a" and "\<not> holds_mutex (cs_thr s t)" and "\<not> holds_mutex c"
  shows "cmutex_inv (cs_goto t c s) a"
  using assms by (fastforce simp: cmutex_inv_def split: option.split)

lemmas cond_simps = holds_mutex_def cancel_free_def waits_for_def wake_def alert_def cond_assert_def


text \<open>The steps, each with the part of the invariant it concerns.\<close>

lemma cmutex_inv_lock:
  assumes "cmutex_inv s a" and "cs_owner s = None"
  shows "cmutex_inv (cs_goto t (C_Test op) (s\<lparr>cs_owner := Some t\<rparr>)) a"
  using assms by (auto simp: cmutex_inv_def cond_simps)

lemma cmutex_inv_owner:
  assumes "cmutex_inv s a" and "holds_mutex (cs_thr s t)"
  shows "cs_owner s = Some t \<and> cond_assert (cs_thr s t) (cs_obj s) a"
  using assms by (auto simp: cmutex_inv_def)

lemma cmutex_inv_keep:
  assumes "cmutex_inv s a" and "holds_mutex (cs_thr s t)" and "holds_mutex c" and "cond_assert c q b"
  shows "cmutex_inv (cs_goto t c (s\<lparr>cs_obj := q\<rparr>)) b"
  using cmutex_inv_owner [OF assms(1,2)] assms by (auto simp: cmutex_inv_def)

lemma cmutex_inv_release:
  assumes "cmutex_inv s a" and "holds_mutex (cs_thr s t)" and "\<not> holds_mutex c" and "queue_holds (cs_obj s) a"
  shows "cmutex_inv (cs_goto t c (s\<lparr>cs_owner := None\<rparr>)) a"
  using cmutex_inv_owner [OF assms(1,2)] assms by (auto simp: cmutex_inv_def split: if_splits)

lemma cmutex_inv_cong:
  "cs_thr s' = cs_thr s \<Longrightarrow> cs_owner s' = cs_owner s \<Longrightarrow> cs_obj s' = cs_obj s \<Longrightarrow> cmutex_inv s' a = cmutex_inv s a"
  by (simp add: cmutex_inv_def split: option.split)

lemma waits_for_wake [simp]: "\<not> waits_for g (wake c)"
  by (simp add: waits_for_def wake_def split: cthread.split)

lemma wakeup_signal_none:
  assumes "wakeup_inv n f a" and "t < n" and "alert k (f t) = 1" and "alert (\<not> k) (f t) = 0"
    and "alert k c = 0" and "\<And>g. \<not> waits_for g c"
    and "avail k b = avail k a - 1" and "\<And>u. \<not> waits_for (\<not> k) ((f(t := c)) u)"
  shows "wakeup_inv n (f(t := c)) b"
  unfolding wakeup_inv_def
proof (intro allI impI)
  fix g assume w: "\<exists>u. waits_for g ((f(t := c)) u)"
  with assms(8) have "g = k" by (cases g; cases k) auto
  with w assms(6) have "\<exists>u. waits_for k (f u)" by (auto split: if_splits)
  with assms(1) have "avail k a \<le> alert_count n k f" by (simp add: wakeup_inv_def)
  with \<open>g = k\<close> assms show "avail g b \<le> alert_count n g (f(t := c))" by (simp add: alert_upd)
qed

lemma wakeup_signal_some:
  assumes "wakeup_inv n f a" and "t < n" and "alert k (f t) = 1" and "alert (\<not> k) (f t) = 0"
    and "alert k c = 0" and "alert (\<not> k) c = 0" and "\<And>g. \<not> waits_for g c"
    and "avail k b = avail k a - 1" and "avail (\<not> k) b = avail (\<not> k) a + 1"
    and "u < n" and "u \<noteq> t" and "waits_for (\<not> k) (f u)"
  shows "wakeup_inv n (f(t := c, u := wake (f u))) b"
  unfolding wakeup_inv_def
proof (intro allI impI)
  fix g assume "\<exists>v. waits_for g ((f(t := c, u := wake (f u))) v)"
  with assms(7) have "\<exists>v. waits_for g (f v)" by (auto split: if_splits)
  with assms(1) have i: "avail g a \<le> alert_count n g f" by (simp add: wakeup_inv_def)
  have w: "alert k (wake (f u)) = 0" "alert (\<not> k) (wake (f u)) = 1" "alert g (f u) = 0"
    using assms(12) by (auto simp: cond_simps split: cthread.splits)
  have e: "alert_count n g (f(t := c, u := wake (f u))) =
      alert_count n g f - alert g (f t) + alert g c + alert g (wake (f u))"
    using assms(2,10,11) w(3) by (simp add: alert_upd del: fun_upd_apply) simp
  show "avail g b \<le> alert_count n g (f(t := c, u := wake (f u)))"
    unfolding e using i w(1,2) assms(3-6,8,9) by (cases g; cases k) simp_all
qed


lemma cond_invI:
  assumes "cond_inv n c s xs" and "cmutex_inv s' (xs, c)" and "wakeup_inv n (cs_thr s') (xs, c)"
    and "cs_hist s' = cs_hist s" and "cs_fault s' = cs_fault s"
    and "cs_thr s' = (cs_thr s)(t := d)" and "t < n" and "cancel_free d"
  shows "\<exists>ys. cond_inv n c s' ys"
  using assms by (intro exI [of _ xs]) (auto simp: cond_inv_def)

lemma cond_inv_asleep:
  assumes I: "cond_inv n c s xs" and t: "t < n" and nh: "\<not> holds_mutex (cs_thr s t)" "\<not> holds_mutex d"
    and a: "\<And>g. alert g (cs_thr s t) \<le> alert g d" and w: "\<And>g. \<not> waits_for g d" and f: "cancel_free d"
  shows "\<exists>ys. cond_inv n c (cs_goto t d s) ys"
proof (rule cond_invI [OF I _ _ _ _ _ t f])
  show "cmutex_inv (cs_goto t d s) (xs, c)"
    using I nh by (intro cmutex_inv_goto_free) (simp_all add: cond_inv_def)
  have "wakeup_inv n ((cs_thr s)(t := d)) (xs, c)"
    using I t a w by (intro wakeup_inv_mono [where a = "(xs, c)"]) (simp_all add: cond_inv_def)
  then show "wakeup_inv n (cs_thr (cs_goto t d s)) (xs, c)" by simp
qed simp_all

lemma cond_inv_lock:
  assumes I: "cond_inv n c s xs" and t: "t < n" and o: "cs_owner s = None"
    and a: "\<And>g. alert g (cs_thr s t) \<le> alert g (C_Test op)"
  shows "\<exists>ys. cond_inv n c (cs_goto t (C_Test op) (s\<lparr>cs_owner := Some t\<rparr>)) ys"
proof (rule cond_invI [OF I, where t = t and d = "C_Test op"])
  show "cmutex_inv (cs_goto t (C_Test op) (s\<lparr>cs_owner := Some t\<rparr>)) (xs, c)"
    using I o by (intro cmutex_inv_lock) (simp_all add: cond_inv_def)
  have "wakeup_inv n ((cs_thr s)(t := C_Test op)) (xs, c)"
    using I t a by (intro wakeup_inv_mono [where a = "(xs, c)"]) (simp_all add: cond_inv_def waits_for_def)
  then show "wakeup_inv n (cs_thr (cs_goto t (C_Test op) (s\<lparr>cs_owner := Some t\<rparr>))) (xs, c)" by simp
qed (use t in \<open>simp_all add: cancel_free_def\<close>)

lemma cond_inv_owner:
  "cond_inv n c s xs \<Longrightarrow> holds_mutex (cs_thr s t) \<Longrightarrow> cs_owner s = Some t \<and> cond_assert (cs_thr s t) (cs_obj s) (xs, c)"
  unfolding cond_inv_def by (blast dest: cmutex_inv_owner)

lemma cond_inv_release:
  assumes I: "cond_inv n c s xs" and t: "t < n" and h: "holds_mutex (cs_thr s t)" "\<not> holds_mutex d"
    and q: "queue_holds (cs_obj s) (xs, c)" and f: "cancel_free d"
    and w: "\<And>g. waits_for g d \<Longrightarrow> avail g (xs, c) \<le> 0"
    and a: "\<And>g. alert g (cs_thr s t) \<le> alert g d \<or> avail g (xs, c) \<le> 0"
  shows "\<exists>ys. cond_inv n c (cs_goto t d (s\<lparr>cs_owner := None\<rparr>)) ys"
proof (rule cond_invI [OF I, where t = t and d = d])
  show "cmutex_inv (cs_goto t d (s\<lparr>cs_owner := None\<rparr>)) (xs, c)"
    using I h q by (intro cmutex_inv_release) (simp_all add: cond_inv_def)
  have "wakeup_inv n ((cs_thr s)(t := d)) (xs, c)"
    unfolding wakeup_inv_def
  proof (intro allI impI)
    fix g assume "\<exists>u. waits_for g (((cs_thr s)(t := d)) u)"
    then have c: "avail g (xs, c) \<le> 0 \<or> (\<exists>u. waits_for g (cs_thr s u))" using w by (auto split: if_splits)
    have "0 \<le> alert_count n g ((cs_thr s)(t := d))"
      unfolding alert_count_def by (rule sum_nonneg) (simp add: alert_def split: cthread.split)
    moreover have "avail g (xs, c) \<le> alert_count n g (cs_thr s)" if "\<exists>u. waits_for g (cs_thr s u)"
      using I that by (simp add: cond_inv_def wakeup_inv_def)
    ultimately show "avail g (xs, c) \<le> alert_count n g ((cs_thr s)(t := d))"
      using c a [of g] t by (smt (verit) alert_upd)
  qed
  then show "wakeup_inv n (cs_thr (cs_goto t d (s\<lparr>cs_owner := None\<rparr>))) (xs, c)" by simp
qed (use t f in simp_all)

lemma cond_inv_body:
  assumes I: "cond_inv n c s xs" and t: "t < n" and h: "holds_mutex (cs_thr s t)" "holds_mutex d"
    and q: "cond_assert d q (xs, c)" and f: "cancel_free d" and w: "\<And>g. \<not> waits_for g d"
    and a: "\<And>g. alert g (cs_thr s t) = alert g d"
  shows "\<exists>ys. cond_inv n c (cs_goto t d (s\<lparr>cs_obj := q\<rparr>)) ys"
proof (rule cond_invI [OF I, where t = t and d = d])
  show "cmutex_inv (cs_goto t d (s\<lparr>cs_obj := q\<rparr>)) (xs, c)"
    using I h q by (intro cmutex_inv_keep [where a = "(xs, c)"]) (simp_all add: cond_inv_def)
  have "wakeup_inv n ((cs_thr s)(t := d)) (xs, c)"
    using I t a w by (intro wakeup_inv_mono [where a = "(xs, c)"]) (simp_all add: cond_inv_def)
  then show "wakeup_inv n (cs_thr (cs_goto t d (s\<lparr>cs_obj := q\<rparr>))) (xs, c)" by simp
qed (use t f in simp_all)


lemma cond_inv_signal:
  assumes I: "cond_inv n c s xs" and t: "t < n" and b: "cs_thr s t = C_Body op l" and r: "qfinish l = Some r"
    and st: "cond_signal n op u (cs_goto t (C_Unlock op r) (s\<lparr>cs_hist := cs_hist s @ [(op, r)]\<rparr>)) = Some s'"
  shows "\<exists>ys. cond_inv n c s' ys"
proof -
  let ?s = "cs_goto t (C_Unlock op r) (s\<lparr>cs_hist := cs_hist s @ [(op, r)]\<rparr>)"
  have o: "cs_owner s = Some t" "queue_inside op l (cs_obj s) (xs, c)" "0 < avail (is_get op) (xs, c)"
    using cond_inv_owner [OF I, of t] b by (simp_all add: cond_simps)
  from cond_body_end [OF o(2) r o(3)] obtain ys where ys: "fifo_spec (xs, c) op = (r, (ys, c))"
    "queue_holds (cs_obj s) (ys, c)" "fst r = 1"
    "avail (is_get op) (ys, c) = avail (is_get op) (xs, c) - 1"
    "avail (\<not> is_get op) (ys, c) = avail (\<not> is_get op) (xs, c) + 1" by blast
  have rep: "replay fifo_spec ([], c) (cs_hist s @ [(op, r)]) = Some (ys, c)"
    using I ys(1) by (simp add: cond_inv_def replay_append)
  have "cmutex_inv (cs_goto t (C_Unlock op r) (s\<lparr>cs_obj := cs_obj s\<rparr>)) (ys, c)"
    using I b ys(2) by (intro cmutex_inv_keep [where a = "(xs, c)"]) (simp_all add: cond_inv_def cond_simps)
  then have m: "cmutex_inv ?s (ys, c)" by (rule cmutex_inv_cong [THEN iffD1, rotated 3]) simp_all
  have al: "alert (is_get op) (cs_thr s t) = 1" "alert (\<not> is_get op) (cs_thr s t) = 0"
    "\<And>g. alert g (C_Unlock op r) = 0" "\<And>g. \<not> waits_for g (C_Unlock op r)" using b by (simp_all add: cond_simps)
  have W: "wakeup_inv n (cs_thr s) (xs, c)" using I by (simp add: cond_inv_def)
  show ?thesis
  proof (cases u)
    case None
    with st have s': "s' = ?s" and nw: "\<And>v. v < n \<Longrightarrow> \<not> waits_for (\<not> is_get op) (cs_thr ?s v)"
      by (auto simp: cond_signal_def list_ex_iff split: if_splits)
    have "\<not> waits_for (\<not> is_get op) (((cs_thr s)(t := C_Unlock op r)) v)" for v
      using nw [of v] I by (cases "v < n") (auto simp: cond_inv_def waits_for_def)
    then have "wakeup_inv n ((cs_thr s)(t := C_Unlock op r)) (ys, c)"
      using W t al ys(4) by (intro wakeup_signal_none [where a = "(xs, c)" and k = "is_get op"]) simp_all
    with s' rep m ys(3) I t show ?thesis
      by (intro exI [of _ ys]) (auto simp: cond_inv_def cancel_free_def)
  next
    case (Some v)
    with st have v: "v < n" "waits_for (\<not> is_get op) (cs_thr ?s v)" "s' = cs_goto v (wake (cs_thr ?s v)) ?s"
      by (auto simp: cond_signal_def split: if_splits)
    have vt: "v \<noteq> t" using v(2) by (auto simp: waits_for_def split: if_splits)
    with v have w: "waits_for (\<not> is_get op) (cs_thr s v)" by simp
    then have h: "\<not> holds_mutex (cs_thr s v)" "\<not> holds_mutex (wake (cs_thr s v))" "cancel_free (wake (cs_thr s v))"
      by (auto simp: cond_simps split: cthread.splits)
    have "wakeup_inv n ((cs_thr s)(t := C_Unlock op r, v := wake (cs_thr s v))) (ys, c)"
      using W t al ys(4,5) v(1) vt w by (intro wakeup_signal_some [where a = "(xs, c)" and k = "is_get op"]) simp_all
    moreover have "cmutex_inv s' (ys, c)"
      unfolding v(3) by (rule cmutex_inv_goto_free [OF m]) (use h vt in simp_all)
    ultimately show ?thesis using v(3) vt rep ys(3) I t h v(1)
      by (intro exI [of _ ys]) (auto simp: cond_inv_def cancel_free_def)
  qed
qed


lemma cond_inv_move:
  assumes I: "cond_inv n c s xs" and t: "t < n" and st: "cond_move n t p u s = Some s'"
  shows "\<exists>ys. cond_inv n c s' ys"
proof (cases "cs_thr s t")
  case (C_Lock op)
  with st cond_inv_lock [OF I t, of op] show ?thesis by (auto simp: cond_move_def cond_simps split: if_splits)
next
  case (C_Relock op)
  with st cond_inv_lock [OF I t, of op] show ?thesis by (auto simp: cond_move_def cond_simps split: if_splits)
next
  case (C_Test op)
  with cond_inv_owner [OF I, of t] have q: "queue_holds (cs_obj s) (xs, c)" by (simp add: cond_simps)
  show ?thesis
  proof (cases "must_wait op (cs_obj s)")
    case True
    with must_wait_avail [OF q] have a: "avail (is_get op) (xs, c) \<le> 0" by simp
    from C_Test st True have s': "s' = cs_goto t (C_Waiting op) (s\<lparr>cs_owner := None\<rparr>)" by (simp add: cond_move_def)
    show ?thesis unfolding s'
      by (rule cond_inv_release [OF I t _ _ q]) (use C_Test a in \<open>auto simp: cond_simps\<close>)
  next
    case False
    with must_wait_avail [OF q] have a: "0 < avail (is_get op) (xs, c)" by simp
    from C_Test st False have s': "s' = cs_goto t (C_Body op (qstart op)) (s\<lparr>cs_obj := cs_obj s\<rparr>)"
      by (simp add: cond_move_def)
    show ?thesis unfolding s'
      by (rule cond_inv_body [OF I t]) (use C_Test a queue_inside_start [OF q] in \<open>simp_all add: cond_simps\<close>)
  qed
next
  case (C_Body op l)
  with cond_inv_owner [OF I, of t] have i: "queue_inside op l (cs_obj s) (xs, c)"
    and a: "0 < avail (is_get op) (xs, c)" by (simp_all add: cond_simps)
  show ?thesis
  proof (cases "qfinish l")
    case None
    with C_Body st have m: "queue_malloc (cs_obj s) p" by (auto simp: cond_move_def split: if_splits)
    show ?thesis
    proof (cases "qstep p l (cs_obj s)")
      case (Inl e)
      with queue_inside_step [OF i None m] have "e = Aborted" by simp
      with C_Body st None m Inl have "s' = s\<lparr>cs_fault := Some Aborted\<rparr>" by (simp add: cond_move_def)
      with I cmutex_inv_cong [of s' s] have "cond_inv n c s' xs" by (auto simp: cond_inv_def)
      then show ?thesis ..
    next
      case (Inr x)
      obtain l' q' where x: "x = (l', q')" by (cases x)
      with queue_inside_step [OF i None m] Inr have "queue_inside op l' q' (xs, c)" by simp
      moreover from C_Body st None m Inr x have s': "s' = cs_goto t (C_Body op l') (s\<lparr>cs_obj := q'\<rparr>)"
        by (simp add: cond_move_def)
      ultimately show ?thesis unfolding s'
        by (intro cond_inv_body [OF I t]) (use C_Body a in \<open>simp_all add: cond_simps\<close>)
    qed
  next
    case (Some r)
    with cond_body_end [OF i _ a] have "fst r = 1" by blast
    with C_Body st Some show ?thesis by (auto intro: cond_inv_signal [OF I t] simp: cond_move_def Let_def)
  qed
next
  case (C_Unlock op r)
  with cond_inv_owner [OF I, of t] have q: "queue_holds (cs_obj s) (xs, c)" by (simp add: cond_simps)
  from C_Unlock st have s': "s' = cs_goto t C_Idle (s\<lparr>cs_owner := None\<rparr>)" by (simp add: cond_move_def)
  show ?thesis unfolding s'
    by (rule cond_inv_release [OF I t _ _ q]) (use C_Unlock in \<open>simp_all add: cond_simps\<close>)
next
  case (C_Cancelled op)
  have "cancel_free (cs_thr s t)" using I by (simp add: cond_inv_def)
  with C_Cancelled show ?thesis by (simp add: cancel_free_def)
qed (use st in \<open>simp_all add: cond_move_def\<close>)

lemma cond_inv_step:
  assumes I: "\<exists>xs. cond_inv n c s xs" and st: "cond_step n s s'"
  shows "\<exists>xs. cond_inv n c s' xs"
proof -
  from I obtain xs where I: "cond_inv n c s xs" ..
  from st obtain e where e: "cond_do n e s = Some s'" by (rule cond_stepE)
  show ?thesis
  proof (cases e)
    case (CC_Call t op)
    with e have "t < n" "cs_thr s t = C_Idle" "s' = cs_goto t (C_Lock op) s"
      by (auto simp: cond_do_def split: if_splits)
    with cond_inv_asleep [OF I, of t "C_Lock op"] show ?thesis by (simp add: cond_simps)
  next
    case (CC_Move t p u)
    with e cond_inv_move [OF I, of t p u s'] show ?thesis by (auto simp: cond_do_def split: if_splits)
  next
    case (CC_Spurious t)
    with e obtain op where "t < n" "cs_thr s t = C_Waiting op" "s' = cs_goto t (C_Relock op) s"
      by (auto simp: cond_do_def cond_simps split: if_splits cthread.splits)
    with cond_inv_asleep [OF I, of t "C_Relock op"] show ?thesis by (simp add: cond_simps)
  qed
qed

lemma cond_inv_init:
  assumes "cond_queue_init True 0 m = Inr s0" and "0 \<le> m"
  shows "cond_inv n m s0 []"
  using assms by (auto simp: cond_queue_init_def cond_inv_def cmutex_inv_def wakeup_inv_def cond_simps
      queue_holds_def queue_rep_def queue_chain_def)

lemma cond_inv_reach:
  assumes "cond_queue_init True 0 m = Inr s0" and "0 \<le> m" and "reach (cond_step n) s0 s"
  obtains xs where "cond_inv n m s xs"
proof -
  have "\<exists>xs. cond_inv n m s xs"
    using assms(3) exI [of "cond_inv n m s0", OF cond_inv_init [OF assms(1,2)]] cond_inv_step
    by (rule reach_invariant)
  with that show thesis by blast
qed


section \<open>Properties\<close>

lemma cond_inv_alert_zero:
  assumes I: "cond_inv n c s xs" and q: "\<And>t. t < n \<Longrightarrow> cs_thr s t = C_Idle \<or> (\<exists>op. cs_thr s t = C_Waiting op)"
    and w: "waits_for g (cs_thr s t)"
  shows "avail g (xs, c) \<le> 0"
proof -
  have "alert g (cs_thr s t) = 0" if "t < n" for t using q [OF that] by (auto simp: alert_def)
  then have "alert_count n g (cs_thr s) = 0" by (simp add: alert_count_def)
  moreover have "\<exists>t. waits_for g (cs_thr s t)" using w by blast
  ultimately show ?thesis using I unfolding cond_inv_def wakeup_inv_def by metis
qed

text \<open>A thread that is neither idle nor asleep can move, unless another one owns the mutex.\<close>

lemma cond_move_enabled:
  assumes I: "cond_inv n c s xs" and f: "cs_fault s = None" and t: "t < n"
    and a: "cs_thr s t \<noteq> C_Idle" "\<And>op. cs_thr s t \<noteq> C_Waiting op" and o: "cs_owner s = None \<or> cs_owner s = Some t"
    and p: "q_nodes (cs_obj s) a = None"
  shows "\<exists>u s'. cond_do n (CC_Move t (Some a) u) s = Some s'"
proof -
  have cf: "cancel_free (cs_thr s t)" using I by (simp add: cond_inv_def)
  have own: "cs_owner s = None" if "\<not> holds_mutex (cs_thr s t)"
    using o I that by (auto simp: cond_inv_def cmutex_inv_def)
  have sig: "\<exists>u s'. cond_signal n op u s0 = Some s'" for op s0
  proof (cases "list_ex (\<lambda>t. waits_for (\<not> is_get op) (cs_thr s0 t)) [0..<n]")
    case True
    then obtain v where "v < n" "waits_for (\<not> is_get op) (cs_thr s0 v)" by (auto simp: list_ex_iff)
    then have "cond_signal n op (Some v) s0 = Some (cs_goto v (wake (cs_thr s0 v)) s0)" by (simp add: cond_signal_def)
    then show ?thesis by blast
  next
    case False
    then have "cond_signal n op None s0 = Some s0" by (simp add: cond_signal_def)
    then show ?thesis by blast
  qed
  show ?thesis
  proof (cases "cs_thr s t")
    case (C_Body op l)
    show ?thesis
    proof (cases "qfinish l")
      case None
      with C_Body f t p show ?thesis
        by (cases "qstep (Some a) l (cs_obj s)") (auto simp: cond_do_def cond_move_def)
    next
      case (Some r)
      with C_Body f t sig show ?thesis by (auto simp: cond_do_def cond_move_def Let_def)
    qed
  qed (use f t a cf own in \<open>auto simp: cond_do_def cond_move_def cond_simps\<close>)
qed

lemma cond_queue_destroy_frees:
  assumes "cs_owner s = None" and "queue_holds (cs_obj s) a"
  shows "cond_queue_destroy (Some s) = Some (Inr Map.empty)"
proof -
  from assms(2) obtain as where p: "path qn_next (q_nodes (cs_obj s)) (q_first (cs_obj s)) as None"
    and d: "dom (q_nodes (cs_obj s)) = set as" by (auto simp: queue_holds_def queue_rep_def queue_chain_def)
  have "q_nodes (cs_obj s) |` (- set as) = Map.empty" using d by (auto simp: restrict_map_def fun_eq_iff)
  with free_chain_path [OF p] assms(1) show ?thesis by (simp add: cond_queue_destroy_def)
qed

definition cond_demo :: csys where
  "cond_demo = \<lparr>cs_owner = None,
     cs_obj = \<lparr>q_nodes = Map.empty, q_first = None, q_last = None, q_count = 0, q_max_count = 1,
       q_add_attempts = 0, q_get_attempts = 0, q_add_count = 0, q_get_count = 0\<rparr>,
     cs_thr = (\<lambda>_. C_Idle), cs_hist = [], cs_fault = None\<rparr>"

lemma cond_demo_init: "cond_queue_init True 0 1 = Inr cond_demo"
  by (simp add: cond_queue_init_def cond_demo_def)

lemmas cond_eval = cond_do_def cond_move_def cond_signal_def cs_goto_def must_wait_def waits_for_def wake_def
  qstart_def qfinish_def qstep_def queue_malloc_def

text \<open>C5: the condition-variable queue under any interleaving of any number of threads, spurious
  wakeups included: the completed operations, in the order in which they took effect, are a history of
  a bounded list in which every call succeeds (a call never returns 0), at most one thread holds the
  mutex, and no thread faults; the only way to die is a failed \<open>malloc\<close>. While the mutex is free the
  queue is well formed, and \<open>queue_destroy\<close> returns and frees every node.\<close>

theorem condvar_queue_linearizable:
  assumes "cond_queue_init True 0 m = Inr s0" and "0 \<le> m" and "reach (cond_step n) s0 s"
  shows "(\<exists>xs. replay fifo_spec ([], m) (cs_hist s) = Some (xs, m) \<and> (cs_owner s = None \<longrightarrow>
      queue_holds (cs_obj s) (xs, m) \<and> cond_queue_destroy (Some s) = Some (Inr Map.empty))) \<and>
    (\<forall>(op, r, v) \<in> set (cs_hist s). r = 1) \<and>
    (\<forall>t u. holds_mutex (cs_thr s t) \<and> holds_mutex (cs_thr s u) \<longrightarrow> t = u) \<and>
    (cs_fault s = None \<or> cs_fault s = Some Aborted)"
proof -
  from cond_inv_reach [OF assms] obtain xs where I: "cond_inv n m s xs" .
  then have "\<forall>t u. holds_mutex (cs_thr s t) \<and> holds_mutex (cs_thr s u) \<longrightarrow> t = u"
    by (auto simp: cond_inv_def cmutex_inv_def)
  moreover have "cs_owner s = None \<Longrightarrow> queue_holds (cs_obj s) (xs, m)"
    using I by (simp add: cond_inv_def cmutex_inv_def)
  ultimately show ?thesis using I cond_queue_destroy_frees [of s "(xs, m)"]
    by (intro conjI exI [of _ xs]) (auto simp: cond_inv_def)
qed

text \<open>C21: no wakeup is lost in the condition-variable queue. As long as some thread is neither idle nor
  asleep, some thread can make a step (whatever fresh block \<open>malloc\<close> returns); and when all threads
  are idle or asleep, then the sleepers are only readers and the queue is empty, or only writers and
  the queue is full.\<close>

theorem condvar_no_lost_wakeup:
  assumes "cond_queue_init True 0 m = Inr s0" and "0 < m" and "reach (cond_step n) s0 s"
    and "cs_fault s = None" and "q_nodes (cs_obj s) a = None"
  shows "if \<exists>t. cs_thr s t \<noteq> C_Idle \<and> (\<forall>op. cs_thr s t \<noteq> C_Waiting op)
    then \<exists>t u s'. cond_do n (CC_Move t (Some a) u) s = Some s'
    else q_count (cs_obj s) = 0 \<and> (\<forall>t. \<not> waits_for False (cs_thr s t)) \<or>
         q_count (cs_obj s) = m \<and> (\<forall>t. \<not> waits_for True (cs_thr s t)) \<or>
         (\<forall>t. cs_thr s t = C_Idle)"
proof -
  from cond_inv_reach [OF assms(1) _ assms(3)] assms(2) obtain xs where I: "cond_inv n m s xs" by fastforce
  show ?thesis
  proof (cases "\<exists>t. cs_thr s t \<noteq> C_Idle \<and> (\<forall>op. cs_thr s t \<noteq> C_Waiting op)")
    case True
    then obtain t where t: "cs_thr s t \<noteq> C_Idle" "\<And>op. cs_thr s t \<noteq> C_Waiting op" by blast
    define v where "v = (case cs_owner s of None \<Rightarrow> t | Some u \<Rightarrow> u)"
    have "holds_mutex (cs_thr s v) \<or> v = t" using I by (auto simp: v_def cond_inv_def cmutex_inv_def split: option.splits)
    with t have v: "cs_thr s v \<noteq> C_Idle" "\<And>op. cs_thr s v \<noteq> C_Waiting op" by (auto simp: holds_mutex_def)
    have "cs_thr s v = C_Idle" if "n \<le> v" using I that by (simp add: cond_inv_def)
    with v(1) have "v < n" by (meson not_less)
    with cond_move_enabled [OF I assms(4) _ v _ assms(5)] True show ?thesis
      by (simp only: if_True) (auto simp: v_def split: option.splits)
  next
    case False
    then have q: "cs_thr s t = C_Idle \<or> (\<exists>op. cs_thr s t = C_Waiting op)" for t by blast
    have "\<not> holds_mutex (cs_thr s t)" for t using q [of t] by (auto simp: holds_mutex_def)
    with I have h: "queue_holds (cs_obj s) (xs, m)" by (auto simp: cond_inv_def cmutex_inv_def split: option.splits)
    then have k: "q_count (cs_obj s) = avail True (xs, m)" "m - q_count (cs_obj s) = avail False (xs, m)"
      by (auto simp: avail_def queue_holds_def queue_rep_def)
    have z: "avail g (xs, m) = 0" if "waits_for g (cs_thr s t)" for g t
      using cond_inv_alert_zero [OF I q that] queue_holds_avail [OF h, of g] by simp
    have "q_count (cs_obj s) = 0" if "waits_for True (cs_thr s t)" for t using z [OF that] k by simp
    moreover have "q_count (cs_obj s) = m" if "waits_for False (cs_thr s t)" for t using z [OF that] k by simp
    moreover have "waits_for True (cs_thr s t) \<or> waits_for False (cs_thr s t)" if "cs_thr s t \<noteq> C_Idle" for t
      using q [of t] that by (auto simp: waits_for_def)
    ultimately show ?thesis using False assms(2) by (simp only: if_False) (metis less_irrefl)
  qed
qed


theorem condvar_queue_linearizable_witness:
  "\<exists>s. reach (cond_step 2) cond_demo s \<and> cs_hist s = [(Op_Add 7, 1, 7), (Op_Get 0, 1, 7)] \<and>
     queue_holds (cs_obj s) ([], 1) \<and> cond_queue_destroy (Some s) = Some (Inr Map.empty)"
proof -
  let ?m = "\<lambda>t. CC_Move t None None"
  have "\<exists>s. cond_run 2 ([CC_Call 0 (Op_Get 0), ?m 0, ?m 0, CC_Call 1 (Op_Add 7), ?m 1, ?m 1] @ replicate 3 (?m 1) @
      [CC_Move 1 (Some 3) None] @ replicate 6 (?m 1) @ [CC_Move 1 None (Some 0), ?m 1, ?m 0, ?m 0] @ replicate 12 (?m 0)) cond_demo = Some s \<and>
      cs_hist s = [(Op_Add 7, 1, 7), (Op_Get 0, 1, 7)] \<and> cs_owner s = None"
    by (simp add: cond_demo_def cond_eval numeral_eq_Suc)
  then obtain s where s: "reach (cond_step 2) cond_demo s" "cs_hist s = [(Op_Add 7, 1, 7), (Op_Get 0, 1, 7)]"
    "cs_owner s = None" using cond_run_reach by blast
  with condvar_queue_linearizable [OF cond_demo_init _ s(1)] show ?thesis by (auto simp: fifo_spec_def)
qed

theorem condvar_no_lost_wakeup_witness:
  "\<exists>s. reach (cond_step 2) cond_demo s \<and> cs_thr s 0 = C_Waiting (Op_Get 0) \<and> (\<forall>t. \<not> waits_for False (cs_thr s t))"
proof -
  have "\<exists>s. cond_run 2 [CC_Call 0 (Op_Get 0), CC_Move 0 None None, CC_Move 0 None None] cond_demo = Some s \<and>
      cs_thr s = (\<lambda>_. C_Idle)(0 := C_Waiting (Op_Get 0)) \<and> cs_fault s = None \<and> q_nodes (cs_obj s) 0 = None \<and> q_count (cs_obj s) = 0"
    by (simp add: cond_demo_def cond_eval)
  then obtain s where s: "reach (cond_step 2) cond_demo s" "cs_thr s = (\<lambda>_. C_Idle)(0 := C_Waiting (Op_Get 0))"
    "cs_fault s = None" "q_nodes (cs_obj s) 0 = None" "q_count (cs_obj s) = 0"
    using cond_run_reach by blast
  have "\<not> (\<exists>t. cs_thr s t \<noteq> C_Idle \<and> (\<forall>op. cs_thr s t \<noteq> C_Waiting op))" using s(2) by auto
  with condvar_no_lost_wakeup [OF cond_demo_init _ s(1,3,4)] s(5)
  have "(\<forall>t. \<not> waits_for False (cs_thr s t)) \<or> (\<forall>t. cs_thr s t = C_Idle)" by simp
  moreover have "cs_thr s 0 = C_Waiting (Op_Get 0)" using s(2) by simp
  ultimately show ?thesis using s(1) by (metis cthread.distinct(5))
qed

text \<open>A terminated thread that owns the mutex keeps it for ever.\<close>

lemma dead_owner_step:
  assumes "cs_owner s = Some t \<and> cs_thr s t = C_Dead \<and> (\<forall>u. \<not> holds_mutex (cs_thr s u))"
    and "cond_cancel_step n s s'"
  shows "cs_owner s' = Some t \<and> cs_thr s' t = C_Dead \<and> (\<forall>u. \<not> holds_mutex (cs_thr s' u))"
  using assms(2)
proof cases
  case (cancel_run e)
  have nh: "\<not> holds_mutex (cs_thr s u)" for u using assms(1) by blast
  show ?thesis
  proof (cases e)
    case (CC_Move u p v)
    with cancel_run nh [of u] assms(1) show ?thesis
      by (auto simp: cond_do_def cond_move_def holds_mutex_def split: if_splits cthread.splits)
  qed (use cancel_run assms(1) in \<open>auto simp: cond_do_def cond_simps split: if_splits cthread.splits\<close>)
next
  case (cancel_now u)
  with assms(1) show ?thesis by (auto simp: cond_cancel_def cond_simps split: cthread.splits if_splits)
qed

text \<open>C33: cancelling a thread that sleeps in \<open>pthread_cond_wait\<close> leaves the mutex locked for ever. After a
  reader found the queue empty, \<open>main\<close> cancelled it and it terminated, no step of any thread frees the
  mutex, and the \<open>queue_destroy\<close> at the end of \<open>main\<close> never returns.\<close>

theorem condvar_cancel_deadlocks:
  assumes "cond_queue_init True 0 m = Inr s0" and "0 < n"
  shows "\<exists>s. reach (cond_cancel_step n) s0 s \<and> cs_thr s 0 = C_Dead \<and> cs_fault s = None \<and>
    (\<forall>s'. reach (cond_cancel_step n) s s' \<longrightarrow> cs_owner s' = Some 0 \<and> cond_queue_destroy (Some s') = None)"
proof -
  let ?run = "cond_run n [CC_Call 0 (Op_Get 0), CC_Move 0 None None, CC_Move 0 None None] s0"
  from assms have "\<exists>s. ?run = Some s \<and> cs_thr s = (\<lambda>_. C_Idle)(0 := C_Waiting (Op_Get 0)) \<and> cs_fault s = None \<and> cs_owner s = None"
    by (auto simp: cond_queue_init_def cond_eval)
  then obtain s1 where s1: "?run = Some s1" "cs_thr s1 = (\<lambda>_. C_Idle)(0 := C_Waiting (Op_Get 0))"
    "cs_fault s1 = None" "cs_owner s1 = None" by blast
  have r1: "reach (cond_cancel_step n) s0 s1"
    using cond_run_reach [OF s1(1)] by (rule reach_mono) (auto intro: cancel_run elim: cond_stepE)
  let ?s2 = "cs_goto 0 (C_Cancelled (Op_Get 0)) s1"
  let ?s3 = "cs_goto 0 C_Dead (?s2\<lparr>cs_owner := Some 0\<rparr>)"
  have "cond_cancel_step n s1 ?s2" using assms(2) s1 by (intro cancel_now [of _ 0]) (simp_all add: cond_cancel_def)
  moreover have "cond_do n (CC_Move 0 None None) ?s2 = Some ?s3" using assms(2) s1 by (simp add: cond_do_def cond_move_def)
  then have "cond_cancel_step n ?s2 ?s3" by (rule cancel_run)
  ultimately have r3: "reach (cond_cancel_step n) s0 ?s3" using r1 by (blast intro: reach_step)
  let ?J = "\<lambda>s. cs_owner s = Some 0 \<and> cs_thr s 0 = C_Dead \<and> (\<forall>u. \<not> holds_mutex (cs_thr s u))"
  have "?J s'" if r: "reach (cond_cancel_step n) ?s3 s'" for s'
  proof (rule reach_invariant [where I = ?J, OF r])
    show "?J ?s3" using s1 by (simp add: holds_mutex_def)
    show "?J v" if "?J u" "cond_cancel_step n u v" for u v using that by (rule dead_owner_step)
  qed
  with r3 s1 show ?thesis by (intro exI [of _ ?s3]) (simp add: cond_queue_destroy_def)
qed

theorem condvar_cancel_deadlocks_witness:
  "\<exists>s. reach (cond_cancel_step 2) cond_demo s \<and> cs_thr s 0 = C_Dead \<and> cond_queue_destroy (Some s) = None"
proof -
  from condvar_cancel_deadlocks [OF cond_demo_init, of 2] obtain s where
    s: "reach (cond_cancel_step 2) cond_demo s" "cs_thr s 0 = C_Dead"
    "\<forall>s'. reach (cond_cancel_step 2) s s' \<longrightarrow> cs_owner s' = Some 0 \<and> cond_queue_destroy (Some s') = None" by auto
  from s(3) have "cond_queue_destroy (Some s) = None" using reach_refl [of "cond_cancel_step 2" s] by simp
  with s(1,2) show ?thesis by blast
qed

end
