(* ===== verification/Queue_Semaphore.thy ===== *)
theory Queue_Semaphore
  imports Queue_Steps
begin

text \<open>
  The queue of \<open>lab2/src/2/queue_semaphore/queue.c\<close>: the semaphore \<open>empty\<close> counts free places, \<open>full\<close>
  counts values, and a mutex protects the list. The statistics \<open>add_attempts\<close> and \<open>get_attempts\<close> and
  the assertions are outside the mutex, and the node is allocated before the mutex is taken.

  Every access outside the mutex is a step of its own (the increments of the statistics are a load
  and a store). The statements between \<open>pthread_mutex_lock\<close> and \<open>sem_post\<close> are one step: all they
  share with the code outside the mutex is \<open>count\<close>, which they write once.
\<close>

section \<open>Operations\<close>

datatype semthread =
    SQ_Idle
  | SQ_Load qop            \<comment> \<open>at \<open>attempts++\<close>, before the load\<close>
  | SQ_Store qop int       \<comment> \<open>at \<open>attempts++\<close>, before the store\<close>
  | SQ_Assert qop
  | SQ_Wait qop            \<comment> \<open>in \<open>sem_wait\<close>\<close>
  | SQ_Malloc int          \<comment> \<open>\<open>queue_add\<close> only: allocation of the node\<close>
  | SQ_Lock qop ptr        \<comment> \<open>in \<open>pthread_mutex_lock\<close>, with the new node\<close>
  | SQ_Body qop ptr        \<comment> \<open>holds the mutex\<close>
  | SQ_Post qop            \<comment> \<open>holds the mutex, at \<open>sem_post\<close>\<close>
  | SQ_Unlock qop

text \<open>
  The ghosts \<open>semq_acc\<close> and \<open>semq_got\<close> collect the values in the order in which they were linked and
  taken out.
\<close>

record semsys =
  semq_queue :: queue
  semq_empty :: int
  semq_full :: int
  semq_owner :: "nat option"
  semq_thr :: "nat \<Rightarrow> semthread"
  semq_acc :: "int list"
  semq_got :: "int list"
  semq_fault :: "fault option"

definition sem_queue_init :: "bool \<Rightarrow> int \<Rightarrow> int \<Rightarrow> int \<Rightarrow> fault + semsys" where
  "sem_queue_init q_ok mutex_err err max_count =
     ebind (check q_ok Aborted) (\<lambda>_.
     let q = \<lparr>q_nodes = Map.empty, q_first = None, q_last = None, q_count = 0, q_max_count = max_count,
              q_add_attempts = 0, q_get_attempts = 0, q_add_count = 0, q_get_count = 0\<rparr>
     in ebind (check (mutex_err = 0) Aborted) (\<lambda>_. ebind (check (err = 0) Aborted) (\<lambda>_.
        Inr \<lparr>semq_queue = q, semq_empty = max_count, semq_full = 0, semq_owner = None, semq_thr = (\<lambda>_. SQ_Idle),
             semq_acc = [], semq_got = [], semq_fault = None\<rparr>)))"

text \<open>
  \<open>queue_destroy(&q)\<close>: the mutex is locked before the test for \<open>NULL\<close>. The outer \<open>None\<close> is a call that
  does not return.
\<close>

definition sem_queue_destroy :: "semsys option \<Rightarrow> (fault + (addr \<rightharpoonup> qnode)) option" where
  "sem_queue_destroy so = (case so of None \<Rightarrow> Some (Inl Null_Deref)
     | Some s \<Rightarrow> (if semq_owner s = None then free_chain qn_next (q_nodes (semq_queue s)) (q_first (semq_queue s)) else None))"

text \<open>The statements under the mutex, up to \<open>sem_post\<close>.\<close>

definition sem_link :: "addr \<Rightarrow> queue \<Rightarrow> fault + queue" where
  "sem_link new q = ebind (queue_link new q) (\<lambda>q.
     Inr (q\<lparr>q_count := q_count q + 1, q_add_count := q_add_count q + 1\<rparr>))"

definition sem_unlink :: "queue \<Rightarrow> fault + int \<times> queue" where
  "sem_unlink q = (let tmp = q_first q in
     ebind (load (q_nodes q) tmp) (\<lambda>t.
     ebind (load (q_nodes q) (q_first q)) (\<lambda>f.
     let q = q\<lparr>q_first := qn_next f\<rparr> in
     ebind (release (q_nodes q) tmp) (\<lambda>h.
     Inr (qn_val t, q\<lparr>q_nodes := h, q_count := q_count q - 1, q_get_count := q_get_count q + 1\<rparr>)))))"

definition semq_goto :: "nat \<Rightarrow> semthread \<Rightarrow> semsys \<Rightarrow> semsys" where
  "semq_goto t c s = s\<lparr>semq_thr := (semq_thr s)(t := c)\<rparr>"

definition sem_attempts :: "qop \<Rightarrow> queue \<Rightarrow> int" where
  "sem_attempts op q = (case op of Op_Add v \<Rightarrow> q_add_attempts q | Op_Get c \<Rightarrow> q_get_attempts q)"

definition sem_attempts_store :: "qop \<Rightarrow> int \<Rightarrow> queue \<Rightarrow> queue" where
  "sem_attempts_store op k q = (case op of Op_Add v \<Rightarrow> q\<lparr>q_add_attempts := k\<rparr> | Op_Get c \<Rightarrow> q\<lparr>q_get_attempts := k\<rparr>)"

definition sem_assert :: "qop \<Rightarrow> queue \<Rightarrow> bool" where
  "sem_assert op q = (case op of Op_Add v \<Rightarrow> q_count q \<le> q_max_count q | Op_Get c \<Rightarrow> 0 \<le> q_count q)"

text \<open>\<open>sem_wait\<close> on the semaphore of the operation: \<open>None\<close> while the value is zero.\<close>

definition sem_wait_on :: "qop \<Rightarrow> semsys \<Rightarrow> semsys option" where
  "sem_wait_on op s = (case op of
     Op_Add v \<Rightarrow> if 0 < semq_empty s then Some (s\<lparr>semq_empty := semq_empty s - 1\<rparr>) else None
   | Op_Get c \<Rightarrow> if 0 < semq_full s then Some (s\<lparr>semq_full := semq_full s - 1\<rparr>) else None)"

definition sem_post_on :: "qop \<Rightarrow> semsys \<Rightarrow> semsys" where
  "sem_post_on op s = (case op of
     Op_Add v \<Rightarrow> s\<lparr>semq_full := semq_full s + 1\<rparr> | Op_Get c \<Rightarrow> s\<lparr>semq_empty := semq_empty s + 1\<rparr>)"

definition sem_body :: "nat \<Rightarrow> qop \<Rightarrow> ptr \<Rightarrow> semsys \<Rightarrow> semsys" where
  "sem_body t op new s = (case op of
     Op_Add v \<Rightarrow> (case new of None \<Rightarrow> s\<lparr>semq_fault := Some Null_Deref\<rparr>
       | Some a \<Rightarrow> (case sem_link a (semq_queue s) of Inl e \<Rightarrow> s\<lparr>semq_fault := Some e\<rparr>
           | Inr q \<Rightarrow> semq_goto t (SQ_Post op) (s\<lparr>semq_queue := q, semq_acc := semq_acc s @ [v]\<rparr>)))
   | Op_Get c \<Rightarrow> (case sem_unlink (semq_queue s) of Inl e \<Rightarrow> s\<lparr>semq_fault := Some e\<rparr>
       | Inr (v, q) \<Rightarrow> semq_goto t (SQ_Post op) (s\<lparr>semq_queue := q, semq_got := semq_got s @ [v]\<rparr>)))"

text \<open>The next step of thread \<open>t\<close>; \<open>p\<close> is the answer of \<open>malloc\<close>. \<open>None\<close>: the thread cannot move.\<close>

definition sem_move :: "nat \<Rightarrow> ptr \<Rightarrow> semsys \<Rightarrow> semsys option" where
  "sem_move t p s = (case semq_thr s t of
     SQ_Idle \<Rightarrow> None
   | SQ_Load op \<Rightarrow> Some (semq_goto t (SQ_Store op (sem_attempts op (semq_queue s))) s)
   | SQ_Store op k \<Rightarrow> Some (semq_goto t (SQ_Assert op) (s\<lparr>semq_queue := sem_attempts_store op (k + 1) (semq_queue s)\<rparr>))
   | SQ_Assert op \<Rightarrow> Some (if sem_assert op (semq_queue s) then semq_goto t (SQ_Wait op) s else s\<lparr>semq_fault := Some Assert_Failed\<rparr>)
   | SQ_Wait op \<Rightarrow> map_option (semq_goto t (case op of Op_Add v \<Rightarrow> SQ_Malloc v | Op_Get c \<Rightarrow> SQ_Lock op None)) (sem_wait_on op s)
   | SQ_Malloc v \<Rightarrow> if queue_malloc (semq_queue s) p then Some (case p of None \<Rightarrow> s\<lparr>semq_fault := Some Aborted\<rparr>
       | Some a \<Rightarrow> semq_goto t (SQ_Lock (Op_Add v) p)
           (s\<lparr>semq_queue := (semq_queue s)\<lparr>q_nodes := (q_nodes (semq_queue s))(a \<mapsto> \<lparr>qn_val = v, qn_next = None\<rparr>)\<rparr>\<rparr>)) else None
   | SQ_Lock op new \<Rightarrow> if semq_owner s = None then Some (semq_goto t (SQ_Body op new) (s\<lparr>semq_owner := Some t\<rparr>)) else None
   | SQ_Body op new \<Rightarrow> Some (sem_body t op new s)
   | SQ_Post op \<Rightarrow> Some (semq_goto t (SQ_Unlock op) (sem_post_on op s))
   | SQ_Unlock op \<Rightarrow> Some (semq_goto t SQ_Idle (s\<lparr>semq_owner := None\<rparr>)))"

inductive sem_step :: "nat \<Rightarrow> semsys \<Rightarrow> semsys \<Rightarrow> bool" for n where
  sem_call: "semq_fault s = None \<Longrightarrow> t < n \<Longrightarrow> semq_thr s t = SQ_Idle \<Longrightarrow> sem_step n s (semq_goto t (SQ_Load op) s)"
| sem_next: "semq_fault s = None \<Longrightarrow> t < n \<Longrightarrow> sem_move t p s = Some s' \<Longrightarrow> sem_step n s s'"

inductive_cases sem_stepE: "sem_step n s s'"

text \<open>Runs given as lists of choices, for evaluating concrete interleavings.\<close>

datatype schoice = SC_Call nat qop | SC_Move nat ptr

definition sem_do :: "nat \<Rightarrow> schoice \<Rightarrow> semsys \<Rightarrow> semsys option" where
  "sem_do n e s = (if semq_fault s \<noteq> None then None else case e of
     SC_Call t op \<Rightarrow> if t < n \<and> semq_thr s t = SQ_Idle then Some (semq_goto t (SQ_Load op) s) else None
   | SC_Move t p \<Rightarrow> if t < n then sem_move t p s else None)"

fun sem_run :: "nat \<Rightarrow> schoice list \<Rightarrow> semsys \<Rightarrow> semsys option" where
  "sem_run n [] s = Some s"
| "sem_run n (e # es) s = Option.bind (sem_do n e s) (sem_run n es)"

lemma sem_do_step: "sem_do n e s = Some s' \<Longrightarrow> sem_step n s s'"
  by (cases e) (auto simp: sem_do_def intro: sem_call sem_next split: if_splits)

lemma sem_run_reach: "sem_run n es s = Some s' \<Longrightarrow> reach (sem_step n) s s'"
proof (induction es arbitrary: s)
  case Nil
  then show ?case by (simp add: reach_refl)
next
  case (Cons e es)
  then obtain u where u: "sem_do n e s = Some u" "sem_run n es u = Some s'" by (auto split: Option.bind_splits)
  have "reach (sem_step n) s u" using sem_do_step [OF u(1)] by (rule reach_single)
  with Cons.IH [OF u(2)] show ?case by (rule reach_trans)
qed

section \<open>The list under the mutex\<close>

text \<open>The chain of the linked values; other threads may own further nodes that are not linked yet.\<close>

definition sem_chain :: "queue \<Rightarrow> addr list \<Rightarrow> int list \<Rightarrow> bool" where
  "sem_chain q as xs \<longleftrightarrow> path qn_next (q_nodes q) (q_first q) as None \<and>
     map (\<lambda>a. qn_val (the (q_nodes q a))) as = xs \<and> (as \<noteq> [] \<longrightarrow> q_last q = Some (last as))"

lemma sem_link_chain:
  assumes ch: "sem_chain q as xs" and a: "a \<notin> set as" "q_nodes q a = Some \<lparr>qn_val = v, qn_next = None\<rparr>"
  shows "\<exists>q'. sem_link a q = Inr q' \<and> sem_chain q' (as @ [a]) (xs @ [v]) \<and>
    dom (q_nodes q') = dom (q_nodes q) \<and> (\<forall>b. b \<notin> set as \<longrightarrow> q_nodes q' b = q_nodes q b) \<and>
    q_count q' = q_count q + 1 \<and> q_max_count q' = q_max_count q"
proof (cases "as = []")
  case True
  with assms show ?thesis by (auto simp: sem_chain_def sem_link_def queue_link_def)
next
  case False
  from ch have p: "path qn_next (q_nodes q) (q_first q) as None" and l: "q_last q = Some (last as)"
    using False by (simp_all add: sem_chain_def)
  obtain n where n: "q_nodes q (last as) = Some n" using path_last [OF p False] by auto
  have la: "last as \<noteq> a" using a(1) False last_in_set by metis
  have f: "q_first q \<noteq> None" using p False by (cases "q_first q") auto
  let ?h = "(q_nodes q)(last as \<mapsto> n\<lparr>qn_next := Some a\<rparr>)"
  have "?h(a \<mapsto> \<lparr>qn_val = v, qn_next = None\<rparr>) = ?h" using a(2) la by (simp add: fun_upd_idem)
  moreover have "path qn_next (?h(a \<mapsto> \<lparr>qn_val = v, qn_next = None\<rparr>)) (q_first q) (as @ [a]) None"
    using p False a(1) by (rule path_link_last) simp_all
  ultimately have "path qn_next ?h (q_first q) (as @ [a]) None" by simp
  moreover have "map (\<lambda>b. qn_val (the (?h b))) (as @ [a]) = xs @ [v]"
    using ch la n a(2) by (auto simp: sem_chain_def)
  ultimately show ?thesis using f l n la False
    by (auto simp: sem_link_def queue_link_def sem_chain_def intro: last_in_set)
qed

lemma sem_unlink_chain:
  assumes ch: "sem_chain q as (x # xs)"
  shows "\<exists>a bs q'. as = a # bs \<and> sem_unlink q = Inr (x, q') \<and> sem_chain q' bs xs \<and>
    q_nodes q' = (q_nodes q)(a := None) \<and> q_count q' = q_count q - 1 \<and> q_max_count q' = q_max_count q"
proof -
  from ch obtain a bs n where as: "as = a # bs" and f: "q_first q = Some a" and n: "q_nodes q a = Some n" "qn_val n = x"
    and p: "path qn_next (q_nodes q) (qn_next n) bs None" by (auto simp: sem_chain_def)
  have d: "a \<notin> set bs" using ch as path_distinct [of qn_next "q_nodes q" "q_first q" as] by (simp add: sem_chain_def)
  then have "path qn_next ((q_nodes q)(a := None)) (qn_next n) bs None" using p by simp
  moreover have "map (\<lambda>b. qn_val (the (((q_nodes q)(a := None)) b))) bs = xs"
    using ch as d by (auto simp: sem_chain_def)
  ultimately show ?thesis using ch as f n by (auto simp: sem_unlink_def sem_chain_def)
qed


section \<open>The invariant\<close>

definition owns_mutex :: "semthread \<Rightarrow> bool" where
  "owns_mutex c = (case c of SQ_Body op p \<Rightarrow> True | SQ_Post op \<Rightarrow> True | SQ_Unlock op \<Rightarrow> True | _ \<Rightarrow> False)"

definition new_of :: "semthread \<Rightarrow> ptr" where
  "new_of c = (case c of SQ_Lock op p \<Rightarrow> p | SQ_Body op p \<Rightarrow> p | _ \<Rightarrow> None)"

text \<open>A value that is in the list but not in \<open>full\<close>: taken by a reader or not posted yet.\<close>

definition value_unit :: "semthread \<Rightarrow> int" where
  "value_unit c = (case c of SQ_Lock (Op_Get x) p \<Rightarrow> 1 | SQ_Body (Op_Get x) p \<Rightarrow> 1 | SQ_Post (Op_Add v) \<Rightarrow> 1 | _ \<Rightarrow> 0)"

text \<open>A free place that is not in \<open>empty\<close>: reserved by a writer or not posted yet.\<close>

definition place_unit :: "semthread \<Rightarrow> int" where
  "place_unit c = (case c of SQ_Malloc v \<Rightarrow> 1 | SQ_Lock (Op_Add v) p \<Rightarrow> 1 | SQ_Body (Op_Add v) p \<Rightarrow> 1 | SQ_Post (Op_Get x) \<Rightarrow> 1 | _ \<Rightarrow> 0)"

definition units :: "(semthread \<Rightarrow> int) \<Rightarrow> nat \<Rightarrow> (nat \<Rightarrow> semthread) \<Rightarrow> int" where
  "units w n f = (\<Sum>t<n. w (f t))"

definition new_ok :: "(addr \<rightharpoonup> qnode) \<Rightarrow> semthread \<Rightarrow> bool" where
  "new_ok h c = (case c of
     SQ_Lock op p \<Rightarrow> (case op of Op_Add v \<Rightarrow> (\<exists>a. p = Some a \<and> h a = Some \<lparr>qn_val = v, qn_next = None\<rparr>) | Op_Get x \<Rightarrow> p = None)
   | SQ_Body op p \<Rightarrow> (case op of Op_Add v \<Rightarrow> (\<exists>a. p = Some a \<and> h a = Some \<lparr>qn_val = v, qn_next = None\<rparr>) | Op_Get x \<Rightarrow> p = None)
   | _ \<Rightarrow> True)"

definition sem_count_inv :: "nat \<Rightarrow> int \<Rightarrow> semsys \<Rightarrow> int \<Rightarrow> bool" where
  "sem_count_inv n m s k \<longleftrightarrow> semq_full s + units value_unit n (semq_thr s) = k \<and>
     semq_empty s + units place_unit n (semq_thr s) + k = m \<and> 0 \<le> semq_full s \<and> 0 \<le> semq_empty s"

definition sem_heap_inv :: "(nat \<Rightarrow> semthread) \<Rightarrow> (addr \<rightharpoonup> qnode) \<Rightarrow> addr list \<Rightarrow> bool" where
  "sem_heap_inv f h as \<longleftrightarrow> dom h = set as \<union> {a. \<exists>t. new_of (f t) = Some a} \<and>
     (\<forall>t a. new_of (f t) = Some a \<longrightarrow> a \<notin> set as) \<and>
     (\<forall>t u a. new_of (f t) = Some a \<and> new_of (f u) = Some a \<longrightarrow> t = u) \<and> (\<forall>t. new_ok h (f t))"

definition sem_list_inv :: "int \<Rightarrow> semsys \<Rightarrow> addr list \<Rightarrow> int list \<Rightarrow> bool" where
  "sem_list_inv m s as xs \<longleftrightarrow> sem_chain (semq_queue s) as xs \<and> q_count (semq_queue s) = int (length xs) \<and>
     q_max_count (semq_queue s) = m \<and> semq_acc s = semq_got s @ xs"

definition sem_owner_inv :: "(nat \<Rightarrow> semthread) \<Rightarrow> nat option \<Rightarrow> bool" where
  "sem_owner_inv f o' \<longleftrightarrow> (\<forall>t. owns_mutex (f t) \<longleftrightarrow> o' = Some t)"

definition sem_inv :: "nat \<Rightarrow> int \<Rightarrow> semsys \<Rightarrow> bool" where
  "sem_inv n m s \<longleftrightarrow> (\<exists>as xs. sem_list_inv m s as xs \<and> sem_heap_inv (semq_thr s) (q_nodes (semq_queue s)) as \<and>
     sem_count_inv n m s (int (length xs))) \<and> sem_owner_inv (semq_thr s) (semq_owner s) \<and>
     (\<forall>t\<ge>n. semq_thr s t = SQ_Idle) \<and> (semq_fault s = None \<or> semq_fault s = Some Aborted)"

lemmas sem_simps = owns_mutex_def new_of_def value_unit_def place_unit_def new_ok_def

lemma semq_goto_simps [simp]:
  "semq_thr (semq_goto t c s) = (semq_thr s)(t := c)" "semq_queue (semq_goto t c s) = semq_queue s"
  "semq_empty (semq_goto t c s) = semq_empty s" "semq_full (semq_goto t c s) = semq_full s" "semq_owner (semq_goto t c s) = semq_owner s"
  "semq_acc (semq_goto t c s) = semq_acc s" "semq_got (semq_goto t c s) = semq_got s" "semq_fault (semq_goto t c s) = semq_fault s"
  by (simp_all add: semq_goto_def)

lemma units_upd: "t < n \<Longrightarrow> units w n (f(t := c)) = units w n f - w (f t) + w c"
  unfolding units_def by (rule sum_thread_upd)

lemma units_nonneg: "0 \<le> units value_unit n f" "0 \<le> units place_unit n f"
  by (auto simp: units_def sem_simps intro!: sum_nonneg split: semthread.split qop.split)

lemma units_pos:
  assumes "t < n" and "w (f t) = 1" and "w = value_unit \<or> w = place_unit"
  shows "1 \<le> units w n f"
proof -
  have "units w n f = w (f t) + (\<Sum>u\<in>{..<n} - {t}. w (f u))"
    unfolding units_def using assms(1) by (intro sum.remove) auto
  moreover have "0 \<le> (\<Sum>u\<in>{..<n} - {t}. w (f u))"
    using assms(3) by (intro sum_nonneg) (auto simp: sem_simps split: semthread.split qop.split)
  ultimately show ?thesis using assms(2) by simp
qed

lemma sem_owner_keep:
  assumes "sem_owner_inv f o'" and "owns_mutex c = owns_mutex (f t)"
  shows "sem_owner_inv (f(t := c)) o'"
  using assms by (auto simp: sem_owner_inv_def)

lemma sem_heap_keep:
  assumes "sem_heap_inv f h as" and "new_of c = new_of (f t)" and "new_ok h c"
  shows "sem_heap_inv (f(t := c)) h as"
proof -
  have "new_of ((f(t := c)) u) = new_of (f u)" for u using assms(2) by simp
  with assms show ?thesis unfolding sem_heap_inv_def by simp
qed

text \<open>A step that leaves list, heap and mutex alone and moves units between a semaphore and the thread.\<close>

lemma sem_inv_quiet:
  assumes I: "sem_inv n m s" and t: "t < n" and f: "semq_thr s' = (semq_thr s)(t := c)"
    and keep: "owns_mutex c = owns_mutex (semq_thr s t)" "new_of c = new_of (semq_thr s t)" "new_ok (q_nodes (semq_queue s)) c"
    and q: "q_nodes (semq_queue s') = q_nodes (semq_queue s)" "q_first (semq_queue s') = q_first (semq_queue s)"
      "q_last (semq_queue s') = q_last (semq_queue s)" "q_count (semq_queue s') = q_count (semq_queue s)"
      "q_max_count (semq_queue s') = q_max_count (semq_queue s)"
    and g: "semq_acc s' = semq_acc s" "semq_got s' = semq_got s" "semq_owner s' = semq_owner s" "semq_fault s' = semq_fault s"
    and u: "semq_full s' + value_unit c = semq_full s + value_unit (semq_thr s t)" "0 \<le> semq_full s'"
      "semq_empty s' + place_unit c = semq_empty s + place_unit (semq_thr s t)" "0 \<le> semq_empty s'"
  shows "sem_inv n m s'"
proof -
  from I obtain as xs where i: "sem_list_inv m s as xs" "sem_heap_inv (semq_thr s) (q_nodes (semq_queue s)) as"
    "sem_count_inv n m s (int (length xs))" "sem_owner_inv (semq_thr s) (semq_owner s)" by (auto simp: sem_inv_def)
  have "sem_list_inv m s' as xs" using i(1) q g by (simp add: sem_list_inv_def sem_chain_def)
  moreover have "sem_heap_inv (semq_thr s') (q_nodes (semq_queue s')) as"
    unfolding f q(1) by (rule sem_heap_keep [OF i(2) keep(2,3)])
  moreover have "sem_count_inv n m s' (int (length xs))" using i(3) u t by (simp add: sem_count_inv_def f units_upd)
  moreover have "sem_owner_inv (semq_thr s') (semq_owner s')" unfolding f g by (rule sem_owner_keep [OF i(4) keep(1)])
  ultimately show ?thesis using I t f g(4) unfolding sem_inv_def by (intro conjI exI [of _ as] exI [of _ xs]) auto
qed


lemma sem_inv_owner:
  assumes I: "sem_inv n m s" and t: "t < n" and o: "sem_owner_inv ((semq_thr s)(t := c)) o'"
    and keep: "new_of c = new_of (semq_thr s t)" "new_ok (q_nodes (semq_queue s)) c"
    and u: "value_unit c = value_unit (semq_thr s t)" "place_unit c = place_unit (semq_thr s t)"
  shows "sem_inv n m (semq_goto t c (s\<lparr>semq_owner := o'\<rparr>))"
proof -
  from I obtain as xs where i: "sem_list_inv m s as xs" "sem_heap_inv (semq_thr s) (q_nodes (semq_queue s)) as"
    "sem_count_inv n m s (int (length xs))" by (auto simp: sem_inv_def)
  with I t o u sem_heap_keep [OF i(2) keep] show ?thesis
    unfolding sem_inv_def by (intro conjI exI [of _ as] exI [of _ xs])
      (auto simp: sem_list_inv_def sem_count_inv_def units_upd)
qed

lemma sem_inv_malloc:
  assumes I: "sem_inv n m s" and t: "t < n" "semq_thr s t = SQ_Malloc v" and a: "q_nodes (semq_queue s) a = None"
  shows "sem_inv n m (semq_goto t (SQ_Lock (Op_Add v) (Some a))
    (s\<lparr>semq_queue := (semq_queue s)\<lparr>q_nodes := (q_nodes (semq_queue s))(a \<mapsto> \<lparr>qn_val = v, qn_next = None\<rparr>)\<rparr>\<rparr>))"
    (is "sem_inv n m ?s")
proof -
  let ?h = "q_nodes (semq_queue s)" and ?n = "\<lparr>qn_val = v, qn_next = None\<rparr>" and ?c = "SQ_Lock (Op_Add v) (Some a)"
  from I obtain as xs where i: "sem_list_inv m s as xs" "sem_heap_inv (semq_thr s) ?h as"
    "sem_count_inv n m s (int (length xs))" "sem_owner_inv (semq_thr s) (semq_owner s)" by (auto simp: sem_inv_def)
  have as: "a \<notin> set as" using i(2) a by (auto simp: sem_heap_inv_def)
  have fresh: "new_of (semq_thr s u) \<noteq> Some a" for u using i(2) a by (auto simp: sem_heap_inv_def)
  have nt: "new_of (semq_thr s t) = None" using t(2) by (simp add: new_of_def)
  have new: "new_of (((semq_thr s)(t := ?c)) u) = (if u = t then Some a else new_of (semq_thr s u))" for u
    by (simp add: new_of_def)
  have ok: "new_ok (?h(a \<mapsto> ?n)) (((semq_thr s)(t := ?c)) u)" for u
  proof (cases "u = t")
    case False
    with i(2) fresh [of u] have "new_ok ?h (semq_thr s u)" "new_of (semq_thr s u) \<noteq> Some a" by (auto simp: sem_heap_inv_def)
    with False show ?thesis by (auto simp: new_ok_def new_of_def split: semthread.splits qop.splits)
  qed (simp add: new_ok_def)
  have "{b. \<exists>u. new_of (((semq_thr s)(t := ?c)) u) = Some b} = insert a {b. \<exists>u. new_of (semq_thr s u) = Some b}"
    unfolding new using nt by auto (metis option.distinct(1))
  then have "dom (?h(a \<mapsto> ?n)) = set as \<union> {b. \<exists>u. new_of (((semq_thr s)(t := ?c)) u) = Some b}"
    using i(2) by (simp add: sem_heap_inv_def)
  moreover have "b \<notin> set as" if "new_of (((semq_thr s)(t := ?c)) u) = Some b" for u b
    using that as i(2) unfolding new by (auto simp: sem_heap_inv_def split: if_splits)
  moreover have "u = w" if "new_of (((semq_thr s)(t := ?c)) u) = Some b" "new_of (((semq_thr s)(t := ?c)) w) = Some b" for u w b
    using that fresh i(2) unfolding new sem_heap_inv_def by (auto split: if_splits)
  ultimately have "sem_heap_inv ((semq_thr s)(t := ?c)) (?h(a \<mapsto> ?n)) as" using ok unfolding sem_heap_inv_def by blast
  moreover have "sem_list_inv m ?s as xs"
    using i(1) as by (auto simp: sem_list_inv_def sem_chain_def)
  moreover have "sem_count_inv n m ?s (int (length xs))"
    using i(3) t by (simp add: sem_count_inv_def units_upd value_unit_def place_unit_def)
  moreover have "sem_owner_inv ((semq_thr s)(t := ?c)) (semq_owner s)"
    using i(4) t by (intro sem_owner_keep) (simp_all add: owns_mutex_def)
  ultimately show ?thesis using I t unfolding sem_inv_def by (intro conjI exI [of _ as] exI [of _ xs]) auto
qed

lemma sem_heap_link:
  assumes i: "sem_heap_inv f h as" and t: "new_of (f t) = Some a" "new_of c = None" "new_ok h' c"
    and d: "dom h' = dom h" "\<And>b. b \<notin> set as \<Longrightarrow> h' b = h b"
  shows "sem_heap_inv (f(t := c)) h' (as @ [a])"
proof -
  have new: "new_of ((f(t := c)) u) = (if u = t then None else new_of (f u))" for u using t(2) by simp
  have nu: "new_of (f u) \<noteq> Some a" if "u \<noteq> t" for u using i t(1) that by (auto simp: sem_heap_inv_def)
  have "{b. \<exists>u. new_of (f u) = Some b} = insert a {b. \<exists>u. new_of ((f(t := c)) u) = Some b}"
    unfolding new using t(1) by (auto, metis option.inject)
  then have "dom h' = set (as @ [a]) \<union> {b. \<exists>u. new_of ((f(t := c)) u) = Some b}"
    using i d(1) by (simp add: sem_heap_inv_def)
  moreover have "b \<notin> set (as @ [a])" if "new_of ((f(t := c)) u) = Some b" for u b
    using that i nu [of u] unfolding new by (auto simp: sem_heap_inv_def split: if_splits)
  moreover have "u = w" if "new_of ((f(t := c)) u) = Some b" "new_of ((f(t := c)) w) = Some b" for u w b
    using that i unfolding new sem_heap_inv_def by (auto split: if_splits)
  moreover have "new_ok h' ((f(t := c)) u)" for u
  proof (cases "u = t")
    case False
    have "h' b = h b" if "new_of (f u) = Some b" for b using i that d(2) by (auto simp: sem_heap_inv_def)
    moreover have "new_ok h (f u)" using i by (simp add: sem_heap_inv_def)
    ultimately show ?thesis using False by (auto simp: new_ok_def new_of_def split: semthread.splits qop.splits)
  qed (use t(3) in simp)
  ultimately show ?thesis unfolding sem_heap_inv_def by blast
qed

lemma sem_heap_unlink:
  assumes i: "sem_heap_inv f h (a # as)" and t: "new_of (f t) = new_of c" "new_ok (h(a := None)) c" and d: "a \<notin> set as"
  shows "sem_heap_inv (f(t := c)) (h(a := None)) as"
proof -
  have new: "new_of ((f(t := c)) u) = new_of (f u)" for u using t(1) by simp
  have nu: "new_of (f u) \<noteq> Some a" for u using i by (auto simp: sem_heap_inv_def)
  have "new_ok (h(a := None)) ((f(t := c)) u)" for u
  proof (cases "u = t")
    case False
    have "new_ok h (f u)" using i by (simp add: sem_heap_inv_def)
    with nu [of u] False show ?thesis by (auto simp: new_ok_def new_of_def split: semthread.splits qop.splits)
  qed (use t(2) in simp)
  moreover have "dom (h(a := None)) = set as \<union> {b. \<exists>u. new_of (f u) = Some b}"
    using i d nu by (auto simp: sem_heap_inv_def)
  ultimately show ?thesis using i unfolding sem_heap_inv_def new by auto
qed


lemma sem_inv_add:
  assumes I: "sem_inv n m s" and t: "t < n" "semq_thr s t = SQ_Body (Op_Add v) p"
  shows "sem_inv n m (sem_body t (Op_Add v) p s)"
proof -
  from I obtain as xs where i: "sem_list_inv m s as xs" "sem_heap_inv (semq_thr s) (q_nodes (semq_queue s)) as"
    "sem_count_inv n m s (int (length xs))" "sem_owner_inv (semq_thr s) (semq_owner s)" by (auto simp: sem_inv_def)
  from i(2) have "new_ok (q_nodes (semq_queue s)) (semq_thr s t)" by (simp add: sem_heap_inv_def)
  with t(2) obtain a where a: "p = Some a" "q_nodes (semq_queue s) a = Some \<lparr>qn_val = v, qn_next = None\<rparr>"
    by (auto simp: new_ok_def)
  have na: "new_of (semq_thr s t) = Some a" using t(2) a(1) by (simp add: new_of_def)
  with i(2) have as: "a \<notin> set as" by (auto simp: sem_heap_inv_def)
  from i(1) have "sem_chain (semq_queue s) as xs" by (simp add: sem_list_inv_def)
  from sem_link_chain [OF this as a(2)] obtain q' where q': "sem_link a (semq_queue s) = Inr q'"
    "sem_chain q' (as @ [a]) (xs @ [v])" "dom (q_nodes q') = dom (q_nodes (semq_queue s))"
    "\<And>b. b \<notin> set as \<Longrightarrow> q_nodes q' b = q_nodes (semq_queue s) b"
    "q_count q' = q_count (semq_queue s) + 1" "q_max_count q' = q_max_count (semq_queue s)" by blast
  have s': "sem_body t (Op_Add v) p s = semq_goto t (SQ_Post (Op_Add v)) (s\<lparr>semq_queue := q', semq_acc := semq_acc s @ [v]\<rparr>)"
    (is "_ = ?s") using a(1) q'(1) by (simp add: sem_body_def)
  have "sem_heap_inv ((semq_thr s)(t := SQ_Post (Op_Add v))) (q_nodes q') (as @ [a])"
    using i(2) na q'(3,4) by (intro sem_heap_link) (simp_all add: new_of_def new_ok_def)
  moreover have "sem_list_inv m ?s (as @ [a]) (xs @ [v])" using i(1) q' by (simp add: sem_list_inv_def)
  moreover have "sem_count_inv n m ?s (int (length (xs @ [v])))"
    using i(3) t by (simp add: sem_count_inv_def units_upd value_unit_def place_unit_def)
  moreover have "sem_owner_inv ((semq_thr s)(t := SQ_Post (Op_Add v))) (semq_owner s)"
    using i(4) t by (intro sem_owner_keep) (simp_all add: owns_mutex_def)
  ultimately show ?thesis unfolding s' using I t unfolding sem_inv_def
    by (intro conjI exI [of _ "as @ [a]"] exI [of _ "xs @ [v]"]) auto
qed

lemma sem_inv_get:
  assumes I: "sem_inv n m s" and t: "t < n" "semq_thr s t = SQ_Body (Op_Get c) p"
  shows "sem_inv n m (sem_body t (Op_Get c) p s)"
proof -
  from I obtain as xs where i: "sem_list_inv m s as xs" "sem_heap_inv (semq_thr s) (q_nodes (semq_queue s)) as"
    "sem_count_inv n m s (int (length xs))" "sem_owner_inv (semq_thr s) (semq_owner s)" by (auto simp: sem_inv_def)
  have "1 \<le> units value_unit n (semq_thr s)" using t by (intro units_pos [of t]) (simp_all add: value_unit_def)
  with i(3) have "xs \<noteq> []" by (auto simp: sem_count_inv_def)
  then obtain x ys where xs: "xs = x # ys" by (cases xs) auto
  with i(1) have ch: "sem_chain (semq_queue s) as (x # ys)" by (simp add: sem_list_inv_def)
  from sem_unlink_chain [OF ch] obtain a bs q' where q': "as = a # bs" "sem_unlink (semq_queue s) = Inr (x, q')"
    "sem_chain q' bs ys" "q_nodes q' = (q_nodes (semq_queue s))(a := None)"
    "q_count q' = q_count (semq_queue s) - 1" "q_max_count q' = q_max_count (semq_queue s)" by blast
  have d: "a \<notin> set bs" using ch q'(1) path_distinct [of qn_next "q_nodes (semq_queue s)" _ as] by (auto simp: sem_chain_def)
  from i(2) t(2) have p: "p = None" by (auto simp: sem_heap_inv_def new_ok_def dest!: spec [of _ t])
  have s': "sem_body t (Op_Get c) p s = semq_goto t (SQ_Post (Op_Get c)) (s\<lparr>semq_queue := q', semq_got := semq_got s @ [x]\<rparr>)"
    (is "_ = ?s") using q'(2) by (simp add: sem_body_def)
  have "sem_heap_inv ((semq_thr s)(t := SQ_Post (Op_Get c))) (q_nodes q') bs"
    unfolding q'(4) using i(2) t(2) p q'(1) d by (intro sem_heap_unlink) (simp_all add: new_of_def new_ok_def)
  moreover have "sem_list_inv m ?s bs ys" using i(1) q' xs by (simp add: sem_list_inv_def)
  moreover have "sem_count_inv n m ?s (int (length ys))"
    using i(3) t xs by (simp add: sem_count_inv_def units_upd value_unit_def place_unit_def)
  moreover have "sem_owner_inv ((semq_thr s)(t := SQ_Post (Op_Get c))) (semq_owner s)"
    using i(4) t by (intro sem_owner_keep) (simp_all add: owns_mutex_def)
  ultimately show ?thesis unfolding s' using I t unfolding sem_inv_def
    by (intro conjI exI [of _ bs] exI [of _ ys]) auto
qed

lemma sem_inv_assert: "sem_inv n m s \<Longrightarrow> sem_assert op (semq_queue s)"
  using units_nonneg [of n "semq_thr s"]
  by (cases op) (auto simp: sem_inv_def sem_list_inv_def sem_count_inv_def sem_assert_def)

lemma sem_inv_semaphores: "sem_inv n m s \<Longrightarrow> 0 \<le> semq_full s \<and> 0 \<le> semq_empty s"
  by (auto simp: sem_inv_def sem_count_inv_def)

lemma sem_inv_move:
  assumes I: "sem_inv n m s" and t: "t < n" and st: "sem_move t p s = Some s'"
  shows "sem_inv n m s'"
proof (cases "semq_thr s t")
  case SQ_Idle
  with st show ?thesis by (simp add: sem_move_def)
next
  case (SQ_Load op)
  with st sem_inv_semaphores [OF I] show ?thesis by (intro sem_inv_quiet [OF I t]) (auto simp: sem_move_def sem_simps)
next
  case (SQ_Store op k)
  with st sem_inv_semaphores [OF I] show ?thesis
    by (intro sem_inv_quiet [OF I t, where c = "SQ_Assert op"]) (auto simp: sem_move_def sem_simps sem_attempts_store_def split: qop.splits)
next
  case (SQ_Assert op)
  with st sem_inv_assert [OF I, of op] sem_inv_semaphores [OF I] show ?thesis
    by (intro sem_inv_quiet [OF I t, where c = "SQ_Wait op"]) (auto simp: sem_move_def sem_simps)
next
  case (SQ_Wait op)
  with st sem_inv_semaphores [OF I] show ?thesis
    by (intro sem_inv_quiet [OF I t, where c = "case op of Op_Add v \<Rightarrow> SQ_Malloc v | Op_Get c \<Rightarrow> SQ_Lock op None"])
      (auto simp: sem_move_def sem_wait_on_def sem_simps split: qop.splits if_splits)
next
  case (SQ_Malloc v)
  show ?thesis
  proof (cases p)
    case None
    with SQ_Malloc st have "s' = s\<lparr>semq_fault := Some Aborted\<rparr>" by (auto simp: sem_move_def split: if_splits)
    with I show ?thesis by (auto simp: sem_inv_def sem_list_inv_def sem_count_inv_def)
  next
    case (Some a)
    with SQ_Malloc st sem_inv_malloc [OF I t SQ_Malloc, of a] show ?thesis by (auto simp: sem_move_def split: if_splits)
  qed
next
  case (SQ_Lock op new)
  with st have o: "semq_owner s = None" and s': "s' = semq_goto t (SQ_Body op new) (s\<lparr>semq_owner := Some t\<rparr>)"
    by (auto simp: sem_move_def split: if_splits)
  have "new_ok (q_nodes (semq_queue s)) (semq_thr s t)" using I by (auto simp: sem_inv_def sem_heap_inv_def)
  moreover have "sem_owner_inv ((semq_thr s)(t := SQ_Body op new)) (Some t)"
    using I o by (auto simp: sem_inv_def sem_owner_inv_def owns_mutex_def)
  ultimately show ?thesis unfolding s' using SQ_Lock
    by (intro sem_inv_owner [OF I t]) (auto simp: sem_simps)
next
  case (SQ_Body op new)
  with st sem_inv_add [OF I t] sem_inv_get [OF I t] show ?thesis by (cases op) (auto simp: sem_move_def)
next
  case (SQ_Post op)
  with st sem_inv_semaphores [OF I] show ?thesis
    by (intro sem_inv_quiet [OF I t, where c = "SQ_Unlock op"])
      (auto simp: sem_move_def sem_post_on_def sem_simps split: qop.splits)
next
  case (SQ_Unlock op)
  with st have s': "s' = semq_goto t SQ_Idle (s\<lparr>semq_owner := None\<rparr>)" by (simp add: sem_move_def)
  have "semq_owner s = Some t" using I SQ_Unlock by (auto simp: sem_inv_def sem_owner_inv_def owns_mutex_def dest!: spec [of _ t])
  then have "sem_owner_inv ((semq_thr s)(t := SQ_Idle)) None"
    using I by (auto simp: sem_inv_def sem_owner_inv_def owns_mutex_def split: if_splits)
  with SQ_Unlock show ?thesis unfolding s' by (intro sem_inv_owner [OF I t]) (simp_all add: sem_simps)
qed

lemma sem_inv_step: "sem_inv n m s \<Longrightarrow> sem_step n s s' \<Longrightarrow> sem_inv n m s'"
proof (erule sem_stepE)
  fix t op assume I: "sem_inv n m s" and t: "t < n" "semq_thr s t = SQ_Idle" and s': "s' = semq_goto t (SQ_Load op) s"
  show "sem_inv n m s'" unfolding s' using t sem_inv_semaphores [OF I]
    by (intro sem_inv_quiet [OF I t(1), where c = "SQ_Load op"]) (simp_all add: sem_simps)
qed (rule sem_inv_move)

lemma sem_inv_init:
  assumes "sem_queue_init True 0 0 m = Inr s0" and "0 \<le> m"
  shows "sem_inv n m s0"
proof -
  have "units value_unit n (\<lambda>_. SQ_Idle) = 0" "units place_unit n (\<lambda>_. SQ_Idle) = 0"
    by (simp_all add: units_def sem_simps)
  with assms show ?thesis
    by (auto simp: sem_queue_init_def sem_inv_def sem_list_inv_def sem_count_inv_def sem_chain_def sem_heap_inv_def
        sem_owner_inv_def sem_simps)
qed

lemma sem_inv_reach:
  "sem_queue_init True 0 0 m = Inr s0 \<Longrightarrow> 0 \<le> m \<Longrightarrow> reach (sem_step n) s0 s \<Longrightarrow> sem_inv n m s"
  by (erule reach_invariant) (auto intro: sem_inv_init sem_inv_step)


section \<open>Properties\<close>

text \<open>Which threads can move: the owner of the mutex, anyone else that does not wait for it or for a semaphore.\<close>

lemma sem_move_enabled:
  assumes "semq_thr s t \<noteq> SQ_Idle" and "\<And>op. semq_thr s t = SQ_Wait op \<Longrightarrow> sem_wait_on op s \<noteq> None"
    and "\<And>op p. semq_thr s t = SQ_Lock op p \<Longrightarrow> semq_owner s = None" and "q_nodes (semq_queue s) a = None"
  shows "\<exists>s'. sem_move t (Some a) s = Some s'"
  using assms by (cases "semq_thr s t") (auto simp: sem_move_def)

lemma sem_queue_destroy_frees:
  assumes "sem_inv n m s" and "semq_owner s = None" and "\<And>t. semq_thr s t = SQ_Idle"
  shows "sem_queue_destroy (Some s) = Some (Inr Map.empty)"
proof -
  from assms(1,3) obtain as where p: "path qn_next (q_nodes (semq_queue s)) (q_first (semq_queue s)) as None"
    and d: "dom (q_nodes (semq_queue s)) = set as"
    by (auto simp: sem_inv_def sem_list_inv_def sem_chain_def sem_heap_inv_def new_of_def)
  have "q_nodes (semq_queue s) |` (- set as) = Map.empty" using d by (auto simp: restrict_map_def fun_eq_iff)
  with free_chain_path [OF p] assms(2) show ?thesis by (simp add: sem_queue_destroy_def)
qed

definition sem_demo :: semsys where
  "sem_demo = \<lparr>semq_queue = \<lparr>q_nodes = Map.empty, q_first = None, q_last = None, q_count = 0, q_max_count = 2,
       q_add_attempts = 0, q_get_attempts = 0, q_add_count = 0, q_get_count = 0\<rparr>,
     semq_empty = 2, semq_full = 0, semq_owner = None, semq_thr = (\<lambda>_. SQ_Idle), semq_acc = [], semq_got = [], semq_fault = None\<rparr>"

lemma sem_demo_init: "sem_queue_init True 0 0 2 = Inr sem_demo"
  by (simp add: sem_queue_init_def sem_demo_def)

lemmas sem_eval = sem_do_def sem_move_def semq_goto_def sem_attempts_def sem_attempts_store_def sem_assert_def sem_wait_on_def
  sem_post_on_def sem_body_def sem_link_def sem_unlink_def queue_link_def queue_malloc_def

text \<open>
  The increments of the statistics are outside the mutex: two writers that interleave there both
  succeed, and \<open>add_attempts\<close> counts one.
\<close>

lemma sem_attempts_lost:
  "\<exists>s. reach (sem_step 2) sem_demo s \<and> semq_acc s = [7, 8] \<and> (\<forall>t. semq_thr s t = SQ_Idle) \<and> q_add_attempts (semq_queue s) = 1"
proof -
  have "\<exists>s. sem_run 2 ([SC_Call 0 (Op_Add 7), SC_Call 1 (Op_Add 8), SC_Move 0 None, SC_Move 1 None, SC_Move 0 None, SC_Move 1 None] @
      [SC_Move 0 None, SC_Move 0 None, SC_Move 0 (Some 3), SC_Move 0 None, SC_Move 0 None, SC_Move 0 None, SC_Move 0 None] @
      [SC_Move 1 None, SC_Move 1 None, SC_Move 1 (Some 4), SC_Move 1 None, SC_Move 1 None, SC_Move 1 None, SC_Move 1 None]) sem_demo = Some s \<and>
      semq_acc s = [7, 8] \<and> (\<forall>t. semq_thr s t = SQ_Idle) \<and> q_add_attempts (semq_queue s) = 1"
    by (simp add: sem_demo_def sem_eval)
  then show ?thesis using sem_run_reach by blast
qed

text \<open>C6: the semaphore queue under any interleaving of any number of threads: the values taken out,
  followed by those in the list, are the values linked, in order; the list never holds more than the
  capacity and \<open>count\<close> is its length, so neither assertion fails; no thread dereferences a bad pointer
  (the only way to die is a failed \<open>malloc\<close>) and at most one thread is inside the mutex.\<close>

theorem sem_queue_correct:
  assumes "sem_queue_init True 0 0 m = Inr s0" and "0 \<le> m" and "reach (sem_step n) s0 s"
  shows "(\<exists>as xs. semq_acc s = semq_got s @ xs \<and> sem_chain (semq_queue s) as xs \<and>
      q_count (semq_queue s) = int (length xs) \<and> int (length xs) \<le> m) \<and>
    (semq_fault s = None \<or> semq_fault s = Some Aborted) \<and>
    (\<forall>t u. owns_mutex (semq_thr s t) \<and> owns_mutex (semq_thr s u) \<longrightarrow> t = u)"
proof -
  note I = sem_inv_reach [OF assms]
  then obtain as xs where i: "sem_list_inv m s as xs" "sem_count_inv n m s (int (length xs))" by (auto simp: sem_inv_def)
  have "int (length xs) \<le> m" using i(2) units_nonneg [of n "semq_thr s"] by (auto simp: sem_count_inv_def)
  with i(1) I show ?thesis by (auto simp: sem_list_inv_def sem_inv_def sem_owner_inv_def)
qed

text \<open>C22: the semaphore queue does not deadlock: when some thread is inside an operation and no thread can
  make a step (whatever fresh block \<open>malloc\<close> returns), then all these threads wait for a free place of
  a full queue, or all of them wait for a value of an empty queue.\<close>

theorem sem_queue_no_deadlock:
  assumes "sem_queue_init True 0 0 m = Inr s0" and "0 < m" and "reach (sem_step n) s0 s"
    and "q_nodes (semq_queue s) a = None" and "\<And>t. t < n \<Longrightarrow> sem_move t (Some a) s = None"
    and "semq_thr s t \<noteq> SQ_Idle"
  shows "(\<forall>u. semq_thr s u = SQ_Idle \<or> (\<exists>v. semq_thr s u = SQ_Wait (Op_Add v))) \<and> q_count (semq_queue s) = m \<or>
    (\<forall>u. semq_thr s u = SQ_Idle \<or> (\<exists>c. semq_thr s u = SQ_Wait (Op_Get c))) \<and> q_count (semq_queue s) = 0"
proof -
  have I: "sem_inv n m s" using sem_inv_reach [OF assms(1) _ assms(3)] assms(2) by simp
  have idle: "semq_thr s u = SQ_Idle" if "n \<le> u" for u using I that by (simp add: sem_inv_def)
  have own: "semq_owner s = None"
  proof (cases "semq_owner s")
    case (Some u)
    with I have ou: "owns_mutex (semq_thr s u)" by (auto simp: sem_inv_def sem_owner_inv_def)
    then have "u < n" using idle [of u] by (cases "u < n") (auto simp: owns_mutex_def)
    moreover have "\<exists>s'. sem_move u (Some a) s = Some s'"
      using ou by (intro sem_move_enabled [OF _ _ _ assms(4)]) (auto simp: owns_mutex_def)
    ultimately show ?thesis using assms(5) by auto
  qed
  have w: "semq_thr s u = SQ_Idle \<or> (\<exists>op. semq_thr s u = SQ_Wait op \<and> sem_wait_on op s = None)" for u
  proof (cases "u < n")
    case True
    with assms(5) sem_move_enabled [of s u a] assms(4) own show ?thesis by fastforce
  qed (use idle [of u] in simp)
  have blocked: "semq_empty s = 0" if "semq_thr s u = SQ_Wait (Op_Add v)" for u v
    using w [of u] that sem_inv_semaphores [OF I] by (auto simp: sem_wait_on_def split: if_splits)
  have blocked': "semq_full s = 0" if "semq_thr s u = SQ_Wait (Op_Get c)" for u c
    using w [of u] that sem_inv_semaphores [OF I] by (auto simp: sem_wait_on_def split: if_splits)
  have "value_unit (semq_thr s u) = 0 \<and> place_unit (semq_thr s u) = 0" for u using w [of u] by (auto simp: sem_simps)
  then have z: "units value_unit n (semq_thr s) = 0" "units place_unit n (semq_thr s) = 0" by (simp_all add: units_def)
  with I have k: "q_count (semq_queue s) = semq_full s" "semq_empty s + semq_full s = m"
    by (auto simp: sem_inv_def sem_list_inv_def sem_count_inv_def)
  from w [of t] assms(6) obtain op where op: "semq_thr s t = SQ_Wait op" by auto
  have "semq_empty s = 0 \<longrightarrow> (\<forall>u. semq_thr s u = SQ_Idle \<or> (\<exists>v. semq_thr s u = SQ_Wait (Op_Add v)))"
    using w blocked' k assms(2) by (metis add.right_neutral less_irrefl qop.exhaust)
  moreover have "semq_full s = 0 \<longrightarrow> (\<forall>u. semq_thr s u = SQ_Idle \<or> (\<exists>c. semq_thr s u = SQ_Wait (Op_Get c)))"
    using w blocked k assms(2) by (metis add.right_neutral less_irrefl qop.exhaust)
  ultimately show ?thesis using op blocked [of t] blocked' [of t] k by (cases op) auto
qed


theorem sem_queue_correct_witness:
  "\<exists>s as xs. reach (sem_step 1) sem_demo s \<and> semq_acc s = [7] \<and> semq_got s = [7] \<and> [7] = [7] @ xs \<and> sem_chain (semq_queue s) as xs"
proof -
  have "\<exists>s. sem_run 1 ([SC_Call 0 (Op_Add 7), SC_Move 0 None, SC_Move 0 None, SC_Move 0 None, SC_Move 0 None, SC_Move 0 (Some 3)] @
      replicate 4 (SC_Move 0 None) @ [SC_Call 0 (Op_Get 0)] @ replicate 8 (SC_Move 0 None)) sem_demo = Some s \<and>
      semq_acc s = [7] \<and> semq_got s = [7]"
    by (simp add: sem_demo_def sem_eval numeral_eq_Suc)
  then obtain s where s: "reach (sem_step 1) sem_demo s" "semq_acc s = [7]" "semq_got s = [7]" using sem_run_reach by blast
  from sem_queue_correct [OF sem_demo_init _ s(1)] s show ?thesis by fastforce
qed

theorem sem_queue_no_deadlock_witness:
  "\<exists>s. reach (sem_step 1) sem_demo s \<and> semq_thr s 0 = SQ_Wait (Op_Get 0) \<and> sem_move 0 (Some 3) s = None \<and>
     (\<forall>u. semq_thr s u = SQ_Idle \<or> (\<exists>c. semq_thr s u = SQ_Wait (Op_Get c)))"
proof -
  have "\<exists>s. sem_run 1 [SC_Call 0 (Op_Get 0), SC_Move 0 None, SC_Move 0 None, SC_Move 0 None] sem_demo = Some s \<and>
      semq_thr s 0 = SQ_Wait (Op_Get 0) \<and> sem_move 0 (Some 3) s = None \<and> q_nodes (semq_queue s) 3 = None"
    by (simp add: sem_demo_def sem_eval)
  then obtain s where s: "reach (sem_step 1) sem_demo s" "semq_thr s 0 = SQ_Wait (Op_Get 0)" "sem_move 0 (Some 3) s = None"
    "q_nodes (semq_queue s) 3 = None" using sem_run_reach by blast
  let ?w = "\<lambda>P. \<forall>u. semq_thr s u = SQ_Idle \<or> (\<exists>c. semq_thr s u = SQ_Wait (P c))"
  have "?w Op_Add \<and> q_count (semq_queue s) = 2 \<or> ?w Op_Get \<and> q_count (semq_queue s) = 0"
    by (rule sem_queue_no_deadlock [OF sem_demo_init _ s(1,4), of 0]) (use s(2,3) in simp_all)
  moreover have "\<not> ?w Op_Add" using s(2) by (intro notI) (drule spec [of _ 0], simp)
  ultimately show ?thesis using s by blast
qed

end
