(* ===== verification/Futex_Mutex.thy ===== *)
theory Futex_Mutex
  imports Prelude
begin

text \<open>
  The futex-based mutex of \<open>lab2/src/4/mutex/mutex.c\<close> under the test of \<open>lab2/src/4/test.c\<close>:
  \<open>n\<close> threads, each of which runs \<open>mutex_lock(&mutex); counter++; mutex_unlock(&mutex);\<close> \<open>k\<close> times
  (the source: \<open>NUM_THREADS\<close> = 20, \<open>INCREMENTS\<close> = 1000000). Every atomic operation, every system call
  and the load and the store of \<open>counter++\<close> are steps of their own. The kernel's part is the
  documented behaviour of \<open>futex\<close>: \<open>FUTEX_WAIT\<close> compares the word and goes to sleep atomically
  (\<open>EAGAIN\<close> when it differs), \<open>FUTEX_WAKE\<close> wakes at most one sleeper, and a sleeper may return at any
  time with \<open>EINTR\<close>.
\<close>

section \<open>State and steps\<close>

definition STATUS_LOCK :: int where "STATUS_LOCK = 0"
definition STATUS_UNLOCK :: int where "STATUS_UNLOCK = 1"
definition NO_TID :: int where "NO_TID = -1"

lemma status_simps [simp]: "STATUS_LOCK = 0" "STATUS_UNLOCK = 1" "NO_TID = -1"
  by (simp_all add: STATUS_LOCK_def STATUS_UNLOCK_def NO_TID_def)

record my_mutex =
  m_lock :: int
  m_tid :: int

definition mutex_init :: my_mutex where
  "mutex_init = \<lparr>m_lock = STATUS_UNLOCK, m_tid = NO_TID\<rparr>"

text \<open>\<open>atomic_compare_exchange_strong(&x, &expected, desired)\<close>: the result and the new value of \<open>x\<close>.\<close>

definition atomic_cas :: "int \<Rightarrow> int \<Rightarrow> int \<Rightarrow> bool \<times> int" where
  "atomic_cas x expected desired = (if x = expected then (True, desired) else (False, x))"

text \<open>
  Control points of a thread: the loop test of the test program; in \<open>mutex_lock\<close> the compare and
  exchange, the \<open>FUTEX_WAIT\<close> call, sleeping in it, and the store of \<open>tid\<close>; the load and the store of
  \<open>counter++\<close>; in \<open>mutex_unlock\<close> the owner test, the compare and exchange and the \<open>FUTEX_WAKE\<close> call.
\<close>

datatype mpc = M_Loop | M_Cas | M_Wait | M_Asleep | M_Settid | M_Load | M_Store | M_Owner | M_Uncas | M_Wake | M_Exit

record mthread =
  mt_pc :: mpc
  mt_i :: nat
  mt_reg :: int

record msys =
  ms_mutex :: my_mutex
  ms_counter :: int
  ms_thr :: "nat \<Rightarrow> mthread"

definition msys_init :: msys where
  "msys_init = \<lparr>ms_mutex = mutex_init, ms_counter = 0, ms_thr = (\<lambda>_. \<lparr>mt_pc = M_Loop, mt_i = 0, mt_reg = 0\<rparr>)\<rparr>"

text \<open>
  The step of thread \<open>t\<close>, whose \<open>gettid()\<close> is \<open>int t\<close>: the new system, or \<open>None\<close> if it cannot move by
  itself. \<open>w\<close> is the sleeper the kernel picks in \<open>FUTEX_WAKE\<close> (\<open>None\<close> when nobody sleeps).
\<close>

definition mutex_move :: "nat \<Rightarrow> nat \<Rightarrow> nat option \<Rightarrow> msys \<Rightarrow> msys option" where
  "mutex_move k t w s = (let T = ms_thr s t; m = ms_mutex s;
       goto = (\<lambda>pc s. s\<lparr>ms_thr := (ms_thr s)(t := (ms_thr s t)\<lparr>mt_pc := pc\<rparr>)\<rparr>);
       next_iter = (\<lambda>s. s\<lparr>ms_thr := (ms_thr s)(t := (ms_thr s t)\<lparr>mt_pc := M_Loop, mt_i := mt_i (ms_thr s t) + 1\<rparr>)\<rparr>)
     in case mt_pc T of
       M_Loop \<Rightarrow> Some (goto (if mt_i T < k then M_Cas else M_Exit) s)
     | M_Cas \<Rightarrow> (case atomic_cas (m_lock m) STATUS_UNLOCK STATUS_LOCK of (won, l) \<Rightarrow>
         Some (goto (if won then M_Settid else M_Wait) (s\<lparr>ms_mutex := m\<lparr>m_lock := l\<rparr>\<rparr>)))
     | M_Wait \<Rightarrow> Some (goto (if m_lock m = 0 then M_Asleep else M_Cas) s)
     | M_Asleep \<Rightarrow> None
     | M_Settid \<Rightarrow> Some (goto M_Load (s\<lparr>ms_mutex := m\<lparr>m_tid := int t\<rparr>\<rparr>))
     | M_Load \<Rightarrow> Some (s\<lparr>ms_thr := (ms_thr s)(t := T\<lparr>mt_pc := M_Store, mt_reg := ms_counter s\<rparr>)\<rparr>)
     | M_Store \<Rightarrow> Some (goto M_Owner (s\<lparr>ms_counter := mt_reg T + 1\<rparr>))
     | M_Owner \<Rightarrow> Some (if m_tid m \<noteq> int t then next_iter s else goto M_Uncas s)
     | M_Uncas \<Rightarrow> (case atomic_cas (m_lock m) STATUS_LOCK STATUS_UNLOCK of (won, l) \<Rightarrow>
         Some (if won then goto M_Wake (s\<lparr>ms_mutex := m\<lparr>m_lock := l\<rparr>\<rparr>) else next_iter s))
     | M_Wake \<Rightarrow> Some (next_iter (case w of None \<Rightarrow> s
         | Some u \<Rightarrow> s\<lparr>ms_thr := (ms_thr s)(u := (ms_thr s u)\<lparr>mt_pc := M_Cas\<rparr>)\<rparr>))
     | M_Exit \<Rightarrow> None)"

text \<open>Whom \<open>FUTEX_WAKE\<close> may wake: one of the sleepers, and somebody if anybody sleeps.\<close>

definition wake_ok :: "nat \<Rightarrow> msys \<Rightarrow> nat option \<Rightarrow> bool" where
  "wake_ok n s w \<longleftrightarrow> (case w of None \<Rightarrow> \<forall>u<n. mt_pc (ms_thr s u) \<noteq> M_Asleep
     | Some u \<Rightarrow> u < n \<and> mt_pc (ms_thr s u) = M_Asleep)"

inductive mutex_step :: "nat \<Rightarrow> nat \<Rightarrow> msys \<Rightarrow> msys \<Rightarrow> bool" for n k where
  mutex_moves: "t < n \<Longrightarrow> wake_ok n s w \<Longrightarrow> mutex_move k t w s = Some s' \<Longrightarrow> mutex_step n k s s'"
| mutex_eintr: "t < n \<Longrightarrow> mt_pc (ms_thr s t) = M_Asleep \<Longrightarrow>
     mutex_step n k s (s\<lparr>ms_thr := (ms_thr s)(t := (ms_thr s t)\<lparr>mt_pc := M_Cas\<rparr>)\<rparr>)"

section \<open>Invariant\<close>

text \<open>Between the successful compare and exchange of \<open>mutex_lock\<close> and the one of \<open>mutex_unlock\<close>.\<close>

definition in_critical :: "mpc \<Rightarrow> bool" where
  "in_critical pc \<longleftrightarrow> pc \<in> {M_Settid, M_Load, M_Store, M_Owner, M_Uncas}"

text \<open>The increments a thread has done: its finished rounds, and the one whose store is done.\<close>

definition mt_done :: "mthread \<Rightarrow> int" where
  "mt_done T = int (mt_i T) + (if mt_pc T \<in> {M_Owner, M_Uncas, M_Wake} then 1 else 0)"

definition thread_ok :: "nat \<Rightarrow> msys \<Rightarrow> nat \<Rightarrow> bool" where
  "thread_ok k s t \<longleftrightarrow> (let T = ms_thr s t in
     (in_critical (mt_pc T) \<longrightarrow> m_lock (ms_mutex s) = 0) \<and>
     (mt_pc T \<in> {M_Load, M_Store, M_Owner, M_Uncas} \<longrightarrow> m_tid (ms_mutex s) = int t) \<and>
     (mt_pc T = M_Store \<longrightarrow> mt_reg T = ms_counter s) \<and>
     (case mt_pc T of M_Loop \<Rightarrow> mt_i T \<le> k | M_Exit \<Rightarrow> mt_i T = k | _ \<Rightarrow> mt_i T < k))"

definition mutex_inv :: "nat \<Rightarrow> nat \<Rightarrow> msys \<Rightarrow> bool" where
  "mutex_inv n k s \<longleftrightarrow>
     m_lock (ms_mutex s) \<in> {0, 1} \<and>
     (\<forall>t<n. thread_ok k s t) \<and>
     (\<forall>t<n. \<forall>u<n. in_critical (mt_pc (ms_thr s t)) \<and> in_critical (mt_pc (ms_thr s u)) \<longrightarrow> t = u) \<and>
     (m_lock (ms_mutex s) = 0 \<longrightarrow> (\<exists>t<n. in_critical (mt_pc (ms_thr s t)))) \<and>
     ms_counter s = (\<Sum>t<n. mt_done (ms_thr s t)) \<and>
     (m_lock (ms_mutex s) = 1 \<longrightarrow> (\<exists>t<n. mt_pc (ms_thr s t) = M_Asleep) \<longrightarrow>
        (\<exists>t<n. mt_pc (ms_thr s t) \<in> {M_Wake, M_Cas, M_Wait}))"

lemma mutex_inv_init: "mutex_inv n k msys_init"
  by (auto simp: mutex_inv_def msys_init_def mutex_init_def thread_ok_def in_critical_def mt_done_def)


text \<open>
  Three update lemmas carry the step cases: a step that touches neither the mutex nor the counter and
  neither enters nor leaves the critical section; a step of the owner inside it; leaving and entering.
\<close>

lemma mutex_inv_quiet:
  assumes inv: "mutex_inv n k s" and t: "t < n"
    and nc: "\<not> in_critical (mt_pc (ms_thr s t))" "\<not> in_critical (mt_pc T')"
    and d: "mt_done T' = mt_done (ms_thr s t)"
    and ok: "case mt_pc T' of M_Loop \<Rightarrow> mt_i T' \<le> k | M_Exit \<Rightarrow> mt_i T' = k | _ \<Rightarrow> mt_i T' < k"
    and live: "m_lock (ms_mutex s) = 1 \<Longrightarrow> (\<exists>u<n. ((ms_thr s)(t := T')) u \<in> {x. mt_pc x = M_Asleep}) \<Longrightarrow>
       \<exists>u<n. mt_pc (((ms_thr s)(t := T')) u) \<in> {M_Wake, M_Cas, M_Wait}"
  shows "mutex_inv n k (s\<lparr>ms_thr := (ms_thr s)(t := T')\<rparr>)"
proof -
  have "\<forall>u<n. thread_ok k (s\<lparr>ms_thr := (ms_thr s)(t := T')\<rparr>) u"
    using inv nc ok unfolding mutex_inv_def thread_ok_def Let_def
    by (auto simp: in_critical_def split: mpc.splits)
  moreover have "(\<Sum>u<n. mt_done (((ms_thr s)(t := T')) u)) = (\<Sum>u<n. mt_done (ms_thr s u))"
    using sum_thread_upd [OF t, of mt_done "ms_thr s" T'] d by simp
  moreover have "m_lock (ms_mutex s) = 0 \<Longrightarrow> \<exists>u<n. in_critical (mt_pc (((ms_thr s)(t := T')) u))"
    using inv nc unfolding mutex_inv_def by (metis fun_upd_apply)
  ultimately show ?thesis
    using inv nc live unfolding mutex_inv_def by (simp add: fun_upd_apply)
qed


lemma mutex_inv_alone:
  assumes inv: "mutex_inv n k s" and t: "t < n"
    and alone: "\<And>u. u < n \<Longrightarrow> u \<noteq> t \<Longrightarrow> \<not> in_critical (mt_pc (ms_thr s u))"
    and s': "s' = s\<lparr>ms_mutex := m', ms_counter := c', ms_thr := (ms_thr s)(t := T')\<rparr>"
    and lock: "m_lock m' \<in> {0, 1}" "m_lock m' = 0 \<Longrightarrow> in_critical (mt_pc T')"
    and d: "c' = ms_counter s - mt_done (ms_thr s t) + mt_done T'"
    and ok: "thread_ok k s' t"
    and wake: "m_lock m' = 1 \<Longrightarrow> mt_pc T' = M_Wake"
  shows "mutex_inv n k s'"
proof -
  have "thread_ok k s' u" if u: "u < n" for u
  proof (cases "u = t")
    case False
    have "thread_ok k s u" using inv u by (simp add: mutex_inv_def)
    with alone [OF u False] False show ?thesis
      by (auto simp: s' thread_ok_def Let_def in_critical_def split: mpc.splits)
  qed (simp add: ok)
  moreover have "c' = (\<Sum>u<n. mt_done (((ms_thr s)(t := T')) u))"
    using sum_thread_upd [OF t, of mt_done "ms_thr s" T'] d inv by (simp add: mutex_inv_def)
  moreover have "\<forall>u<n. \<forall>v<n. in_critical (mt_pc (ms_thr s' u)) \<and> in_critical (mt_pc (ms_thr s' v)) \<longrightarrow> u = v"
    using alone by (auto simp: s')
  moreover have "m_lock (ms_mutex s') = 0 \<longrightarrow> (\<exists>u<n. in_critical (mt_pc (ms_thr s' u)))"
    "m_lock (ms_mutex s') = 1 \<longrightarrow> (\<exists>u<n. mt_pc (ms_thr s' u) = M_Asleep) \<longrightarrow>
       (\<exists>u<n. mt_pc (ms_thr s' u) \<in> {M_Wake, M_Cas, M_Wait})"
    using lock(2) wake t by (auto simp: s' intro!: exI [of _ t])
  moreover have "m_lock (ms_mutex s') \<in> {0, 1}" using lock(1) by (simp add: s')
  ultimately show ?thesis
    unfolding mutex_inv_def by (simp add: s' del: fun_upd_apply)
qed

lemma mutex_inv_others:
  assumes "mutex_inv n k s" "t < n" "u < n" "u \<noteq> t" "in_critical (mt_pc (ms_thr s t)) \<or> m_lock (ms_mutex s) = 1"
  shows "\<not> in_critical (mt_pc (ms_thr s u))"
proof
  assume u: "in_critical (mt_pc (ms_thr s u))"
  have "thread_ok k s u" using assms by (simp add: mutex_inv_def)
  with u have "m_lock (ms_mutex s) = 0" by (simp add: thread_ok_def Let_def)
  with assms(5) have "in_critical (mt_pc (ms_thr s t))" by simp
  with u assms show False unfolding mutex_inv_def by blast
qed

text \<open>Waking a sleeper (\<open>FUTEX_WAKE\<close> or \<open>EINTR\<close>): it goes back to the loop of \<open>mutex_lock\<close>.\<close>

lemma mutex_inv_woken:
  assumes inv: "mutex_inv n k s" and t: "t < n" and a: "mt_pc (ms_thr s t) = M_Asleep"
  shows "mutex_inv n k (s\<lparr>ms_thr := (ms_thr s)(t := (ms_thr s t)\<lparr>mt_pc := M_Cas\<rparr>)\<rparr>)"
proof -
  have "thread_ok k s t" using inv t by (simp add: mutex_inv_def)
  with a show ?thesis
    by (intro mutex_inv_quiet [OF inv t])
      (use t in \<open>auto simp: thread_ok_def Let_def in_critical_def mt_done_def\<close>)
qed


lemma mutex_inv_thread_ok: "mutex_inv n k s \<Longrightarrow> t < n \<Longrightarrow> thread_ok k s t"
  by (simp add: mutex_inv_def)

lemma mutex_inv_lock: "mutex_inv n k s \<Longrightarrow> m_lock (ms_mutex s) = 0 \<or> m_lock (ms_mutex s) = 1"
  by (simp add: mutex_inv_def)

text \<open>The steps outside the critical section that do not touch the mutex.\<close>

lemma mutex_inv_goto:
  assumes inv: "mutex_inv n k s" and t: "t < n"
    and pc: "mt_pc (ms_thr s t) = M_Loop \<and> pc' = (if mt_i (ms_thr s t) < k then M_Cas else M_Exit) \<or>
      mt_pc (ms_thr s t) = M_Wait \<and> pc' = (if m_lock (ms_mutex s) = 0 then M_Asleep else M_Cas) \<or>
      mt_pc (ms_thr s t) = M_Cas \<and> m_lock (ms_mutex s) = 0 \<and> pc' = M_Wait"
  shows "mutex_inv n k (s\<lparr>ms_thr := (ms_thr s)(t := (ms_thr s t)\<lparr>mt_pc := pc'\<rparr>)\<rparr>)"
proof -
  have live: "\<exists>u<n. mt_pc (((ms_thr s)(t := (ms_thr s t)\<lparr>mt_pc := pc'\<rparr>)) u) \<in> {M_Wake, M_Cas, M_Wait}"
    if l: "m_lock (ms_mutex s) = 1"
      and a: "\<exists>u<n. ((ms_thr s)(t := (ms_thr s t)\<lparr>mt_pc := pc'\<rparr>)) u \<in> {x. mt_pc x = M_Asleep}"
  proof (cases "pc' = M_Cas")
    case True then show ?thesis using t by (intro exI [of _ t]) simp
  next
    case False
    with pc l have e: "mt_pc (ms_thr s t) = M_Loop" "pc' = M_Exit" by (auto split: if_splits)
    then obtain u where u: "u < n" "mt_pc (ms_thr s u) = M_Asleep" using a by (auto split: if_splits)
    then obtain v where "v < n" "mt_pc (ms_thr s v) \<in> {M_Wake, M_Cas, M_Wait}"
      using inv l unfolding mutex_inv_def by blast
    then show ?thesis using e by (intro exI [of _ v]) auto
  qed
  note ok = mutex_inv_thread_ok [OF inv t, unfolded thread_ok_def Let_def]
  show ?thesis
  proof (rule mutex_inv_quiet [OF inv t])
    show "case mt_pc ((ms_thr s t)\<lparr>mt_pc := pc'\<rparr>) of M_Loop \<Rightarrow> mt_i ((ms_thr s t)\<lparr>mt_pc := pc'\<rparr>) \<le> k
      | M_Exit \<Rightarrow> mt_i ((ms_thr s t)\<lparr>mt_pc := pc'\<rparr>) = k | _ \<Rightarrow> mt_i ((ms_thr s t)\<lparr>mt_pc := pc'\<rparr>) < k"
      using pc ok by (elim disjE) auto
    show "mt_done ((ms_thr s t)\<lparr>mt_pc := pc'\<rparr>) = mt_done (ms_thr s t)"
      using pc by (elim disjE) (auto simp: mt_done_def)
    show "\<not> in_critical (mt_pc (ms_thr s t))" "\<not> in_critical (mt_pc ((ms_thr s t)\<lparr>mt_pc := pc'\<rparr>))"
      using pc by (auto simp: in_critical_def split: if_splits)
  qed (rule live)
qed

lemma mutex_inv_round:
  assumes inv: "mutex_inv n k s" and t: "t < n" and pc: "mt_pc (ms_thr s t) = M_Wake"
    and someone: "\<exists>u<n. u \<noteq> t \<and> mt_pc (ms_thr s u) = M_Asleep \<Longrightarrow> \<exists>u<n. mt_pc (ms_thr s u) = M_Cas"
  shows "mutex_inv n k (s\<lparr>ms_thr := (ms_thr s)(t := (ms_thr s t)\<lparr>mt_pc := M_Loop, mt_i := mt_i (ms_thr s t) + 1\<rparr>)\<rparr>)"
proof (rule mutex_inv_quiet [OF inv t])
  note ok = mutex_inv_thread_ok [OF inv t, unfolded thread_ok_def Let_def]
  show "case mt_pc ((ms_thr s t)\<lparr>mt_pc := M_Loop, mt_i := mt_i (ms_thr s t) + 1\<rparr>) of
      M_Loop \<Rightarrow> mt_i ((ms_thr s t)\<lparr>mt_pc := M_Loop, mt_i := mt_i (ms_thr s t) + 1\<rparr>) \<le> k
    | M_Exit \<Rightarrow> mt_i ((ms_thr s t)\<lparr>mt_pc := M_Loop, mt_i := mt_i (ms_thr s t) + 1\<rparr>) = k
    | _ \<Rightarrow> mt_i ((ms_thr s t)\<lparr>mt_pc := M_Loop, mt_i := mt_i (ms_thr s t) + 1\<rparr>) < k"
    using ok pc by simp
  assume "\<exists>u<n. ((ms_thr s)(t := (ms_thr s t)\<lparr>mt_pc := M_Loop, mt_i := mt_i (ms_thr s t) + 1\<rparr>)) u \<in> {x. mt_pc x = M_Asleep}"
  then have "\<exists>u<n. u \<noteq> t \<and> mt_pc (ms_thr s u) = M_Asleep" by (auto split: if_splits)
  then obtain u where "u < n" "mt_pc (ms_thr s u) = M_Cas" using someone by blast
  then show "\<exists>u<n. mt_pc (((ms_thr s)(t := (ms_thr s t)\<lparr>mt_pc := M_Loop, mt_i := mt_i (ms_thr s t) + 1\<rparr>)) u) \<in> {M_Wake, M_Cas, M_Wait}"
    using pc by (intro exI [of _ u]) auto
qed (use pc in \<open>auto simp: in_critical_def mt_done_def\<close>)

text \<open>The steps of the critical section, and the compare and exchange that enters it.\<close>

lemma mutex_move_owner:
  assumes inv: "mutex_inv n k s" and t: "t < n" and m: "mutex_move k t w s = Some s'"
    and pc: "in_critical (mt_pc (ms_thr s t)) \<or> mt_pc (ms_thr s t) = M_Cas \<and> m_lock (ms_mutex s) = 1"
  shows "mutex_inv n k s'"
proof -
  note ok = mutex_inv_thread_ok [OF inv t, unfolded thread_ok_def Let_def]
  have alone: "\<And>u. u < n \<Longrightarrow> u \<noteq> t \<Longrightarrow> \<not> in_critical (mt_pc (ms_thr s u))"
    using mutex_inv_others [OF inv t] pc by blast
  note [simp] = in_critical_def mt_done_def thread_ok_def Let_def atomic_cas_def mutex_move_def
  let ?new = "\<lambda>m' c' T'. s\<lparr>ms_mutex := m', ms_counter := c', ms_thr := (ms_thr s)(t := T')\<rparr>"
  let ?T = "ms_thr s t" and ?m = "ms_mutex s" and ?c = "ms_counter s"
  consider "mt_pc ?T = M_Settid" | "mt_pc ?T = M_Load" | "mt_pc ?T = M_Store" | "mt_pc ?T = M_Owner" | "mt_pc ?T = M_Uncas"
    | "mt_pc ?T = M_Cas" "m_lock ?m = 1"
    using pc by auto
  then show ?thesis
  proof cases
    case 1
    then have s': "s' = ?new (?m\<lparr>m_tid := int t\<rparr>) ?c (?T\<lparr>mt_pc := M_Load\<rparr>)" using m by simp
    show ?thesis by (rule mutex_inv_alone [OF inv t alone s']) (use 1 ok s' in auto)
  next
    case 2
    then have s': "s' = ?new ?m ?c (?T\<lparr>mt_pc := M_Store, mt_reg := ?c\<rparr>)" using m by simp
    show ?thesis by (rule mutex_inv_alone [OF inv t alone s']) (use 2 ok s' in auto)
  next
    case 3
    then have s': "s' = ?new ?m (?c + 1) (?T\<lparr>mt_pc := M_Owner\<rparr>)" using m ok by simp
    show ?thesis by (rule mutex_inv_alone [OF inv t alone s']) (use 3 ok s' in auto)
  next
    case 4
    then have s': "s' = ?new ?m ?c (?T\<lparr>mt_pc := M_Uncas\<rparr>)" using m ok by simp
    show ?thesis by (rule mutex_inv_alone [OF inv t alone s']) (use 4 ok s' in auto)
  next
    case 5
    then have s': "s' = ?new (?m\<lparr>m_lock := 1\<rparr>) ?c (?T\<lparr>mt_pc := M_Wake\<rparr>)" using m ok by simp
    show ?thesis by (rule mutex_inv_alone [OF inv t alone s']) (use 5 ok s' in auto)
  next
    case 6
    then have s': "s' = ?new (?m\<lparr>m_lock := 0\<rparr>) ?c (?T\<lparr>mt_pc := M_Settid\<rparr>)" using m by simp
    show ?thesis by (rule mutex_inv_alone [OF inv t alone s']) (use 6 ok s' in auto)
  qed
qed


lemma msys_same_lock: "m_lock (ms_mutex s) = l \<Longrightarrow> s\<lparr>ms_mutex := (ms_mutex s)\<lparr>m_lock := l\<rparr>, ms_thr := f\<rparr> = s\<lparr>ms_thr := f\<rparr>"
  by (cases s; cases "ms_mutex s") simp

lemma mutex_move_inv:
  assumes inv: "mutex_inv n k s" and t: "t < n" and w: "wake_ok n s w" and m: "mutex_move k t w s = Some s'"
  shows "mutex_inv n k s'"
proof -
  let ?T = "ms_thr s t"
  consider (own) "in_critical (mt_pc ?T) \<or> mt_pc ?T = M_Cas \<and> m_lock (ms_mutex s) = 1"
    | (go) "mt_pc ?T = M_Loop \<or> mt_pc ?T = M_Wait \<or> mt_pc ?T = M_Cas \<and> m_lock (ms_mutex s) = 0"
    | (wake) "mt_pc ?T = M_Wake" | "mt_pc ?T = M_Asleep" | "mt_pc ?T = M_Exit"
    using mutex_inv_lock [OF inv] by (cases "mt_pc ?T") (auto simp: in_critical_def)
  then show ?thesis
  proof cases
    case own then show ?thesis by (rule mutex_move_owner [OF inv t m])
  next
    case go
    then obtain pc' where "s' = s\<lparr>ms_thr := (ms_thr s)(t := ?T\<lparr>mt_pc := pc'\<rparr>)\<rparr>"
      and "mt_pc ?T = M_Loop \<and> pc' = (if mt_i ?T < k then M_Cas else M_Exit) \<or>
        mt_pc ?T = M_Wait \<and> pc' = (if m_lock (ms_mutex s) = 0 then M_Asleep else M_Cas) \<or>
        mt_pc ?T = M_Cas \<and> m_lock (ms_mutex s) = 0 \<and> pc' = M_Wait"
      using m by (elim disjE) (simp_all add: mutex_move_def Let_def atomic_cas_def msys_same_lock)
    then show ?thesis using mutex_inv_goto [OF inv t] by blast
  next
    case wake
    show ?thesis
    proof (cases w)
      case None
      then have s': "s' = s\<lparr>ms_thr := (ms_thr s)(t := ?T\<lparr>mt_pc := M_Loop, mt_i := mt_i ?T + 1\<rparr>)\<rparr>"
        using m wake by (simp add: mutex_move_def Let_def)
      show ?thesis unfolding s' using w None wake by (intro mutex_inv_round [OF inv t]) (auto simp: wake_ok_def)
    next
      case (Some u)
      with w have u: "u < n" "mt_pc (ms_thr s u) = M_Asleep" by (auto simp: wake_ok_def)
      let ?s = "s\<lparr>ms_thr := (ms_thr s)(u := (ms_thr s u)\<lparr>mt_pc := M_Cas\<rparr>)\<rparr>"
      have ut: "t \<noteq> u" using u wake by auto
      have s': "s' = ?s\<lparr>ms_thr := (ms_thr ?s)(t := (ms_thr ?s t)\<lparr>mt_pc := M_Loop, mt_i := mt_i (ms_thr ?s t) + 1\<rparr>)\<rparr>"
        using m wake Some ut by (simp add: mutex_move_def Let_def)
      have "mutex_inv n k ?s" using inv u by (rule mutex_inv_woken)
      then show ?thesis
        unfolding s' using u wake ut by (intro mutex_inv_round [OF _ t]) (auto intro!: exI [of _ u])
    qed
  qed (use m in \<open>simp_all add: mutex_move_def Let_def\<close>)
qed

lemma mutex_step_inv: "mutex_step n k s s' \<Longrightarrow> mutex_inv n k s \<Longrightarrow> mutex_inv n k s'"
  by (induction rule: mutex_step.cases) (auto intro: mutex_move_inv mutex_inv_woken)

lemma mutex_reach_inv: "reach (mutex_step n k) msys_init s \<Longrightarrow> mutex_inv n k s"
  by (erule reach_invariant) (auto intro: mutex_inv_init mutex_step_inv)


section \<open>Progress\<close>

text \<open>The steps in which no sleeper returns by itself: only \<open>FUTEX_WAKE\<close> ends a sleep.\<close>

inductive mutex_calm_step :: "nat \<Rightarrow> nat \<Rightarrow> msys \<Rightarrow> msys \<Rightarrow> bool" for n k where
  calm_moves: "t < n \<Longrightarrow> wake_ok n s w \<Longrightarrow> mutex_move k t w s = Some s' \<Longrightarrow> mutex_calm_step n k s s'"

lemma mutex_calm_step: "mutex_calm_step n k s s' \<Longrightarrow> mutex_step n k s s'"
  by (auto elim: mutex_calm_step.cases intro: mutex_moves)

lemma mutex_calm_reach: "reach (mutex_calm_step n k) s s' \<Longrightarrow> reach (mutex_step n k) s s'"
  by (erule reach_mono) (rule mutex_calm_step)

text \<open>
  The steps a thread has left, and those of all threads. A sleeper that is woken goes two steps back,
  and so does a thread that finds the lock free in \<open>FUTEX_WAIT\<close>, by one; both are paid for by the
  round that follows.
\<close>

definition mt_left :: "nat \<Rightarrow> mthread \<Rightarrow> nat" where
  "mt_left k T = (k - mt_i T) * 20 + (case mt_pc T of M_Loop \<Rightarrow> 15 | M_Cas \<Rightarrow> 14 | M_Wait \<Rightarrow> 13 | M_Asleep \<Rightarrow> 12
     | M_Settid \<Rightarrow> 11 | M_Load \<Rightarrow> 10 | M_Store \<Rightarrow> 9 | M_Owner \<Rightarrow> 8 | M_Uncas \<Rightarrow> 7 | M_Wake \<Rightarrow> 6 | M_Exit \<Rightarrow> 0)"

definition ms_left :: "nat \<Rightarrow> nat \<Rightarrow> msys \<Rightarrow> nat" where
  "ms_left n k s = (\<Sum>t<n. mt_left k (ms_thr s t))"

lemma ms_left_upd:
  assumes "t < n" "ms_thr s' = (ms_thr s)(t := T')" "mt_left k T' < mt_left k (ms_thr s t)"
  shows "ms_left n k s' < ms_left n k s"
  using sum_thread_upd_nat [OF assms(1), of "mt_left k" "ms_thr s" T'] assms(2,3)
  unfolding ms_left_def by simp

lemma ms_left_upd2:
  assumes "t < n" "u < n" "t \<noteq> u" "ms_thr s' = (ms_thr s)(u := U', t := T')"
    and "mt_left k T' + mt_left k U' < mt_left k (ms_thr s t) + mt_left k (ms_thr s u)"
  shows "ms_left n k s' < ms_left n k s"
proof -
  have "(\<Sum>v<n. mt_left k (ms_thr s' v)) + mt_left k (ms_thr s t)
      = (\<Sum>v<n. mt_left k (((ms_thr s)(u := U')) v)) + mt_left k T'"
    using sum_thread_upd_nat [OF assms(1), of "mt_left k" "(ms_thr s)(u := U')" T']
    by (simp only: assms(4) fun_upd_other [OF assms(3)])
  with sum_thread_upd_nat [OF assms(2), of "mt_left k" "ms_thr s" U'] assms(5)
  show ?thesis unfolding ms_left_def by linarith
qed

text \<open>Some thread can always be run, one or two steps, to the effect that less is left.\<close>

lemma wake_ok_exists: "\<exists>w. wake_ok n s w"
  by (cases "\<exists>u<n. mt_pc (ms_thr s u) = M_Asleep")
    (auto simp: wake_ok_def intro: exI [of _ None] exI [of _ "Some _"])

definition can_run :: "nat \<Rightarrow> msys \<Rightarrow> nat \<Rightarrow> bool" where
  "can_run n s t \<longleftrightarrow> t < n \<and> (in_critical (mt_pc (ms_thr s t)) \<or>
     m_lock (ms_mutex s) = 1 \<and> mt_pc (ms_thr s t) \<in> {M_Loop, M_Cas, M_Wait, M_Wake})"

lemma somebody_can_run:
  assumes inv: "mutex_inv n k s" and t: "t < n" "mt_pc (ms_thr s t) \<noteq> M_Exit"
  shows "\<exists>t. can_run n s t"
proof (cases "m_lock (ms_mutex s) = 0")
  case True then show ?thesis using inv unfolding mutex_inv_def can_run_def by blast
next
  case False
  then have l: "m_lock (ms_mutex s) = 1" using mutex_inv_lock [OF inv] by simp
  show ?thesis
  proof (cases "mt_pc (ms_thr s t) = M_Asleep")
    case True
    then obtain u where "u < n" "mt_pc (ms_thr s u) \<in> {M_Wake, M_Cas, M_Wait}"
      using inv l t unfolding mutex_inv_def by blast
    then show ?thesis using l unfolding can_run_def by blast
  next
    case False
    then show ?thesis using l t by (intro exI [of _ t]) (cases "mt_pc (ms_thr s t)"; simp add: can_run_def in_critical_def)
  qed
qed


lemma mutex_step_less:
  assumes inv: "mutex_inv n k s" and c: "can_run n s t" and pc: "mt_pc (ms_thr s t) \<notin> {M_Wait, M_Wake}"
  shows "\<exists>s'. mutex_calm_step n k s s' \<and> ms_left n k s' < ms_left n k s"
proof -
  have t: "t < n" using c by (simp add: can_run_def)
  note ok = mutex_inv_thread_ok [OF inv t, unfolded thread_ok_def Let_def]
  obtain w where w: "wake_ok n s w" using wake_ok_exists by blast
  obtain s' T' where m: "mutex_move k t w s = Some s'"
    and s': "ms_thr s' = (ms_thr s)(t := T')" "mt_left k T' < mt_left k (ms_thr s t)"
    using c pc ok
    by (cases "mt_pc (ms_thr s t)") (auto simp: can_run_def in_critical_def mutex_move_def Let_def atomic_cas_def mt_left_def)
  show ?thesis using mutex_calm_step.intros [OF t w m] ms_left_upd [where s = s, OF t s'] by blast
qed

lemma mutex_wake_less:
  assumes inv: "mutex_inv n k s" and t: "t < n" and pc: "mt_pc (ms_thr s t) = M_Wake"
  shows "\<exists>s'. mutex_calm_step n k s s' \<and> ms_left n k s' < ms_left n k s"
proof -
  note ok = mutex_inv_thread_ok [OF inv t, unfolded thread_ok_def Let_def]
  let ?T = "(ms_thr s t)\<lparr>mt_pc := M_Loop, mt_i := mt_i (ms_thr s t) + 1\<rparr>"
  obtain w where w: "wake_ok n s w" using wake_ok_exists by blast
  show ?thesis
  proof (cases w)
    case None
    let ?s' = "s\<lparr>ms_thr := (ms_thr s)(t := ?T)\<rparr>"
    have m: "mutex_move k t w s = Some ?s'" using pc None by (simp add: mutex_move_def Let_def)
    have "ms_left n k ?s' < ms_left n k s"
      by (rule ms_left_upd [OF t, of _ _ ?T]) (use ok pc in \<open>auto simp: mt_left_def\<close>)
    with mutex_calm_step.intros [OF t w m] show ?thesis by blast
  next
    case (Some u)
    with w have u: "u < n" "mt_pc (ms_thr s u) = M_Asleep" by (auto simp: wake_ok_def)
    then have tu: "t \<noteq> u" using pc by auto
    let ?U = "(ms_thr s u)\<lparr>mt_pc := M_Cas\<rparr>"
    let ?s' = "s\<lparr>ms_thr := (ms_thr s)(u := ?U, t := ?T)\<rparr>"
    have m: "mutex_move k t w s = Some ?s'" using pc Some tu by (simp add: mutex_move_def Let_def)
    have "ms_left n k ?s' < ms_left n k s"
      by (rule ms_left_upd2 [OF t u(1) tu, of _ _ ?U ?T]) (use ok pc u in \<open>auto simp: mt_left_def\<close>)
    with mutex_calm_step.intros [OF t w m] show ?thesis by blast
  qed
qed

text \<open>A thread that finds the lock free in \<open>FUTEX_WAIT\<close> (\<open>EAGAIN\<close>) tries again, and gets it.\<close>

lemma mutex_retry_less:
  assumes inv: "mutex_inv n k s" and t: "t < n" and pc: "mt_pc (ms_thr s t) = M_Wait" and l: "m_lock (ms_mutex s) = 1"
  shows "\<exists>s'. reach (mutex_calm_step n k) s s' \<and> ms_left n k s' < ms_left n k s"
proof -
  obtain w where w: "wake_ok n s w" using wake_ok_exists by blast
  let ?s1 = "s\<lparr>ms_thr := (ms_thr s)(t := (ms_thr s t)\<lparr>mt_pc := M_Cas\<rparr>)\<rparr>"
  have m: "mutex_move k t w s = Some ?s1" using pc l by (simp add: mutex_move_def Let_def)
  note s1 = mutex_calm_step.intros [OF t w m]
  obtain w' where w': "wake_ok n ?s1 w'" using wake_ok_exists by blast
  let ?s2 = "?s1\<lparr>ms_mutex := (ms_mutex s)\<lparr>m_lock := 0\<rparr>, ms_thr := (ms_thr s)(t := (ms_thr s t)\<lparr>mt_pc := M_Settid\<rparr>)\<rparr>"
  have m': "mutex_move k t w' ?s1 = Some ?s2" using l by (simp add: mutex_move_def Let_def atomic_cas_def)
  note s2 = mutex_calm_step.intros [OF t w' m']
  have "ms_left n k ?s2 < ms_left n k s"
    by (rule ms_left_upd [OF t, of _ _ "(ms_thr s t)\<lparr>mt_pc := M_Settid\<rparr>"]) (use pc in \<open>auto simp: mt_left_def\<close>)
  with s1 s2 show ?thesis by (blast intro: reach_refl reach_step)
qed

lemma mutex_progress:
  assumes inv: "mutex_inv n k s" and t: "t < n" "mt_pc (ms_thr s t) \<noteq> M_Exit"
  shows "\<exists>s'. reach (mutex_calm_step n k) s s' \<and> ms_left n k s' < ms_left n k s"
proof -
  obtain u where u: "can_run n s u" using somebody_can_run [OF inv t] by blast
  then have un: "u < n" by (simp add: can_run_def)
  consider "mt_pc (ms_thr s u) \<notin> {M_Wait, M_Wake}" | "mt_pc (ms_thr s u) = M_Wake"
    | "mt_pc (ms_thr s u) = M_Wait" "m_lock (ms_mutex s) = 1"
    using u by (auto simp: can_run_def in_critical_def)
  then show ?thesis
  proof cases
    case 1
    from mutex_step_less [OF inv u 1] show ?thesis
      by (rule reach_one [of "mutex_calm_step n k" s "\<lambda>s'. ms_left n k s' < ms_left n k s"])
  next
    case 2
    from mutex_wake_less [OF inv un 2] show ?thesis
      by (rule reach_one [of "mutex_calm_step n k" s "\<lambda>s'. ms_left n k s' < ms_left n k s"])
  next
    case 3
    from mutex_retry_less [OF inv un 3] show ?thesis .
  qed
qed

definition all_exited :: "nat \<Rightarrow> msys \<Rightarrow> bool" where
  "all_exited n s \<longleftrightarrow> list_all (\<lambda>t. mt_pc (ms_thr s t) = M_Exit) [0..<n]"

lemma mutex_can_finish:
  assumes "mutex_inv n k s"
  shows "\<exists>s'. reach (mutex_calm_step n k) s s' \<and> all_exited n s'"
  using assms
proof (induction "ms_left n k s" arbitrary: s rule: less_induct)
  case less
  show ?case
  proof (cases "all_exited n s")
    case True then show ?thesis using reach_refl [of "mutex_calm_step n k" s] by (intro exI [of _ s]) simp
  next
    case False
    then obtain t where "t < n" "mt_pc (ms_thr s t) \<noteq> M_Exit"
      by (auto simp: all_exited_def list_all_iff)
    then obtain s1 where s1: "reach (mutex_calm_step n k) s s1" "ms_left n k s1 < ms_left n k s"
      using mutex_progress [OF less.prems] by blast
    have "mutex_inv n k s1" using s1(1) less.prems by (rule reach_invariant) (use mutex_calm_step mutex_step_inv in blast)
    then obtain s2 where "reach (mutex_calm_step n k) s1 s2" "all_exited n s2" using less.hyps [OF s1(2)] by blast
    then show ?thesis using reach_trans [OF _ s1(1), of s2] by (intro exI [of _ s2]) simp
  qed
qed


text \<open>A schedule as data: who moves, and whom \<open>FUTEX_WAKE\<close> wakes.\<close>

fun mutex_run :: "nat \<Rightarrow> nat \<Rightarrow> (nat \<times> nat option) list \<Rightarrow> msys \<Rightarrow> msys option" where
  "mutex_run n k [] s = Some s"
| "mutex_run n k ((t, w) # es) s =
     (if t < n \<and> wake_ok n s w then Option.bind (mutex_move k t w s) (mutex_run n k es) else None)"

lemma mutex_run_reach: "mutex_run n k es s = Some s' \<Longrightarrow> reach (mutex_step n k) s s'"
proof (induction es arbitrary: s)
  case Nil then show ?case by (simp add: reach_refl)
next
  case (Cons e es)
  obtain t w where e: "e = (t, w)" by (cases e)
  with Cons.prems obtain s1 where "t < n" "wake_ok n s w" "mutex_move k t w s = Some s1" "mutex_run n k es s1 = Some s'"
    by (auto split: if_splits Option.bind_splits)
  then show ?case using Cons.IH mutex_moves [of t n s w k s1] by (meson reach_refl reach_step reach_trans)
qed

section \<open>What the test program relies on\<close>

text \<open>C23: In every reachable state of any number of threads contending for the futex mutex, at most one
  thread is between the compare and exchange that takes the lock and the one that gives it back, and
  the owner recorded in \<open>tid\<close> is then that thread once it has stored it.\<close>

theorem futex_mutex_exclusion:
  assumes "reach (mutex_step n k) msys_init s" "t < n" "u < n"
    and "in_critical (mt_pc (ms_thr s t))" "in_critical (mt_pc (ms_thr s u))"
  shows "t = u \<and> (mt_pc (ms_thr s t) \<noteq> M_Settid \<longrightarrow> m_tid (ms_mutex s) = int t)"
proof -
  note inv = mutex_reach_inv [OF assms(1)]
  have "t = u" using mutex_inv_others [OF inv assms(2,3)] assms(4,5) by blast
  moreover have "mt_pc (ms_thr s t) \<noteq> M_Settid \<Longrightarrow> m_tid (ms_mutex s) = int t"
    using mutex_inv_thread_ok [OF inv assms(2)] assms(4) by (auto simp: thread_ok_def Let_def in_critical_def)
  ultimately show ?thesis by blast
qed

theorem futex_mutex_exclusion_witness:
  "\<exists>s. reach (mutex_step 2 1) msys_init s \<and> in_critical (mt_pc (ms_thr s 0)) \<and>
     m_tid (ms_mutex s) = 0 \<and> mt_pc (ms_thr s 1) = M_Asleep"
proof -
  define es :: "(nat \<times> nat option) list" where "es = [(0, None), (1, None), (0, None), (1, None), (1, None), (0, Some 1)]"
  obtain s where s: "mutex_run 2 1 es msys_init = Some s" and pc: "mt_pc (ms_thr s 0) = M_Load" "mt_pc (ms_thr s 1) = M_Asleep"
    by (simp add: es_def msys_init_def mutex_init_def mutex_move_def atomic_cas_def wake_ok_def numeral_eq_Suc All_less_Suc)
  note r = mutex_run_reach [OF s]
  have "m_tid (ms_mutex s) = 0"
    using futex_mutex_exclusion [OF r, of 0 0] pc by (simp add: in_critical_def)
  with r pc show ?thesis by (auto simp: in_critical_def)
qed

text \<open>C8: The test program's counter is exact: whatever the schedule, spurious returns of \<open>FUTEX_WAIT\<close>
  included, when all \<open>n\<close> threads have left their loops of \<open>k\<close> rounds the counter is \<open>n * k\<close>, and the
  mutex is free again.\<close>

theorem futex_counter_exact:
  assumes "reach (mutex_step n k) msys_init s" "all_exited n s"
  shows "ms_counter s = int n * int k \<and> m_lock (ms_mutex s) = STATUS_UNLOCK"
proof -
  note inv = mutex_reach_inv [OF assms(1)]
  have e: "mt_pc (ms_thr s t) = M_Exit" if "t < n" for t
    using assms(2) that by (simp add: all_exited_def list_all_iff)
  have "mt_done (ms_thr s t) = int k" if t: "t < n" for t
    using mutex_inv_thread_ok [OF inv t] e [OF t] by (simp add: thread_ok_def Let_def mt_done_def)
  moreover have "m_lock (ms_mutex s) \<noteq> 0" using inv e by (auto simp: mutex_inv_def in_critical_def)
  ultimately show ?thesis using inv by (auto simp: mutex_inv_def)
qed

theorem futex_counter_exact_witness:
  "\<exists>s. reach (mutex_step 2 1) msys_init s \<and> ms_counter s = 2 \<and> m_lock (ms_mutex s) = STATUS_UNLOCK"
proof -
  obtain s where s: "reach (mutex_step 2 1) msys_init s" "all_exited 2 s"
    using mutex_can_finish [OF mutex_inv_init] mutex_calm_reach by blast
  with futex_counter_exact [OF s] show ?thesis by auto
qed

text \<open>C24: No wakeup is lost. In every reachable state, if a thread sleeps although the mutex is free, another one is
  about to call \<open>FUTEX_WAKE\<close> or to try the mutex itself; and from every reachable state all threads can
  still finish without any sleeper returning by itself (no spurious return of \<open>FUTEX_WAIT\<close>), so that
  every sleep that is left is ended by a \<open>FUTEX_WAKE\<close>.\<close>

theorem futex_no_lost_wakeup:
  assumes "reach (mutex_step n k) msys_init s"
  shows "(\<exists>s'. reach (mutex_calm_step n k) s s' \<and> all_exited n s') \<and>
    (m_lock (ms_mutex s) = STATUS_UNLOCK \<and> (\<exists>t<n. mt_pc (ms_thr s t) = M_Asleep) \<longrightarrow>
      (\<exists>u<n. mt_pc (ms_thr s u) \<in> {M_Wake, M_Cas, M_Wait}))"
proof -
  note inv = mutex_reach_inv [OF assms]
  then have "m_lock (ms_mutex s) = STATUS_UNLOCK \<and> (\<exists>t<n. mt_pc (ms_thr s t) = M_Asleep) \<longrightarrow>
      (\<exists>u<n. mt_pc (ms_thr s u) \<in> {M_Wake, M_Cas, M_Wait})" by (simp add: mutex_inv_def)
  with mutex_can_finish [OF inv] show ?thesis by blast
qed

theorem futex_no_lost_wakeup_witness:
  "\<exists>s s'. reach (mutex_step 2 1) msys_init s \<and> mt_pc (ms_thr s 1) = M_Asleep \<and> reach (mutex_calm_step 2 1) s s' \<and> all_exited 2 s'"
proof -
  define es :: "(nat \<times> nat option) list" where "es = [(0, None), (1, None), (0, None), (1, None), (1, None)]"
  obtain s where s: "mutex_run 2 1 es msys_init = Some s" and pc: "mt_pc (ms_thr s 1) = M_Asleep"
    by (simp add: es_def msys_init_def mutex_init_def mutex_move_def atomic_cas_def wake_ok_def numeral_eq_Suc All_less_Suc)
  note r = mutex_run_reach [OF s]
  from futex_no_lost_wakeup [OF r] r pc show ?thesis by blast
qed

end
