(* ===== verification/Spin_Counter.thy ===== *)
theory Spin_Counter
  imports Futex_Mutex
begin

text \<open>
  The compare-and-exchange spinlock of \<open>lab2/src/4/spinlock/spinlock.c\<close> under the first half of
  \<open>lab2/src/4/test.c\<close>: \<open>n\<close> threads running \<open>spinlock_lock(&spinlock); counter++;
  spinlock_unlock(&spinlock);\<close> \<open>k\<close> times. Each round of the waiting loop, the load and the store of
  the counter and the exchange of the unlock are steps of their own.
\<close>

section \<open>State and steps\<close>

definition cas_spinlock_init :: int where "cas_spinlock_init = STATUS_UNLOCK"

text \<open>One round of \<open>spinlock_lock\<close>: whether it leaves the loop, and the new word.\<close>

definition cas_spinlock_try :: "int \<Rightarrow> bool \<times> int" where
  "cas_spinlock_try s = atomic_cas s STATUS_UNLOCK STATUS_LOCK"

definition cas_spinlock_unlock :: "int \<Rightarrow> int" where
  "cas_spinlock_unlock s = snd (atomic_cas s STATUS_LOCK STATUS_UNLOCK)"

datatype spc = S_Loop | S_Cas | S_Load | S_Store | S_Unlock | S_Exit

record sthread =
  st_pc :: spc
  st_i :: nat
  st_reg :: int

record ssys =
  ss_lock :: int
  ss_counter :: int
  ss_thr :: "nat \<Rightarrow> sthread"

definition ssys_init :: ssys where
  "ssys_init = \<lparr>ss_lock = cas_spinlock_init, ss_counter = 0, ss_thr = (\<lambda>_. \<lparr>st_pc = S_Loop, st_i = 0, st_reg = 0\<rparr>)\<rparr>"

definition spin_move :: "nat \<Rightarrow> nat \<Rightarrow> ssys \<Rightarrow> ssys option" where
  "spin_move k t s = (let T = ss_thr s t in case st_pc T of
       S_Loop \<Rightarrow> Some (s\<lparr>ss_thr := (ss_thr s)(t := T\<lparr>st_pc := if st_i T < k then S_Cas else S_Exit\<rparr>)\<rparr>)
     | S_Cas \<Rightarrow> (case cas_spinlock_try (ss_lock s) of (won, l) \<Rightarrow>
         Some (s\<lparr>ss_lock := l, ss_thr := (ss_thr s)(t := T\<lparr>st_pc := if won then S_Load else S_Cas\<rparr>)\<rparr>))
     | S_Load \<Rightarrow> Some (s\<lparr>ss_thr := (ss_thr s)(t := T\<lparr>st_pc := S_Store, st_reg := ss_counter s\<rparr>)\<rparr>)
     | S_Store \<Rightarrow> Some (s\<lparr>ss_counter := st_reg T + 1, ss_thr := (ss_thr s)(t := T\<lparr>st_pc := S_Unlock\<rparr>)\<rparr>)
     | S_Unlock \<Rightarrow> Some (s\<lparr>ss_lock := cas_spinlock_unlock (ss_lock s),
         ss_thr := (ss_thr s)(t := T\<lparr>st_pc := S_Loop, st_i := st_i T + 1\<rparr>)\<rparr>)
     | S_Exit \<Rightarrow> None)"

inductive spin_step :: "nat \<Rightarrow> nat \<Rightarrow> ssys \<Rightarrow> ssys \<Rightarrow> bool" for n k where
  spin_moves: "t < n \<Longrightarrow> spin_move k t s = Some s' \<Longrightarrow> spin_step n k s s'"

section \<open>Invariant\<close>

definition spin_critical :: "spc \<Rightarrow> bool" where
  "spin_critical pc \<longleftrightarrow> pc \<in> {S_Load, S_Store, S_Unlock}"

definition st_done :: "sthread \<Rightarrow> int" where
  "st_done T = int (st_i T) + (if st_pc T = S_Unlock then 1 else 0)"

definition sthread_ok :: "nat \<Rightarrow> ssys \<Rightarrow> sthread \<Rightarrow> bool" where
  "sthread_ok k s T \<longleftrightarrow>
     (spin_critical (st_pc T) \<longrightarrow> ss_lock s = 0) \<and> (st_pc T = S_Store \<longrightarrow> st_reg T = ss_counter s) \<and>
     (case st_pc T of S_Loop \<Rightarrow> st_i T \<le> k | S_Exit \<Rightarrow> st_i T = k | _ \<Rightarrow> st_i T < k)"

definition spin_inv :: "nat \<Rightarrow> nat \<Rightarrow> ssys \<Rightarrow> bool" where
  "spin_inv n k s \<longleftrightarrow>
     ss_lock s \<in> {0, 1} \<and> (\<forall>t<n. sthread_ok k s (ss_thr s t)) \<and>
     (\<forall>t<n. \<forall>u<n. spin_critical (st_pc (ss_thr s t)) \<and> spin_critical (st_pc (ss_thr s u)) \<longrightarrow> t = u) \<and>
     (ss_lock s = 0 \<longrightarrow> (\<exists>t<n. spin_critical (st_pc (ss_thr s t)))) \<and>
     ss_counter s = (\<Sum>t<n. st_done (ss_thr s t))"

lemma spin_inv_init: "spin_inv n k ssys_init"
  by (auto simp: spin_inv_def ssys_init_def cas_spinlock_init_def sthread_ok_def spin_critical_def st_done_def)

lemma spin_inv_thread: "spin_inv n k s \<Longrightarrow> t < n \<Longrightarrow> sthread_ok k s (ss_thr s t)"
  by (simp add: spin_inv_def)

lemma spin_inv_alone:
  assumes inv: "spin_inv n k s" and t: "t < n" and u: "u < n" "u \<noteq> t"
    and c: "spin_critical (st_pc (ss_thr s t)) \<or> ss_lock s = 1"
  shows "\<not> spin_critical (st_pc (ss_thr s u))"
proof
  assume a: "spin_critical (st_pc (ss_thr s u))"
  then have "ss_lock s = 0" using spin_inv_thread [OF inv u(1)] by (simp add: sthread_ok_def)
  with a c inv t u show False unfolding spin_inv_def by auto
qed

text \<open>A step of the thread that has the lock, or of a thread while nobody has it.\<close>

lemma spin_inv_upd:
  assumes inv: "spin_inv n k s" and t: "t < n"
    and s': "s' = s\<lparr>ss_lock := l, ss_counter := c, ss_thr := (ss_thr s)(t := T')\<rparr>"
    and d: "c = ss_counter s - st_done (ss_thr s t) + st_done T'" and l: "l \<in> {0, 1}"
    and ok: "sthread_ok k s' T'"
    and cr: "(\<forall>u<n. u \<noteq> t \<longrightarrow> \<not> spin_critical (st_pc (ss_thr s u))) \<and> (l = 0 \<longrightarrow> spin_critical (st_pc T')) \<or>
       l = ss_lock s \<and> c = ss_counter s \<and> \<not> spin_critical (st_pc (ss_thr s t)) \<and> \<not> spin_critical (st_pc T')"
  shows "spin_inv n k s'"
proof -
  have "c = (\<Sum>u<n. st_done (((ss_thr s)(t := T')) u))"
    using sum_thread_upd [OF t, of st_done "ss_thr s" T'] d inv by (simp add: spin_inv_def)
  moreover have "sthread_ok k s' (ss_thr s' u)" if u: "u < n" for u
  proof (cases "u = t")
    case False
    then show ?thesis using spin_inv_thread [OF inv u] cr u
      by (auto simp: s' sthread_ok_def spin_critical_def split: spc.splits)
  qed (use ok in \<open>simp add: s'\<close>)
  moreover have "\<forall>u<n. \<forall>v<n. spin_critical (st_pc (ss_thr s' u)) \<and> spin_critical (st_pc (ss_thr s' v)) \<longrightarrow> u = v"
    using cr inv unfolding spin_inv_def by (auto simp: s')
  moreover have "\<exists>u<n. spin_critical (st_pc (ss_thr s' u))" if l0: "ss_lock s' = 0"
  proof (cases "spin_critical (st_pc T')")
    case True then show ?thesis using t by (auto simp: s' intro!: exI [of _ t])
  next
    case False
    with cr l0 have "ss_lock s = 0" "\<not> spin_critical (st_pc (ss_thr s t))" by (auto simp: s')
    then obtain u where "u < n" "spin_critical (st_pc (ss_thr s u))" "u \<noteq> t"
      using inv unfolding spin_inv_def by blast
    then show ?thesis by (auto simp: s' intro!: exI [of _ u])
  qed
  moreover have "ss_lock s' \<in> {0, 1}" using l by (simp add: s')
  ultimately show ?thesis unfolding spin_inv_def by (simp add: s' del: fun_upd_apply)
qed

lemma ssys_same_lock: "ss_lock s = l \<Longrightarrow> s\<lparr>ss_lock := l, ss_thr := f\<rparr> = s\<lparr>ss_thr := f\<rparr>"
  "ss_lock s = l \<Longrightarrow> s\<lparr>ss_lock := l, ss_counter := c, ss_thr := f\<rparr> = s\<lparr>ss_counter := c, ss_thr := f\<rparr>"
  by (cases s; simp)+

lemma spin_step_inv:
  assumes "spin_step n k s s'" "spin_inv n k s"
  shows "spin_inv n k s'"
  using assms(1)
proof cases
  case (spin_moves t)
  note inv = assms(2) and t = spin_moves(1) and m = spin_moves(2)
  note ok = spin_inv_thread [OF inv t]
  have l: "ss_lock s = 0 \<or> ss_lock s = 1" using inv by (simp add: spin_inv_def)
  have alone: "\<forall>u<n. u \<noteq> t \<longrightarrow> \<not> spin_critical (st_pc (ss_thr s u))"
    if "spin_critical (st_pc (ss_thr s t)) \<or> ss_lock s = 1" using spin_inv_alone [OF inv t] that by blast
  note [simp] = spin_move_def Let_def sthread_ok_def spin_critical_def st_done_def
    cas_spinlock_try_def cas_spinlock_unlock_def atomic_cas_def
  let ?T = "ss_thr s t"
  let ?new = "\<lambda>l c T'. s\<lparr>ss_lock := l, ss_counter := c, ss_thr := (ss_thr s)(t := T')\<rparr>"
  show ?thesis
  proof (cases "st_pc ?T")
    case S_Loop
    then have s': "s' = ?new (ss_lock s) (ss_counter s) (?T\<lparr>st_pc := if st_i ?T < k then S_Cas else S_Exit\<rparr>)" using m by simp
    show ?thesis by (rule spin_inv_upd [OF inv t s']) (use S_Loop ok l in auto)
  next
    case S_Cas
    show ?thesis
    proof (cases "ss_lock s = 1")
      case True
      then have s': "s' = ?new 0 (ss_counter s) (?T\<lparr>st_pc := S_Load\<rparr>)" using S_Cas m by simp
      show ?thesis by (rule spin_inv_upd [OF inv t s']) (use S_Cas ok s' alone True in auto)
    next
      case False
      then have s': "s' = ?new (ss_lock s) (ss_counter s) (?T\<lparr>st_pc := S_Cas\<rparr>)" using S_Cas m l by (auto simp: ssys_same_lock)
      show ?thesis by (rule spin_inv_upd [OF inv t s']) (use S_Cas ok l in auto)
    qed
  next
    case S_Load
    then have s': "s' = ?new (ss_lock s) (ss_counter s) (?T\<lparr>st_pc := S_Store, st_reg := ss_counter s\<rparr>)" using m by simp
    show ?thesis by (rule spin_inv_upd [OF inv t s']) (use S_Load ok s' alone in auto)
  next
    case S_Store
    then have s': "s' = ?new (ss_lock s) (ss_counter s + 1) (?T\<lparr>st_pc := S_Unlock\<rparr>)" using m ok by (auto simp: ssys_same_lock)
    show ?thesis by (rule spin_inv_upd [OF inv t s']) (use S_Store ok s' alone in auto)
  next
    case S_Unlock
    then have s': "s' = ?new 1 (ss_counter s) (?T\<lparr>st_pc := S_Loop, st_i := st_i ?T + 1\<rparr>)" using m ok by simp
    show ?thesis by (rule spin_inv_upd [OF inv t s']) (use S_Unlock ok s' alone in auto)
  qed (use m in simp)
qed

lemma spin_reach_inv: "reach (spin_step n k) ssys_init s \<Longrightarrow> spin_inv n k s"
  by (erule reach_invariant) (auto intro: spin_inv_init spin_step_inv)

section \<open>Progress and the counter\<close>

definition st_left :: "nat \<Rightarrow> sthread \<Rightarrow> nat" where
  "st_left k T = (k - st_i T) * 10 + (case st_pc T of S_Loop \<Rightarrow> 8 | S_Cas \<Rightarrow> 7 | S_Load \<Rightarrow> 6 | S_Store \<Rightarrow> 5
     | S_Unlock \<Rightarrow> 4 | S_Exit \<Rightarrow> 0)"

definition all_left_loop :: "nat \<Rightarrow> ssys \<Rightarrow> bool" where
  "all_left_loop n s \<longleftrightarrow> list_all (\<lambda>t. st_pc (ss_thr s t) = S_Exit) [0..<n]"

lemma spin_progress:
  assumes inv: "spin_inv n k s" and t: "t < n" "st_pc (ss_thr s t) \<noteq> S_Exit"
  shows "\<exists>s'. spin_step n k s s' \<and> (\<Sum>u<n. st_left k (ss_thr s' u)) < (\<Sum>u<n. st_left k (ss_thr s u))"
proof -
  have "\<exists>u<n. spin_critical (st_pc (ss_thr s u)) \<or> ss_lock s = 1 \<and> st_pc (ss_thr s u) \<in> {S_Loop, S_Cas}"
    using inv t by (cases "st_pc (ss_thr s t)") (auto simp: spin_inv_def spin_critical_def)
  then obtain u where u: "u < n"
    and pc: "spin_critical (st_pc (ss_thr s u)) \<or> ss_lock s = 1 \<and> st_pc (ss_thr s u) \<in> {S_Loop, S_Cas}" by blast
  note ok = spin_inv_thread [OF inv u]
  obtain s' T' where m: "spin_move k u s = Some s'" and s': "ss_thr s' = (ss_thr s)(u := T')"
    and less: "st_left k T' < st_left k (ss_thr s u)"
    using pc ok by (cases "st_pc (ss_thr s u)")
      (auto simp: spin_critical_def spin_move_def Let_def st_left_def sthread_ok_def cas_spinlock_try_def atomic_cas_def)
  have "(\<Sum>v<n. st_left k (ss_thr s' v)) < (\<Sum>v<n. st_left k (ss_thr s v))"
    using sum_thread_upd_nat [OF u, of "st_left k" "ss_thr s" T'] less by (simp only: s')
  with spin_moves [OF u m] show ?thesis by blast
qed

lemma spin_can_finish:
  assumes "spin_inv n k s"
  shows "\<exists>s'. reach (spin_step n k) s s' \<and> all_left_loop n s'"
  using assms
proof (induction "\<Sum>u<n. st_left k (ss_thr s u)" arbitrary: s rule: less_induct)
  case less
  show ?case
  proof (cases "all_left_loop n s")
    case True
    then show ?thesis using reach_refl [of "spin_step n k" s] by (intro exI [of _ s]) simp
  next
    case False
    then obtain t where t: "t < n" "st_pc (ss_thr s t) \<noteq> S_Exit" by (auto simp: all_left_loop_def list_all_iff)
    obtain s1 where s1: "spin_step n k s s1" and d: "(\<Sum>u<n. st_left k (ss_thr s1 u)) < (\<Sum>u<n. st_left k (ss_thr s u))"
      using spin_progress [OF less.prems t] by blast
    obtain s2 where s2: "reach (spin_step n k) s1 s2" "all_left_loop n s2"
      using less.hyps [OF d spin_step_inv [OF s1 less.prems]] by blast
    have "reach (spin_step n k) s s1" using s1 by (rule reach_single)
    then show ?thesis using reach_trans [OF s2(1)] s2(2) by (intro exI [of _ s2]) simp
  qed
qed

text \<open>Under the compare-and-exchange spinlock the test's counter is exact: when all \<open>n\<close> threads have
  left their loops of \<open>k\<close> rounds, in any interleaving of the loads and stores, it is \<open>n * k\<close>.\<close>

theorem spin_counter_exact:
  assumes "reach (spin_step n k) ssys_init s" "all_left_loop n s"
  shows "ss_counter s = int n * int k \<and> ss_lock s = STATUS_UNLOCK"
proof -
  note inv = spin_reach_inv [OF assms(1)]
  have e: "st_pc (ss_thr s t) = S_Exit" if "t < n" for t
    using assms(2) that by (simp add: all_left_loop_def list_all_iff)
  have "st_done (ss_thr s t) = int k" if t: "t < n" for t
    using spin_inv_thread [OF inv t] e [OF t] by (simp add: sthread_ok_def st_done_def)
  moreover have "ss_lock s \<noteq> 0" using inv e by (auto simp: spin_inv_def spin_critical_def)
  ultimately show ?thesis using inv by (auto simp: spin_inv_def)
qed

theorem spin_counter_exact_witness:
  "\<exists>s. reach (spin_step 3 2) ssys_init s \<and> ss_counter s = 6 \<and> ss_lock s = 1"
proof -
  obtain s where s: "reach (spin_step 3 2) ssys_init s" "all_left_loop 3 s"
    using spin_can_finish [OF spin_inv_init] by blast
  with spin_counter_exact [OF s] show ?thesis by auto
qed

text \<open>The spinlock never blocks the test for good: in every reachable state at most one thread is
  between its lock and its unlock, and from every reachable state all threads can still finish.\<close>

theorem spin_counter_live:
  assumes "reach (spin_step n k) ssys_init s" "t < n" "u < n" "t \<noteq> u" "spin_critical (st_pc (ss_thr s t))"
  shows "\<not> spin_critical (st_pc (ss_thr s u)) \<and> (\<exists>s'. reach (spin_step n k) s s' \<and> all_left_loop n s')"
  using spin_inv_alone [OF spin_reach_inv [OF assms(1)] assms(2,3)] assms(4,5)
    spin_can_finish [OF spin_reach_inv [OF assms(1)]] by blast

theorem spin_counter_live_witness:
  "\<exists>s. reach (spin_step 2 1) ssys_init s \<and> spin_critical (st_pc (ss_thr s 0)) \<and>
     \<not> spin_critical (st_pc (ss_thr s 1)) \<and> (\<exists>s'. reach (spin_step 2 1) s s' \<and> all_left_loop 2 s')"
proof -
  let ?s1 = "ssys_init\<lparr>ss_thr := (ss_thr ssys_init)(0 := (ss_thr ssys_init 0)\<lparr>st_pc := S_Cas\<rparr>)\<rparr>"
  let ?s2 = "?s1\<lparr>ss_lock := 0, ss_thr := (ss_thr ?s1)(0 := (ss_thr ?s1 0)\<lparr>st_pc := S_Load\<rparr>)\<rparr>"
  have "spin_move 1 0 ssys_init = Some ?s1" by (simp add: spin_move_def ssys_init_def)
  then have 1: "spin_step 2 1 ssys_init ?s1" by (intro spin_moves [of 0]) simp_all
  have "spin_move 1 0 ?s1 = Some ?s2"
    by (simp add: spin_move_def ssys_init_def cas_spinlock_try_def cas_spinlock_init_def atomic_cas_def)
  then have 2: "spin_step 2 1 ?s1 ?s2" by (intro spin_moves [of 0]) simp_all
  have r1: "reach (spin_step 2 1) ssys_init ?s1" using 1 by (rule reach_single)
  have r: "reach (spin_step 2 1) ssys_init ?s2" by (rule reach_step [where step = "spin_step 2 1", OF r1 2])
  have c: "spin_critical (st_pc (ss_thr ?s2 0))" by (simp add: spin_critical_def)
  show ?thesis using spin_counter_live [OF r, of 0 1] c r by (intro exI [of _ ?s2]) simp
qed

end
