(* ===== verification/Common.thy ===== *)
theory Common
  imports Prelude "HOL-Library.Word"
begin

text \<open>
  \<open>lab3/src/common/common.c\<close> and the string functions of the C library that the proxy calls.
  A \<open>char\<close> array is a list of characters, \<open>NUL\<close> included where the array holds one; reading past the
  end of the list is the fault \<open>Out_Of_Bounds\<close>. The string in a buffer is what precedes its first
  \<open>NUL\<close>.
\<close>

unbundle bit_operations_syntax

section \<open>C strings\<close>

definition NUL :: char where "NUL = CHR 0x00"

definition cstr :: "string \<Rightarrow> string" where "cstr b = takeWhile (\<lambda>c. c \<noteq> NUL) b"

text \<open>A buffer from which \<open>n\<close> characters can be read, or that is terminated before.\<close>

definition readable :: "nat \<Rightarrow> string \<Rightarrow> bool" where
  "readable n b \<longleftrightarrow> n \<le> length b \<or> NUL \<in> set b"

lemma readable_simps [simp]:
  "readable 0 b" "readable (Suc n) [] \<longleftrightarrow> False"
  "readable (Suc n) (c # b) \<longleftrightarrow> c = NUL \<or> readable n b"
  by (auto simp: readable_def)

lemma readable_mono: "readable n b \<Longrightarrow> m \<le> n \<Longrightarrow> readable m b"
  by (auto simp: readable_def)

lemma cstr_simps [simp]: "cstr [] = []" "cstr (c # b) = (if c = NUL then [] else c # cstr b)"
  by (simp_all add: cstr_def)

lemma cstr_no_NUL [simp]: "NUL \<notin> set (cstr b)"
  by (induction b) auto

lemma cstr_id: "NUL \<notin> set b \<Longrightarrow> cstr b = b"
  by (induction b) auto

text \<open>\<open>strncmp(a, b, n) == 0\<close>, \<open>strncpy(dst, src, n)\<close> (the \<open>n\<close> characters it stores) and \<open>strlen\<close>.\<close>

fun strncmp_eq :: "string \<Rightarrow> string \<Rightarrow> nat \<Rightarrow> fault + bool" where
  "strncmp_eq a b 0 = Inr True"
| "strncmp_eq (c # a) (d # b) (Suc n) = (if c \<noteq> d then Inr False else if c = NUL then Inr True else strncmp_eq a b n)"
| "strncmp_eq _ _ (Suc n) = Inl Out_Of_Bounds"

fun strncpy :: "string \<Rightarrow> nat \<Rightarrow> fault + string" where
  "strncpy b 0 = Inr []"
| "strncpy [] (Suc n) = Inl Out_Of_Bounds"
| "strncpy (c # b) (Suc n) = (if c = NUL then Inr (replicate (Suc n) NUL)
     else ebind (strncpy b n) (\<lambda>d. Inr (c # d)))"

fun strlen :: "string \<Rightarrow> fault + nat" where
  "strlen [] = Inl Out_Of_Bounds"
| "strlen (c # b) = (if c = NUL then Inr 0 else ebind (strlen b) (\<lambda>n. Inr (Suc n)))"

lemma strlen_cstr: "NUL \<in> set b \<Longrightarrow> strlen b = Inr (length (cstr b))"
  by (induction b) auto

lemma strncmp_eq_iff:
  "readable n a \<Longrightarrow> readable n b \<Longrightarrow> strncmp_eq a b n = Inr (take n (cstr a) = take n (cstr b))"
proof (induction a b n rule: strncmp_eq.induct)
  case (2 c a d b n)
  then show ?case by (cases "c = NUL"; cases "d = NUL"; cases "c = d") auto
qed auto

lemma strncpy_result:
  "readable n b \<Longrightarrow> \<exists>d. strncpy b n = Inr d \<and> length d = n \<and> cstr d = take n (cstr b) \<and> readable n d"
proof (induction b n rule: strncpy.induct)
  case (3 c b n)
  then show ?case by (cases "c = NUL") auto
qed auto

text \<open>\<open>strstr\<close> and \<open>strchr\<close> on the string of a buffer: the index of the first occurrence.\<close>

fun starts_with :: "string \<Rightarrow> string \<Rightarrow> bool" where
  "starts_with [] s \<longleftrightarrow> True"
| "starts_with (c # p) [] \<longleftrightarrow> False"
| "starts_with (c # p) (d # s) \<longleftrightarrow> c = d \<and> starts_with p s"

fun strstr :: "string \<Rightarrow> string \<Rightarrow> nat option" where
  "strstr p [] = (if p = [] then Some 0 else None)"
| "strstr p (c # s) = (if starts_with p (c # s) then Some 0 else map_option Suc (strstr p s))"

fun strchr :: "char \<Rightarrow> string \<Rightarrow> nat option" where
  "strchr c [] = None"
| "strchr c (d # s) = (if c = d then Some 0 else map_option Suc (strchr c s))"

lemma starts_with_append: "starts_with p s \<longleftrightarrow> (\<exists>r. s = p @ r)"
  by (induction p s rule: starts_with.induct) auto

lemma strchr_None [simp]: "strchr c s = None \<longleftrightarrow> c \<notin> set s"
  by (induction s) auto

lemma strchr_take: "strchr c s = Some i \<Longrightarrow> take i s = takeWhile (\<lambda>d. d \<noteq> c) s \<and> i < length s \<and> s ! i = c"
  by (induction s arbitrary: i) (auto split: if_splits)

lemma strstr_Some:
  assumes "strstr p s = Some i"
  shows "\<exists>r. s = take i s @ p @ r \<and> i + length p \<le> length s"
  using assms
proof (induction s arbitrary: i)
  case (Cons c s)
  then show ?case
    by (auto simp: starts_with_append split: if_splits dest: arg_cong [of _ _ length])
qed (auto split: if_splits)

lemma strstr_first: "(\<forall>i < length a. \<not> starts_with p (drop i (a @ p @ r))) \<Longrightarrow> strstr p (a @ p @ r) = Some (length a)"
proof (induction a)
  case Nil
  show ?case by (cases "p @ r"; cases p) (auto simp: starts_with_append)
next
  case (Cons c a)
  have "\<forall>i < length a. \<not> starts_with p (drop i (a @ p @ r))"
    using Cons.prems by (metis Suc_less_eq append_Cons drop_Suc_Cons length_Cons)
  with Cons.IH Cons.prems show ?case by (auto dest: spec [of _ 0])
qed

section \<open>cas\<close>

text \<open>\<open>cas(value, expected, replaceto)\<close>: the result and what \<open>*value\<close> holds afterwards.\<close>

definition cas :: "'c \<Rightarrow> 'c \<Rightarrow> 'c \<Rightarrow> bool \<times> 'c" where
  "cas v expected replaceto = (if v = expected then (True, replaceto) else (False, v))"

section \<open>hashn\<close>

text \<open>
  \<open>int c = *str++\<close> sign-extends a plain (signed) \<open>char\<close>, and \<open>hash + c\<close> converts it to
  \<open>unsigned long\<close>. The condition reads the character before it tests \<open>i < max_size\<close>, and the
  result is cut to \<open>unsigned int\<close>.
\<close>

definition char_int :: "char \<Rightarrow> int" where
  "char_int c = (let n = of_char c in if n < 128 then n else n - 256)"

fun hashn_loop :: "string \<Rightarrow> nat \<Rightarrow> nat \<Rightarrow> 64 word \<Rightarrow> fault + 64 word" where
  "hashn_loop [] max_size i hash = Inl Out_Of_Bounds"
| "hashn_loop (c # str) max_size i hash =
     (if c \<noteq> NUL \<and> i < max_size
      then hashn_loop str max_size (i + 1) (push_bit 5 hash + hash + of_int (char_int c))
      else Inr hash)"

definition hashn :: "string \<Rightarrow> nat \<Rightarrow> fault + 32 word" where
  "hashn str max_size = ebind (hashn_loop str max_size 0 5381) (\<lambda>h. Inr (ucast h))"

text \<open>The function it computes: \<open>h := 33 * h + c\<close> over at most \<open>max_size\<close> characters, modulo \<open>2^32\<close>.\<close>

definition djb2 :: "string \<Rightarrow> int" where
  "djb2 s = foldl (\<lambda>h c. 33 * h + char_int c) 5381 s"

lemma hashn_loop_foldl:
  "readable (Suc (max_size - i)) str \<Longrightarrow> i \<le> max_size \<Longrightarrow>
   hashn_loop str max_size i (of_int h) =
     Inr (of_int (foldl (\<lambda>h c. 33 * h + char_int c) h (take (max_size - i) (cstr str))))"
proof (induction str arbitrary: i h)
  case (Cons c str)
  show ?case
  proof (cases "c \<noteq> NUL \<and> i < max_size")
    case True
    then have e: "max_size - i = Suc (max_size - Suc i)" using Suc_diff_Suc by simp
    have "push_bit 5 (of_int h :: 64 word) + of_int h + of_int (char_int c) = of_int (33 * h + char_int c)"
      by (simp add: push_bit_eq_mult)
    with True Cons.prems Cons.IH [of "Suc i" "33 * h + char_int c"] show ?thesis
      by (simp add: e)
  next
    case False
    then show ?thesis using Cons.prems by auto
  qed
qed simp

lemma word_of_int_take_bit64: "(word_of_int (take_bit 64 x) :: 32 word) = word_of_int x"
  by transfer (simp add: take_bit_take_bit)

lemma hashn_djb2:
  assumes "readable (Suc max_size) str"
  shows "hashn str max_size = Inr (of_int (djb2 (take max_size (cstr str))))"
  using hashn_loop_foldl [of max_size 0 str 5381] assms
  by (simp add: hashn_def djb2_def unsigned_of_int word_of_int_take_bit64)

section \<open>send_data_to_fd\<close>

text \<open>
  \<open>send\<close> is the kernel's: \<open>rs\<close> are the results of its successive calls, \<open>-1\<close> an error, otherwise
  the number of bytes taken from the front of what was offered. The result is the returned status
  and the bytes the peer was sent; \<open>None\<close> means that the answers in \<open>rs\<close> leave the loop running.
\<close>

fun send_loop :: "int list \<Rightarrow> 'b list \<Rightarrow> nat \<Rightarrow> (int \<times> 'b list) option" where
  "send_loop rs data total_sent =
     (if total_sent < length data then
        (case rs of [] \<Rightarrow> None
         | r # rs' \<Rightarrow> if r = -1 then Some (-1, take total_sent data) else send_loop rs' data (total_sent + nat r))
      else Some (if total_sent = length data then 0 else -1, take total_sent data))"

declare send_loop.simps [simp del]

definition send_data_to_fd :: "int list \<Rightarrow> 'b list \<Rightarrow> (int \<times> 'b list) option" where
  "send_data_to_fd rs data = send_loop rs data 0"

text \<open>What POSIX says of a blocking \<open>send\<close> of \<open>m > 0\<close> bytes: an error, or between 1 and \<open>m\<close> bytes.\<close>

fun send_results :: "nat \<Rightarrow> int list \<Rightarrow> bool" where
  "send_results m [] \<longleftrightarrow> True"
| "send_results m (r # rs) \<longleftrightarrow> m = 0 \<or> r = -1 \<or> (1 \<le> r \<and> r \<le> int m \<and> send_results (m - nat r) rs)"

lemma send_loop_result:
  assumes "send_results (length data - sent) rs" "sent \<le> length data" "length data - sent \<le> length rs"
  shows "\<exists>st n. send_loop rs data sent = Some (st, take n data) \<and>
     (st = 0 \<and> n = length data \<or> st = -1 \<and> -1 \<in> set rs \<and> sent \<le> n \<and> n < length data)"
  using assms
proof (induction rs arbitrary: sent)
  case Nil
  then show ?case by (auto simp: send_loop.simps intro: exI [of _ "length data"])
next
  case (Cons r rs)
  show ?case
  proof (cases "sent < length data \<and> r \<noteq> -1")
    case True
    with Cons.prems have r: "1 \<le> r" "r \<le> int (length data - sent)" "send_results (length data - sent - nat r) rs" by auto
    have "\<exists>st n. send_loop rs data (sent + nat r) = Some (st, take n data) \<and>
       (st = 0 \<and> n = length data \<or> st = -1 \<and> -1 \<in> set rs \<and> sent + nat r \<le> n \<and> n < length data)"
    proof (rule Cons.IH)
      show "send_results (length data - (sent + nat r)) rs" using r(3) by (simp add: diff_diff_add)
      show "sent + nat r \<le> length data" "length data - (sent + nat r) \<le> length rs"
        using r(1,2) True Cons.prems(3) by (auto simp: le_nat_iff nat_le_iff of_nat_diff)
    qed
    then obtain st n where "send_loop rs data (sent + nat r) = Some (st, take n data)"
      and "st = 0 \<and> n = length data \<or> st = -1 \<and> -1 \<in> set rs \<and> sent \<le> n \<and> n < length data" by force
    then show ?thesis using True by (intro exI [of _ st] exI [of _ n]) (auto simp: send_loop.simps [of "x # xs" for x xs])
  next
    case False
    show ?thesis
    proof (cases "sent < length data")
      case True
      with False have "send_loop (r # rs) data sent = Some (-1, take sent data)" by (simp add: send_loop.simps [of "x # xs" for x xs])
      with True False show ?thesis by (intro exI [of _ "-1"] exI [of _ sent]) auto
    qed (use Cons.prems(2) in \<open>simp add: send_loop.simps [of "x # xs" for x xs]\<close>)
  qed
qed

section \<open>parse_host\<close>

text \<open>
  The argument is the string of \<open>url\<close>, the result the string of the block that is allocated, or
  \<open>None\<close> (\<open>NULL\<close>) when \<open>malloc\<close> fails.
\<close>

definition parse_host :: "bool \<Rightarrow> string \<Rightarrow> string option" where
  "parse_host malloc_succeeds url =
     (let host_start = (case strstr ''://'' url of Some i \<Rightarrow> drop (i + 3) url | None \<Rightarrow> url);
          host_length = (case strchr CHR ''/'' host_start of Some i \<Rightarrow> i | None \<Rightarrow> length host_start)
      in if \<not> malloc_succeeds then None else Some (take host_length host_start))"

lemma parse_host_takeWhile:
  "parse_host True url = Some (takeWhile (\<lambda>c. c \<noteq> CHR ''/'') (case strstr ''://'' url of Some i \<Rightarrow> drop (i + 3) url | None \<Rightarrow> url))"
proof -
  have "take (case strchr CHR ''/'' s of Some i \<Rightarrow> i | None \<Rightarrow> length s) s = takeWhile (\<lambda>c. c \<noteq> CHR ''/'') s" for s
    proof (cases "strchr CHR ''/'' s")
    case None
    then have "\<forall>c \<in> set s. c \<noteq> CHR ''/''" by auto
    then have "takeWhile (\<lambda>c. c \<noteq> CHR ''/'') s = s" by (simp add: takeWhile_eq_all_conv)
    then show ?thesis unfolding None by (simp del: takeWhile_eq_all_conv)
  qed (simp add: strchr_take)
  then show ?thesis by (simp add: parse_host_def Let_def)
qed

lemma strstr_scheme: "CHR '':'' \<notin> set a \<Longrightarrow> strstr ''://'' (a @ ''://'' @ r) = Some (length a)"
proof (rule strstr_first, intro allI impI notI)
  fix i assume "CHR '':'' \<notin> set a" "i < length a" "starts_with ''://'' (drop i (a @ ''://'' @ r))"
  then have "drop i a \<noteq> []" "hd (drop i a) = CHR '':''" by (auto simp: starts_with_append append_eq_Cons_conv)
  then have "CHR '':'' \<in> set (drop i a)" by (metis hd_in_set)
  with \<open>CHR '':'' \<notin> set a\<close> show False by (meson in_set_dropD)
qed

section \<open>Properties\<close>

text \<open>C28: On every buffer it can read, \<open>hashn\<close> computes the djb2 hash \<open>h * 33 + c\<close> of the first
  \<open>max_size\<close> characters of the string, modulo \<open>2^32\<close>, characters above 127 counting as negative.\<close>

theorem hashn_is_djb2:
  assumes "readable (Suc max_size) str"
  shows "hashn str max_size = Inr (of_int (djb2 (take max_size (cstr str))))"
  using assms by (rule hashn_djb2)

theorem hashn_is_djb2_witness: "hashn [CHR ''a'', CHR 0xE9, NUL] 512 = Inr 5863087"
  using hashn_is_djb2 [of 512 "[CHR ''a'', CHR 0xE9, NUL]"]
  by (simp add: readable_def djb2_def char_int_def NUL_def cstr_def)

text \<open>C36: Whatever the partial writes of \<open>send\<close> (\<open>send_results\<close>: each call answers with an error or with
  between 1 and the remaining number of bytes), \<open>send_data_to_fd\<close> returns after at most as many calls as
  there are bytes; it returns 0 exactly when all the bytes went out, in order and once each, and on
  an error what went out is a proper prefix.\<close>

theorem send_data_complete:
  assumes "send_results (length data) rs" "length data \<le> length rs"
  shows "\<exists>st n. send_data_to_fd rs data = Some (st, take n data) \<and>
     (st = 0 \<and> take n data = data \<or> st = -1 \<and> -1 \<in> set rs \<and> n < length data)"
  using send_loop_result [of data 0 rs] assms unfolding send_data_to_fd_def by fastforce

theorem send_data_complete_witness:
  "send_data_to_fd [2, 1, 1, 1, 1] ''abcde'' = Some (0, ''abcde'')"
  using send_data_complete [of "''abcde''" "[2, 1, 1, 1, 1]"]
  by (simp add: send_data_to_fd_def send_loop.simps)

text \<open>For a URL with or without a scheme, \<open>parse_host\<close> returns what stands between \<open>://\<close> and the
  next slash (or the end), port included.\<close>

theorem parse_host_correct:
  assumes "CHR '':'' \<notin> set scheme" "CHR ''/'' \<notin> set host" "rest = [] \<or> hd rest = CHR ''/''"
  shows "parse_host True (scheme @ ''://'' @ host @ rest) = Some host \<and>
    (strstr ''://'' (host @ rest) = None \<longrightarrow> parse_host True (host @ rest) = Some host)"
proof -
  have "takeWhile (\<lambda>c. c \<noteq> CHR ''/'') (host @ rest) = host"
    using assms(2,3) by (cases rest) (auto simp: takeWhile_append takeWhile_eq_all_conv)
  then show ?thesis using strstr_scheme [OF assms(1), of "host @ rest"] by (simp_all add: parse_host_takeWhile)
qed

theorem parse_host_correct_witness:
  "parse_host True ''http://nsu.ru:80/a'' = Some ''nsu.ru:80'' \<and> parse_host True ''nsu.ru/a'' = Some ''nsu.ru''"
  using parse_host_correct [of "''http''" "''nsu.ru:80''" "''/a''"] parse_host_correct [of "[]" "''nsu.ru''" "''/a''"]
  by simp_all

end
