(* ===== verification/Linked_List.thy ===== *)
theory Linked_List
  imports Common
begin

text \<open>
  The list of \<open>lab2/src/3\<close>: \<open>list/list.c\<close>, the wrapper of the three kinds of locks in \<open>lock/lock.c\<close>, and
  the part of \<open>main.c\<close> that builds the list. The lock of a node is kept beside the heap of nodes, in
  the system of threads (theory \<open>Swap_Routine\<close>).
\<close>

section \<open>Locks\<close>

text \<open>The lock is chosen when the program is compiled.\<close>

datatype lock_kind = USE_SPINLOCK | USE_MUTEX | USE_RWLOCK

record custom_lock =
  lk_writer :: "nat option"
  lk_readers :: "nat list"

definition lock_init :: custom_lock where
  "lock_init = \<lparr>lk_writer = None, lk_readers = []\<rparr>"

text \<open>An attempt of thread \<open>t\<close>: \<open>None\<close> as long as it has to wait.\<close>

definition write_lock :: "nat \<Rightarrow> custom_lock \<Rightarrow> custom_lock option" where
  "write_lock t lk = (if lk_writer lk = None \<and> lk_readers lk = [] then Some (lk\<lparr>lk_writer := Some t\<rparr>) else None)"

definition read_lock :: "lock_kind \<Rightarrow> nat \<Rightarrow> custom_lock \<Rightarrow> custom_lock option" where
  "read_lock k t lk = (case k of
     USE_SPINLOCK \<Rightarrow> write_lock t lk
   | USE_MUTEX \<Rightarrow> write_lock t lk
   | USE_RWLOCK \<Rightarrow> if lk_writer lk = None then Some (lk\<lparr>lk_readers := t # lk_readers lk\<rparr>) else None)"

definition unlock :: "nat \<Rightarrow> custom_lock \<Rightarrow> custom_lock" where
  "unlock t lk = (if lk_writer lk = Some t then lk\<lparr>lk_writer := None\<rparr> else lk\<lparr>lk_readers := remove1 t (lk_readers lk)\<rparr>)"

section \<open>Nodes\<close>

record lnode =
  ln_next :: ptr
  ln_val :: string

definition MAX_STRING_LENGTH :: nat where "MAX_STRING_LENGTH = 100"

text \<open>\<open>create_node\<close>: the result of \<open>malloc\<close> is not tested before \<open>strncpy\<close> writes through it.\<close>

definition create_node :: "string \<Rightarrow> ptr \<Rightarrow> (addr \<rightharpoonup> lnode) \<Rightarrow> fault + (addr \<times> (addr \<rightharpoonup> lnode))" where
  "create_node val new h = (case new of None \<Rightarrow> Inl Null_Deref
     | Some a \<Rightarrow> ebind (strncpy val MAX_STRING_LENGTH) (\<lambda>d. Inr (a, h(a \<mapsto> \<lparr>ln_next = None, ln_val = d\<rparr>))))"

text \<open>\<open>linked_list_destroy\<close>: the loop and the last \<open>free\<close>. \<open>None\<close>: the loop does not end.\<close>

partial_function (option) linked_list_destroy :: "(addr \<rightharpoonup> lnode) \<Rightarrow> ptr \<Rightarrow> (fault + (addr \<rightharpoonup> lnode)) option" where
  "linked_list_destroy h cur = (case load h cur of Inl e \<Rightarrow> Some (Inl e)
     | Inr n \<Rightarrow> (if ln_next n \<noteq> None
         then (case release h cur of Inl e \<Rightarrow> Some (Inl e) | Inr h' \<Rightarrow> linked_list_destroy h' (ln_next n))
         else Some (release h cur)))"

text \<open>
  Building the list in \<open>main\<close>: the buffer holds \<open>k\<close> letters and zeros, \<open>k\<close> being
  \<open>rand() % (MAX_STRING_LENGTH - 1)\<close>; each element of the list argument is a \<open>k\<close> with the answer of
  \<open>malloc\<close>. Every new node is linked behind the last one.
\<close>

definition main_val :: "nat \<Rightarrow> string" where
  "main_val k = (let n = k mod (MAX_STRING_LENGTH - 1) in replicate n CHR ''x'' @ replicate (MAX_STRING_LENGTH - n) NUL)"

fun main_nodes :: "(nat \<times> ptr) list \<Rightarrow> addr \<Rightarrow> (addr \<rightharpoonup> lnode) \<Rightarrow> fault + (addr \<rightharpoonup> lnode)" where
  "main_nodes [] lst h = Inr h"
| "main_nodes ((k, new) # ks) lst h =
     ebind (create_node (main_val k) new h) (\<lambda>(a, h).
     ebind (store h (Some lst) (ln_next_update (\<lambda>_. Some a))) (\<lambda>h. main_nodes ks a h))"

definition main_list :: "(nat \<times> ptr) list \<Rightarrow> fault + (ptr \<times> (addr \<rightharpoonup> lnode))" where
  "main_list ks = (case ks of [] \<Rightarrow> Inl Null_Deref
     | (k, new) # ks \<Rightarrow> ebind (create_node (main_val k) new Map.empty) (\<lambda>(a, h).
         ebind (main_nodes ks a h) (\<lambda>h. Inr (Some a, h))))"

section \<open>Correctness\<close>

text \<open>The list as the rest of the development uses it: a chain of all nodes, all strings terminated.\<close>

definition list_ok :: "(addr \<rightharpoonup> lnode) \<Rightarrow> ptr \<Rightarrow> addr list \<Rightarrow> bool" where
  "list_ok h p as \<longleftrightarrow> path ln_next h p as None \<and> dom h = set as \<and> (\<forall>n \<in> ran h. NUL \<in> set (ln_val n))"

lemma main_val_node:
  "\<exists>d. strncpy (main_val k) MAX_STRING_LENGTH = Inr d \<and> NUL \<in> set d \<and> cstr d = replicate (k mod 99) CHR ''x''"
proof -
  let ?n = "k mod 99"
  have n: "?n < 99" by simp
  have x: "CHR ''x'' \<noteq> NUL" by (simp add: NUL_def)
  have l: "length (main_val k) = 100" using n by (simp add: main_val_def MAX_STRING_LENGTH_def Let_def)
  then have "readable 100 (main_val k)" by (simp add: readable_def)
  from strncpy_result [OF this] obtain d where d: "strncpy (main_val k) 100 = Inr d" "length d = 100"
    "cstr d = take 100 (cstr (main_val k))" by blast
  have "cstr (replicate m CHR ''x'' @ replicate j NUL) = replicate m CHR ''x''" for m j
    using x by (induction m) (cases j; simp)+
  then have c: "cstr d = replicate ?n CHR ''x''" using d(3) n by (simp add: main_val_def MAX_STRING_LENGTH_def Let_def)
  have "NUL \<in> set d"
  proof (rule ccontr)
    assume "NUL \<notin> set d"
    then have "cstr d = d" by (rule cstr_id)
    then have "length d = ?n" using c by (metis length_replicate)
    with d(2) n show False by linarith
  qed
  with d c show ?thesis by (auto simp: MAX_STRING_LENGTH_def)
qed

lemma main_nodes_ok:
  assumes "list_ok h p as" and "as \<noteq> []" and "last as = l" and "\<forall>x \<in> set ks. \<exists>a. snd x = Some a"
    and "distinct (map (\<lambda>x. the (snd x)) ks)" and "set (map (\<lambda>x. the (snd x)) ks) \<inter> set as = {}"
  shows "\<exists>h'. main_nodes ks l h = Inr h' \<and> list_ok h' p (as @ map (\<lambda>x. the (snd x)) ks)"
  using assms
proof (induction ks arbitrary: h as l)
  case Nil
  then show ?case by simp
next
  case (Cons x ks)
  obtain k a where x: "x = (k, Some a)" using Cons.prems(4) by (cases x) auto
  obtain d where d: "strncpy (main_val k) MAX_STRING_LENGTH = Inr d" "NUL \<in> set d" using main_val_node by blast
  have a: "a \<notin> set as" using Cons.prems(6) x by auto
  from Cons.prems(1) have p: "path ln_next h p as None" and dm: "dom h = set as"
    and v: "\<And>n. n \<in> ran h \<Longrightarrow> NUL \<in> set (ln_val n)" by (auto simp: list_ok_def)
  obtain n where n: "h l = Some n" using path_last [OF p Cons.prems(2)] Cons.prems(3) by auto
  have la: "l \<noteq> a" using a Cons.prems(2,3) last_in_set by metis
  let ?m = "\<lparr>ln_next = None, ln_val = d\<rparr>"
  let ?h = "h(l \<mapsto> n\<lparr>ln_next := Some a\<rparr>, a \<mapsto> ?m)"
  have "path ln_next ?h p (as @ [a]) None"
    using path_link_last [OF p Cons.prems(2) a, of "n\<lparr>ln_next := Some a\<rparr>" ?m] Cons.prems(3) by simp
  moreover have "dom ?h = set (as @ [a])" using dm n by auto
  moreover have "NUL \<in> set (ln_val n')" if "n' \<in> ran ?h" for n'
  proof -
    from that obtain b where "?h b = Some n'" by (auto simp: ran_def)
    moreover have "NUL \<in> set (ln_val n)" using v n by (meson ranI)
    moreover have "NUL \<in> set (ln_val n')" if "h b = Some n'" using v that by (meson ranI)
    ultimately show ?thesis using d(2) by (auto split: if_splits)
  qed
  ultimately have ok: "list_ok ?h p (as @ [a])" by (simp add: list_ok_def)
  have "\<exists>h'. main_nodes ks a ?h = Inr h' \<and> list_ok h' p ((as @ [a]) @ map (\<lambda>x. the (snd x)) ks)"
    using Cons.prems(4-6) x by (intro Cons.IH [OF ok]) auto
  moreover have "main_nodes (x # ks) l h = main_nodes ks a ?h"
    using x d(1) n la by (simp add: create_node_def fun_upd_twist)
  ultimately show ?case using x by simp
qed

lemma main_list_ok:
  assumes "ks \<noteq> []" and "\<forall>x \<in> set ks. \<exists>a. snd x = Some a" and "distinct (map (\<lambda>x. the (snd x)) ks)"
  shows "\<exists>p h. main_list ks = Inr (p, h) \<and> list_ok h p (map (\<lambda>x. the (snd x)) ks)"
proof -
  from assms obtain k a ls where ks: "ks = (k, Some a) # ls" by (cases ks) auto
  obtain d where d: "strncpy (main_val k) MAX_STRING_LENGTH = Inr d" "NUL \<in> set d" using main_val_node by blast
  let ?h = "[a \<mapsto> \<lparr>ln_next = None, ln_val = d\<rparr>]"
  have "list_ok ?h (Some a) [a]" using d(2) by (auto simp: list_ok_def ran_def)
  from main_nodes_ok [OF this, of a ls] assms(2,3) ks obtain h where
    "main_nodes ls a ?h = Inr h" "list_ok h (Some a) ([a] @ map (\<lambda>x. the (snd x)) ls)" by auto
  with ks d(1) show ?thesis by (simp add: main_list_def create_node_def)
qed

lemma linked_list_destroy_path:
  assumes "path ln_next h p as None" and "as \<noteq> []"
  shows "linked_list_destroy h p = Some (Inr (h |` (- set as)))"
  using assms path_distinct [OF assms(1)]
proof (induction as arbitrary: h p)
  case (Cons a as)
  then obtain n where p: "p = Some a" and n: "h a = Some n" and tl: "path ln_next h (ln_next n) as None"
    and a: "a \<notin> set as" and d: "distinct as" by auto
  show ?case
  proof (cases "as = []")
    case True
    with tl n p show ?thesis by (auto simp: linked_list_destroy.simps restrict_map_def)
  next
    case False
    then have nn: "ln_next n \<noteq> None" using tl by (cases as) auto
    have "path ln_next (h(a := None)) (ln_next n) as None" by (rule path_upd [THEN iffD2, OF a tl])
    from Cons.IH [OF this False d] have "linked_list_destroy (h(a := None)) (ln_next n) = Some (Inr ((h(a := None)) |` (- set as)))" .
    moreover have "(h(a := None)) |` (- set as) = h |` (- set (a # as))" by (auto simp: restrict_map_def)
    ultimately show ?thesis using nn by (simp add: p n linked_list_destroy.simps [of h])
  qed
qed simp

end
