(* ===== verification/Swap_Routine.thy ===== *)
theory Swap_Routine
  imports Linked_List "HOL-Library.Multiset"
begin

text \<open>
  The threads of \<open>lab2/src/3/routine/routine.c\<close>: \<open>swap_routine\<close> exchanges neighbours of the list, the
  three compare routines count neighbours, all of them walking hand over hand: the next node is locked
  before the previous one is unlocked. The system runs any number of threads of both kinds, with any of
  the three locks; every lock, unlock and access to a node is one step. \<open>swap_count\<close> and \<open>swap_iter\<close> are
  shared by several threads and their increments are a load and a store; the counters of a compare
  routine belong to one thread.
\<close>

section \<open>Threads\<close>

datatype compare_type = ASC | DESC | EQ

text \<open>Control points with the values of the locals \<open>prev\<close>, \<open>cur\<close>, \<open>next\<close>, \<open>size\<close>.\<close>

datatype wthread =
    W_Test                        \<comment> \<open>\<open>while (!ll->stop)\<close>\<close>
  | W_First                       \<comment> \<open>\<open>write_lock(&ll->first->lock)\<close>\<close>
  | W_Loop addr                   \<comment> \<open>\<open>while (prev->next != NULL)\<close>\<close>
  | W_Dice addr                   \<comment> \<open>\<open>if (!__needs_swap())\<close> and \<open>cur = prev->next\<close>\<close>
  | W_Move addr addr              \<comment> \<open>\<open>write_lock(&cur->lock)\<close>, no exchange\<close>
  | W_Pass addr addr              \<comment> \<open>\<open>unlock(&prev->lock); prev = cur\<close>\<close>
  | W_Cur addr addr               \<comment> \<open>\<open>write_lock(&cur->lock)\<close>, exchange\<close>
  | W_Next addr addr              \<comment> \<open>\<open>next = cur->next\<close> and its test\<close>
  | W_Back addr addr              \<comment> \<open>\<open>unlock(&cur->lock); break\<close>\<close>
  | W_Third addr addr addr        \<comment> \<open>\<open>write_lock(&next->lock)\<close>\<close>
  | W_Link_Prev addr addr addr    \<comment> \<open>\<open>prev->next = next\<close>\<close>
  | W_Free_Prev addr addr addr    \<comment> \<open>\<open>unlock(&prev->lock)\<close>\<close>
  | W_Link_Cur addr addr          \<comment> \<open>\<open>cur->next = next->next\<close>\<close>
  | W_Free_Cur addr addr          \<comment> \<open>\<open>unlock(&cur->lock)\<close>\<close>
  | W_Link_Next addr addr         \<comment> \<open>\<open>next->next = cur\<close>\<close>
  | W_Load addr                   \<comment> \<open>\<open>swap_count++\<close>, the load\<close>
  | W_Store addr int              \<comment> \<open>\<open>swap_count++\<close>, the store; \<open>prev = next\<close>\<close>
  | W_End addr                    \<comment> \<open>\<open>unlock(&prev->lock)\<close>\<close>
  | W_Iter                        \<comment> \<open>\<open>swap_iter++\<close>, the load\<close>
  | W_Iter_Store int              \<comment> \<open>\<open>swap_iter++\<close>, the store\<close>
  | R_Test compare_type
  | R_First compare_type          \<comment> \<open>\<open>read_lock(&ll->first->lock)\<close>\<close>
  | R_Loop compare_type addr      \<comment> \<open>\<open>while (prev->next != NULL)\<close>\<close>
  | R_Size compare_type addr      \<comment> \<open>\<open>cur = prev->next; size = strnlen(prev->val, ...)\<close>\<close>
  | R_Lock compare_type addr addr nat   \<comment> \<open>\<open>read_lock(&cur->lock)\<close>\<close>
  | R_Pass compare_type addr addr nat   \<comment> \<open>\<open>unlock(&prev->lock)\<close>\<close>
  | R_Compare compare_type addr nat     \<comment> \<open>the \<open>switch\<close>; \<open>prev = cur\<close>\<close>
  | R_End compare_type addr       \<comment> \<open>\<open>unlock(&prev->lock)\<close>\<close>
  | R_Iter compare_type           \<comment> \<open>\<open>(*iter)++\<close>\<close>
  | W_Exit

text \<open>
  Ghosts: \<open>w_list\<close> is the order of the nodes, changed at the moment \<open>prev->next\<close> is redirected;
  \<open>w_pos t\<close> is the number of comparisons that thread \<open>t\<close> made in the pass it is in.
\<close>

record wsys =
  w_heap :: "addr \<rightharpoonup> lnode"
  w_first :: ptr
  w_stop :: bool
  w_lock :: "addr \<Rightarrow> custom_lock"
  w_thr :: "nat \<Rightarrow> wthread"
  w_swap_count :: int
  w_swap_iter :: int
  w_count :: "compare_type \<Rightarrow> int"
  w_iter :: "compare_type \<Rightarrow> int"
  w_list :: "addr list"
  w_pos :: "nat \<Rightarrow> nat"
  w_fault :: "fault option"

definition wgoto :: "nat \<Rightarrow> wthread \<Rightarrow> wsys \<Rightarrow> wsys" where
  "wgoto t c s = s\<lparr>w_thr := (w_thr s)(t := c)\<rparr>"

definition wfault :: "fault \<Rightarrow> wsys \<Rightarrow> wsys" where
  "wfault e s = s\<lparr>w_fault := Some e\<rparr>"

text \<open>Taking the lock of a node and going on at \<open>c\<close>; \<open>None\<close> while the lock is not to be had.\<close>

definition w_acquire :: "(custom_lock \<Rightarrow> custom_lock option) \<Rightarrow> nat \<Rightarrow> ptr \<Rightarrow> wthread \<Rightarrow> wsys \<Rightarrow> wsys option" where
  "w_acquire try_lock t p c s = (case load (w_heap s) p of Inl e \<Rightarrow> Some (wfault e s)
     | Inr n \<Rightarrow> (case try_lock (w_lock s (the p)) of None \<Rightarrow> None
         | Some lk \<Rightarrow> Some (wgoto t c (s\<lparr>w_lock := (w_lock s)(the p := lk)\<rparr>))))"

definition w_release :: "nat \<Rightarrow> addr \<Rightarrow> wthread \<Rightarrow> wsys \<Rightarrow> wsys" where
  "w_release t a c s = (case load (w_heap s) (Some a) of Inl e \<Rightarrow> wfault e s
     | Inr n \<Rightarrow> wgoto t c (s\<lparr>w_lock := (w_lock s)(a := unlock t (w_lock s a))\<rparr>))"

definition w_read :: "addr \<Rightarrow> (lnode \<Rightarrow> wsys) \<Rightarrow> wsys \<Rightarrow> wsys" where
  "w_read a f s = (case load (w_heap s) (Some a) of Inl e \<Rightarrow> wfault e s | Inr n \<Rightarrow> f n)"

definition w_set_next :: "nat \<Rightarrow> addr \<Rightarrow> ptr \<Rightarrow> wthread \<Rightarrow> wsys \<Rightarrow> wsys" where
  "w_set_next t a p c s = (case store (w_heap s) (Some a) (ln_next_update (\<lambda>_. p)) of Inl e \<Rightarrow> wfault e s
     | Inr h \<Rightarrow> wgoto t c (s\<lparr>w_heap := h\<rparr>))"

text \<open>The exchange in the ghost list: the two nodes behind \<open>p\<close> change places.\<close>

fun swap_after :: "addr \<Rightarrow> addr list \<Rightarrow> addr list" where
  "swap_after p (a # c # n # ys) = (if a = p then a # n # c # ys else a # swap_after p (c # n # ys))"
| "swap_after p xs = xs"

definition wins :: "compare_type \<Rightarrow> nat \<Rightarrow> nat \<Rightarrow> bool" where
  "wins ty sz len = (case ty of ASC \<Rightarrow> sz < len | DESC \<Rightarrow> sz > len | EQ \<Rightarrow> sz = len)"

definition strnlen :: "string \<Rightarrow> nat \<Rightarrow> fault + nat" where
  "strnlen b n = (if NUL \<in> set (take n b) then Inr (length (cstr b)) else if n \<le> length b then Inr n else Inl Out_Of_Bounds)"

text \<open>
  The next step of thread \<open>t\<close> in the build with lock \<open>k\<close>; \<open>dice\<close> is the answer of \<open>__needs_swap\<close>.
  \<open>None\<close>: the thread waits for a lock, or it has ended.
\<close>

definition w_move :: "lock_kind \<Rightarrow> bool \<Rightarrow> nat \<Rightarrow> wsys \<Rightarrow> wsys option" where
  "w_move k dice t s = (case w_thr s t of
     W_Test \<Rightarrow> Some (wgoto t (if w_stop s then W_Exit else W_First) s)
   | W_First \<Rightarrow> w_acquire (write_lock t) t (w_first s) (W_Loop (the (w_first s))) s
   | W_Loop p \<Rightarrow> Some (w_read p (\<lambda>n. wgoto t (if ln_next n = None then W_End p else W_Dice p) s) s)
   | W_Dice p \<Rightarrow> Some (w_read p (\<lambda>n. case ln_next n of None \<Rightarrow> wfault Null_Deref s
       | Some c \<Rightarrow> wgoto t (if dice then W_Cur p c else W_Move p c) s) s)
   | W_Move p c \<Rightarrow> w_acquire (write_lock t) t (Some c) (W_Pass p c) s
   | W_Pass p c \<Rightarrow> Some (w_release t p (W_Loop c) s)
   | W_Cur p c \<Rightarrow> w_acquire (write_lock t) t (Some c) (W_Next p c) s
   | W_Next p c \<Rightarrow> Some (w_read c (\<lambda>n. wgoto t (case ln_next n of None \<Rightarrow> W_Back p c | Some x \<Rightarrow> W_Third p c x) s) s)
   | W_Back p c \<Rightarrow> Some (w_release t c (W_End p) s)
   | W_Third p c x \<Rightarrow> w_acquire (write_lock t) t (Some x) (W_Link_Prev p c x) s
   | W_Link_Prev p c x \<Rightarrow> Some (w_set_next t p (Some x) (W_Free_Prev p c x) (s\<lparr>w_list := swap_after p (w_list s)\<rparr>))
   | W_Free_Prev p c x \<Rightarrow> Some (w_release t p (W_Link_Cur c x) s)
   | W_Link_Cur c x \<Rightarrow> Some (w_read x (\<lambda>n. w_set_next t c (ln_next n) (W_Free_Cur c x) s) s)
   | W_Free_Cur c x \<Rightarrow> Some (w_release t c (W_Link_Next c x) s)
   | W_Link_Next c x \<Rightarrow> Some (w_set_next t x (Some c) (W_Load x) s)
   | W_Load x \<Rightarrow> Some (wgoto t (W_Store x (w_swap_count s)) s)
   | W_Store x i \<Rightarrow> Some (wgoto t (W_Loop x) (s\<lparr>w_swap_count := i + 1\<rparr>))
   | W_End p \<Rightarrow> Some (w_release t p W_Iter s)
   | W_Iter \<Rightarrow> Some (wgoto t (W_Iter_Store (w_swap_iter s)) s)
   | W_Iter_Store i \<Rightarrow> Some (wgoto t W_Test (s\<lparr>w_swap_iter := i + 1\<rparr>))
   | R_Test ty \<Rightarrow> Some (wgoto t (if w_stop s then W_Exit else R_First ty) s)
   | R_First ty \<Rightarrow> w_acquire (read_lock k t) t (w_first s) (R_Loop ty (the (w_first s))) (s\<lparr>w_pos := (w_pos s)(t := 0)\<rparr>)
   | R_Loop ty p \<Rightarrow> Some (w_read p (\<lambda>n. wgoto t (if ln_next n = None then R_End ty p else R_Size ty p) s) s)
   | R_Size ty p \<Rightarrow> Some (w_read p (\<lambda>n. case ln_next n of None \<Rightarrow> wfault Null_Deref s
       | Some c \<Rightarrow> (case strnlen (ln_val n) MAX_STRING_LENGTH of Inl e \<Rightarrow> wfault e s
           | Inr sz \<Rightarrow> wgoto t (R_Lock ty p c sz) s)) s)
   | R_Lock ty p c sz \<Rightarrow> w_acquire (read_lock k t) t (Some c) (R_Pass ty p c sz) s
   | R_Pass ty p c sz \<Rightarrow> Some (w_release t p (R_Compare ty c sz) (s\<lparr>w_pos := (w_pos s)(t := w_pos s t + 1)\<rparr>))
   | R_Compare ty c sz \<Rightarrow> Some (w_read c (\<lambda>n. case strlen (ln_val n) of Inl e \<Rightarrow> wfault e s
       | Inr len \<Rightarrow> wgoto t (R_Loop ty c)
           (if wins ty sz len then s\<lparr>w_count := (w_count s)(ty := w_count s ty + 1)\<rparr> else s)) s)
   | R_End ty p \<Rightarrow> Some (w_release t p (R_Iter ty) s)
   | R_Iter ty \<Rightarrow> Some (wgoto t (R_Test ty) (s\<lparr>w_iter := (w_iter s)(ty := w_iter s ty + 1)\<rparr>))
   | W_Exit \<Rightarrow> None)"

inductive w_step :: "lock_kind \<Rightarrow> nat \<Rightarrow> wsys \<Rightarrow> wsys \<Rightarrow> bool" for k n where
  w_next: "w_fault s = None \<Longrightarrow> t < n \<Longrightarrow> w_move k dice t s = Some s' \<Longrightarrow> w_step k n s s'"
| w_halt: "w_fault s = None \<Longrightarrow> w_step k n s (s\<lparr>w_stop := True\<rparr>)"

inductive_cases w_stepE: "w_step k n s s'"

text \<open>The start: \<open>starts\<close> lists the routines that \<open>main\<close> passes to \<open>pthread_create\<close>.\<close>

definition w_init :: "wthread list \<Rightarrow> ptr \<Rightarrow> (addr \<rightharpoonup> lnode) \<Rightarrow> addr list \<Rightarrow> wsys" where
  "w_init starts p h as = \<lparr>w_heap = h, w_first = p, w_stop = False, w_lock = (\<lambda>_. lock_init),
     w_thr = (\<lambda>t. if t < length starts then starts ! t else W_Exit), w_swap_count = 0, w_swap_iter = 0,
     w_count = (\<lambda>_. 0), w_iter = (\<lambda>_. 0), w_list = as, w_pos = (\<lambda>_. 0), w_fault = None\<rparr>"

text \<open>Runs given as lists of the threads that move, with the answers of \<open>__needs_swap\<close>.\<close>

fun w_run :: "lock_kind \<Rightarrow> nat \<Rightarrow> (nat \<times> bool) list \<Rightarrow> wsys \<Rightarrow> wsys option" where
  "w_run k n [] s = Some s"
| "w_run k n ((t, dice) # es) s = (if w_fault s = None \<and> t < n then Option.bind (w_move k dice t s) (w_run k n es) else None)"

lemma w_run_reach: "w_run k n es s = Some s' \<Longrightarrow> reach (w_step k n) s s'"
proof (induction k n es s rule: w_run.induct)
  case (2 k n t dice es s)
  then obtain u where u: "w_fault s = None" "t < n" "w_move k dice t s = Some u" "w_run k n es u = Some s'"
    by (auto split: if_splits Option.bind_splits)
  have "reach (w_step k n) s u" using w_next [OF u(1-3)] by (rule reach_single)
  moreover have "reach (w_step k n) u s'" using 2 u by auto
  ultimately show ?case by (rule reach_trans [rotated])
qed (simp add: reach_refl)

text \<open>The routines of \<open>main\<close>; \<open>print_routine\<close>, which only reads the counters, is left out.\<close>

definition main_routines :: "wthread list" where
  "main_routines = [R_Test ASC, R_Test DESC, R_Test EQ, W_Test, W_Test, W_Test]"


section \<open>Neighbours in a list\<close>

fun succ_of :: "'a list \<Rightarrow> 'a \<Rightarrow> 'a option" where
  "succ_of (x # y # zs) a = (if a = x then Some y else succ_of (y # zs) a)"
| "succ_of xs a = None"

lemma succ_of_append: "a \<notin> set xs \<Longrightarrow> succ_of (xs @ a # ys) a = (case ys of [] \<Rightarrow> None | y # zs \<Rightarrow> Some y)"
proof (induction xs)
  case Nil
  then show ?case by (cases ys) simp_all
next
  case (Cons x xs)
  then show ?case by (cases xs) auto
qed

lemma succ_of_split:
  assumes "succ_of xs a = Some b"
  shows "\<exists>ys zs. xs = ys @ a # b # zs"
  using assms
proof (induction xs a rule: succ_of.induct)
  case (1 x y zs a)
  show ?case
  proof (cases "a = x")
    case True
    with 1 have "x # y # zs = [] @ a # b # zs" by simp
    then show ?thesis by blast
  next
    case False
    with 1 obtain us vs where "y # zs = us @ a # b # vs" by auto
    then have "x # y # zs = (x # us) @ a # b # vs" by simp
    then show ?thesis by blast
  qed
qed simp_all

lemma succ_of_set: "succ_of xs a = Some b \<Longrightarrow> a \<in> set xs \<and> b \<in> set xs"
  by (auto dest: succ_of_split)

lemma succ_of_nth:
  assumes "distinct xs" and "i < length xs"
  shows "succ_of xs (xs ! i) = (if Suc i < length xs then Some (xs ! Suc i) else None)"
proof -
  have xs: "xs = take i xs @ xs ! i # drop (Suc i) xs" using assms(2) by (simp add: id_take_nth_drop)
  have "xs ! i \<notin> set (take i xs)"
    using assms by (auto simp: in_set_conv_nth nth_eq_iff_index_eq)
  then have "succ_of (take i xs @ xs ! i # drop (Suc i) xs) (xs ! i) = (case drop (Suc i) xs of [] \<Rightarrow> None | y # zs \<Rightarrow> Some y)"
    by (rule succ_of_append)
  with xs show ?thesis by (cases "Suc i < length xs") (simp_all add: Cons_nth_drop_Suc [symmetric])
qed

lemma succ_of_irrefl: "distinct xs \<Longrightarrow> succ_of xs a = Some b \<Longrightarrow> a \<noteq> b"
  by (auto dest: succ_of_split)

lemma path_succ_of:
  assumes "distinct xs" and "xs \<noteq> []"
    and "\<forall>a \<in> set xs. \<exists>n. h a = Some n \<and> nx n = succ_of xs a"
  shows "path nx h (Some (hd xs)) xs None"
  using assms
proof (induction xs)
  case (Cons x xs)
  show ?case
  proof (cases xs)
    case Nil
    with Cons.prems show ?thesis by auto
  next
    case (Cons y zs)
    have "path nx h (Some (hd xs)) xs None"
    proof (rule Cons.IH)
      show "\<forall>a \<in> set xs. \<exists>n. h a = Some n \<and> nx n = succ_of xs a"
        using Cons.prems \<open>xs = y # zs\<close> by (metis distinct.simps(2) list.set_intros(2) succ_of.simps(1))
    qed (use Cons.prems \<open>xs = y # zs\<close> in simp_all)
    with Cons.prems \<open>xs = y # zs\<close> show ?thesis by auto
  qed
qed simp

lemma path_succ_of_iff:
  assumes "path nx h p xs None"
  shows "\<forall>a \<in> set xs. \<exists>n. h a = Some n \<and> nx n = succ_of xs a"
  using assms path_distinct [OF assms]
proof (induction xs arbitrary: p)
  case (Cons x xs)
  then obtain n where n: "h x = Some n" "path nx h (nx n) xs None" by auto
  with Cons have IH: "\<forall>a \<in> set xs. \<exists>n. h a = Some n \<and> nx n = succ_of xs a" by simp
  show ?case
  proof (cases xs)
    case (Cons y zs)
    with n IH Cons.prems show ?thesis by (auto)
  qed (use n in simp)
qed simp

text \<open>The exchange of two neighbours behind \<open>p\<close>.\<close>

lemma swap_after_split: "p \<notin> set xs \<Longrightarrow> swap_after p (xs @ p # c # n # ys) = xs @ p # n # c # ys"
proof (induction xs)
  case (Cons x xs)
  then show ?case by (cases xs; cases "tl xs") auto
qed simp

lemma succ_of_cong_tail: "a \<notin> {p, c, n} \<Longrightarrow> succ_of (xs @ p # n # c # ys) a = succ_of (xs @ p # c # n # ys) a"
proof (induction xs)
  case Nil
  then show ?case by (cases ys) auto
next
  case (Cons x xs)
  then show ?case by (cases xs) auto
qed

lemma swap_after_succ:
  assumes d: "distinct xs" and pc: "succ_of xs p = Some c" and cn: "succ_of xs c = Some n"
  shows "succ_of (swap_after p xs) p = Some n" and "succ_of (swap_after p xs) n = Some c"
    and "succ_of (swap_after p xs) c = succ_of xs n"
    and "a \<notin> {p, c, n} \<Longrightarrow> succ_of (swap_after p xs) a = succ_of xs a"
    and "mset (swap_after p xs) = mset xs" and "hd (swap_after p xs) = hd xs"
    and "i < length xs \<Longrightarrow> xs ! i \<notin> {p, c, n} \<Longrightarrow> swap_after p xs ! i = xs ! i"
proof -
  from succ_of_split [OF pc] obtain us vs where xs: "xs = us @ p # c # vs" by blast
  have u: "p \<notin> set us" "c \<notin> set (us @ [p])" using d xs by auto
  have "succ_of ((us @ [p]) @ c # vs) c = (case vs of [] \<Rightarrow> None | y # zs \<Rightarrow> Some y)" by (rule succ_of_append [OF u(2)])
  with cn xs obtain ys where vs: "vs = n # ys" by (auto split: list.splits)
  with xs have xs: "xs = us @ p # c # n # ys" by simp
  have sw: "swap_after p xs = us @ p # n # c # ys" unfolding xs by (rule swap_after_split [OF u(1)])
  have n: "n \<notin> set (us @ [p])" "c \<notin> set (us @ [p, n])" "n \<notin> set (us @ [p, c])" using d xs by auto
  show "succ_of (swap_after p xs) p = Some n" unfolding sw using succ_of_append [OF u(1), of "n # c # ys"] by simp
  show "succ_of (swap_after p xs) n = Some c" unfolding sw using succ_of_append [OF n(1), of "c # ys"] by simp
  show "succ_of (swap_after p xs) c = succ_of xs n"
    using succ_of_append [OF n(2), of ys] succ_of_append [OF n(3), of ys] unfolding sw unfolding xs by simp
  show "a \<notin> {p, c, n} \<Longrightarrow> succ_of (swap_after p xs) a = succ_of xs a"
    unfolding sw unfolding xs by (rule succ_of_cong_tail)
  show "mset (swap_after p xs) = mset xs" unfolding sw unfolding xs by simp
  show "hd (swap_after p xs) = hd xs" unfolding sw unfolding xs by (cases us) simp_all
  show "swap_after p xs ! i = xs ! i" if "i < length xs" "xs ! i \<notin> {p, c, n}"
  proof (cases "i < length us")
    case True
    then show ?thesis unfolding sw unfolding xs by (simp add: nth_append)
  next
    case False
    then have "i = length us + (i - length us)" by simp
    then obtain j where j: "i = length us + j" by blast
    with that show ?thesis unfolding sw unfolding xs by (auto simp: nth_append nth_Cons split: nat.splits)
  qed
qed


section \<open>The invariant\<close>

text \<open>The nodes whose locks a thread holds.\<close>

fun wheld :: "wthread \<Rightarrow> addr set" where
  "wheld (W_Loop p) = {p}" | "wheld (W_Dice p) = {p}" | "wheld (W_Move p c) = {p}" | "wheld (W_Pass p c) = {p, c}"
| "wheld (W_Cur p c) = {p}" | "wheld (W_Next p c) = {p, c}" | "wheld (W_Back p c) = {p, c}"
| "wheld (W_Third p c x) = {p, c}" | "wheld (W_Link_Prev p c x) = {p, c, x}" | "wheld (W_Free_Prev p c x) = {p, c, x}"
| "wheld (W_Link_Cur c x) = {c, x}" | "wheld (W_Free_Cur c x) = {c, x}" | "wheld (W_Link_Next c x) = {x}"
| "wheld (W_Load x) = {x}" | "wheld (W_Store x i) = {x}" | "wheld (W_End p) = {p}"
| "wheld (R_Loop ty p) = {p}" | "wheld (R_Size ty p) = {p}" | "wheld (R_Lock ty p c sz) = {p}"
| "wheld (R_Pass ty p c sz) = {p, c}" | "wheld (R_Compare ty c sz) = {c}" | "wheld (R_End ty p) = {p}"
| "wheld _ = {}"

fun is_reader :: "wthread \<Rightarrow> bool" where
  "is_reader (R_Test ty) = True" | "is_reader (R_First ty) = True" | "is_reader (R_Loop ty p) = True"
| "is_reader (R_Size ty p) = True" | "is_reader (R_Lock ty p c sz) = True" | "is_reader (R_Pass ty p c sz) = True"
| "is_reader (R_Compare ty c sz) = True" | "is_reader (R_End ty p) = True" | "is_reader (R_Iter ty) = True"
| "is_reader W_Exit = True" | "is_reader _ = False"

text \<open>What a thread knows about neighbours: pairs of nodes in the list.\<close>

fun wlinks :: "wthread \<Rightarrow> (addr \<times> addr) set" where
  "wlinks (W_Move p c) = {(p, c)}" | "wlinks (W_Pass p c) = {(p, c)}" | "wlinks (W_Cur p c) = {(p, c)}"
| "wlinks (W_Next p c) = {(p, c)}" | "wlinks (W_Back p c) = {(p, c)}" | "wlinks (W_Third p c x) = {(p, c), (c, x)}"
| "wlinks (W_Link_Prev p c x) = {(p, c), (c, x)}" | "wlinks (W_Free_Prev p c x) = {(p, x), (x, c)}"
| "wlinks (W_Link_Cur c x) = {(x, c)}" | "wlinks (W_Free_Cur c x) = {(x, c)}" | "wlinks (W_Link_Next c x) = {(x, c)}"
| "wlinks (R_Lock ty p c sz) = {(p, c)}" | "wlinks (R_Pass ty p c sz) = {(p, c)}" | "wlinks _ = {}"

fun wmore :: "wthread \<Rightarrow> addr set" where
  "wmore (W_Dice p) = {p}" | "wmore (R_Size ty p) = {p}" | "wmore _ = {}"

definition wknows :: "wthread \<Rightarrow> addr list \<Rightarrow> bool" where
  "wknows c L \<longleftrightarrow> (\<forall>(a, b) \<in> wlinks c. succ_of L a = Some b) \<and> (\<forall>a \<in> wmore c. succ_of L a \<noteq> None)"

text \<open>Nodes whose \<open>next\<close> does not point to their neighbour yet, in the middle of an exchange.\<close>

fun wstale :: "wthread \<Rightarrow> addr set" where
  "wstale (W_Free_Prev p c x) = {c, x}" | "wstale (W_Link_Cur c x) = {c, x}"
| "wstale (W_Free_Cur c x) = {x}" | "wstale (W_Link_Next c x) = {x}" | "wstale _ = {}"

fun wborrow :: "wthread \<Rightarrow> (addr \<times> addr) set" where
  "wborrow (W_Free_Prev p c x) = {(c, x)}" | "wborrow (W_Link_Cur c x) = {(c, x)}" | "wborrow _ = {}"

fun wat :: "wthread \<Rightarrow> ptr" where
  "wat (R_Loop ty p) = Some p" | "wat (R_Size ty p) = Some p" | "wat (R_Lock ty p c sz) = Some p"
| "wat (R_Pass ty p c sz) = Some p" | "wat (R_Compare ty c sz) = Some c" | "wat (R_End ty p) = Some p" | "wat _ = None"

fun pass_done :: "wthread \<Rightarrow> bool" where
  "pass_done (R_End ty p) = True" | "pass_done (R_Iter ty) = True" | "pass_done _ = False"

definition nxt :: "(addr \<rightharpoonup> lnode) \<Rightarrow> addr \<Rightarrow> ptr" where
  "nxt h a = ln_next (the (h a))"

definition lock_inv :: "(nat \<Rightarrow> wthread) \<Rightarrow> (addr \<Rightarrow> custom_lock) \<Rightarrow> bool" where
  "lock_inv f lk \<longleftrightarrow> (\<forall>a. (\<forall>t. a \<in> wheld (f t) \<longleftrightarrow> lk_writer (lk a) = Some t \<or> t \<in> set (lk_readers (lk a))) \<and>
     (lk_writer (lk a) \<noteq> None \<longrightarrow> lk_readers (lk a) = []) \<and> distinct (lk_readers (lk a)) \<and>
     (\<forall>t \<in> set (lk_readers (lk a)). is_reader (f t)))"

definition wassert :: "wthread \<Rightarrow> addr list \<Rightarrow> (addr \<rightharpoonup> lnode) \<Rightarrow> bool" where
  "wassert c L h \<longleftrightarrow> wheld c \<subseteq> set L \<and> wknows c L \<and> (\<forall>(c, x) \<in> wborrow c. nxt h x = succ_of L c)"

definition wheap_inv :: "(nat \<Rightarrow> wthread) \<Rightarrow> addr list \<Rightarrow> (addr \<rightharpoonup> lnode) \<Rightarrow> bool" where
  "wheap_inv f L h \<longleftrightarrow> dom h = set L \<and> (\<forall>n \<in> ran h. NUL \<in> set (ln_val n)) \<and>
     (\<forall>a \<in> set L. (\<forall>t. a \<notin> wstale (f t)) \<longrightarrow> nxt h a = succ_of L a)"

definition wpos_ok :: "wthread \<Rightarrow> addr list \<Rightarrow> nat \<Rightarrow> bool" where
  "wpos_ok c L i \<longleftrightarrow> (\<forall>p. wat c = Some p \<longrightarrow> i < length L \<and> L ! i = p) \<and> (pass_done c \<longrightarrow> Suc i = length L)"

definition w_inv :: "nat \<Rightarrow> addr list \<Rightarrow> wsys \<Rightarrow> bool" where
  "w_inv n L0 s \<longleftrightarrow> lock_inv (w_thr s) (w_lock s) \<and> (\<forall>t. wassert (w_thr s t) (w_list s) (w_heap s)) \<and>
     wheap_inv (w_thr s) (w_list s) (w_heap s) \<and> (\<forall>t. wpos_ok (w_thr s t) (w_list s) (w_pos s t)) \<and>
     distinct (w_list s) \<and> w_list s \<noteq> [] \<and> w_first s = Some (hd (w_list s)) \<and> mset (w_list s) = mset L0 \<and>
     (\<forall>t\<ge>n. w_thr s t = W_Exit) \<and> w_fault s = None"

lemma wstale_held: "wstale c \<subseteq> wheld c"
  by (cases c) auto

lemma wlinks_held: "(a, b) \<in> wlinks c \<Longrightarrow> a \<in> wheld c"
  by (cases c) auto

lemma wmore_held: "a \<in> wmore c \<Longrightarrow> a \<in> wheld c"
  by (cases c) auto

lemma wborrow_held: "(a, b) \<in> wborrow c \<Longrightarrow> a \<in> wheld c \<and> b \<in> wheld c"
  by (cases c) auto

lemma wat_held: "wat c = Some p \<Longrightarrow> p \<in> wheld c"
  by (cases c) auto

lemma wstale_writer: "wstale c \<noteq> {} \<Longrightarrow> \<not> is_reader c"
  by (cases c) auto

text \<open>A node held by a swapping thread is held by nobody else.\<close>

lemma lock_inv_excl:
  assumes "lock_inv f lk" and "a \<in> wheld (f t)" and "\<not> is_reader (f t)" and "a \<in> wheld (f u)"
  shows "u = t"
proof -
  have i: "\<And>v. a \<in> wheld (f v) \<longleftrightarrow> lk_writer (lk a) = Some v \<or> v \<in> set (lk_readers (lk a))"
    "lk_writer (lk a) \<noteq> None \<longrightarrow> lk_readers (lk a) = []" "\<forall>v \<in> set (lk_readers (lk a)). is_reader (f v)"
    using assms(1) by (simp_all add: lock_inv_def)
  from i(1) [of t] i(3) assms(2,3) have w: "lk_writer (lk a) = Some t" by blast
  with i(2) have "lk_readers (lk a) = []" by simp
  with i(1) [of u] assms(4) w show ?thesis by simp
qed

lemma wassert_cong:
  assumes "wassert c L h" and "set L' = set L" and "\<And>a. a \<in> wheld c \<Longrightarrow> succ_of L' a = succ_of L a \<and> nxt h' a = nxt h a"
  shows "wassert c L' h'"
  using assms unfolding wassert_def wknows_def by (fastforce dest: wlinks_held wmore_held wborrow_held)

lemma lock_inv_neutral:
  assumes "lock_inv f lk" and "wheld c = wheld (f t)" and "is_reader c = is_reader (f t) \<or> wheld c = {}"
  shows "lock_inv (f(t := c)) lk"
proof -
  have h: "wheld ((f(t := c)) u) = wheld (f u)" for u using assms(2) by simp
  have "is_reader ((f(t := c)) u)" if "u \<in> set (lk_readers (lk a))" for u a
    using assms that unfolding lock_inv_def by (cases "u = t") auto
  with assms(1) h show ?thesis unfolding lock_inv_def by simp
qed

lemma lock_inv_upd:
  assumes I: "lock_inv f lk" and r: "is_reader c = is_reader (f t)"
    and other: "\<And>b. b \<noteq> a \<Longrightarrow> b \<in> wheld c \<longleftrightarrow> b \<in> wheld (f t)"
    and here: "\<And>u. (if u = t then a \<in> wheld c else a \<in> wheld (f u)) \<longleftrightarrow> lk_writer l = Some u \<or> u \<in> set (lk_readers l)"
    and ok: "lk_writer l \<noteq> None \<longrightarrow> lk_readers l = []" "distinct (lk_readers l)"
      "\<And>u. u \<in> set (lk_readers l) \<Longrightarrow> is_reader (f u)"
  shows "lock_inv (f(t := c)) (lk(a := l))"
  unfolding lock_inv_def
proof (intro allI)
  fix b
  show "(\<forall>u. b \<in> wheld ((f(t := c)) u) \<longleftrightarrow> lk_writer ((lk(a := l)) b) = Some u \<or> u \<in> set (lk_readers ((lk(a := l)) b))) \<and>
     (lk_writer ((lk(a := l)) b) \<noteq> None \<longrightarrow> lk_readers ((lk(a := l)) b) = []) \<and> distinct (lk_readers ((lk(a := l)) b)) \<and>
     (\<forall>u \<in> set (lk_readers ((lk(a := l)) b)). is_reader ((f(t := c)) u))"
  proof (cases "b = a")
    case True
    have "a \<in> wheld ((f(t := c)) u) \<longleftrightarrow> lk_writer l = Some u \<or> u \<in> set (lk_readers l)" for u
      using here [of u] by (cases "u = t") simp_all
    moreover have "is_reader ((f(t := c)) u)" if "u \<in> set (lk_readers l)" for u
      using ok(3) [OF that] r by (cases "u = t") simp_all
    ultimately show ?thesis using True ok(1,2) by simp
  next
    case False
    have "(\<forall>u. b \<in> wheld (f u) \<longleftrightarrow> lk_writer (lk b) = Some u \<or> u \<in> set (lk_readers (lk b))) \<and>
       (lk_writer (lk b) \<noteq> None \<longrightarrow> lk_readers (lk b) = []) \<and> distinct (lk_readers (lk b)) \<and>
       (\<forall>u \<in> set (lk_readers (lk b)). is_reader (f u))" using I by (simp add: lock_inv_def)
    with False other [OF False] r show ?thesis by auto
  qed
qed


lemma lock_inv_here:
  assumes "lock_inv f lk"
  shows "a \<in> wheld (f u) \<longleftrightarrow> lk_writer (lk a) = Some u \<or> u \<in> set (lk_readers (lk a))"
    and "lk_writer (lk a) \<noteq> None \<Longrightarrow> lk_readers (lk a) = []" and "distinct (lk_readers (lk a))"
    and "u \<in> set (lk_readers (lk a)) \<Longrightarrow> is_reader (f u)"
  using assms by (simp_all add: lock_inv_def)

lemma lock_inv_write:
  assumes I: "lock_inv f lk" and l: "write_lock t (lk a) = Some l" and h: "wheld c = insert a (wheld (f t))"
    and r: "is_reader c = is_reader (f t)"
  shows "lock_inv (f(t := c)) (lk(a := l))"
proof -
  from l have w: "lk_writer (lk a) = None" "lk_readers (lk a) = []" "l = (lk a)\<lparr>lk_writer := Some t\<rparr>"
    by (auto simp: write_lock_def split: if_splits)
  have "a \<notin> wheld (f u)" for u using lock_inv_here(1) [OF I, of a u] w by simp
  with w show ?thesis by (intro lock_inv_upd [OF I r]) (auto simp: h)
qed

lemma lock_inv_read:
  assumes I: "lock_inv f lk" and l: "read_lock k t (lk a) = Some l" and h: "wheld c = insert a (wheld (f t))"
    and r: "is_reader c" "is_reader (f t)" and a: "a \<notin> wheld (f t)"
  shows "lock_inv (f(t := c)) (lk(a := l))"
proof (cases "k = USE_RWLOCK")
  case True
  with l have w: "lk_writer (lk a) = None" "l = (lk a)\<lparr>lk_readers := t # lk_readers (lk a)\<rparr>"
    by (auto simp: read_lock_def split: if_splits)
  have "t \<notin> set (lk_readers (lk a))" using lock_inv_here(1) [OF I, of a t] a by simp
  with w r lock_inv_here [OF I, where a = a] show ?thesis by (intro lock_inv_upd [OF I]) (auto simp: h)
next
  case False
  with l have "write_lock t (lk a) = Some l" by (cases k) (simp_all add: read_lock_def)
  with r show ?thesis by (intro lock_inv_write [OF I _ h]) simp_all
qed

lemma lock_inv_release:
  assumes I: "lock_inv f lk" and a: "a \<in> wheld (f t)" and h: "wheld c = wheld (f t) - {a}" and r: "is_reader c = is_reader (f t)"
  shows "lock_inv (f(t := c)) (lk(a := unlock t (lk a)))"
proof (cases "lk_writer (lk a) = Some t")
  case True
  with lock_inv_here [OF I, where a = a] show ?thesis by (intro lock_inv_upd [OF I r]) (auto simp: h unlock_def)
next
  case False
  with lock_inv_here [OF I, where a = a] a have t: "t \<in> set (lk_readers (lk a))" by auto
  with lock_inv_here(2) [OF I, where a = a] have "lk_writer (lk a) = None" by (cases "lk_writer (lk a)") auto
  with t False lock_inv_here [OF I, where a = a] show ?thesis
    by (intro lock_inv_upd [OF I r]) (auto simp: h unlock_def set_remove1_eq)
qed

text \<open>A step that leaves the heap and the order alone.\<close>

lemma w_inv_frame:
  assumes I: "w_inv n L0 s" and t: "t < n" and f: "w_thr s' = (w_thr s)(t := c)"
    and same: "w_heap s' = w_heap s" "w_list s' = w_list s" "w_first s' = w_first s" "w_fault s' = None"
    and lk: "lock_inv (w_thr s') (w_lock s')"
    and c: "wheld c \<subseteq> set (w_list s)" "wknows c (w_list s)"
      "wborrow c \<subseteq> wborrow (w_thr s t)" "wstale c = wstale (w_thr s t)"
    and p: "w_pos s' = (w_pos s)(t := i)" "wpos_ok c (w_list s) i"
  shows "w_inv n L0 s'"
proof -
  have a: "wassert (w_thr s u) (w_list s) (w_heap s)" for u using I by (simp add: w_inv_def)
  have "wassert c (w_list s) (w_heap s)" using a [of t] c unfolding wassert_def by blast
  with a have "wassert (w_thr s' u) (w_list s) (w_heap s)" for u by (simp add: f)
  moreover have "wstale (w_thr s' u) = wstale (w_thr s u)" for u using c(4) by (simp add: f)
  then have "wheap_inv (w_thr s') (w_list s) (w_heap s)" using I by (simp add: w_inv_def wheap_inv_def)
  moreover have "wpos_ok (w_thr s' u) (w_list s) (w_pos s' u)" for u using I p by (simp add: f w_inv_def)
  ultimately show ?thesis using I t lk f same by (auto simp: w_inv_def)
qed

lemma w_inv_node:
  assumes "w_inv n L0 s" and "a \<in> set (w_list s)"
  obtains m where "w_heap s a = Some m" and "NUL \<in> set (ln_val m)"
proof -
  from assms have "a \<in> dom (w_heap s)" by (simp add: w_inv_def wheap_inv_def)
  then obtain m where "w_heap s a = Some m" by auto
  moreover from this have "m \<in> ran (w_heap s)" by (rule ranI)
  ultimately show thesis using that assms(1) by (auto simp: w_inv_def wheap_inv_def)
qed

lemma w_inv_next:
  assumes I: "w_inv n L0 s" and a: "a \<in> wheld (w_thr s t)" "a \<notin> wstale (w_thr s t)"
  shows "nxt (w_heap s) a = succ_of (w_list s) a"
proof -
  have "a \<in> set (w_list s)" using I a(1) by (auto simp: w_inv_def wassert_def)
  moreover have "a \<notin> wstale (w_thr s u)" for u
  proof
    assume u: "a \<in> wstale (w_thr s u)"
    then have "a \<in> wheld (w_thr s u)" "\<not> is_reader (w_thr s u)" using wstale_held wstale_writer by blast+
    then have "t = u" using I a(1) lock_inv_excl [of "w_thr s" "w_lock s" a u t] by (simp add: w_inv_def)
    with u a(2) show False by simp
  qed
  ultimately show ?thesis using I by (simp add: w_inv_def wheap_inv_def)
qed


text \<open>A step that writes the \<open>next\<close> of a node it holds for writing, and may reorder the nodes it holds.\<close>

lemma w_inv_write:
  assumes I: "w_inv n L0 s" and t: "t < n" "\<not> is_reader (w_thr s t)" "\<not> is_reader c" "wheld c = wheld (w_thr s t)"
    and m: "w_heap s a = Some m" "a \<in> wheld (w_thr s t)" and h: "h = (w_heap s)(a \<mapsto> m\<lparr>ln_next := q\<rparr>)"
    and L: "mset L = mset (w_list s)" "hd L = hd (w_list s)"
      "\<And>b. b \<notin> wheld (w_thr s t) \<Longrightarrow> succ_of L b = succ_of (w_list s) b"
      "\<And>i. i < length (w_list s) \<Longrightarrow> w_list s ! i \<notin> wheld (w_thr s t) \<Longrightarrow> L ! i = w_list s ! i"
    and c: "wassert c L h" "\<And>b. b \<in> wheld c \<Longrightarrow> b \<notin> wstale c \<Longrightarrow> nxt h b = succ_of L b"
  shows "w_inv n L0 (wgoto t c (s\<lparr>w_heap := h, w_list := L\<rparr>))"
proof -
  have lk: "lock_inv (w_thr s) (w_lock s)" using I by (simp add: w_inv_def)
  have apart: "b \<notin> wheld (w_thr s u)" if "b \<in> wheld (w_thr s t)" "u \<noteq> t" for b u
    using lock_inv_excl [OF lk that(1) t(2), of u] that(2) by blast
  have set: "set L = set (w_list s)" "length L = length (w_list s)" "distinct L" "L \<noteq> []"
    using L(1) I by (metis set_mset_mset, metis size_mset, metis mset_eq_imp_distinct_iff w_inv_def, auto simp: w_inv_def)
  have nx: "nxt h b = nxt (w_heap s) b" if "b \<noteq> a" for b using that by (simp add: nxt_def h)
  have "wassert (((w_thr s)(t := c)) u) L h" for u
  proof (cases "u = t")
    case False
    have "wassert (w_thr s u) (w_list s) (w_heap s)" using I by (simp add: w_inv_def)
    then have "wassert (w_thr s u) L h"
    proof (rule wassert_cong [OF _ set(1)])
      fix b assume b: "b \<in> wheld (w_thr s u)"
      with apart [of b u] False have "b \<notin> wheld (w_thr s t)" by blast
      with L(3) nx m(2) show "succ_of L b = succ_of (w_list s) b \<and> nxt h b = nxt (w_heap s) b" by metis
    qed
    with False show ?thesis by simp
  qed (use c(1) in simp)
  moreover have "wpos_ok (((w_thr s)(t := c)) u) L (w_pos s u)" for u
  proof (cases "u = t")
    case True
    have "wat c = None" "\<not> pass_done c" using t(3) by (cases c; simp)+
    with True show ?thesis by (simp add: wpos_ok_def)
  next
    case False
    have p: "wpos_ok (w_thr s u) (w_list s) (w_pos s u)" using I by (simp add: w_inv_def)
    have "x \<notin> wheld (w_thr s t)" if "wat (w_thr s u) = Some x" for x using apart [of x u] False wat_held [OF that] by blast
    with p False L(4) set(2) show ?thesis by (auto simp: wpos_ok_def)
  qed
  moreover have "wheap_inv ((w_thr s)(t := c)) L h"
    unfolding wheap_inv_def
  proof (intro conjI ballI impI)
    show "dom h = set L" using I m(1) h set(1) by (auto simp: w_inv_def wheap_inv_def)
    fix x assume "x \<in> ran h"
    then obtain b where "h b = Some x" by (auto simp: ran_def)
    then have "\<exists>y b. w_heap s b = Some y \<and> ln_val x = ln_val y" using m(1) h by (cases "b = a") auto
    then show "NUL \<in> set (ln_val x)" using I by (auto simp: w_inv_def wheap_inv_def ran_def)
  next
    fix b assume b: "b \<in> set L" and ns: "\<forall>u. b \<notin> wstale (((w_thr s)(t := c)) u)"
    show "nxt h b = succ_of L b"
    proof (cases "b \<in> wheld (w_thr s t)")
      case True
      with c(2) [of b] t(4) ns show ?thesis by (metis fun_upd_same)
    next
      case False
      have "b \<notin> wstale (w_thr s u)" for u
        using False wstale_held [of "w_thr s t"] spec [OF ns, of u] by (cases "u = t") auto
      then have "nxt (w_heap s) b = succ_of (w_list s) b" using I b set(1) by (simp add: w_inv_def wheap_inv_def)
      with False nx [of b] m(2) L(3) [OF False] show ?thesis by metis
    qed
  qed
  moreover have "lock_inv ((w_thr s)(t := c)) (w_lock s)" using lk t by (intro lock_inv_neutral) simp_all
  ultimately show ?thesis using I t set L(1,2) by (auto simp: w_inv_def wgoto_def)
qed


lemma wgoto_simps [simp]:
  "w_thr (wgoto t c s) = (w_thr s)(t := c)" "w_heap (wgoto t c s) = w_heap s" "w_list (wgoto t c s) = w_list s"
  "w_first (wgoto t c s) = w_first s" "w_fault (wgoto t c s) = w_fault s" "w_lock (wgoto t c s) = w_lock s"
  "w_pos (wgoto t c s) = w_pos s"
  by (simp_all add: wgoto_def)

lemma w_acquire_cases:
  assumes "w_acquire try_lock t (Some a) c s = Some s'" and "w_heap s a = Some m"
  obtains l where "try_lock (w_lock s a) = Some l" and "s' = wgoto t c (s\<lparr>w_lock := (w_lock s)(a := l)\<rparr>)"
  using assms by (auto simp: w_acquire_def split: option.splits)

lemma w_inv_held:
  "w_inv n L0 s \<Longrightarrow> a \<in> wheld (w_thr s t) \<Longrightarrow> a \<in> set (w_list s)"
  by (auto simp: w_inv_def wassert_def)

lemma w_inv_link: "w_inv n L0 s \<Longrightarrow> (a, b) \<in> wlinks (w_thr s t) \<Longrightarrow> succ_of (w_list s) a = Some b"
  unfolding w_inv_def wassert_def wknows_def by blast

lemma w_inv_goto:
  assumes I: "w_inv n L0 s" and t: "t < n" and s': "s' = wgoto t c (s\<lparr>w_swap_count := x, w_swap_iter := y, w_count := cnt, w_iter := itr\<rparr>)"
    and h: "wheld c = wheld (w_thr s t)" "is_reader c = is_reader (w_thr s t) \<or> wheld c = {}"
    and c: "wknows c (w_list s)"
      "wborrow c = {}" "wstale c = {}" "wstale (w_thr s t) = {}" "wpos_ok c (w_list s) (w_pos s t)"
  shows "w_inv n L0 s'"
proof (rule w_inv_frame [OF I t, where c = c and i = "w_pos s t"])
  show "lock_inv (w_thr s') (w_lock s')" using I h s' by (auto simp: w_inv_def intro!: lock_inv_neutral)
  show "wheld c \<subseteq> set (w_list s)" using I h(1) by (auto simp: w_inv_def wassert_def)
qed (use I c s' in \<open>simp_all add: w_inv_def\<close>)

lemma w_inv_acquire:
  assumes I: "w_inv n L0 s" and t: "t < n" and a: "a \<in> set (w_list s)" "a \<notin> wheld (w_thr s t)"
    and st: "w_acquire try_lock t (Some a) c (s\<lparr>w_pos := (w_pos s)(t := i)\<rparr>) = Some s'"
    and try_lock: "try_lock = write_lock t \<or> try_lock = read_lock k t \<and> is_reader c"
    and h: "wheld c = insert a (wheld (w_thr s t))" "is_reader c = is_reader (w_thr s t)"
    and c: "wknows c (w_list s)"
      "wborrow c = {}" "wstale c = {}" "wstale (w_thr s t) = {}" "wpos_ok c (w_list s) i"
  shows "w_inv n L0 s'"
proof -
  obtain m where m: "w_heap s a = Some m" using I a(1) by (rule w_inv_node)
  from w_acquire_cases [OF st] m obtain l where l: "try_lock (w_lock s a) = Some l"
    and s': "s' = wgoto t c (s\<lparr>w_pos := (w_pos s)(t := i), w_lock := (w_lock s)(a := l)\<rparr>)" by auto
  have lk: "lock_inv (w_thr s) (w_lock s)" using I by (simp add: w_inv_def)
  have "lock_inv ((w_thr s)(t := c)) ((w_lock s)(a := l))"
    using try_lock l h a(2) lock_inv_write [OF lk, of t a l c] lock_inv_read [OF lk, of k t a l c] by auto
  moreover have "wheld c \<subseteq> set (w_list s)" using h(1) a(1) w_inv_held [OF I, of _ t] by auto
  ultimately show ?thesis
    by (intro w_inv_frame [OF I t, where c = c and i = i]) (use I c s' in \<open>simp_all add: w_inv_def\<close>)
qed

lemma w_inv_release:
  assumes I: "w_inv n L0 s" and t: "t < n" and a: "a \<in> wheld (w_thr s t)"
    and s': "s' = w_release t a c (s\<lparr>w_pos := (w_pos s)(t := i)\<rparr>)"
    and h: "wheld c = wheld (w_thr s t) - {a}" "is_reader c = is_reader (w_thr s t)"
    and c: "wknows c (w_list s)"
      "wborrow c \<subseteq> wborrow (w_thr s t)" "wstale c = wstale (w_thr s t)" "wpos_ok c (w_list s) i"
  shows "w_inv n L0 s'"
proof -
  obtain m where m: "w_heap s a = Some m" using I w_inv_held [OF I a] by (rule w_inv_node)
  then have s': "s' = wgoto t c (s\<lparr>w_pos := (w_pos s)(t := i), w_lock := (w_lock s)(a := unlock t (w_lock s a))\<rparr>)"
    using s' by (simp add: w_release_def)
  have lk: "lock_inv (w_thr s) (w_lock s)" using I by (simp add: w_inv_def)
  have "lock_inv ((w_thr s)(t := c)) ((w_lock s)(a := unlock t (w_lock s a)))" by (rule lock_inv_release [OF lk a h])
  moreover have "wheld c \<subseteq> set (w_list s)" using h(1) w_inv_held [OF I, of _ t] by auto
  ultimately show ?thesis
    by (intro w_inv_frame [OF I t, where c = c and i = i]) (use I c s' in \<open>simp_all add: w_inv_def\<close>)
qed


lemma wsys_same [simp]:
  "s\<lparr>w_pos := (w_pos s)(t := w_pos s t)\<rparr> = s"
  "s\<lparr>w_swap_count := w_swap_count s, w_swap_iter := w_swap_iter s, w_count := w_count s, w_iter := w_iter s\<rparr> = s"
  by simp_all

lemmas w_inv_goto_same = w_inv_goto [where x = "w_swap_count s" and y = "w_swap_iter s" and cnt = "w_count s" and itr = "w_iter s" and s = s for s,
    unfolded wsys_same]
lemmas w_inv_acquire_same = w_inv_acquire [where i = "w_pos s t" and s = s and t = t for s t, unfolded wsys_same]
lemmas w_inv_release_same = w_inv_release [where i = "w_pos s t" and s = s and t = t for s t, unfolded wsys_same]

lemma wpos_ok_writer: "\<not> is_reader c \<Longrightarrow> wpos_ok c L i"
  by (cases c) (simp_all add: wpos_ok_def)

lemma w_inv_ends:
  assumes I: "w_inv n L0 s" and a: "a \<in> wheld (w_thr s t)" "a \<notin> wstale (w_thr s t)" and m: "w_heap s a = Some m"
  shows "ln_next m = succ_of (w_list s) a"
  using w_inv_next [OF I a] m by (simp add: nxt_def)

fun in_exchange :: "wthread \<Rightarrow> bool" where
  "in_exchange (W_Move p c) = True" | "in_exchange (W_Pass p c) = True" | "in_exchange (W_Cur p c) = True"
| "in_exchange (W_Next p c) = True" | "in_exchange (W_Back p c) = True" | "in_exchange (W_Third p c x) = True"
| "in_exchange (W_Free_Prev p c x) = True" | "in_exchange (W_Free_Cur p c) = True" | "in_exchange _ = False"

fun at_link :: "wthread \<Rightarrow> bool" where
  "at_link (W_Link_Prev p c x) = True" | "at_link (W_Link_Cur c x) = True" | "at_link (W_Link_Next c x) = True"
| "at_link _ = False"

text \<open>The steps of \<open>swap_routine\<close> outside an exchange.\<close>

lemma w_move_swap1:
  assumes I: "w_inv n L0 s" and t: "t < n" and st: "w_move k dice t s = Some s'"
    and c: "\<not> is_reader (w_thr s t)" "\<not> in_exchange (w_thr s t)" "\<not> at_link (w_thr s t)"
  shows "w_inv n L0 s'"
proof (cases "w_thr s t")
  case W_Test
  with st show ?thesis by (intro w_inv_goto_same [OF I t, where c = "if w_stop s then W_Exit else W_First"]) (auto simp: w_move_def wpos_ok_def wknows_def split: if_splits)
next
  case W_First
  from I have f: "w_first s = Some (hd (w_list s))" "hd (w_list s) \<in> set (w_list s)" by (auto simp: w_inv_def)
  with W_First st show ?thesis
    by (intro w_inv_acquire_same [OF I t f(2), where try_lock = "write_lock t"]) (auto simp: w_move_def wpos_ok_writer wknows_def)
next
  case W_Iter
  with st show ?thesis by (intro w_inv_goto_same [OF I t]) (auto simp: w_move_def wpos_ok_writer wknows_def)
next
  case (W_Iter_Store i)
  with st show ?thesis by (intro w_inv_goto [OF I t, where c = W_Test and x = "w_swap_count s" and y = "i + 1"
      and cnt = "w_count s" and itr = "w_iter s"]) (auto simp: w_move_def wpos_ok_def wknows_def)
next
  case (W_Loop p)
  obtain m where m: "w_heap s p = Some m" by (rule w_inv_node [OF I w_inv_held [OF I, of p t]]) (simp add: W_Loop)
  from w_inv_ends [OF I _ _ m, of t] W_Loop have "ln_next m = succ_of (w_list s) p" by simp
  with W_Loop st m show ?thesis
    by (intro w_inv_goto_same [OF I t, where c = "if ln_next m = None then W_End p else W_Dice p"]) (auto simp: w_move_def w_read_def wpos_ok_writer wknows_def split: if_splits)
next
  case (W_Dice p)
  obtain m where m: "w_heap s p = Some m" by (rule w_inv_node [OF I w_inv_held [OF I, of p t]]) (simp add: W_Dice)
  from w_inv_ends [OF I _ _ m, of t] W_Dice have e: "ln_next m = succ_of (w_list s) p" by simp
  moreover from I have "wassert (w_thr s t) (w_list s) (w_heap s)" by (simp add: w_inv_def)
  with W_Dice obtain c where c: "succ_of (w_list s) p = Some c" by (auto simp: wassert_def wknows_def)
  ultimately show ?thesis using W_Dice st m
    by (intro w_inv_goto_same [OF I t, where c = "if dice then W_Cur p c else W_Move p c"]) (auto simp: w_move_def w_read_def wpos_ok_writer wknows_def split: if_splits)
next
  case (W_End p)
  with st show ?thesis by (intro w_inv_release_same [OF I t, where a = p and c = W_Iter]) (auto simp: w_move_def wpos_ok_writer wknows_def)
next
  case (W_Load x)
  with st show ?thesis by (intro w_inv_goto_same [OF I t]) (auto simp: w_move_def wpos_ok_writer wknows_def)
next
  case (W_Store x i)
  with st show ?thesis by (intro w_inv_goto [OF I t, where c = "W_Loop x" and x = "i + 1" and y = "w_swap_iter s"
      and cnt = "w_count s" and itr = "w_iter s"]) (auto simp: w_move_def wpos_ok_writer wknows_def)
qed (use c in auto)


lemma w_inv_wknows: "w_inv n L0 s \<Longrightarrow> wknows (w_thr s t) (w_list s)"
  by (simp add: w_inv_def wassert_def)

lemma w_inv_distinct: "w_inv n L0 s \<Longrightarrow> distinct (w_list s)"
  by (simp add: w_inv_def)

text \<open>The locking steps of \<open>swap_routine\<close>.\<close>

lemma w_move_swap2:
  assumes I: "w_inv n L0 s" and t: "t < n" and st: "w_move k dice t s = Some s'"
    and c: "in_exchange (w_thr s t)"
  shows "w_inv n L0 s'"
proof (cases "w_thr s t")
  case (W_Move p c)
  with w_inv_wknows [OF I, of t] have l: "succ_of (w_list s) p = Some c" by (simp add: wknows_def)
  with succ_of_set [OF l] succ_of_irrefl [OF w_inv_distinct [OF I] l] W_Move st show ?thesis
    by (intro w_inv_acquire_same [OF I t, where try_lock = "write_lock t" and a = c and c = "W_Pass p c"]) (auto simp: w_move_def wpos_ok_writer wknows_def)
next
  case (W_Cur p c)
  with w_inv_wknows [OF I, of t] have l: "succ_of (w_list s) p = Some c" by (simp add: wknows_def)
  with succ_of_set [OF l] succ_of_irrefl [OF w_inv_distinct [OF I] l] W_Cur st show ?thesis
    by (intro w_inv_acquire_same [OF I t, where try_lock = "write_lock t" and a = c and c = "W_Next p c"]) (auto simp: w_move_def wpos_ok_writer wknows_def)
next
  case (W_Third p c x)
  with w_inv_wknows [OF I, of t] have l: "succ_of (w_list s) p = Some c" "succ_of (w_list s) c = Some x" by (simp_all add: wknows_def)
  have d: "distinct (w_list s)" by (rule w_inv_distinct [OF I])
  from succ_of_split [OF l(1)] obtain us vs where L: "w_list s = us @ p # c # vs" by blast
  have "c \<notin> set (us @ [p])" using d L by auto
  from succ_of_append [OF this, of vs] l(2) L have "x \<in> set vs" by (auto split: list.splits)
  with d L have "x \<noteq> p" "x \<noteq> c" by auto
  with succ_of_set [OF l(2)] W_Third st l show ?thesis
    by (intro w_inv_acquire_same [OF I t, where try_lock = "write_lock t" and a = x and c = "W_Link_Prev p c x"]) (auto simp: w_move_def wpos_ok_writer wknows_def)
next
  case (W_Pass p c)
  with w_inv_wknows [OF I, of t] have l: "succ_of (w_list s) p = Some c" by (simp add: wknows_def)
  with succ_of_irrefl [OF w_inv_distinct [OF I] l] W_Pass st show ?thesis
    by (intro w_inv_release_same [OF I t, where a = p and c = "W_Loop c"]) (auto simp: w_move_def wpos_ok_writer wknows_def)
next
  case (W_Back p c)
  with w_inv_wknows [OF I, of t] have l: "succ_of (w_list s) p = Some c" by (simp add: wknows_def)
  with succ_of_irrefl [OF w_inv_distinct [OF I] l] W_Back st show ?thesis
    by (intro w_inv_release_same [OF I t, where a = c and c = "W_End p"]) (auto simp: w_move_def wpos_ok_writer wknows_def)
next
  case (W_Next p c)
  obtain m where m: "w_heap s c = Some m" by (rule w_inv_node [OF I w_inv_held [OF I, of c t]]) (simp add: W_Next)
  from w_inv_ends [OF I _ _ m, of t] W_Next have "ln_next m = succ_of (w_list s) c" by simp
  with w_inv_wknows [OF I, of t] W_Next st m show ?thesis
    by (intro w_inv_goto_same [OF I t, where c = "case ln_next m of None \<Rightarrow> W_Back p c | Some x \<Rightarrow> W_Third p c x"])
      (auto simp: w_move_def w_read_def wpos_ok_writer wknows_def split: option.splits)
next
  case (W_Free_Prev p c x)
  with w_inv_wknows [OF I, of t] have l: "succ_of (w_list s) p = Some x" "succ_of (w_list s) x = Some c" by (simp_all add: wknows_def)
  have d: "distinct (w_list s)" by (rule w_inv_distinct [OF I])
  from succ_of_split [OF l(1)] obtain us vs where L: "w_list s = us @ p # x # vs" by blast
  have "x \<notin> set (us @ [p])" using d L by auto
  from succ_of_append [OF this, of vs] l(2) L have "c \<in> set vs" by (auto split: list.splits)
  with d L have "p \<noteq> c" "p \<noteq> x" by auto
  with W_Free_Prev st l show ?thesis
    by (intro w_inv_release_same [OF I t, where a = p and c = "W_Link_Cur c x"]) (auto simp: w_move_def wpos_ok_writer wknows_def)
next
  case (W_Free_Cur c x)
  with w_inv_wknows [OF I, of t] have l: "succ_of (w_list s) x = Some c" by (simp add: wknows_def)
  with succ_of_irrefl [OF w_inv_distinct [OF I] l] W_Free_Cur st show ?thesis
    by (intro w_inv_release_same [OF I t, where a = c and c = "W_Link_Next c x"]) (auto simp: w_move_def wpos_ok_writer wknows_def)
qed (use c in auto)


text \<open>The three assignments of an exchange.\<close>

lemma w_move_link_prev:
  assumes I: "w_inv n L0 s" and t: "t < n" "w_thr s t = W_Link_Prev p c x" and st: "w_move k dice t s = Some s'"
  shows "w_inv n L0 s'"
proof -
  from w_inv_wknows [OF I, of t] t(2) have l: "succ_of (w_list s) p = Some c" "succ_of (w_list s) c = Some x"
    by (simp_all add: wknows_def)
  note d = w_inv_distinct [OF I]
  note sw = swap_after_succ [OF d l]
  obtain m where m: "w_heap s p = Some m" by (rule w_inv_node [OF I w_inv_held [OF I, of p t]]) (simp add: t)
  have ds: "distinct (swap_after p (w_list s))" using d sw(5) by (metis mset_eq_imp_distinct_iff)
  have ne: "p \<noteq> x" "x \<noteq> c" "p \<noteq> c"
    using succ_of_irrefl [OF ds sw(1)] succ_of_irrefl [OF ds sw(2)] succ_of_irrefl [OF d l(1)] by simp_all
  let ?h = "(w_heap s)(p \<mapsto> m\<lparr>ln_next := Some x\<rparr>)"
  have s': "s' = wgoto t (W_Free_Prev p c x) (s\<lparr>w_heap := ?h, w_list := swap_after p (w_list s)\<rparr>)"
    using st t(2) m by (auto simp: w_move_def w_set_next_def wgoto_def)
  have x: "nxt (w_heap s) x = succ_of (w_list s) x" by (rule w_inv_next [OF I, of x t]) (simp_all add: t)
  have set: "set (swap_after p (w_list s)) = set (w_list s)" using sw(5) by (rule mset_eq_setD)
  show ?thesis unfolding s'
  proof (rule w_inv_write [OF I t(1) _ _ _ m _ refl sw(5,6)])
    have "{p, c, x} \<subseteq> set (w_list s)" using succ_of_set [OF l(1)] succ_of_set [OF l(2)] by simp
    then show "wassert (W_Free_Prev p c x) (swap_after p (w_list s)) ?h"
      using sw(1-3) x ne set by (simp add: wassert_def wknows_def nxt_def)
    show "nxt ?h b = succ_of (swap_after p (w_list s)) b"
      if "b \<in> wheld (W_Free_Prev p c x)" "b \<notin> wstale (W_Free_Prev p c x)" for b
      using that sw(1) by (auto simp: nxt_def)
  qed (use t(2) sw(4,7) in simp_all)
qed

lemma w_move_link_cur:
  assumes I: "w_inv n L0 s" and t: "t < n" "w_thr s t = W_Link_Cur c x" and st: "w_move k dice t s = Some s'"
  shows "w_inv n L0 s'"
proof -
  from w_inv_wknows [OF I, of t] t(2) have l: "succ_of (w_list s) x = Some c" by (simp add: wknows_def)
  have ne: "x \<noteq> c" by (rule succ_of_irrefl [OF w_inv_distinct [OF I] l])
  obtain m where m: "w_heap s c = Some m" by (rule w_inv_node [OF I w_inv_held [OF I, of c t]]) (simp add: t)
  obtain mx where mx: "w_heap s x = Some mx" by (rule w_inv_node [OF I w_inv_held [OF I, of x t]]) (simp add: t)
  have "wassert (w_thr s t) (w_list s) (w_heap s)" using I by (simp add: w_inv_def)
  with t(2) mx have b: "ln_next mx = succ_of (w_list s) c" by (simp add: wassert_def nxt_def)
  let ?h = "(w_heap s)(c \<mapsto> m\<lparr>ln_next := ln_next mx\<rparr>)"
  have s': "s' = wgoto t (W_Free_Cur c x) (s\<lparr>w_heap := ?h, w_list := w_list s\<rparr>)"
    using st t(2) m mx by (simp add: w_move_def w_read_def w_set_next_def wgoto_def)
  show ?thesis unfolding s'
    by (rule w_inv_write [OF I t(1) _ _ _ m _ refl refl refl])
      (use t(2) l succ_of_set [OF l] ne b in \<open>auto simp: wassert_def wknows_def nxt_def\<close>)
qed

lemma w_move_link_next:
  assumes I: "w_inv n L0 s" and t: "t < n" "w_thr s t = W_Link_Next c x" and st: "w_move k dice t s = Some s'"
  shows "w_inv n L0 s'"
proof -
  from w_inv_wknows [OF I, of t] t(2) have l: "succ_of (w_list s) x = Some c" by (simp add: wknows_def)
  obtain m where m: "w_heap s x = Some m" by (rule w_inv_node [OF I w_inv_held [OF I, of x t]]) (simp add: t)
  let ?h = "(w_heap s)(x \<mapsto> m\<lparr>ln_next := Some c\<rparr>)"
  have s': "s' = wgoto t (W_Load x) (s\<lparr>w_heap := ?h, w_list := w_list s\<rparr>)"
    using st t(2) m by (simp add: w_move_def w_set_next_def wgoto_def)
  show ?thesis unfolding s'
    by (rule w_inv_write [OF I t(1) _ _ _ m _ refl refl refl])
      (use t(2) l succ_of_set [OF l] in \<open>auto simp: wassert_def wknows_def nxt_def\<close>)
qed

text \<open>The compare routines.\<close>

lemma strnlen_ok: "NUL \<in> set b \<Longrightarrow> \<exists>sz. strnlen b n = Inr sz"
  by (auto simp: strnlen_def)

lemma w_move_reader:
  assumes I: "w_inv n L0 s" and t: "t < n" and st: "w_move k dice t s = Some s'" and r: "is_reader (w_thr s t)"
  shows "w_inv n L0 s'"
proof -
  have d: "distinct (w_list s)" by (rule w_inv_distinct [OF I])
  have pos: "wpos_ok (w_thr s t) (w_list s) (w_pos s t)" using I by (simp add: w_inv_def)
  have node: "\<exists>m. w_heap s p = Some m \<and> NUL \<in> set (ln_val m) \<and> ln_next m = succ_of (w_list s) p" if p: "p \<in> wheld (w_thr s t)" for p
  proof -
    obtain m where m: "w_heap s p = Some m" "NUL \<in> set (ln_val m)" by (rule w_inv_node [OF I w_inv_held [OF I p]])
    have "p \<notin> wstale (w_thr s t)" using r wstale_writer by blast
    from w_inv_ends [OF I p this m(1)] m show ?thesis by blast
  qed
  show ?thesis
  proof (cases "w_thr s t")
    case (R_Test ty)
    with st show ?thesis
      by (intro w_inv_goto_same [OF I t, where c = "if w_stop s then W_Exit else R_First ty"]) (auto simp: w_move_def wpos_ok_def wknows_def split: if_splits)
  next
    case (R_First ty)
    from I have f: "w_first s = Some (hd (w_list s))" "hd (w_list s) \<in> set (w_list s)" "w_list s ! 0 = hd (w_list s)" "w_list s \<noteq> []"
      by (auto simp: w_inv_def hd_conv_nth)
    with R_First st show ?thesis
      by (intro w_inv_acquire [OF I t f(2), where try_lock = "read_lock k t" and i = 0 and c = "R_Loop ty (hd (w_list s))"])
        (auto simp: w_move_def wpos_ok_def wknows_def)
  next
    case (R_Loop ty p)
    with node [of p] obtain m where m: "w_heap s p = Some m" "ln_next m = succ_of (w_list s) p" by auto
    from R_Loop pos have i: "w_pos s t < length (w_list s)" "w_list s ! w_pos s t = p" by (auto simp: wpos_ok_def)
    with succ_of_nth [OF d i(1)] m have e: "ln_next m = None \<longleftrightarrow> Suc (w_pos s t) = length (w_list s)" by auto
    with R_Loop st m i show ?thesis
      by (intro w_inv_goto_same [OF I t, where c = "if ln_next m = None then R_End ty p else R_Size ty p"])
        (auto simp: w_move_def w_read_def wpos_ok_def wknows_def split: if_splits)
  next
    case (R_Size ty p)
    with node [of p] obtain m where m: "w_heap s p = Some m" "NUL \<in> set (ln_val m)" "ln_next m = succ_of (w_list s) p" by auto
    from w_inv_wknows [OF I, of t] R_Size obtain c where c: "succ_of (w_list s) p = Some c" by (auto simp: wknows_def)
    obtain sz where "strnlen (ln_val m) MAX_STRING_LENGTH = Inr sz" using strnlen_ok [OF m(2)] by blast
    with R_Size st m c pos show ?thesis
      by (intro w_inv_goto_same [OF I t, where c = "R_Lock ty p c sz"]) (auto simp: w_move_def w_read_def wpos_ok_def wknows_def)
  next
    case (R_Lock ty p c sz)
    with w_inv_wknows [OF I, of t] have l: "succ_of (w_list s) p = Some c" by (simp add: wknows_def)
    with succ_of_set [OF l] succ_of_irrefl [OF d l] R_Lock st pos show ?thesis
      by (intro w_inv_acquire_same [OF I t, where try_lock = "read_lock k t" and a = c and c = "R_Pass ty p c sz"]) (auto simp: w_move_def wpos_ok_def wknows_def)
  next
    case (R_Pass ty p c sz)
    with w_inv_wknows [OF I, of t] have l: "succ_of (w_list s) p = Some c" by (simp add: wknows_def)
    from R_Pass pos have i: "w_pos s t < length (w_list s)" "w_list s ! w_pos s t = p" by (auto simp: wpos_ok_def)
    with succ_of_nth [OF d i(1)] l have "Suc (w_pos s t) < length (w_list s)" "w_list s ! Suc (w_pos s t) = c" by (auto split: if_splits)
    with succ_of_irrefl [OF d l] R_Pass st show ?thesis
      by (intro w_inv_release [OF I t, where a = p and i = "w_pos s t + 1" and c = "R_Compare ty c sz"]) (auto simp: w_move_def wpos_ok_def wknows_def)
  next
    case (R_Compare ty c sz)
    with node [of c] obtain m where m: "w_heap s c = Some m" "NUL \<in> set (ln_val m)" by auto
    let ?n = "length (cstr (ln_val m))"
    have "s' = wgoto t (R_Loop ty c) (if wins ty sz ?n then s\<lparr>w_count := (w_count s)(ty := w_count s ty + 1)\<rparr> else s)"
      using st R_Compare m strlen_cstr [OF m(2)] by (simp add: w_move_def w_read_def)
    with R_Compare pos show ?thesis
      by (intro w_inv_goto [OF I t, where c = "R_Loop ty c" and x = "w_swap_count s" and y = "w_swap_iter s" and itr = "w_iter s"
            and cnt = "if wins ty sz ?n then (w_count s)(ty := w_count s ty + 1) else w_count s"]) (auto simp: wpos_ok_def wknows_def)
  next
    case (R_End ty p)
    with st pos show ?thesis
      by (intro w_inv_release_same [OF I t, where a = p and c = "R_Iter ty"]) (auto simp: w_move_def wpos_ok_def wknows_def)
  next
    case (R_Iter ty)
    with st show ?thesis
      by (intro w_inv_goto [OF I t, where c = "R_Test ty" and x = "w_swap_count s" and y = "w_swap_iter s" and cnt = "w_count s"
            and itr = "(w_iter s)(ty := w_iter s ty + 1)"]) (auto simp: w_move_def wpos_ok_def wknows_def)
  qed (use r st in \<open>auto simp: w_move_def\<close>)
qed


lemma w_inv_move:
  assumes I: "w_inv n L0 s" and t: "t < n" and st: "w_move k dice t s = Some s'"
  shows "w_inv n L0 s'"
proof (cases "is_reader (w_thr s t)")
  case True
  with I t st show ?thesis by (rule w_move_reader)
next
  case False
  show ?thesis
  proof (cases "in_exchange (w_thr s t) \<or> at_link (w_thr s t)")
    case True
    with w_move_swap2 [OF I t st] w_move_link_prev [OF I t _ st] w_move_link_cur [OF I t _ st] w_move_link_next [OF I t _ st]
    show ?thesis by (cases "w_thr s t") simp_all
  qed (use w_move_swap1 [OF I t st] False in simp)
qed

lemma w_inv_step: "w_inv n L0 s \<Longrightarrow> w_step k n s s' \<Longrightarrow> w_inv n L0 s'"
proof (erule w_stepE)
  assume "w_inv n L0 s" and "s' = s\<lparr>w_stop := True\<rparr>"
  then show "w_inv n L0 s'" by (simp add: w_inv_def)
qed (rule w_inv_move)

definition start_ok :: "wthread list \<Rightarrow> bool" where
  "start_ok starts \<longleftrightarrow> list_all (\<lambda>c. c = W_Test \<or> c \<in> {R_Test ASC, R_Test DESC, R_Test EQ}) starts"

lemma w_inv_init:
  assumes ok: "list_ok h p L0" "L0 \<noteq> []" and st: "start_ok starts"
  shows "w_inv (length starts) L0 (w_init starts p h L0)"
proof -
  define f where "f = w_thr (w_init starts p h L0)"
  have c: "f t = W_Test \<or> (\<exists>ty. f t = R_Test ty) \<or> f t = W_Exit" for t
    using st by (auto simp: f_def w_init_def start_ok_def list_all_length)
  have z: "wheld (f t) = {}" "wknows (f t) L0" "wborrow (f t) = {}" "wstale (f t) = {}" "wpos_ok (f t) L0 0" for t
    using c [of t] by (auto simp: wknows_def wpos_ok_def)
  from ok have pth: "path ln_next h p L0 None" and d: "dom h = set L0" "\<forall>n \<in> ran h. NUL \<in> set (ln_val n)"
    by (simp_all add: list_ok_def)
  have p: "p = Some (hd L0)" using pth ok(2) by (cases L0) auto
  have "nxt h a = succ_of L0 a" if "a \<in> set L0" for a
    using path_succ_of_iff [OF pth] that by (fastforce simp: nxt_def)
  with d z have "wheap_inv f L0 h" by (simp add: wheap_inv_def)
  moreover have "lock_inv f (\<lambda>_. lock_init)" using z by (simp add: lock_inv_def lock_init_def)
  ultimately have "w_inv (length starts) L0 \<lparr>w_heap = h, w_first = p, w_stop = False, w_lock = (\<lambda>_. lock_init),
     w_thr = f, w_swap_count = 0, w_swap_iter = 0, w_count = (\<lambda>_. 0), w_iter = (\<lambda>_. 0), w_list = L0, w_pos = (\<lambda>_. 0), w_fault = None\<rparr>"
    using z ok(2) p path_distinct [OF pth] by (auto simp: w_inv_def wassert_def f_def w_init_def)
  then show ?thesis by (simp add: f_def w_init_def)
qed

lemma w_inv_reach:
  assumes "list_ok h p L0" "L0 \<noteq> []" "start_ok starts" "reach (w_step k (length starts)) (w_init starts p h L0) s"
  shows "w_inv (length starts) L0 s"
  using assms(4) w_inv_init [OF assms(1-3)] w_inv_step by (rule reach_invariant)

lemma w_inv_path:
  assumes I: "w_inv n L0 s" and q: "\<And>t. wstale (w_thr s t) = {}"
  shows "path ln_next (w_heap s) (w_first s) (w_list s) None"
proof -
  have "\<exists>m. w_heap s a = Some m \<and> ln_next m = succ_of (w_list s) a" if a: "a \<in> set (w_list s)" for a
  proof -
    obtain m where m: "w_heap s a = Some m" by (rule w_inv_node [OF I a])
    moreover have "nxt (w_heap s) a = succ_of (w_list s) a" using I q a by (simp add: w_inv_def wheap_inv_def)
    ultimately show ?thesis by (simp add: nxt_def)
  qed
  then have "path ln_next (w_heap s) (Some (hd (w_list s))) (w_list s) None"
    using I by (intro path_succ_of) (auto simp: w_inv_def)
  then show ?thesis using I by (simp add: w_inv_def)
qed

section \<open>Progress\<close>

definition place :: "addr list \<Rightarrow> addr \<Rightarrow> nat" where
  "place L a = length (takeWhile (\<lambda>x. x \<noteq> a) L)"

lemma place_succ:
  assumes "distinct L" and "succ_of L a = Some b"
  shows "place L b = Suc (place L a)"
proof -
  from succ_of_split [OF assms(2)] obtain us vs where L: "L = us @ a # b # vs" by blast
  with assms(1) have "a \<notin> set us" "b \<notin> set us" "a \<noteq> b" by auto
  with L show ?thesis by (auto simp: place_def takeWhile_append)
qed

lemma lock_free:
  assumes "lock_inv f lk" and "\<And>t. a \<notin> wheld (f t)"
  shows "write_lock t (lk a) \<noteq> None" and "read_lock k t (lk a) \<noteq> None"
proof -
  have "lk_writer (lk a) \<noteq> Some u" "u \<notin> set (lk_readers (lk a))" for u
    using lock_inv_here(1) [OF assms(1), of a u] assms(2) by auto
  then have "lk_writer (lk a) = None" "lk_readers (lk a) = []" by (cases "lk_writer (lk a)"; cases "lk_readers (lk a)"; auto)+
  then show "write_lock t (lk a) \<noteq> None" "read_lock k t (lk a) \<noteq> None"
    by (simp_all add: write_lock_def read_lock_def split: lock_kind.split)
qed

text \<open>The node that a thread waits for.\<close>

fun wtarget :: "ptr \<Rightarrow> wthread \<Rightarrow> ptr" where
  "wtarget f0 (W_Move p c) = Some c" | "wtarget f0 (W_Cur p c) = Some c" | "wtarget f0 (W_Third p c x) = Some x"
| "wtarget f0 (R_Lock ty p c sz) = Some c" | "wtarget f0 W_First = f0" | "wtarget f0 (R_First ty) = f0"
| "wtarget f0 _ = None"

lemma w_move_enabled:
  assumes I: "w_inv n L0 s" and c: "w_thr s t \<noteq> W_Exit"
    and w: "\<And>a u. wtarget (w_first s) (w_thr s t) = Some a \<Longrightarrow> a \<notin> wheld (w_thr s u)"
  shows "\<exists>s'. w_move k dice t s = Some s'"
proof -
  have lk: "lock_inv (w_thr s) (w_lock s)" using I by (simp add: w_inv_def)
  have f: "w_first s = Some (hd (w_list s))" using I by (simp add: w_inv_def)
  have ok: "\<exists>s'. w_acquire (write_lock t) t (Some a) d s0 = Some s'" "\<exists>s'. w_acquire (read_lock k t) t (Some a) d s0 = Some s'"
    if "wtarget (w_first s) (w_thr s t) = Some a" "w_lock s0 = w_lock s" for a d s0
  proof -
    from w [OF that(1)] have "\<And>u. a \<notin> wheld (w_thr s u)" .
    from lock_free(1) [OF lk this, of t] lock_free(2) [OF lk this, of k t] show "\<exists>s'. w_acquire (write_lock t) t (Some a) d s0 = Some s'"
      "\<exists>s'. w_acquire (read_lock k t) t (Some a) d s0 = Some s'"
      using that(2) by (auto simp: w_acquire_def split: sum.split)
  qed
  show ?thesis using c ok f by (cases "w_thr s t") (simp_all add: w_move_def)
qed

lemma wtarget_beyond:
  assumes I: "w_inv n L0 s" and a: "wtarget (w_first s) (w_thr s t) = Some b" "a \<in> wheld (w_thr s t)"
  shows "place (w_list s) a < place (w_list s) b"
proof -
  note d = w_inv_distinct [OF I] and k = w_inv_wknows [OF I, of t]
  show ?thesis
  proof (cases "w_thr s t")
    case (W_Third p c x)
    with k have "place (w_list s) x = Suc (place (w_list s) c)" "place (w_list s) c = Suc (place (w_list s) p)"
      by (auto simp: wknows_def intro!: place_succ [OF d])
    with W_Third a show ?thesis by auto
  qed (use a k place_succ [OF d] in \<open>auto simp: wknows_def\<close>)
qed

lemma w_inv_progress:
  assumes I: "w_inv n L0 s" and t: "w_thr s t \<noteq> W_Exit"
  shows "\<exists>u<n. \<exists>s'. w_move k dice u s = Some s'"
proof -
  have lt: "u < n" if "w_thr s u \<noteq> W_Exit" for u using I that by (auto simp: w_inv_def not_less [symmetric])
  define H where "H = (\<Union>u. wheld (w_thr s u))"
  have fin: "finite H" "H \<subseteq> set (w_list s)" using w_inv_held [OF I] finite_subset by (auto simp: H_def intro: finite_subset [of _ "set (w_list s)"])
  show ?thesis
  proof (cases "H = {}")
    case True
    then have "\<exists>s'. w_move k dice t s = Some s'" by (intro w_move_enabled [OF I t]) (auto simp: H_def)
    with lt [OF t] show ?thesis by blast
  next
    case False
    have "Max (place (w_list s) ` H) \<in> place (w_list s) ` H" using fin(1) False by (intro Max_in) auto
    then obtain a where a: "a \<in> H" "place (w_list s) a = Max (place (w_list s) ` H)" by auto
    have mx: "place (w_list s) b \<le> place (w_list s) a" if "b \<in> H" for b using that fin(1) a(2) by simp
    from a(1) obtain u where u: "a \<in> wheld (w_thr s u)" by (auto simp: H_def)
    then have ne: "w_thr s u \<noteq> W_Exit" by auto
    have "b \<notin> wheld (w_thr s v)" if "wtarget (w_first s) (w_thr s u) = Some b" for b v
      using wtarget_beyond [OF I that u] mx [of b] by (auto simp: H_def)
    then have "\<exists>s'. w_move k dice u s = Some s'" by (rule w_move_enabled [OF I ne])
    with lt [OF ne] show ?thesis by blast
  qed
qed


section \<open>Properties\<close>

text \<open>C4: the threads of \<open>routine.c\<close> never break the list. With any number of swapping and comparing
  threads, any of the three locks and any interleaving, no thread ever follows a null or dangling
  pointer or reads past a string; the nodes in their order are always a permutation of the initial
  ones with the same first node, and while no thread is in the middle of an exchange the pointers in
  memory are exactly that list, which \<open>linked_list_destroy\<close> then frees completely.\<close>

theorem swap_routine_keeps_list:
  assumes "list_ok h p L0" and "L0 \<noteq> []" and "start_ok starts"
    and "reach (w_step k (length starts)) (w_init starts p h L0) s"
  shows "w_fault s = None \<and> mset (w_list s) = mset L0 \<and> w_first s = p \<and>
    ((\<forall>t. wstale (w_thr s t) = {}) \<longrightarrow> path ln_next (w_heap s) p (w_list s) None \<and>
       linked_list_destroy (w_heap s) p = Some (Inr Map.empty))"
proof -
  note I = w_inv_reach [OF assms]
  have first: "w_first s = p"
    using assms(4)
  proof (rule reach_invariant [where I = "\<lambda>s. w_first s = p"])
    show "w_first (w_init starts p h L0) = p" by (simp add: w_init_def)
    fix u v assume "w_first u = p" and "w_step k (length starts) u v"
    then show "w_first v = p"
      by (auto elim!: w_stepE simp: w_move_def w_acquire_def w_release_def w_read_def w_set_next_def wfault_def wgoto_def
          split: wthread.splits option.splits sum.splits if_splits)
  qed
  moreover have "linked_list_destroy (w_heap s) p = Some (Inr Map.empty)" if q: "\<And>t. wstale (w_thr s t) = {}"
  proof -
    have "w_heap s |` (- set (w_list s)) = Map.empty"
      using I by (auto simp: w_inv_def wheap_inv_def restrict_map_def fun_eq_iff)
    with linked_list_destroy_path [OF w_inv_path [OF I q]] I first show ?thesis by (simp add: w_inv_def)
  qed
  ultimately show ?thesis using I w_inv_path [OF I] by (auto simp: w_inv_def)
qed

text \<open>C34: hand-over-hand locking in list order does not deadlock: in every reachable state in which some
  thread has not ended, some thread can make its next step.\<close>

theorem swap_routine_no_deadlock:
  assumes "list_ok h p L0" and "L0 \<noteq> []" and "start_ok starts"
    and "reach (w_step k (length starts)) (w_init starts p h L0) s" and "w_thr s t \<noteq> W_Exit"
  shows "\<exists>u < length starts. \<exists>s'. w_move k dice u s = Some s'"
  by (rule w_inv_progress [OF w_inv_reach [OF assms(1-4)] assms(5)])

text \<open>C35: every pass of a compare routine makes one comparison for each pair of neighbours, \<open>n - 1\<close> for a
  list of \<open>n\<close> nodes, however many threads exchange nodes meanwhile: nobody can carry a node past the
  node that the thread holds.\<close>

theorem compare_pass_complete:
  assumes "list_ok h p L0" and "L0 \<noteq> []" and "start_ok starts"
    and "reach (w_step k (length starts)) (w_init starts p h L0) s" and "w_thr s t = R_Iter ty"
  shows "w_pos s t = length L0 - 1"
proof -
  note I = w_inv_reach [OF assms(1-4)]
  then have "wpos_ok (w_thr s t) (w_list s) (w_pos s t)" "mset (w_list s) = mset L0" by (simp_all add: w_inv_def)
  then have "Suc (w_pos s t) = length (w_list s)" "length (w_list s) = length L0"
    using assms(5) by (auto simp: wpos_ok_def dest: mset_eq_length)
  then show ?thesis by simp
qed


definition swap_demo :: "addr \<rightharpoonup> lnode" where
  "swap_demo = [1 \<mapsto> \<lparr>ln_next = Some 2, ln_val = [NUL]\<rparr>, 2 \<mapsto> \<lparr>ln_next = Some 3, ln_val = [NUL]\<rparr>, 3 \<mapsto> \<lparr>ln_next = None, ln_val = [NUL]\<rparr>]"

lemma swap_demo_ok: "list_ok swap_demo (Some 1) [1, 2, 3]"
  by (auto simp: swap_demo_def list_ok_def ran_def split: if_splits)

lemmas w_eval = w_move_def w_acquire_def w_release_def w_read_def w_set_next_def wgoto_def wfault_def w_init_def
  write_lock_def read_lock_def unlock_def lock_init_def strnlen_def

lemma start_ok_main: "start_ok main_routines"
  by (simp add: start_ok_def main_routines_def)

theorem swap_routine_keeps_list_witness:
  "\<exists>s. reach (w_step USE_MUTEX 1) (w_init [W_Test] (Some 1) swap_demo [1, 2, 3]) s \<and> w_list s = [1, 3, 2] \<and>
     path ln_next (w_heap s) (Some 1) [1, 3, 2] None"
proof -
  let ?r = "w_run USE_MUTEX 1 (replicate 14 (0, True)) (w_init [W_Test] (Some 1) swap_demo [1, 2, 3])"
  have "\<exists>s. ?r = Some s \<and> w_list s = [1, 3, 2] \<and> w_thr s = (\<lambda>_. W_Exit)(0 := W_Loop 3)"
    by (simp add: numeral_eq_Suc w_eval swap_demo_def fun_eq_iff)
  then obtain s where s: "?r = Some s" "w_list s = [1, 3, 2]" "w_thr s = (\<lambda>_. W_Exit)(0 := W_Loop 3)" by blast
  have r: "reach (w_step USE_MUTEX 1) (w_init [W_Test] (Some 1) swap_demo [1, 2, 3]) s" by (rule w_run_reach [OF s(1)])
  have "start_ok [W_Test]" by (simp add: start_ok_def)
  from swap_routine_keeps_list [OF swap_demo_ok _ this, of USE_MUTEX s] r s(2,3)
  have "path ln_next (w_heap s) (Some 1) [1, 3, 2] None" by simp
  with r s(2) show ?thesis by blast
qed

theorem swap_routine_no_deadlock_witness:
  "\<exists>p h. main_list [(5, Some 1), (6, Some 2), (7, Some 3)] = Inr (p, h) \<and>
     (\<exists>u < length main_routines. \<exists>s'. w_move USE_RWLOCK True u (w_init main_routines p h [1, 2, 3]) = Some s')"
proof -
  from main_list_ok [of "[(5, Some 1), (6, Some 2), (7, Some 3)]"] obtain p h where
    h: "main_list [(5, Some 1), (6, Some 2), (7, Some 3)] = Inr (p, h)" "list_ok h p [1, 2, 3]" by auto
  have "w_thr (w_init main_routines p h [1, 2, 3]) 0 \<noteq> W_Exit" by (simp add: w_init_def main_routines_def)
  from swap_routine_no_deadlock [OF h(2) _ start_ok_main reach_refl this] h(1) show ?thesis by auto
qed

theorem compare_pass_complete_witness:
  "\<exists>s. reach (w_step USE_RWLOCK 1) (w_init [R_Test EQ] (Some 1) swap_demo [1, 2, 3]) s \<and> w_thr s 0 = R_Iter EQ \<and>
     w_pos s 0 = length [1::addr, 2, 3] - 1 \<and> w_count s EQ = 2"
proof -
  let ?r = "w_run USE_RWLOCK 1 (replicate 14 (0, True)) (w_init [R_Test EQ] (Some 1) swap_demo [1, 2, 3])"
  have "\<exists>s. ?r = Some s \<and> w_thr s 0 = R_Iter EQ \<and> w_count s EQ = 2"
    by (simp add: numeral_eq_Suc w_eval swap_demo_def wins_def NUL_def MAX_STRING_LENGTH_def)
  then obtain s where s: "?r = Some s" "w_thr s 0 = R_Iter EQ" "w_count s EQ = 2" by blast
  have r: "reach (w_step USE_RWLOCK 1) (w_init [R_Test EQ] (Some 1) swap_demo [1, 2, 3]) s" by (rule w_run_reach [OF s(1)])
  have st: "start_ok [R_Test EQ]" by (simp add: start_ok_def)
  have "w_pos s 0 = length [1::addr, 2, 3] - 1"
    by (rule compare_pass_complete [OF swap_demo_ok _ st _ s(2)]) (use r in simp_all)
  with r s show ?thesis by blast
qed

end
