(* ===== verification/Http.thy ===== *)
theory Http
  imports Common
begin

text \<open>
  Reading a client's request, \<open>lab3/src/http_utils/http_utils.c\<close> and \<open>__recv\<close>, \<open>__validate_request\<close> and
  \<open>__check_response_code\<close> of \<open>lab3/src/handler/handler.c\<close>. The request buffer is a character array of
  4096 cells; the strings of a parsed request are given by their contents. \<open>curl\<close> is not modelled;
  its progress callback is.
\<close>

section \<open>The buffer\<close>

definition HTTP_REQUEST_BYTES_LEN :: nat where "HTTP_REQUEST_BYTES_LEN = 4096"
definition HTTP_PATH_LEN :: nat where "HTTP_PATH_LEN = 512"

text \<open>The other array lengths of \<open>http_request_t\<close>.\<close>

definition HTTP_METHOD_LEN :: nat where "HTTP_METHOD_LEN = 8"
definition HTTP_VERSION_LEN :: nat where "HTTP_VERSION_LEN = 16"
definition HTTP_BODY_LEN :: nat where "HTTP_BODY_LEN = 512"
definition HTTP_HEADER_COUNT :: nat where "HTTP_HEADER_COUNT = 16"
definition HTTP_HEADER_LEN :: nat where "HTTP_HEADER_LEN = 256"

text \<open>\<open>__recv\<close> into the zeroed buffer of \<open>__handle_client\<close>; \<open>None\<close> when \<open>recv\<close> fails.\<close>

definition recv_request :: "string option \<Rightarrow> string option" where
  "recv_request received = (case received of None \<Rightarrow> None
     | Some bytes \<Rightarrow> let got = take (HTTP_REQUEST_BYTES_LEN - 1) bytes
         in Some (got @ replicate (HTTP_REQUEST_BYTES_LEN - length got) NUL))"

text \<open>The string that a pointer into a buffer denotes.\<close>

definition str_at :: "string \<Rightarrow> nat \<Rightarrow> fault + string" where
  "str_at buf p = (if NUL \<in> set (drop p buf) then Inr (cstr (drop p buf)) else Inl Out_Of_Bounds)"

section \<open>__parse_http_request\<close>

record http_request =
  hr_method :: string
  hr_version :: string
  hr_path :: string
  hr_body :: string
  hr_headers :: "string list"

definition is_space :: "char \<Rightarrow> bool" where
  "is_space c \<longleftrightarrow> c \<in> {CHR '' '', CHR 0x09, CHR 0x0A, CHR 0x0B, CHR 0x0C, CHR 0x0D}"

text \<open>The conversion \<open>%<w>s\<close> of \<open>sscanf\<close>: the token and the rest of the input.\<close>

definition scan_token :: "nat \<Rightarrow> string \<Rightarrow> (string \<times> string) option" where
  "scan_token w s = (let s' = dropWhile is_space s; tok = take w (takeWhile (\<lambda>c. \<not> is_space c) s')
     in if tok = [] then None else Some (tok, drop (length tok) s'))"

text \<open>\<open>sscanf(ptr, "%7s %255s %15s", method, path, version)\<close>: it stops at the first conversion that fails.\<close>

definition scan_request_line :: "string \<Rightarrow> http_request \<Rightarrow> http_request" where
  "scan_request_line s r = (case scan_token 7 s of None \<Rightarrow> r
     | Some (m, s1) \<Rightarrow> (case scan_token 255 s1 of None \<Rightarrow> r\<lparr>hr_method := m\<rparr>
       | Some (p, s2) \<Rightarrow> (case scan_token 15 s2 of None \<Rightarrow> r\<lparr>hr_method := m, hr_path := p\<rparr>
         | Some (v, s3) \<Rightarrow> r\<lparr>hr_method := m, hr_path := p, hr_version := v\<rparr>)))"

definition CRLF :: string where "CRLF = [CHR 0x0D, CHR 0x0A]"
definition LF :: string where "LF = [CHR 0x0A]"

definition line_end :: "string \<Rightarrow> nat option" where
  "line_end s = (case strstr CRLF s of Some i \<Rightarrow> Some i | None \<Rightarrow> strstr LF s)"

text \<open>
  The header loop: \<open>k\<close> headers may still be stored (ten in all). A header is cut to 255 characters.
  When the tenth has been stored the loop is left with \<open>ptr\<close> still at it.
\<close>

fun parse_headers :: "string \<Rightarrow> nat \<Rightarrow> nat \<Rightarrow> string list \<Rightarrow> fault + nat \<times> string list" where
  "parse_headers buf 0 p hs = Inr (p, hs)"
| "parse_headers buf (Suc k) p hs = ebind (str_at buf p) (\<lambda>s.
     case line_end s of None \<Rightarrow> Inr (p, hs)
     | Some i \<Rightarrow> (let hs' = hs @ [take (min i 255) s]
         in if k = 0 then Inr (p, hs') else parse_headers buf k (p + i + 2) hs'))"

text \<open>\<open>garbage\<close> is what the allocated block held before.\<close>

definition parse_http_request :: "http_request option \<Rightarrow> string \<Rightarrow> fault + http_request option" where
  "parse_http_request garbage buf = (case garbage of None \<Rightarrow> Inr None
     | Some g \<Rightarrow> ebind (str_at buf 0) (\<lambda>s.
         let (p, r) = (case line_end s of None \<Rightarrow> (0, g) | Some i \<Rightarrow> (i + 2, scan_request_line s g)) in
         ebind (parse_headers buf 10 p []) (\<lambda>(p, hs).
         ebind (str_at buf p) (\<lambda>body.
         Inr (Some (r\<lparr>hr_headers := hs, hr_body := take 511 body\<rparr>))))))"

section \<open>Validation and methods\<close>

definition validate_request :: "http_request option \<Rightarrow> int" where
  "validate_request r = (case r of None \<Rightarrow> -1
     | Some q \<Rightarrow> if (hr_version q \<noteq> ''HTTP/1.0'' \<and> hr_version q \<noteq> ''HTTP/1.1'') \<or> hr_path q = ''http://o.pki.goog/we2'' then -1 else 0)"

definition check_response_code :: "int \<Rightarrow> int" where
  "check_response_code code = (if code \<ge> 200 \<and> code < 300 then 0 else -1)"

datatype http_method = UNDEFINED | GET | POST | PUT | DELETE | HEAD | PATCH

definition parse_method :: "string \<Rightarrow> http_method" where
  "parse_method s = (if s = ''GET'' then GET else if s = ''POST'' then POST else if s = ''PUT'' then PUT
     else if s = ''DELETE'' then DELETE else if s = ''HEAD'' then HEAD else if s = ''PATCH'' then PATCH else UNDEFINED)"

section \<open>The progress callback\<close>

text \<open>
  \<open>xferinfo_callback\<close>: the new \<open>downloaded_quarter\<close> and the percentage it logs, if any. The quotient
  is compared exactly.
\<close>

definition xferinfo_callback :: "int \<Rightarrow> int \<Rightarrow> nat \<Rightarrow> nat \<times> nat option" where
  "xferinfo_callback dltotal dlnow quarter = (if dltotal > 0 then
       (if dlnow \<ge> 0 \<and> quarter = 0 then (1, Some 0)
        else if 100 * dlnow \<ge> 33 * dltotal \<and> quarter < 2 then (2, Some 33)
        else if 100 * dlnow \<ge> 66 * dltotal \<and> quarter < 3 then (3, Some 66)
        else if 100 * dlnow \<ge> 100 * dltotal \<and> quarter < 4 then (4, Some 100)
        else (quarter, None))
     else (quarter, None))"

fun xfer_log :: "(int \<times> int) list \<Rightarrow> nat \<Rightarrow> nat list" where
  "xfer_log [] q = []"
| "xfer_log ((t, n) # es) q = (case xferinfo_callback t n q of (q', m) \<Rightarrow>
     (case m of None \<Rightarrow> xfer_log es q' | Some x \<Rightarrow> x # xfer_log es q'))"

section \<open>Lemmas\<close>

lemma line_end_less: "line_end s = Some i \<Longrightarrow> i < length s"
proof -
  assume "line_end s = Some i"
  then obtain p where "strstr p s = Some i" "p \<noteq> []" by (auto simp: line_end_def CRLF_def LF_def split: option.splits)
  then show "i < length s" using strstr_Some [of p s i] by (cases p) auto
qed

text \<open>Where pointers can go in a buffer that ends with zeros: not past the first cell behind the text.\<close>

lemma str_at_padded:
  assumes "p \<le> length d + 1" "2 \<le> k"
  shows "\<exists>s. str_at (d @ replicate k NUL) p = Inr s \<and> (p + length s \<le> length d \<or> s = [])"
proof (cases "p \<le> length d")
  case True
  then have e: "drop p (d @ replicate k NUL) = drop p d @ replicate k NUL" by simp
  have "length (cstr (xs @ replicate k NUL)) \<le> length xs" for xs
    using assms(2) by (induction xs) (auto simp: cstr_def neq0_conv gr0_conv_Suc)
  then have "length (cstr (drop p (d @ replicate k NUL))) \<le> length d - p" unfolding e by (metis length_drop)
  then show ?thesis using True assms(2) by (auto simp: str_at_def e)
next
  case False
  then have p: "p = length d + 1" using assms(1) by simp
  have "drop p (d @ replicate k NUL) = replicate (k - 1) NUL" unfolding p by simp
  then show ?thesis using assms(2) by (cases "k - 1") (auto simp: str_at_def)
qed

lemma parse_headers_safe:
  assumes "p \<le> length d + 1" "2 \<le> z" "k + length hs \<le> 10" "\<forall>h\<in>set hs. length h \<le> 255"
  shows "\<exists>p' hs'. parse_headers (d @ replicate z NUL) k p hs = Inr (p', hs') \<and> p' \<le> length d + 1 \<and>
    length hs' \<le> 10 \<and> (\<forall>h\<in>set hs'. length h \<le> 255)"
  using assms
proof (induction k arbitrary: p hs)
  case (Suc k)
  obtain s where s: "str_at (d @ replicate z NUL) p = Inr s" "p + length s \<le> length d \<or> s = []"
    using str_at_padded [OF Suc.prems(1,2)] by blast
  show ?case
  proof (cases "line_end s")
    case (Some i)
    have i: "i < length s" using line_end_less [OF Some] .
    then have "p + i + 2 \<le> length d + 1" using s(2) by auto
    then show ?thesis
      using Suc.IH [of "p + i + 2" "hs @ [take (min i 255) s]"] Suc.prems s Some by (auto simp: Let_def)
  qed (use Suc.prems s in auto)
qed auto

lemma str_at_text:
  assumes "NUL \<notin> set t" "0 < z"
  shows "str_at (pre @ t @ replicate z NUL) (length pre) = Inr t"
proof -
  have "cstr (t @ NUL # r) = t" for r using assms(1) by (induction t) auto
  then have "cstr (t @ replicate z NUL) = t" using assms(2) by (cases z) auto
  then show ?thesis using assms by (simp add: str_at_def)
qed

lemma strstr_absent: "c \<in> set p \<Longrightarrow> c \<notin> set s \<Longrightarrow> strstr p s = None"
  by (induction s) (auto simp: starts_with_append, metis UnCI set_append set_ConsD)

lemma line_end_line: "CHR 0x0D \<notin> set h \<Longrightarrow> line_end (h @ CRLF @ r) = Some (length h)"
proof -
  assume h: "CHR 0x0D \<notin> set h"
  have "strstr CRLF (h @ CRLF @ r) = Some (length h)"
  proof (rule strstr_first, intro allI impI notI)
    fix i assume i: "i < length h" "starts_with CRLF (drop i (h @ CRLF @ r))"
    then have "drop i h \<noteq> []" "hd (drop i h) = CHR 0x0D" by (auto simp: starts_with_append CRLF_def append_eq_Cons_conv)
    then have "CHR 0x0D \<in> set (drop i h)" by (metis hd_in_set)
    with h show False by (meson in_set_dropD)
  qed
  then show ?thesis by (simp add: line_end_def)
qed

lemma line_end_none: "CHR 0x0A \<notin> set s \<Longrightarrow> line_end s = None"
  using strstr_absent [of "CHR 0x0A" CRLF s] strstr_absent [of "CHR 0x0A" LF s] by (simp add: line_end_def CRLF_def LF_def)

definition line_ok :: "string \<Rightarrow> bool" where
  "line_ok h \<longleftrightarrow> NUL \<notin> set h \<and> CHR 0x0D \<notin> set h \<and> length h \<le> 255"

definition lines_text :: "string list \<Rightarrow> string" where "lines_text ls = concat (map (\<lambda>h. h @ CRLF) ls)"

lemma lines_text_simps [simp]: "lines_text [] = []" "lines_text (h # ls) = h @ CRLF @ lines_text ls"
  by (simp_all add: lines_text_def)

lemma lines_no_NUL: "list_all line_ok ls \<Longrightarrow> NUL \<notin> set (lines_text ls)"
  by (induction ls) (auto simp: line_ok_def CRLF_def NUL_def)

lemma parse_headers_lines:
  assumes "list_all line_ok ls" "NUL \<notin> set body" "CHR 0x0A \<notin> set body" "0 < z" "length ls < k"
  shows "parse_headers (pre @ lines_text ls @ body @ replicate z NUL) k (length pre) hs = Inr (length pre + length (lines_text ls), hs @ ls)"
  using assms
proof (induction ls arbitrary: pre k hs)
  case Nil
  then obtain k' where k: "k = Suc k'" by (cases k) auto
  show ?case using str_at_text [OF Nil.prems(2,4), of pre] line_end_none [OF Nil.prems(3)] k by simp
next
  case (Cons h ls)
  then obtain k' where k: "k = Suc k'" "length ls < k'" by (cases k) auto
  let ?t = "h @ CRLF @ lines_text ls @ body"
  have n: "NUL \<notin> set ?t" using Cons.prems(1,2) lines_no_NUL [of ls] by (auto simp: line_ok_def [of h] CRLF_def NUL_def)
  have s: "str_at (pre @ ?t @ replicate z NUL) (length pre) = Inr ?t" by (rule str_at_text [OF n Cons.prems(4)])
  have e: "line_end ?t = Some (length h)" using Cons.prems(1) by (intro line_end_line) (simp add: line_ok_def)
  have "parse_headers ((pre @ h @ CRLF) @ lines_text ls @ body @ replicate z NUL) k' (length (pre @ h @ CRLF)) (hs @ [h]) =
      Inr (length (pre @ h @ CRLF) + length (lines_text ls), (hs @ [h]) @ ls)"
    using Cons.prems k by (intro Cons.IH) auto
  moreover have "length (pre @ h @ CRLF) = length pre + length h + 2" by (simp add: CRLF_def)
  moreover have "take (min (length h) 255) ?t = h" using Cons.prems(1) by (simp add: line_ok_def)
  ultimately show ?case using k s e by (simp add: Let_def CRLF_def)
qed

lemma scan_token_word:
  assumes "w \<noteq> []" "\<forall>c\<in>set w. \<not> is_space c" "length w \<le> n" "is_space c"
  shows "scan_token n (w @ c # r) = Some (w, c # r)" "scan_token n (CHR '' '' # w @ c # r) = Some (w, c # r)"
proof -
  have t: "takeWhile (\<lambda>c. \<not> is_space c) (w @ c # r) = w" using assms by (simp add: takeWhile_tail)
  have d: "dropWhile is_space (w @ c # r) = w @ c # r" using assms by (cases w) auto
  show "scan_token n (w @ c # r) = Some (w, c # r)"
    unfolding scan_token_def Let_def d t using assms(1,3) by (simp add: take_all)
  then show "scan_token n (CHR '' '' # w @ c # r) = Some (w, c # r)" by (simp add: scan_token_def is_space_def)
qed

definition word_ok :: "nat \<Rightarrow> string \<Rightarrow> bool" where
  "word_ok n w \<longleftrightarrow> w \<noteq> [] \<and> (\<forall>c\<in>set w. \<not> is_space c \<and> c \<noteq> NUL) \<and> length w \<le> n"

lemma scan_request_line_words:
  assumes "word_ok 7 m" "word_ok 255 p" "word_ok 15 v"
  shows "scan_request_line (m @ '' '' @ p @ '' '' @ v @ CRLF @ r) g = g\<lparr>hr_method := m, hr_path := p, hr_version := v\<rparr>"
proof -
  have sp: "is_space CHR '' ''" "is_space CHR 0x0D" by (simp_all add: is_space_def)
  have "scan_token 7 (m @ '' '' @ p @ '' '' @ v @ CRLF @ r) = Some (m, '' '' @ p @ '' '' @ v @ CRLF @ r)"
    using assms(1) scan_token_word(1) [of m 7 "CHR '' ''"] sp by (simp add: word_ok_def)
  moreover have "scan_token 255 ('' '' @ p @ '' '' @ v @ CRLF @ r) = Some (p, '' '' @ v @ CRLF @ r)"
    using assms(2) scan_token_word(2) [of p 255 "CHR '' ''"] sp by (simp add: word_ok_def)
  moreover have "scan_token 15 ('' '' @ v @ CRLF @ r) = Some (v, CRLF @ r)"
    using assms(3) scan_token_word(2) [of v 15 "CHR 0x0D"] sp by (simp add: word_ok_def CRLF_def)
  ultimately show ?thesis by (simp add: scan_request_line_def)
qed

lemma word_ok_chars: "word_ok n w \<Longrightarrow> NUL \<notin> set w \<and> CHR 0x0D \<notin> set w"
  by (auto simp: word_ok_def is_space_def)

lemma parse_request_text:
  assumes "word_ok 7 m" "word_ok 255 p" "word_ok 15 v" "list_all line_ok hs" "length hs \<le> 8"
    and "NUL \<notin> set body" "CHR 0x0A \<notin> set body"
    and "req = m @ '' '' @ p @ '' '' @ v @ CRLF @ lines_text (hs @ [[]]) @ body" "length req < HTTP_REQUEST_BYTES_LEN"
  shows "\<exists>buf. recv_request (Some req) = Some buf \<and> parse_http_request (Some g) buf = Inr (Some
    \<lparr>hr_method = m, hr_version = v, hr_path = p, hr_body = take 511 body, hr_headers = hs @ [[]]\<rparr>)"
proof -
  let ?line = "m @ '' '' @ p @ '' '' @ v" and ?ls = "hs @ [[]]"
  let ?z = "HTTP_REQUEST_BYTES_LEN - length req"
  let ?buf = "req @ replicate ?z NUL"
  have z: "0 < ?z" using assms(9) by simp
  have ls: "list_all line_ok ?ls" using assms(4) by (simp add: line_ok_def)
  have req: "req = ?line @ CRLF @ lines_text ?ls @ body" using assms(8) by simp
  have n: "NUL \<notin> set req" unfolding req
    using lines_no_NUL [OF ls] assms(6) word_ok_chars [OF assms(1)] word_ok_chars [OF assms(2)] word_ok_chars [OF assms(3)] by (auto simp: CRLF_def NUL_def)
  have s: "str_at ?buf 0 = Inr req" using str_at_text [OF n z, of "[]"] by simp
  have e: "line_end req = Some (length ?line)" unfolding req
    using line_end_line [of ?line] word_ok_chars [OF assms(1)] word_ok_chars [OF assms(2)] word_ok_chars [OF assms(3)] by simp
  have sc: "scan_request_line req g = g\<lparr>hr_method := m, hr_path := p, hr_version := v\<rparr>"
    using scan_request_line_words [OF assms(1-3)] assms(8) by simp
  have H: "parse_headers ((?line @ CRLF) @ lines_text ?ls @ body @ replicate ?z NUL) 10 (length (?line @ CRLF)) [] =
      Inr (length (?line @ CRLF) + length (lines_text ?ls), [] @ ?ls)"
    by (rule parse_headers_lines [OF ls assms(6,7) z]) (use assms(5) in simp)
  have B: "str_at ((?line @ CRLF @ lines_text ?ls) @ body @ replicate ?z NUL) (length (?line @ CRLF @ lines_text ?ls)) = Inr body"
    by (rule str_at_text [OF assms(6) z])
  have eq: "(?line @ CRLF) @ lines_text ?ls @ body @ replicate ?z NUL = ?buf" "(?line @ CRLF @ lines_text ?ls) @ body @ replicate ?z NUL = ?buf"
    using req by simp_all
  have len: "length (?line @ CRLF) = length ?line + 2" "length (?line @ CRLF) + length (lines_text ?ls) = length (?line @ CRLF @ lines_text ?ls)"
    by (simp_all add: CRLF_def)
  have H': "parse_headers ?buf 10 (length ?line + 2) [] = Inr (length (?line @ CRLF @ lines_text ?ls), ?ls)"
    using H unfolding eq(1) len(1) len(2) [symmetric] by simp
  have B': "str_at ?buf (length (?line @ CRLF @ lines_text ?ls)) = Inr body" using B unfolding eq(2) .
  have "parse_http_request (Some g) ?buf = Inr (Some (g\<lparr>hr_method := m, hr_path := p, hr_version := v, hr_headers := ?ls, hr_body := take 511 body\<rparr>))"
    unfolding parse_http_request_def using s e sc H' B' by (simp only: option.case ebind.simps prod.case Let_def)
  moreover have "recv_request (Some req) = Some ?buf" using assms(9) by (simp add: recv_request_def Let_def)
  ultimately show ?thesis by (cases g) auto
qed

text \<open>The strings of a request fit the arrays of \<open>http_request_t\<close>, with their terminators.\<close>

definition request_wf :: "http_request \<Rightarrow> bool" where
  "request_wf r \<longleftrightarrow> length (hr_method r) \<le> 7 \<and> length (hr_path r) \<le> 255 \<and> length (hr_version r) \<le> 15 \<and> NUL \<notin> set (hr_path r) \<and>
     length (hr_headers r) \<le> 10 \<and> (\<forall>h\<in>set (hr_headers r). length h \<le> 255) \<and> length (hr_body r) \<le> 511"

lemma scan_token_wf: "scan_token w s = Some (t, s') \<Longrightarrow> length t \<le> w \<and> set t \<subseteq> set s \<and> set s' \<subseteq> set s"
  by (auto simp: scan_token_def Let_def split: if_splits dest!: in_set_takeD in_set_dropD set_takeWhileD dest: set_dropWhileD)

lemma scan_request_line_wf:
  assumes "request_wf g" "NUL \<notin> set s"
  shows "request_wf (scan_request_line s g)"
proof -
  have t: "length t \<le> w \<and> NUL \<notin> set t \<and> NUL \<notin> set s''" if "scan_token w s' = Some (t, s'')" "NUL \<notin> set s'" for w s' t s''
    using scan_token_wf [OF that(1)] that(2) by blast
  show ?thesis using assms unfolding scan_request_line_def request_wf_def
    by (auto split: option.split dest!: t)
qed

lemma parse_request_safe:
  assumes "length bytes \<le> 4094"
  shows "\<exists>buf s r hs b. recv_request (Some bytes) = Some buf \<and> NUL \<notin> set s \<and> (r = g \<or> r = scan_request_line s g) \<and>
    parse_http_request (Some g) buf = Inr (Some (r\<lparr>hr_headers := hs, hr_body := take 511 b\<rparr>)) \<and>
    length hs \<le> 10 \<and> (\<forall>h\<in>set hs. length h \<le> 255)"
proof -
  let ?z = "4096 - length bytes"
  let ?buf = "bytes @ replicate ?z NUL"
  have z: "2 \<le> ?z" using assms by simp
  have buf: "recv_request (Some bytes) = Some ?buf" using assms by (simp add: recv_request_def HTTP_REQUEST_BYTES_LEN_def Let_def)
  obtain s where s: "str_at ?buf 0 = Inr s" "0 + length s \<le> length bytes \<or> s = []" using str_at_padded [OF _ z, of 0 bytes] by auto
  have n: "NUL \<notin> set s" using s(1) by (auto simp: str_at_def cstr_def split: if_splits dest: set_takeWhileD)
  obtain p r where pr: "(case line_end s of None \<Rightarrow> (0, g) | Some i \<Rightarrow> (i + 2, scan_request_line s g)) = (p, r)" by (metis surj_pair)
  have p: "p \<le> length bytes + 1" using pr s(2) line_end_less [of s] by (auto split: option.splits)
  have w: "r = g \<or> r = scan_request_line s g" using pr by (auto split: option.splits)
  obtain p' hs where h: "parse_headers ?buf 10 p [] = Inr (p', hs)" "p' \<le> length bytes + 1" "length hs \<le> 10" "\<forall>h\<in>set hs. length h \<le> 255"
    using parse_headers_safe [OF p z, of 10 "[]"] by auto
  obtain b where b: "str_at ?buf p' = Inr b" using str_at_padded [OF h(2) z] by blast
  have "parse_http_request (Some g) ?buf = Inr (Some (r\<lparr>hr_headers := hs, hr_body := take 511 b\<rparr>))"
    unfolding parse_http_request_def using s(1) pr h(1) b by (simp only: option.case ebind.simps prod.case Let_def)
  then show ?thesis using buf h(3,4) w n by blast
qed

lemma parse_request_wf:
  assumes "length bytes \<le> 4094" "request_wf g"
  shows "\<exists>buf r. recv_request (Some bytes) = Some buf \<and> parse_http_request (Some g) buf = Inr (Some r) \<and> request_wf r"
proof -
  obtain buf s r hs b where p: "recv_request (Some bytes) = Some buf" "NUL \<notin> set s" "r = g \<or> r = scan_request_line s g"
    "parse_http_request (Some g) buf = Inr (Some (r\<lparr>hr_headers := hs, hr_body := take 511 b\<rparr>))" "length hs \<le> 10" "\<forall>h\<in>set hs. length h \<le> 255"
    using parse_request_safe [OF assms(1)] by blast
  then have "request_wf r" using scan_request_line_wf [OF assms(2)] assms(2) by blast
  then have "request_wf (r\<lparr>hr_headers := hs, hr_body := take 511 b\<rparr>)" using p(5,6) by (simp add: request_wf_def)
  with p(1,4) show ?thesis by blast
qed

text \<open>
  What \<open>sscanf\<close> stores fits its arrays with the terminating zero; what it does not store is what the
  block held before.
\<close>

definition scanned_fits :: "http_request \<Rightarrow> http_request \<Rightarrow> bool" where
  "scanned_fits g r \<longleftrightarrow> (hr_method r = hr_method g \<or> length (hr_method r) < HTTP_METHOD_LEN) \<and>
     (hr_path r = hr_path g \<or> length (hr_path r) < HTTP_PATH_LEN) \<and>
     (hr_version r = hr_version g \<or> length (hr_version r) < HTTP_VERSION_LEN)"

lemma scan_request_line_fits: "scanned_fits g (scan_request_line s g)"
proof -
  have t: "length t \<le> w" if "scan_token w s' = Some (t, s'')" for w s' t s''
    using scan_token_wf [OF that] by simp
  show ?thesis
    unfolding scan_request_line_def scanned_fits_def HTTP_METHOD_LEN_def HTTP_PATH_LEN_def HTTP_VERSION_LEN_def
    by (auto split: option.split dest!: t)
qed

section \<open>Properties\<close>

text \<open>C29: What is read of a request that a client sends in the plain form: a request line with a method of 1
  to 7, a path of 1 to 255 and a version of 1 to 15 characters, none of them white space, at most eight headers of at
  most 255 characters and without carriage returns, an empty line, and a body without line feeds, with
  no zero bytes and in fewer than 4096 bytes in all. \<open>parse_http_request\<close> on the buffer filled by \<open>__recv\<close> returns the
  method, the path and the version as written, the headers in order and then the empty line as one more,
  empty header, and the first 511 characters of the body.\<close>

theorem parse_http_request_roundtrip:
  assumes "word_ok 7 m" "word_ok 255 p" "word_ok 15 v" "list_all line_ok hs" "length hs \<le> 8"
    and "NUL \<notin> set body" "CHR 0x0A \<notin> set body"
    and "req = m @ '' '' @ p @ '' '' @ v @ CRLF @ lines_text (hs @ [[]]) @ body" "length req < HTTP_REQUEST_BYTES_LEN"
  shows "\<exists>buf. recv_request (Some req) = Some buf \<and> parse_http_request (Some g) buf = Inr (Some
    \<lparr>hr_method = m, hr_version = v, hr_path = p, hr_body = take 511 body, hr_headers = hs @ [[]]\<rparr>)"
  using assms by (rule parse_request_text)

theorem parse_http_request_roundtrip_witness:
  "\<exists>buf. recv_request (Some (''GET http://a/ HTTP/1.0'' @ CRLF @ ''Host: a'' @ CRLF @ CRLF @ ''x'')) = Some buf \<and>
    parse_http_request (Some \<lparr>hr_method = [], hr_version = [], hr_path = [], hr_body = [], hr_headers = []\<rparr>) buf = Inr (Some
      \<lparr>hr_method = ''GET'', hr_version = ''HTTP/1.0'', hr_path = ''http://a/'', hr_body = ''x'', hr_headers = [''Host: a'', []]\<rparr>)"
  using parse_http_request_roundtrip [of "''GET''" "''http://a/''" "''HTTP/1.0''" "[''Host: a'']" "''x''" _ "\<lparr>hr_method = [], hr_version = [], hr_path = [], hr_body = [], hr_headers = []\<rparr>"]
  by (simp add: word_ok_def is_space_def line_ok_def NUL_def CRLF_def HTTP_REQUEST_BYTES_LEN_def)

text \<open>C32: Parsing stays in bounds: when at most 4094 bytes were received, whatever they are and whatever the
  allocated block held, \<open>parse_http_request\<close> reads only the request buffer, and all it stores fits the
  arrays of \<open>http_request_t\<close> with a terminating zero: the method, the path and the version (each left
  as it was when \<open>sscanf\<close> does not reach it), at most ten headers, and the body.\<close>

theorem parse_http_request_in_bounds:
  assumes "length bytes \<le> 4094"
  shows "\<exists>buf r. recv_request (Some bytes) = Some buf \<and> parse_http_request (Some g) buf = Inr (Some r) \<and>
    (hr_method r = hr_method g \<or> length (hr_method r) < HTTP_METHOD_LEN) \<and>
    (hr_path r = hr_path g \<or> length (hr_path r) < HTTP_PATH_LEN) \<and>
    (hr_version r = hr_version g \<or> length (hr_version r) < HTTP_VERSION_LEN) \<and>
    length (hr_headers r) \<le> 10 \<and> length (hr_headers r) \<le> HTTP_HEADER_COUNT \<and>
    (\<forall>h\<in>set (hr_headers r). length h < HTTP_HEADER_LEN) \<and> length (hr_body r) < HTTP_BODY_LEN"
proof -
  obtain buf s r hs b where p: "recv_request (Some bytes) = Some buf" "r = g \<or> r = scan_request_line s g"
    "length hs \<le> 10" "\<forall>h\<in>set hs. length h \<le> 255"
    "parse_http_request (Some g) buf = Inr (Some (r\<lparr>hr_headers := hs, hr_body := take 511 b\<rparr>))"
    using parse_request_safe [OF assms] by blast
  have "scanned_fits g g" by (simp add: scanned_fits_def)
  then have "scanned_fits g r" using p(2) scan_request_line_fits by blast
  then show ?thesis using p(1,3-)
    by (intro exI [of _ buf] exI [of _ "r\<lparr>hr_headers := hs, hr_body := take 511 b\<rparr>"])
      (auto simp: scanned_fits_def HTTP_HEADER_COUNT_def HTTP_HEADER_LEN_def HTTP_BODY_LEN_def)
qed

theorem parse_http_request_in_bounds_witness:
  "\<exists>buf r. recv_request (Some ''GET'') = Some buf \<and>
    parse_http_request (Some \<lparr>hr_method = [], hr_version = [], hr_path = [], hr_body = [], hr_headers = []\<rparr>) buf = Inr (Some r)"
  using parse_http_request_in_bounds [of "''GET''" "\<lparr>hr_method = [], hr_version = [], hr_path = [], hr_body = [], hr_headers = []\<rparr>"] by auto

text \<open>With 4095 bytes, the last of them a line feed that ends the request line, the parser steps over the
  terminating zero and reads outside the buffer: it skips two characters for a line end of one.\<close>

theorem parse_http_request_overread:
  assumes "length bytes = 4094" "NUL \<notin> set bytes" "CHR 0x0A \<notin> set bytes" "CHR 0x0D \<notin> set bytes"
  shows "\<exists>buf. recv_request (Some (bytes @ LF)) = Some buf \<and> parse_http_request (Some g) buf = Inl Out_Of_Bounds"
proof -
  let ?d = "bytes @ LF" and ?buf = "(bytes @ LF) @ replicate 1 NUL"
  have n: "NUL \<notin> set ?d" using assms(2) by (simp add: LF_def NUL_def)
  have s: "str_at ?buf 0 = Inr ?d" using str_at_text [OF n, of 1 "[]"] by simp
  have "strstr CRLF ?d = None" by (rule strstr_absent [of "CHR 0x0D"]) (use assms(4) in \<open>auto simp: CRLF_def LF_def\<close>)
  moreover have "strstr LF (bytes @ LF @ []) = Some (length bytes)"
  proof (rule strstr_first, intro allI impI notI)
    fix i assume i: "i < length bytes" "starts_with LF (drop i (bytes @ LF @ []))"
    then have "drop i bytes \<noteq> []" "hd (drop i bytes) = CHR 0x0A" by (auto simp: starts_with_append LF_def append_eq_Cons_conv)
    then have "CHR 0x0A \<in> set (drop i bytes)" by (metis hd_in_set)
    with assms(3) show False by (meson in_set_dropD)
  qed
  ultimately have e: "line_end ?d = Some 4094" using assms(1) by (simp add: line_end_def)
  have "parse_headers ?buf 10 4096 [] = Inl Out_Of_Bounds" using assms(1) by (simp add: eval_nat_numeral str_at_def LF_def)
  then have "parse_http_request (Some g) ?buf = Inl Out_Of_Bounds"
    unfolding parse_http_request_def using s e by simp
  moreover have "recv_request (Some ?d) = Some ?buf" using assms(1) by (simp add: recv_request_def HTTP_REQUEST_BYTES_LEN_def Let_def LF_def)
  ultimately show ?thesis by blast
qed

theorem parse_http_request_overread_witness:
  "\<exists>buf. recv_request (Some (replicate 4094 CHR ''A'' @ LF)) = Some buf \<and>
    parse_http_request (Some \<lparr>hr_method = [], hr_version = [], hr_path = [], hr_body = [], hr_headers = []\<rparr>) buf = Inl Out_Of_Bounds"
  by (rule parse_http_request_overread) (simp_all add: NUL_def)

text \<open>The message that goes with a new value of \<open>downloaded_quarter\<close>.\<close>

definition quarter_msg :: "nat \<Rightarrow> nat" where
  "quarter_msg q = (if q \<le> 1 then 0 else if q = 2 then 33 else if q = 3 then 66 else 100)"

lemma quarter_msg_mono: "0 < q \<Longrightarrow> q < q' \<Longrightarrow> q' \<le> 4 \<Longrightarrow> quarter_msg q < quarter_msg q'"
  by (auto simp: quarter_msg_def)

lemma xfer_step:
  assumes "xferinfo_callback t n q = (q', m)" "q \<le> 4"
  shows "m = None \<and> q' = q \<or> m = Some (quarter_msg q') \<and> q < q' \<and> q' \<le> 4"
  using assms by (auto simp: xferinfo_callback_def quarter_msg_def split: if_splits)

lemma xfer_log_later:
  "q \<le> 4 \<Longrightarrow> x \<in> set (xfer_log es q) \<Longrightarrow> \<exists>q'. q < q' \<and> q' \<le> 4 \<and> x = quarter_msg q'"
proof (induction es arbitrary: q)
  case (Cons e es)
  obtain t n where e: "e = (t, n)" by (cases e)
  obtain q' m where c: "xferinfo_callback t n q = (q', m)" by (cases "xferinfo_callback t n q")
  from xfer_step [OF c Cons.prems(1)] show ?case
  proof
    assume "m = None \<and> q' = q"
    then show ?thesis using Cons c e by auto
  next
    assume m: "m = Some (quarter_msg q') \<and> q < q' \<and> q' \<le> 4"
    then have "x = quarter_msg q' \<or> x \<in> set (xfer_log es q')" using Cons.prems(2) c e by simp
    then show ?thesis using Cons.IH [of q'] m by (metis less_trans)
  qed
qed simp

text \<open>The progress log is monotone: whatever \<open>curl\<close> reports, each of the messages 0, 33, 66 and 100 percent is
  logged at most once and in increasing order.\<close>

theorem xfer_log_monotone: "sorted_wrt (<) (xfer_log es 0)"
proof -
  have "q \<le> 4 \<Longrightarrow> sorted_wrt (<) (xfer_log es q)" for q
  proof (induction es arbitrary: q)
    case (Cons e es)
    obtain t n where e: "e = (t, n)" by (cases e)
    obtain q' m where c: "xferinfo_callback t n q = (q', m)" by (cases "xferinfo_callback t n q")
    from xfer_step [OF c Cons.prems] show ?case
    proof
      assume "m = None \<and> q' = q" then show ?thesis using Cons c e by simp
    next
      assume m: "m = Some (quarter_msg q') \<and> q < q' \<and> q' \<le> 4"
      then have "quarter_msg q' < x" if "x \<in> set (xfer_log es q')" for x
        using xfer_log_later [OF _ that] quarter_msg_mono [of q'] by fastforce
      then show ?thesis using Cons.IH [of q'] m c e by simp
    qed
  qed simp
  then show ?thesis by simp
qed

end
