(* ===== verification/Dll.thy ===== *)
theory Dll
  imports Prelude
begin

text \<open>
  Doubly linked lists: \<open>dll nx pv h p f as l q\<close> holds when the nodes \<open>as\<close> of heap \<open>h\<close>, read from
  \<open>f\<close> along \<open>nx\<close>, end at \<open>q\<close>, and read from \<open>l\<close> along \<open>pv\<close>, end at \<open>p\<close>. The chunk container, the
  subscriber list and the tasks of the proxy are such lists with \<open>p = q = NULL\<close>.
\<close>

fun dll :: "('n \<Rightarrow> ptr) \<Rightarrow> ('n \<Rightarrow> ptr) \<Rightarrow> (addr \<rightharpoonup> 'n) \<Rightarrow> ptr \<Rightarrow> ptr \<Rightarrow> addr list \<Rightarrow> ptr \<Rightarrow> ptr \<Rightarrow> bool" where
  "dll nx pv h p f [] l q \<longleftrightarrow> f = q \<and> l = p"
| "dll nx pv h p f (a # as) l q \<longleftrightarrow> f = Some a \<and> (\<exists>n. h a = Some n \<and> pv n = p \<and> dll nx pv h (Some a) (nx n) as l q)"

lemma dll_append:
  "dll nx pv h p f (as @ bs) l q \<longleftrightarrow> (\<exists>m g. dll nx pv h p f as m g \<and> dll nx pv h m g bs l q)"
  by (induction as arbitrary: p f) auto

lemma dll_path: "dll nx pv h p f as l q \<Longrightarrow> path nx h f as q"
  by (induction as arbitrary: p f) auto

lemma dll_dom: "dll nx pv h p f as l q \<Longrightarrow> set as \<subseteq> dom h"
  using dll_path path_dom by metis

lemma dll_distinct: "dll nx pv h p f as l None \<Longrightarrow> distinct as"
  using dll_path path_distinct by metis

lemma dll_cong: "dll nx pv h p f as l q \<Longrightarrow> (\<And>a. a \<in> set as \<Longrightarrow> h' a = h a) \<Longrightarrow> dll nx pv h' p f as l q"
  by (induction as arbitrary: p f) auto

lemma dll_cong_links:
  "dll nx pv h p f as l q \<Longrightarrow> (\<And>a n. a \<in> set as \<Longrightarrow> h a = Some n \<Longrightarrow> \<exists>k. h' a = Some k \<and> nx k = nx n \<and> pv k = pv n)
   \<Longrightarrow> dll nx pv h' p f as l q"
  by (induction as arbitrary: p f) fastforce+

lemma dll_last: "dll nx pv h p f as l q \<Longrightarrow> l = (if as = [] then p else Some (last as))"
  by (induction as arbitrary: p f) auto

lemma dll_first: "dll nx pv h p f as l q \<Longrightarrow> f = (if as = [] then q else Some (hd as))"
  by (cases as) auto

lemma dll_snoc:
  "dll nx pv h p f (as @ [a]) l q \<longleftrightarrow>
     l = Some a \<and> (\<exists>n m. h a = Some n \<and> pv n = m \<and> nx n = q \<and> dll nx pv h p f as m (Some a))"
  by (auto simp: dll_append)

text \<open>Read backwards, the list is the reverse one.\<close>

lemma dll_rev: "dll nx pv h p f as l q \<Longrightarrow> path pv h l (rev as) p"
  by (induction as arbitrary: p f) (auto simp: path_append)

lemma dll_set_next:
  assumes "dll nx pv h p f (as @ [z]) l q" "h z = Some n" "z \<notin> set as" "pv n' = pv n" "nx n' = q'"
  shows "dll nx pv (h(z \<mapsto> n')) p f (as @ [z]) l q'"
proof -
  have "dll nx pv (h(z \<mapsto> n')) p f as (pv n) (Some z)"
    by (rule dll_cong [of nx pv h]) (use assms in \<open>auto simp: dll_snoc\<close>)
  then show ?thesis using assms by (simp add: dll_snoc)
qed

lemma dll_set_prev:
  assumes "dll nx pv h p f (z # as) l q" "h z = Some n" "z \<notin> set as" "pv n' = p'" "nx n' = nx n"
  shows "dll nx pv (h(z \<mapsto> n')) p' f (z # as) l q"
proof -
  have "dll nx pv (h(z \<mapsto> n')) (Some z) (nx n) as l q"
    by (rule dll_cong [of nx pv h]) (use assms in auto)
  then show ?thesis using assms by simp
qed

text \<open>Linking a fresh node \<open>b\<close> behind the last one.\<close>

lemma dll_link_last:
  assumes d: "dll nx pv h None f as l None" and b: "h b = None"
    and n: "nx n = None" "pv n = l"
    and m: "\<And>z m. as \<noteq> [] \<Longrightarrow> h (last as) = Some m \<Longrightarrow> pv (m' m) = pv m \<and> nx (m' m) = Some b"
    and h': "h' = (if as = [] then h else h(last as \<mapsto> m' (the (h (last as)))))(b \<mapsto> n)"
  shows "dll nx pv h' None (if as = [] then Some b else f) (as @ [b]) (Some b) None"
proof (cases as rule: rev_cases)
  case Nil
  then show ?thesis using assms by simp
next
  case (snoc xs z)
  have bn: "b \<notin> set as" using dll_dom [OF d] b by auto
  have dz: "z \<notin> set xs" using dll_distinct [OF d] snoc by simp
  obtain k where k: "h z = Some k" using d snoc by (auto simp: dll_append)
  have "dll nx pv (h(z \<mapsto> m' k)) None f (xs @ [z]) l (Some b)"
    by (rule dll_set_next [OF d [unfolded snoc] k dz]) (use m k snoc in auto)
  then have "dll nx pv h' None f (xs @ [z]) l (Some b)"
    by (rule dll_cong) (use h' k snoc bn in auto)
  moreover have "h' b = Some n" using h' by simp
  ultimately show ?thesis using n snoc by (simp add: dll_snoc [of _ _ _ _ _ "xs @ [z]"] del: append_assoc)
qed

lemma distinct_neighbours:
  assumes "distinct (xs @ a # ys)"
  shows "xs \<noteq> [] \<Longrightarrow> last xs \<notin> set ys \<and> last xs \<noteq> a" "ys \<noteq> [] \<Longrightarrow> hd ys \<notin> set xs \<and> hd ys \<noteq> a"
proof -
  show "xs \<noteq> [] \<Longrightarrow> last xs \<notin> set ys \<and> last xs \<noteq> a" using assms by (cases xs rule: rev_cases) auto
  show "ys \<noteq> [] \<Longrightarrow> hd ys \<notin> set xs \<and> hd ys \<noteq> a" using assms by (cases ys) auto
qed

text \<open>Taking node \<open>a\<close> out: its neighbours are linked to each other.\<close>

lemma dll_remove:
  assumes D: "dll nx pv h None f (xs @ a # ys) l None" and n: "h a = Some n"
    and fr: "\<And>b. b \<noteq> a \<Longrightarrow> (xs \<noteq> [] \<Longrightarrow> b \<noteq> last xs) \<Longrightarrow> (ys \<noteq> [] \<Longrightarrow> b \<noteq> hd ys) \<Longrightarrow> h' b = h b"
    and L: "\<And>k. xs \<noteq> [] \<Longrightarrow> h (last xs) = Some k \<Longrightarrow> \<exists>k'. h' (last xs) = Some k' \<and> pv k' = pv k \<and> nx k' = nx n"
    and R: "\<And>k. ys \<noteq> [] \<Longrightarrow> h (hd ys) = Some k \<Longrightarrow> \<exists>k'. h' (hd ys) = Some k' \<and> pv k' = pv n \<and> nx k' = nx k"
  shows "dll nx pv h' None (if xs = [] then nx n else f) (xs @ ys) (if ys = [] then pv n else l) None"
proof -
  have d: "distinct (xs @ a # ys)" using D by (rule dll_distinct)
  from D n have X: "dll nx pv h None f xs (pv n) (Some a)" and Y: "dll nx pv h (Some a) (nx n) ys l None"
    by (auto simp: dll_append)
  have "dll nx pv h' None (if xs = [] then nx n else f) xs (pv n) (nx n)"
  proof (cases xs rule: rev_cases)
    case Nil then show ?thesis using X by simp
  next
    case (snoc zs z)
    with X obtain k where k: "pv n = Some z" "h z = Some k" "dll nx pv h None f zs (pv k) (Some z)" by (auto simp: dll_snoc)
    moreover obtain k' where "h' z = Some k'" "pv k' = pv k" "nx k' = nx n" using L [of k] k snoc by auto
    moreover have "dll nx pv h' None f zs (pv k) (Some z)"
      using d snoc hd_in_set [of ys] by (intro dll_cong [OF k(3)] fr) auto
    ultimately show ?thesis using snoc by (auto simp: dll_snoc)
  qed
  moreover have "dll nx pv h' (pv n) (nx n) ys (if ys = [] then pv n else l) None"
  proof (cases ys)
    case Nil then show ?thesis using Y by simp
  next
    case (Cons y ws)
    with Y obtain k where k: "nx n = Some y" "h y = Some k" "dll nx pv h (Some y) (nx k) ws l None" by auto
    moreover obtain k' where "h' y = Some k'" "pv k' = pv n" "nx k' = nx k" using R [of k] k Cons by auto
    moreover have "dll nx pv h' (Some y) (nx k) ws l None"
      using d Cons distinct_neighbours(1) [OF d] by (intro dll_cong [OF k(3)] fr) auto
    ultimately show ?thesis using Cons by auto
  qed
  ultimately show ?thesis unfolding dll_append by (intro exI conjI)
qed

end
