(* ===== verification/Chunk.thy ===== *)
theory Chunk
  imports Dll
begin

text \<open>
  The container of response chunks, \<open>lab3/src/chunk/chunk.c\<close>: a doubly linked list of chunks with
  consecutive indices. The data block that a chunk owns is kept inside the chunk (it is allocated,
  and freed, together with it, by a second \<open>malloc\<close> whose success is an argument). Counts and
  indices are natural numbers: a \<open>size_t\<close> does not wrap before \<open>2^64\<close> chunks.
\<close>

section \<open>Data and operations\<close>

record 'b chunk =
  ck_index :: nat
  ck_element_size :: nat
  ck_size :: nat
  ck_next :: ptr
  ck_prev :: ptr
  ck_data :: "'b list"

record 'b chunk_container =
  cc_first :: ptr
  cc_last :: ptr
  cc_count :: nat
  cc_heap :: "addr \<rightharpoonup> 'b chunk"

definition create_chunk_container :: "bool \<Rightarrow> 'b chunk_container option" where
  "create_chunk_container malloc_succeeds =
     (if malloc_succeeds then Some \<lparr>cc_first = None, cc_last = None, cc_count = 0, cc_heap = Map.empty\<rparr> else None)"

text \<open>
  \<open>__add_chunk\<close>. \<open>new_chunk\<close> is the result of the first \<open>malloc\<close>; \<open>data\<close> is the buffer passed
  (\<open>None\<close>: \<open>NULL\<close>), of which \<open>memcpy\<close> reads \<open>element_size * size\<close> bytes.
\<close>

definition container_add_chunk ::
  "ptr \<Rightarrow> bool \<Rightarrow> 'b list option \<Rightarrow> nat \<Rightarrow> nat \<Rightarrow> 'b chunk_container \<Rightarrow> fault + 'b chunk_container"
where
  "container_add_chunk new_chunk data_malloc data element_size sz c =
     (case data of None \<Rightarrow> Inr c | Some d \<Rightarrow>
      if sz = 0 then Inr c else
      case new_chunk of None \<Rightarrow> Inr c | Some a \<Rightarrow>
      ebind (case cc_last c of None \<Rightarrow> Inr 0 | Some l \<Rightarrow> ebind (load (cc_heap c) (Some l)) (\<lambda>n. Inr (ck_index n + 1))) (\<lambda>index.
      if \<not> data_malloc then Inr c else
      if length d < element_size * sz then Inl Out_Of_Bounds else
      (let new = \<lparr>ck_index = index, ck_element_size = element_size, ck_size = sz, ck_next = None, ck_prev = cc_last c,
                  ck_data = take (element_size * sz) d\<rparr> in
       ebind (case cc_last c of
           None \<Rightarrow> Inr (c\<lparr>cc_first := Some a\<rparr>)
         | Some l \<Rightarrow> ebind (store (cc_heap c) (Some l) (ck_next_update (\<lambda>_. Some a))) (\<lambda>h. Inr (c\<lparr>cc_heap := h\<rparr>)))
         (\<lambda>c. Inr (c\<lparr>cc_last := Some a, cc_count := cc_count c + 1, cc_heap := (cc_heap c)(a \<mapsto> new)\<rparr>)))))"

text \<open>What is left in the heap after \<open>free_chunk_container\<close>.\<close>

definition free_chunk_container :: "'b chunk_container \<Rightarrow> (fault + (addr \<rightharpoonup> 'b chunk)) option" where
  "free_chunk_container c = free_chain ck_next (cc_heap c) (cc_first c)"

partial_function (option) get_chunk_loop ::
  "(addr \<rightharpoonup> 'b chunk) \<Rightarrow> bool \<Rightarrow> nat \<Rightarrow> ptr \<Rightarrow> (fault + ptr) option" where
  "get_chunk_loop h forward index current = (case current of None \<Rightarrow> Some (Inl Null_Deref)
     | Some a \<Rightarrow> (case h a of None \<Rightarrow> Some (Inl (Bad_Addr a))
         | Some n \<Rightarrow> if ck_index n \<noteq> index
             then get_chunk_loop h forward index (if forward then ck_next n else ck_prev n)
             else Some (Inr current)))"

definition get_chunk :: "'b chunk_container \<Rightarrow> nat \<Rightarrow> (fault + ptr) option" where
  "get_chunk c index = (if cc_count c \<le> index then Some (Inr None)
     else let forward = index < cc_count c div 2
          in get_chunk_loop (cc_heap c) forward index (if forward then cc_first c else cc_last c))"

section \<open>Representation\<close>

text \<open>\<open>cc_rep c as ds\<close>: the container holds the chunks at \<open>as\<close>, in order, with contents \<open>ds\<close>.\<close>

definition chunk_at :: "(addr \<rightharpoonup> 'b chunk) \<Rightarrow> addr list \<Rightarrow> 'b list list \<Rightarrow> nat \<Rightarrow> bool" where
  "chunk_at h as ds i \<longleftrightarrow> (\<exists>n. h (as ! i) = Some n \<and> ck_index n = i \<and> ck_data n = ds ! i \<and>
     length (ds ! i) = ck_element_size n * ck_size n)"

definition cc_rep :: "'b chunk_container \<Rightarrow> addr list \<Rightarrow> 'b list list \<Rightarrow> bool" where
  "cc_rep c as ds \<longleftrightarrow> dll ck_next ck_prev (cc_heap c) None (cc_first c) as (cc_last c) None \<and>
     length ds = length as \<and> cc_count c = length as \<and> dom (cc_heap c) = set as \<and>
     (\<forall>i<length as. chunk_at (cc_heap c) as ds i)"

lemma cc_rep_create: "create_chunk_container True = Some c \<Longrightarrow> cc_rep c [] []"
  by (auto simp: create_chunk_container_def cc_rep_def)

lemma container_add_noop:
  "data = None \<or> sz = 0 \<or> new_chunk = None \<Longrightarrow> container_add_chunk new_chunk b data es sz c = Inr c"
  by (auto simp: container_add_chunk_def split: option.splits)

lemma container_add_chunk_rep:
  assumes rep: "cc_rep c as ds" and a: "cc_heap c a = None" and sz: "sz \<noteq> 0" and d: "es * sz \<le> length d"
  shows "\<exists>c'. container_add_chunk (Some a) True (Some d) es sz c = Inr c' \<and>
    cc_rep c' (as @ [a]) (ds @ [take (es * sz) d])"
proof -
  let ?h = "cc_heap c" and ?d = "take (es * sz) d"
  have D: "dll ck_next ck_prev ?h None (cc_first c) as (cc_last c) None" and len: "length ds = length as" "cc_count c = length as"
    and dm: "dom ?h = set as" and at: "\<And>i. i < length as \<Longrightarrow> chunk_at ?h as ds i"
    using rep by (auto simp: cc_rep_def)
  have l: "cc_last c = (if as = [] then None else Some (last as))" using dll_last [OF D] .
  have aas: "a \<notin> set as" using dm a by blast
  let ?n = "\<lparr>ck_index = length as, ck_element_size = es, ck_size = sz, ck_next = None, ck_prev = cc_last c, ck_data = ?d\<rparr>"
  let ?h' = "(if as = [] then ?h else ?h(last as \<mapsto> (the (?h (last as)))\<lparr>ck_next := Some a\<rparr>))(a \<mapsto> ?n)"
  let ?c' = "c\<lparr>cc_first := (if as = [] then Some a else cc_first c), cc_last := Some a, cc_count := cc_count c + 1, cc_heap := ?h'\<rparr>"
  have r: "container_add_chunk (Some a) True (Some d) es sz c = Inr ?c'"
  proof (cases as rule: rev_cases)
    case Nil
    then show ?thesis using sz d l by (simp add: container_add_chunk_def)
  next
    case (snoc xs z)
    then obtain m where m: "?h z = Some m" "ck_index m = length xs"
      using at [of "length xs"] by (auto simp: chunk_at_def nth_append)
    then show ?thesis using sz d l snoc by (simp add: container_add_chunk_def)
  qed
  have D': "dll ck_next ck_prev ?h' None (if as = [] then Some a else cc_first c) (as @ [a]) (Some a) None"
    by (rule dll_link_last [OF D a, where n = ?n and m' = "\<lambda>m. m\<lparr>ck_next := Some a\<rparr>"]) simp_all
  have at': "chunk_at ?h' (as @ [a]) (ds @ [?d]) i" if i: "i < length (as @ [a])" for i
  proof (cases "i < length as")
    case True
    then have "as ! i \<noteq> a" using aas by auto
    then show ?thesis using at [OF True] True len by (auto simp: chunk_at_def nth_append)
  next
    case False
    then have "i = length as" using i by simp
    then show ?thesis using len d by (simp add: chunk_at_def nth_append)
  qed
  have dm': "dom ?h' = set (as @ [a])" using dm by auto
  have "cc_rep ?c' (as @ [a]) (ds @ [?d])" unfolding cc_rep_def using D' at' dm' len by simp
  with r show ?thesis by blast
qed

text \<open>The two walks of \<open>get_chunk\<close>, towards the node with the wanted index.\<close>

lemma get_chunk_forward:
  assumes "path ck_next h p as None" "k < length as"
    and "\<And>i. i < length as \<Longrightarrow> \<exists>n. h (as ! i) = Some n \<and> ck_index n = j + i"
  shows "get_chunk_loop h True (j + k) p = Some (Inr (Some (as ! k)))"
  using assms
proof (induction as arbitrary: p j k)
  case (Cons a as)
  from Cons.prems(1) obtain n where n: "p = Some a" "h a = Some n" "path ck_next h (ck_next n) as None" by auto
  have j: "ck_index n = j" using Cons.prems(3) [of 0] n by simp
  show ?case
  proof (cases k)
    case 0 then show ?thesis using n j by (subst get_chunk_loop.simps) simp
  next
    case (Suc k')
    have "get_chunk_loop h True (Suc j + k') (ck_next n) = Some (Inr (Some (as ! k')))"
    proof (rule Cons.IH)
      fix i assume "i < length as"
      then show "\<exists>n. h (as ! i) = Some n \<and> ck_index n = Suc j + i" using Cons.prems(3) [of "Suc i"] by simp
    qed (use n Suc Cons.prems in simp_all)
    then show ?thesis using n j Suc by (subst get_chunk_loop.simps) simp
  qed
qed simp

lemma get_chunk_backward:
  assumes "path ck_prev h p (rev as) None" "k < length as"
    and "\<And>i. i < length as \<Longrightarrow> \<exists>n. h (as ! i) = Some n \<and> ck_index n = i"
  shows "get_chunk_loop h False k p = Some (Inr (Some (as ! k)))"
  using assms
proof (induction as arbitrary: p rule: rev_induct)
  case (snoc a as)
  from snoc.prems(1) obtain n where n: "p = Some a" "h a = Some n" "path ck_prev h (ck_prev n) (rev as) None" by auto
  have j: "ck_index n = length as" using snoc.prems(3) [of "length as"] n by simp
  show ?case
  proof (cases "k = length as")
    case True then show ?thesis using n j by (subst get_chunk_loop.simps) simp
  next
    case False
    then have k: "k < length as" using snoc.prems(2) by simp
    have "get_chunk_loop h False k (ck_prev n) = Some (Inr (Some (as ! k)))"
    proof (rule snoc.IH [OF n(3) k])
      fix i assume "i < length as"
      then show "\<exists>n. h (as ! i) = Some n \<and> ck_index n = i" using snoc.prems(3) [of i] by (simp add: nth_append)
    qed
    then show ?thesis using n j k by (subst get_chunk_loop.simps) (simp add: nth_append)
  qed
qed simp

lemma get_chunk_rep:
  assumes "cc_rep c as ds"
  shows "get_chunk c i = Some (Inr (if i < length as then Some (as ! i) else None))"
proof -
  have D: "dll ck_next ck_prev (cc_heap c) None (cc_first c) as (cc_last c) None" and len: "cc_count c = length as"
    and at: "\<And>i. i < length as \<Longrightarrow> \<exists>n. cc_heap c (as ! i) = Some n \<and> ck_index n = i"
    using assms by (auto simp: cc_rep_def chunk_at_def)
  show ?thesis
    using get_chunk_forward [OF dll_path [OF D], of i 0] get_chunk_backward [OF dll_rev [OF D], of i] at len
    by (simp add: get_chunk_def Let_def)
qed

end
