(* ===== verification/Subscription.thy ===== *)
theory Subscription
  imports Chunk
begin

text \<open>
  The subscription manager of one cached response, \<open>lab3/src/chunk/subscription.c\<close>: the list of the
  clients that wait for the response (doubly linked, owned by the manager), the chunks received so
  far, and a mutex that is not recursive. The operations here are those one thread performs;
  \<open>sm_locked\<close> says that it holds \<open>manager->lock\<close>, \<open>sb_locked\<close> that it holds the lock of a subscriber, and
  locking one of these again is \<open>Self_Deadlock\<close>. The
  concurrent sending of chunks is the subject of the theory \<open>Broadcast\<close>.
\<close>

section \<open>Data\<close>

record subscriber =
  sb_fd :: int
  sb_chunk_loaded :: nat
  sb_next :: ptr
  sb_prev :: ptr
  sb_locked :: bool

record 'b subscription_manager =
  sm_is_busy :: bool
  sm_flag :: int
  sm_subscribers_count :: int
  sm_first_subscriber :: ptr
  sm_last_subscriber :: ptr
  sm_subs :: "addr \<rightharpoonup> subscriber"
  sm_container :: "'b chunk_container"
  sm_locked :: bool
  sm_closed :: "int list"   \<comment> \<open>ghost: the descriptors closed by \<open>unsubscribe\<close>\<close>

definition manager_lock :: "'b subscription_manager \<Rightarrow> fault + 'b subscription_manager" where
  "manager_lock m = (if sm_locked m then Inl Self_Deadlock else Inr (m\<lparr>sm_locked := True\<rparr>))"

definition manager_unlock :: "'b subscription_manager \<Rightarrow> 'b subscription_manager" where
  "manager_unlock m = m\<lparr>sm_locked := False\<rparr>"

definition subscriber_lock :: "ptr \<Rightarrow> 'b subscription_manager \<Rightarrow> fault + 'b subscription_manager" where
  "subscriber_lock p m = ebind (load (sm_subs m) p) (\<lambda>n.
     if sb_locked n then Inl Self_Deadlock
     else ebind (store (sm_subs m) p (sb_locked_update (\<lambda>_. True))) (\<lambda>h. Inr (m\<lparr>sm_subs := h\<rparr>)))"

definition subscriber_unlock :: "ptr \<Rightarrow> 'b subscription_manager \<Rightarrow> fault + 'b subscription_manager" where
  "subscriber_unlock p m = ebind (store (sm_subs m) p (sb_locked_update (\<lambda>_. False))) (\<lambda>h. Inr (m\<lparr>sm_subs := h\<rparr>))"

section \<open>Operations\<close>

definition create_subscription_manager :: "bool \<Rightarrow> bool \<Rightarrow> 'b subscription_manager option" where
  "create_subscription_manager manager_malloc container_malloc = (if \<not> manager_malloc then None
     else case create_chunk_container container_malloc of None \<Rightarrow> None
     | Some c \<Rightarrow> Some \<lparr>sm_is_busy = False, sm_flag = 0, sm_subscribers_count = 0, sm_first_subscriber = None,
         sm_last_subscriber = None, sm_subs = Map.empty, sm_container = c, sm_locked = False, sm_closed = []\<rparr>)"

text \<open>The result of \<open>subscribe\<close> is its return value and the manager; \<open>p\<close> is the result of \<open>malloc\<close>.\<close>

definition subscribe :: "ptr \<Rightarrow> int \<Rightarrow> 'b subscription_manager \<Rightarrow> fault + int \<times> 'b subscription_manager" where
  "subscribe p fd m = ebind (manager_lock m) (\<lambda>m.
     case p of None \<Rightarrow> Inr (-1, m)
     | Some a \<Rightarrow>
       (let new = \<lparr>sb_fd = fd, sb_chunk_loaded = 0, sb_next = None, sb_prev = sm_last_subscriber m, sb_locked = False\<rparr> in
        ebind (if sm_first_subscriber m = None then Inr (m\<lparr>sm_first_subscriber := Some a\<rparr>)
               else ebind (store (sm_subs m) (sm_last_subscriber m) (sb_next_update (\<lambda>_. Some a))) (\<lambda>h. Inr (m\<lparr>sm_subs := h\<rparr>)))
          (\<lambda>m. Inr (0, manager_unlock (m\<lparr>sm_last_subscriber := Some a, sm_subs := (sm_subs m)(a \<mapsto> new),
             sm_subscribers_count := sm_subscribers_count m + 1\<rparr>)))))"

text \<open>Taking the subscriber out of the list, between the two halves of \<open>unsubscribe\<close>.\<close>

definition unlink_subscriber :: "ptr \<Rightarrow> ptr \<Rightarrow> 'b subscription_manager \<Rightarrow> fault + 'b subscription_manager" where
  "unlink_subscriber next prev m =
     (if next = None \<and> prev = None then Inr (m\<lparr>sm_first_subscriber := None, sm_last_subscriber := None\<rparr>)
      else ebind (if next = None
             then ebind (store (sm_subs m) prev (sb_next_update (\<lambda>_. None))) (\<lambda>h. Inr (m\<lparr>sm_last_subscriber := prev, sm_subs := h\<rparr>))
             else ebind (store (sm_subs m) next (sb_prev_update (\<lambda>_. prev))) (\<lambda>h. Inr (m\<lparr>sm_subs := h\<rparr>)))
        (\<lambda>m. if prev = None
             then ebind (store (sm_subs m) next (sb_prev_update (\<lambda>_. None))) (\<lambda>h. Inr (m\<lparr>sm_first_subscriber := next, sm_subs := h\<rparr>))
             else ebind (store (sm_subs m) prev (sb_next_update (\<lambda>_. next))) (\<lambda>h. Inr (m\<lparr>sm_subs := h\<rparr>))))"

definition unsubscribe :: "ptr \<Rightarrow> 'b subscription_manager \<Rightarrow> fault + 'b subscription_manager" where
  "unsubscribe subscriber m = ebind (manager_lock m) (\<lambda>m.
     ebind (load (sm_subs m) subscriber) (\<lambda>n.
     ebind (unlink_subscriber (sb_next n) (sb_prev n) m) (\<lambda>m.
     ebind (subscriber_lock subscriber m) (\<lambda>m.
     ebind (subscriber_unlock subscriber (m\<lparr>sm_closed := sm_closed m @ [sb_fd n]\<rparr>)) (\<lambda>m.
     ebind (release (sm_subs m) subscriber) (\<lambda>h.
     Inr (manager_unlock (m\<lparr>sm_subs := h, sm_subscribers_count := sm_subscribers_count m - 1\<rparr>))))))))"

text \<open>The loop of \<open>finish_pending_chunks\<close> and of \<open>destroy_subscription_manager\<close>.\<close>

partial_function (option) unsubscribe_all ::
  "'b subscription_manager \<Rightarrow> ptr \<Rightarrow> (fault + 'b subscription_manager) option" where
  "unsubscribe_all m subscriber = (case subscriber of None \<Rightarrow> Some (Inr m)
     | Some a \<Rightarrow> (case sm_subs m a of None \<Rightarrow> Some (Inl (Bad_Addr a))
         | Some n \<Rightarrow> (case unsubscribe subscriber m of Inl e \<Rightarrow> Some (Inl e)
             | Inr m' \<Rightarrow> unsubscribe_all m' (sb_next n))))"

definition finish_pending_chunks :: "'b subscription_manager \<Rightarrow> (fault + 'b subscription_manager) option" where
  "finish_pending_chunks m = unsubscribe_all m (sm_first_subscriber m)"

text \<open>\<open>destroy_subscription_manager\<close>: the heaps that are left, of subscribers and of chunks.\<close>

definition destroy_subscription_manager ::
  "'b subscription_manager \<Rightarrow> (fault + (addr \<rightharpoonup> subscriber) \<times> (addr \<rightharpoonup> 'b chunk)) option" where
  "destroy_subscription_manager m = (case manager_lock m of Inl e \<Rightarrow> Some (Inl e)
     | Inr m \<Rightarrow> (case free_chunk_container (sm_container m) of None \<Rightarrow> None
       | Some (Inl e) \<Rightarrow> Some (Inl e)
       | Some (Inr h) \<Rightarrow> (case unsubscribe_all m (sm_first_subscriber m) of None \<Rightarrow> None
         | Some (Inl e) \<Rightarrow> Some (Inl e)
         | Some (Inr m) \<Rightarrow> Some (Inr (sm_subs m, h)))))"

section \<open>The list of subscribers\<close>

definition subs_free :: "(addr \<rightharpoonup> subscriber) \<Rightarrow> bool" where
  "subs_free h \<longleftrightarrow> (\<forall>a n. h a = Some n \<longrightarrow> \<not> sb_locked n)"

lemma subs_freeD: "subs_free h \<Longrightarrow> h a = Some n \<Longrightarrow> \<not> sb_locked n"
  by (simp add: subs_free_def)

lemma subs_free_empty [simp]: "subs_free Map.empty"
  by (simp add: subs_free_def)

definition sm_rep :: "'b subscription_manager \<Rightarrow> addr list \<Rightarrow> bool" where
  "sm_rep m as \<longleftrightarrow> dll sb_next sb_prev (sm_subs m) None (sm_first_subscriber m) as (sm_last_subscriber m) None \<and>
     sm_subscribers_count m = int (length as) \<and> dom (sm_subs m) = set as \<and> \<not> sm_locked m \<and>
     subs_free (sm_subs m)"

text \<open>What a subscriber has, apart from its links.\<close>

definition sub_info :: "'b subscription_manager \<Rightarrow> addr \<Rightarrow> (int \<times> nat) option" where
  "sub_info m a = map_option (\<lambda>n. (sb_fd n, sb_chunk_loaded n)) (sm_subs m a)"

lemma subscribe_rep:
  assumes rep: "sm_rep m as" and a: "sm_subs m a = None"
  shows "\<exists>m'. subscribe (Some a) fd m = Inr (0, m') \<and> sm_rep m' (as @ [a]) \<and> sm_container m' = sm_container m \<and>
    sm_closed m' = sm_closed m \<and> sm_is_busy m' = sm_is_busy m \<and> sm_flag m' = sm_flag m \<and>
    sub_info m' = (sub_info m)(a \<mapsto> (fd, 0))"
proof -
  let ?h = "sm_subs m"
  have D: "dll sb_next sb_prev ?h None (sm_first_subscriber m) as (sm_last_subscriber m) None"
    and R: "sm_subscribers_count m = int (length as)" "dom ?h = set as" "\<not> sm_locked m" "subs_free ?h" using rep by (auto simp: sm_rep_def)
  let ?n = "\<lparr>sb_fd = fd, sb_chunk_loaded = 0, sb_next = None, sb_prev = sm_last_subscriber m, sb_locked = False\<rparr>"
  let ?h' = "(if as = [] then ?h else ?h(last as \<mapsto> (the (?h (last as)))\<lparr>sb_next := Some a\<rparr>))(a \<mapsto> ?n)"
  let ?m' = "m\<lparr>sm_first_subscriber := (if as = [] then Some a else sm_first_subscriber m), sm_last_subscriber := Some a,
    sm_subs := ?h', sm_subscribers_count := sm_subscribers_count m + 1, sm_locked := False\<rparr>"
  have D': "dll sb_next sb_prev ?h' None (if as = [] then Some a else sm_first_subscriber m) (as @ [a]) (Some a) None"
    by (rule dll_link_last [OF D a, where n = ?n and m' = "\<lambda>m. m\<lparr>sb_next := Some a\<rparr>"]) simp_all
  have la: "as \<noteq> [] \<Longrightarrow> \<exists>k. ?h (last as) = Some k \<and> last as \<noteq> a" using R(2) a last_in_set [of as] by (metis domD domIff)
  have r: "subscribe (Some a) fd m = Inr (0, ?m')"
    using dll_first [OF D] dll_last [OF D] R(3) la
    by (cases "as = []") (auto simp: subscribe_def manager_lock_def manager_unlock_def)
  have "dom ?h' = set (as @ [a])" using R(2) last_in_set [of as] by auto
  moreover have "subs_free ?h'" using R(4) la by (cases "as = []") (auto simp: subs_free_def)
  ultimately have "sm_rep ?m' (as @ [a])" using D' R by (simp add: sm_rep_def)
  moreover have "sub_info ?m' = (sub_info m)(a \<mapsto> (fd, 0))"
    using la by (cases "as = []") (auto simp: sub_info_def fun_eq_iff)
  ultimately show ?thesis using r by auto
qed

lemma subscribe_oom: "\<not> sm_locked m \<Longrightarrow> subscribe None fd m = Inr (-1, m\<lparr>sm_locked := True\<rparr>)"
  by (simp add: subscribe_def manager_lock_def)

lemma subscribe_held: "sm_locked m \<Longrightarrow> subscribe p fd m = Inl Self_Deadlock \<and> unsubscribe q m = Inl Self_Deadlock"
  by (simp add: subscribe_def unsubscribe_def manager_lock_def)

lemma neighbours:
  assumes D: "dll nx pv h None f (xs @ a # ys) l None" and n: "h a = Some n"
  shows "pv n = (if xs = [] then None else Some (last xs))" "nx n = (if ys = [] then None else Some (hd ys))"
proof -
  from D n have X: "dll nx pv h None f xs (pv n) (Some a)" and Y: "dll nx pv h (Some a) (nx n) ys l None"
    by (auto simp: dll_append)
  show "pv n = (if xs = [] then None else Some (last xs))" "nx n = (if ys = [] then None else Some (hd ys))"
    using dll_last [OF X] dll_first [OF Y] .
qed

text \<open>The heap after the unlinking: only the links of the two neighbours change.\<close>

definition unlinked :: "(addr \<rightharpoonup> subscriber) \<Rightarrow> ptr \<Rightarrow> ptr \<Rightarrow> (addr \<rightharpoonup> subscriber)" where
  "unlinked h next prev = (\<lambda>b. map_option (\<lambda>k.
     let k1 = (if next = Some b then k\<lparr>sb_prev := prev\<rparr> else k)
     in if prev = Some b then k1\<lparr>sb_next := next\<rparr> else k1) (h b))"

lemma unlink_subscriber_result:
  assumes "\<And>b. nxt = Some b \<Longrightarrow> sm_subs m b \<noteq> None" "\<And>b. prev = Some b \<Longrightarrow> sm_subs m b \<noteq> None" "nxt = None \<or> nxt \<noteq> prev"
  shows "unlink_subscriber nxt prev m = Inr (m\<lparr>sm_subs := unlinked (sm_subs m) nxt prev,
     sm_first_subscriber := if prev = None then nxt else sm_first_subscriber m,
     sm_last_subscriber := if nxt = None then prev else sm_last_subscriber m\<rparr>)"
proof -
  have id: "unlinked h None None = h" for h by (auto simp: unlinked_def fun_eq_iff option.map_ident)
  show ?thesis
  proof (cases nxt)
    case None
    show ?thesis
    proof (cases prev)
      case None with \<open>nxt = None\<close> show ?thesis by (simp add: unlink_subscriber_def id)
    next
      case (Some b)
      with assms(2) obtain k where k: "sm_subs m b = Some k" by blast
      have "unlinked (sm_subs m) None (Some b) = (sm_subs m)(b \<mapsto> k\<lparr>sb_next := None\<rparr>)"
        using k by (auto simp: unlinked_def fun_eq_iff option.map_ident)
      then show ?thesis using Some None k by (simp add: unlink_subscriber_def)
    qed
  next
    case (Some a)
    with assms(1) obtain k where k: "sm_subs m a = Some k" by blast
    show ?thesis
    proof (cases prev)
      case None
      have "unlinked (sm_subs m) (Some a) None = (sm_subs m)(a \<mapsto> k\<lparr>sb_prev := None\<rparr>)"
        using k by (auto simp: unlinked_def fun_eq_iff option.map_ident)
      then show ?thesis using Some None k by (simp add: unlink_subscriber_def)
    next
      case (Some b)
      with assms(2) obtain j where j: "sm_subs m b = Some j" by blast
      have ab: "a \<noteq> b" using assms(3) Some \<open>nxt = Some a\<close> by auto
      have "unlinked (sm_subs m) (Some a) (Some b) = (sm_subs m)(a \<mapsto> k\<lparr>sb_prev := Some b\<rparr>, b \<mapsto> j\<lparr>sb_next := Some a\<rparr>)"
        using k j ab by (auto simp: unlinked_def fun_eq_iff option.map_ident)
      then show ?thesis using Some \<open>nxt = Some a\<close> k j ab by (simp add: unlink_subscriber_def)
    qed
  qed
qed

lemma unsubscribe_rep:
  assumes rep: "sm_rep m (xs @ a # ys)"
  shows "\<exists>m'. unsubscribe (Some a) m = Inr m' \<and> sm_rep m' (xs @ ys) \<and> sm_container m' = sm_container m \<and>
    sm_closed m' = sm_closed m @ [fst (the (sub_info m a))] \<and> sm_is_busy m' = sm_is_busy m \<and> sm_flag m' = sm_flag m \<and>
    sub_info m' = (sub_info m)(a := None) \<and> (xs = [] \<longrightarrow> (\<exists>n. sm_subs m a = Some n \<and> sm_first_subscriber m' = sb_next n))"
proof -
  let ?h = "sm_subs m"
  have D: "dll sb_next sb_prev ?h None (sm_first_subscriber m) (xs @ a # ys) (sm_last_subscriber m) None"
    and R: "sm_subscribers_count m = int (length (xs @ a # ys))" "dom ?h = set (xs @ a # ys)" "\<not> sm_locked m"
    and F: "subs_free ?h"
    using rep by (auto simp: sm_rep_def)
  have d: "distinct (xs @ a # ys)" using D by (rule dll_distinct)
  obtain n where n: "?h a = Some n" using R(2) by (metis domD in_set_conv_decomp)
  note nb = neighbours [OF D n]
  have lx: "xs \<noteq> [] \<Longrightarrow> last xs \<in> set xs" and hy: "ys \<noteq> [] \<Longrightarrow> hd ys \<in> set ys" by simp_all
  define h' where "h' = unlinked ?h (sb_next n) (sb_prev n)"
  define m' where "m' = m\<lparr>sm_subs := h'(a := None), sm_subscribers_count := sm_subscribers_count m - 1, sm_closed := sm_closed m @ [sb_fd n],
     sm_first_subscriber := (if sb_prev n = None then sb_next n else sm_first_subscriber m),
     sm_last_subscriber := (if sb_next n = None then sb_prev n else sm_last_subscriber m), sm_locked := False\<rparr>"
  have lh: "xs \<noteq> [] \<Longrightarrow> ys \<noteq> [] \<Longrightarrow> last xs \<noteq> hd ys" "xs \<noteq> [] \<Longrightarrow> last xs \<noteq> a" "ys \<noteq> [] \<Longrightarrow> hd ys \<noteq> a"
    using distinct_neighbours [OF d] hy by auto
  then have ne: "sb_next n = None \<or> sb_next n \<noteq> sb_prev n" using nb by auto
  have live: "b \<in> set (xs @ a # ys) \<Longrightarrow> ?h b \<noteq> None" for b using R(2) by (metis domIff)
  have "unlink_subscriber (sb_next n) (sb_prev n) (m\<lparr>sm_locked := True\<rparr>) = Inr ((m\<lparr>sm_locked := True\<rparr>)\<lparr>sm_subs := h',
     sm_first_subscriber := if sb_prev n = None then sb_next n else sm_first_subscriber m,
     sm_last_subscriber := if sb_next n = None then sb_prev n else sm_last_subscriber m\<rparr>)"
    using unlink_subscriber_result [of "sb_next n" "m\<lparr>sm_locked := True\<rparr>" "sb_prev n"] ne nb lx hy live
    by (auto simp: h'_def split: if_splits)
  moreover have "\<exists>k. h' a = Some k \<and> \<not> sb_locked k"
    using n subs_freeD [OF F n] by (auto simp: h'_def unlinked_def Let_def)
  ultimately have r: "unsubscribe (Some a) m = Inr m'"
    using n R(3) by (auto simp: unsubscribe_def manager_lock_def manager_unlock_def subscriber_lock_def
        subscriber_unlock_def m'_def)
  have D': "dll sb_next sb_prev (h'(a := None)) None (if xs = [] then sb_next n else sm_first_subscriber m) (xs @ ys)
      (if ys = [] then sb_prev n else sm_last_subscriber m) None"
    by (rule dll_remove [OF D n])
      (use d nb lx hy lh in \<open>auto simp: h'_def unlinked_def option.map_ident split: if_splits\<close>)
  have dm: "dom (h'(a := None)) = set (xs @ ys)"
    using R(2) d by (auto simp: h'_def unlinked_def dom_def)
  have "subs_free (h'(a := None))" using F by (auto simp: subs_free_def h'_def unlinked_def Let_def split: if_splits)
  then have "sm_rep m' (xs @ ys)" using D' dm R(1) nb by (auto simp: sm_rep_def m'_def)
  moreover have "sub_info m' = (sub_info m)(a := None)"
  proof
    fix x show "sub_info m' x = ((sub_info m)(a := None)) x"
      by (cases "?h x") (auto simp: sub_info_def m'_def h'_def unlinked_def Let_def)
  qed
  moreover have "sm_closed m' = sm_closed m @ [fst (the (sub_info m a))]" using n by (simp add: m'_def sub_info_def)
  ultimately show ?thesis using r n nb by (auto simp: m'_def)
qed

lemma unsubscribe_all_rep:
  "sm_rep m as \<Longrightarrow> \<exists>m'. unsubscribe_all m (sm_first_subscriber m) = Some (Inr m') \<and> sm_rep m' [] \<and>
     sm_container m' = sm_container m \<and> sm_closed m' = sm_closed m @ map (\<lambda>a. fst (the (sub_info m a))) as"
proof (induction as arbitrary: m)
  case Nil
  then have "sm_first_subscriber m = None" by (simp add: sm_rep_def)
  with Nil show ?case by (simp add: unsubscribe_all.simps [of m])
next
  case (Cons a as)
  obtain m1 n where m1: "unsubscribe (Some a) m = Inr m1" "sm_rep m1 as" "sm_container m1 = sm_container m"
      "sm_closed m1 = sm_closed m @ [fst (the (sub_info m a))]" "sub_info m1 = (sub_info m)(a := None)"
    and n: "sm_subs m a = Some n" "sm_first_subscriber m1 = sb_next n"
    using unsubscribe_rep [of m "[]" a as] Cons.prems by auto
  obtain m' where m': "unsubscribe_all m1 (sm_first_subscriber m1) = Some (Inr m')" "sm_rep m' []" "sm_container m' = sm_container m1"
      "sm_closed m' = sm_closed m1 @ map (\<lambda>a. fst (the (sub_info m1 a))) as"
    using Cons.IH [OF m1(2)] by blast
  have f: "sm_first_subscriber m = Some a" using Cons.prems by (simp add: sm_rep_def)
  have "unsubscribe_all m (Some a) = unsubscribe_all m1 (sb_next n)"
    by (subst unsubscribe_all.simps) (simp add: n m1(1))
  moreover have "a \<notin> set as" using Cons.prems dll_distinct unfolding sm_rep_def by fastforce
  then have "map (\<lambda>a. fst (the (sub_info m1 a))) as = map (\<lambda>a. fst (the (sub_info m a))) as" using m1(5) by auto
  ultimately show ?case using m' m1(3,4) n(2) f by simp
qed

lemma sm_rep_fresh: "sm_rep m as \<Longrightarrow> b \<notin> set as \<Longrightarrow> sm_subs m b = None"
  unfolding sm_rep_def by (metis domIff)

section \<open>Properties\<close>

text \<open>C26: on any list of subscribers, empty or not, subscribing appends the client, with nothing sent to it
  yet, and closes nothing; unsubscribing takes out exactly that client, wherever it stands, and closes
  its descriptor and no other. Both keep the links in both directions, the count, every other client's
  descriptor and progress, the chunks, the flag and the busy mark, free the block that is taken out and
  leave the mutexes free.\<close>

theorem subscribe_unsubscribe:
  assumes "sm_rep m as"
  shows "(\<forall>b fd. sm_subs m b = None \<longrightarrow> (\<exists>m2. subscribe (Some b) fd m = Inr (0, m2) \<and> sm_rep m2 (as @ [b]) \<and>
      sub_info m2 = (sub_info m)(b \<mapsto> (fd, 0)) \<and> sm_closed m2 = sm_closed m \<and>
      sm_container m2 = sm_container m \<and> sm_flag m2 = sm_flag m \<and> sm_is_busy m2 = sm_is_busy m)) \<and>
    (\<forall>xs a ys. as = xs @ a # ys \<longrightarrow> (\<exists>m1. unsubscribe (Some a) m = Inr m1 \<and> sm_rep m1 (xs @ ys) \<and>
      sub_info m1 = (sub_info m)(a := None) \<and> sm_closed m1 = sm_closed m @ [fst (the (sub_info m a))] \<and>
      sm_container m1 = sm_container m \<and> sm_flag m1 = sm_flag m \<and> sm_is_busy m1 = sm_is_busy m))"
proof (intro conjI allI impI)
  fix b fd assume "sm_subs m b = None"
  from subscribe_rep [OF assms this, of fd] show "\<exists>m2. subscribe (Some b) fd m = Inr (0, m2) \<and> sm_rep m2 (as @ [b]) \<and>
      sub_info m2 = (sub_info m)(b \<mapsto> (fd, 0)) \<and> sm_closed m2 = sm_closed m \<and>
      sm_container m2 = sm_container m \<and> sm_flag m2 = sm_flag m \<and> sm_is_busy m2 = sm_is_busy m" by blast
next
  fix xs a ys assume "as = xs @ a # ys"
  with unsubscribe_rep [of m xs a ys] assms
  show "\<exists>m1. unsubscribe (Some a) m = Inr m1 \<and> sm_rep m1 (xs @ ys) \<and>
      sub_info m1 = (sub_info m)(a := None) \<and> sm_closed m1 = sm_closed m @ [fst (the (sub_info m a))] \<and>
      sm_container m1 = sm_container m \<and> sm_flag m1 = sm_flag m \<and> sm_is_busy m1 = sm_is_busy m" by blast
qed

definition two_subscribers :: "nat subscription_manager" where
  "two_subscribers = (case subscribe (Some 1) 7 (the (create_subscription_manager True True)) of
     Inr (_, m) \<Rightarrow> (case subscribe (Some 2) 8 m of Inr (_, m') \<Rightarrow> m' | Inl _ \<Rightarrow> m)
   | Inl _ \<Rightarrow> the (create_subscription_manager True True))"

lemma create_manager_rep: "create_subscription_manager True True = Some m \<Longrightarrow> sm_rep m [] \<and> cc_rep (sm_container m) [] []"
  by (auto simp: create_subscription_manager_def create_chunk_container_def sm_rep_def cc_rep_def)

lemma two_subscribers_rep: "sm_rep two_subscribers [1, 2] \<and> sub_info two_subscribers = [1 \<mapsto> (7, 0), 2 \<mapsto> (8, 0)] \<and>
    cc_rep (sm_container two_subscribers) [] []"
proof -
  let ?m = "the (create_subscription_manager True True) :: nat subscription_manager"
  have m: "sm_rep ?m []" "cc_rep (sm_container ?m) [] []" "sub_info ?m = Map.empty" "sm_subs ?m = Map.empty"
    using create_manager_rep [of ?m] by (simp_all add: create_subscription_manager_def create_chunk_container_def sub_info_def fun_eq_iff)
  obtain m1 where m1: "subscribe (Some 1) 7 ?m = Inr (0, m1)" "sm_rep m1 [1]" "sub_info m1 = [1 \<mapsto> (7, 0)]" "sm_container m1 = sm_container ?m"
    using subscribe_rep [OF m(1), of 1 7] m by auto
  have "sm_subs m1 2 = None" by (rule sm_rep_fresh [OF m1(2)]) simp
  then obtain m2 where "subscribe (Some 2) 8 m1 = Inr (0, m2)" "sm_rep m2 [1, 2]" "sub_info m2 = [1 \<mapsto> (7, 0), 2 \<mapsto> (8, 0)]" "sm_container m2 = sm_container m1"
    using subscribe_rep [OF m1(2), of 2 8] m1 by auto
  then show ?thesis using m1 m by (simp add: two_subscribers_def)
qed

theorem subscribe_unsubscribe_witness:
  "\<exists>m1 m2. unsubscribe (Some 1) two_subscribers = Inr m1 \<and> sm_rep m1 [2] \<and> sub_info m1 2 = Some (8, 0) \<and>
     sm_closed m1 = sm_closed two_subscribers @ [7] \<and>
     subscribe (Some 3) 9 two_subscribers = Inr (0, m2) \<and> sm_rep m2 [1, 2, 3]"
proof -
  have rep: "sm_rep two_subscribers [1, 2]" and i: "sub_info two_subscribers = [1 \<mapsto> (7, 0), 2 \<mapsto> (8, 0)]"
    using two_subscribers_rep by simp_all
  note T = subscribe_unsubscribe [OF rep]
  obtain m1 where "unsubscribe (Some 1) two_subscribers = Inr m1" "sm_rep m1 [2]" "sub_info m1 2 = Some (8, 0)"
    "sm_closed m1 = sm_closed two_subscribers @ [7]"
    using T [THEN conjunct2, rule_format, of "[]" 1 "[2]"] i by auto
  moreover have "sm_subs two_subscribers 3 = None" using sm_rep_fresh [OF rep, of 3] by simp
  then obtain m2 where "subscribe (Some 3) 9 two_subscribers = Inr (0, m2)" "sm_rep m2 [1, 2, 3]"
    using T [THEN conjunct1, rule_format, of 3 9] by auto
  ultimately show ?thesis by blast
qed

lemma free_container_rep:
  assumes "cc_rep c bs ds"
  shows "free_chunk_container c = Some (Inr Map.empty)"
proof -
  have D: "dll ck_next ck_prev (cc_heap c) None (cc_first c) bs (cc_last c) None"
    and dm: "dom (cc_heap c) = set bs" using assms by (auto simp: cc_rep_def)
  have "cc_heap c |` (- set bs) = Map.empty"
  proof
    fix x show "(cc_heap c |` (- set bs)) x = None"
      using dm by (cases "x \<in> set bs") (auto simp: restrict_map_def)
  qed
  then show ?thesis using free_chain_path [OF dll_path [OF D]] by (simp add: free_chunk_container_def)
qed

lemma finish_destroy_rep:
  assumes "sm_rep m as" "cc_rep (sm_container m) bs ds"
  shows "\<exists>m'. finish_pending_chunks m = Some (Inr m') \<and> sm_rep m' [] \<and>
    sm_closed m' = sm_closed m @ map (\<lambda>a. fst (the (sub_info m a))) as \<and>
    destroy_subscription_manager m' = Some (Inr (Map.empty, Map.empty))"
proof -
  obtain m' where m': "finish_pending_chunks m = Some (Inr m')" "sm_rep m' []" "sm_container m' = sm_container m"
      "sm_closed m' = sm_closed m @ map (\<lambda>a. fst (the (sub_info m a))) as"
    using unsubscribe_all_rep [OF assms(1)] by (auto simp: finish_pending_chunks_def)
  have "unsubscribe_all (m'\<lparr>sm_locked := True\<rparr>) None = Some (Inr (m'\<lparr>sm_locked := True\<rparr>))" by (simp add: unsubscribe_all.simps)
  then have "destroy_subscription_manager m' = Some (Inr (Map.empty, Map.empty))"
    using m'(2,3) free_container_rep [OF assms(2)] by (simp add: destroy_subscription_manager_def manager_lock_def sm_rep_def)
  with m' show ?thesis by blast
qed

text \<open>C27: \<open>finish_pending_chunks\<close> returns, closes the connection of every subscriber once, in order, and leaves an empty, unlocked list with
  count 0 and no block allocated; destroying the manager after it, as the handler does, returns and
  frees all chunks.\<close>

theorem finish_then_destroy:
  assumes "sm_rep m as" "cc_rep (sm_container m) bs ds"
  shows "\<exists>m'. finish_pending_chunks m = Some (Inr m') \<and> sm_rep m' [] \<and>
    sm_closed m' = sm_closed m @ map (\<lambda>a. fst (the (sub_info m a))) as \<and>
    destroy_subscription_manager m' = Some (Inr (Map.empty, Map.empty))"
  using assms by (rule finish_destroy_rep)

theorem finish_then_destroy_witness:
  "\<exists>m'. finish_pending_chunks two_subscribers = Some (Inr m') \<and> sm_rep m' [] \<and>
    destroy_subscription_manager m' = Some (Inr (Map.empty, Map.empty))"
  using finish_then_destroy two_subscribers_rep by blast

text \<open>Destroying a manager that still has a subscriber blocks forever: \<open>destroy_subscription_manager\<close> holds
  the mutex when it calls \<open>unsubscribe\<close>, which locks it again (the path of \<open>__handle_client\<close> when the
  session cannot be allocated).\<close>

theorem destroy_with_subscribers_deadlocks:
  assumes "sm_rep m (a # as)" "cc_rep (sm_container m) bs ds"
  shows "destroy_subscription_manager m = Some (Inl Self_Deadlock)"
proof -
  have "dll ck_next ck_prev (cc_heap (sm_container m)) None (cc_first (sm_container m)) bs (cc_last (sm_container m)) None"
    using assms(2) by (simp add: cc_rep_def)
  note fr = free_chain_path [OF dll_path [OF this]]
  obtain n where n: "sm_first_subscriber m = Some a" "sm_subs m a = Some n" "\<not> sm_locked m" using assms(1) by (auto simp: sm_rep_def)
  have "unsubscribe_all (m\<lparr>sm_locked := True\<rparr>) (Some a) = Some (Inl Self_Deadlock)"
    by (subst unsubscribe_all.simps) (simp add: n subscribe_held)
  then show ?thesis using n fr by (simp add: destroy_subscription_manager_def manager_lock_def free_chunk_container_def)
qed

theorem destroy_with_subscribers_deadlocks_witness: "destroy_subscription_manager two_subscribers = Some (Inl Self_Deadlock)"
  using destroy_with_subscribers_deadlocks two_subscribers_rep by blast

text \<open>A failed allocation in \<open>subscribe\<close> returns \<open>-1\<close> with the manager's mutex still held, so that every later
  \<open>subscribe\<close> or \<open>unsubscribe\<close> of the same thread on this manager blocks forever.\<close>

theorem subscribe_oom_keeps_lock:
  assumes "\<not> sm_locked m"
  shows "\<exists>m'. subscribe None fd m = Inr (-1, m') \<and> sm_locked m' \<and> subscribe p fd' m' = Inl Self_Deadlock \<and> unsubscribe q m' = Inl Self_Deadlock"
  using subscribe_oom [OF assms, of fd] subscribe_held [of "m\<lparr>sm_locked := True\<rparr>"] by auto

theorem subscribe_oom_keeps_lock_witness:
  "\<exists>m'. subscribe None 9 two_subscribers = Inr (-1, m') \<and> unsubscribe (Some 1) m' = Inl Self_Deadlock"
  using subscribe_oom_keeps_lock [of two_subscribers 9 None 9 "Some 1"] two_subscribers_rep by (auto simp: sm_rep_def)

end
