(* ===== verification/Broadcast.thy ===== *)
theory Broadcast
  imports Subscription Common
begin

text \<open>
  Sending chunks to the subscribers: \<open>add_chunk\<close>, \<open>__send_chunks\<close> and \<open>__send_chunks_to_subscriber\<close>
  of \<open>lab3/src/chunk/subscription.c\<close>, built with \<open>PARALLEL\<close> as \<open>CMakeLists.txt\<close> does. First the
  sequential parts on the manager's heap, then the interleaving of one \<open>add_chunk\<close> with the tasks
  it has pushed to the upload pool.
\<close>

section \<open>The flag\<close>

text \<open>Conversion to \<open>char\<close>, which is signed: the value kept in eight bits.\<close>

definition to_char :: "int \<Rightarrow> int" where "to_char x = (x + 128) mod 256 - 128"

lemma to_char_id: "-128 \<le> x \<Longrightarrow> x \<le> 127 \<Longrightarrow> to_char x = x"
  by (simp add: to_char_def)

section \<open>__send_chunks\<close>

text \<open>
  The loop over the subscribers, with the lock held by the caller. \<open>infos\<close> says for each subscriber
  whether the allocation of its \<open>subscription_info_t\<close> succeeds. The result is the list of the
  subscribers for which a task was pushed. Both branches that do not push a task lock the mutex.
\<close>

partial_function (option) send_chunks_loop ::
  "'b subscription_manager \<Rightarrow> (addr \<Rightarrow> bool) \<Rightarrow> ptr \<Rightarrow> addr list \<Rightarrow> (fault + addr list) option" where
  "send_chunks_loop m infos current tasks = (case current of None \<Rightarrow> Some (Inr tasks)
     | Some a \<Rightarrow> (case sm_subs m a of None \<Rightarrow> Some (Inl (Bad_Addr a))
         | Some n \<Rightarrow>
             if sb_chunk_loaded n = cc_count (sm_container m) \<or> \<not> infos a
             then (if sm_locked m then Some (Inl Self_Deadlock) else send_chunks_loop m infos (sb_next n) tasks)
             else send_chunks_loop m infos (sb_next n) (tasks @ [a])))"

definition send_chunks :: "'b subscription_manager \<Rightarrow> (addr \<Rightarrow> bool) \<Rightarrow> (fault + 'b subscription_manager \<times> addr list) option" where
  "send_chunks m infos = (let m = m\<lparr>sm_flag := to_char (sm_subscribers_count m)\<rparr> in
     case send_chunks_loop m infos (sm_first_subscriber m) [] of None \<Rightarrow> None
     | Some (Inl e) \<Rightarrow> Some (Inl e)
     | Some (Inr tasks) \<Rightarrow> Some (Inr (m, tasks)))"

text \<open>
  \<open>add_chunk\<close> up to its waiting loop: the lock is held, the chunk is appended, the tasks are pushed.
  Its first statement reads \<open>manager->first_subscriber->fd\<close>.
\<close>

definition add_chunk_begin ::
  "ptr \<Rightarrow> bool \<Rightarrow> (addr \<Rightarrow> bool) \<Rightarrow> 'b list option \<Rightarrow> nat \<Rightarrow> nat \<Rightarrow> 'b subscription_manager \<Rightarrow>
   (fault + 'b subscription_manager \<times> addr list) option"
where
  "add_chunk_begin new_chunk data_malloc infos data element_size sz m =
     (case ebind (load (sm_subs m) (sm_first_subscriber m)) (\<lambda>_. ebind (manager_lock m) (\<lambda>m.
        ebind (container_add_chunk new_chunk data_malloc data element_size sz (sm_container m)) (\<lambda>c.
        Inr (m\<lparr>sm_container := c\<rparr>)))) of
       Inl e \<Rightarrow> Some (Inl e)
     | Inr m \<Rightarrow> send_chunks m infos)"

text \<open>Everybody behind the last chunk: then a task is pushed for every subscriber.\<close>

lemma send_chunks_loop_all:
  assumes "path sb_next (sm_subs m) p as None" "\<And>a n. a \<in> set as \<Longrightarrow> sm_subs m a = Some n \<Longrightarrow> sb_chunk_loaded n \<noteq> cc_count (sm_container m) \<and> infos a"
  shows "send_chunks_loop m infos p tasks = Some (Inr (tasks @ as))"
  using assms
proof (induction as arbitrary: p tasks)
  case Nil then show ?case by (simp add: send_chunks_loop.simps)
next
  case (Cons a as)
  then obtain n where n: "p = Some a" "sm_subs m a = Some n" "path sb_next (sm_subs m) (sb_next n) as None" by auto
  have "send_chunks_loop m infos (sb_next n) (tasks @ [a]) = Some (Inr ((tasks @ [a]) @ as))"
    using n(3) Cons.prems(2) by (intro Cons.IH) auto
  then show ?case using n Cons.prems(2) [of a n] by (subst send_chunks_loop.simps) simp
qed

section \<open>__send_chunks_to_subscriber\<close>

text \<open>
  The loop over the chunks: \<open>k\<close> chunks from the node \<open>p\<close> on; \<open>rss\<close> are the answers of \<open>send\<close>, a list
  for every chunk. The result is the new \<open>chunk_loaded\<close> and the bytes the client was sent.
\<close>

fun send_from ::
  "(addr \<rightharpoonup> 'b chunk) \<Rightarrow> nat \<Rightarrow> int list list \<Rightarrow> ptr \<Rightarrow> nat \<Rightarrow> 'b list \<Rightarrow> (fault + nat \<times> 'b list) option" where
  "send_from h 0 rss p loaded out = Some (Inr (loaded, out))"
| "send_from h (Suc k) rss p loaded out = (case load h p of Inl e \<Rightarrow> Some (Inl e)
     | Inr n \<Rightarrow> (case rss of [] \<Rightarrow> None
       | rs # rss' \<Rightarrow> (case send_data_to_fd rs (ck_data n) of None \<Rightarrow> None
         | Some (st, bytes) \<Rightarrow>
             if st \<noteq> 0 then Some (Inr (loaded, out @ bytes))
             else send_from h k rss' (ck_next n) (loaded + 1) (out @ bytes))))"

definition send_chunks_to_subscriber ::
  "int list list \<Rightarrow> 'b chunk_container \<Rightarrow> nat \<Rightarrow> (fault + nat \<times> 'b list) option" where
  "send_chunks_to_subscriber rss c start_chunk = (case get_chunk c start_chunk of None \<Rightarrow> None
     | Some (Inl e) \<Rightarrow> Some (Inl e)
     | Some (Inr None) \<Rightarrow> Some (Inr (start_chunk, []))
     | Some (Inr (Some a)) \<Rightarrow> send_from (cc_heap c) (cc_count c - start_chunk) rss (Some a) start_chunk [])"

text \<open>Answers of \<open>send\<close> that let a whole block through, without error.\<close>

definition sends_all :: "int list \<Rightarrow> 'b list \<Rightarrow> bool" where
  "sends_all rs d \<longleftrightarrow> send_results (length d) rs \<and> length d \<le> length rs \<and> -1 \<notin> set rs"

lemma sends_all_result: "sends_all rs d \<Longrightarrow> send_data_to_fd rs d = Some (0, d)"
  using send_loop_result [of d 0 rs] unfolding sends_all_def send_data_to_fd_def by auto

lemma send_from_chain:
  assumes "path ck_next h p as None" "length ds = length as" "\<And>i. i < length as \<Longrightarrow> \<exists>n. h (as ! i) = Some n \<and> ck_data n = ds ! i"
    and "list_all2 sends_all rss ds"
  shows "send_from h (length as) rss p l out = Some (Inr (l + length as, out @ concat ds))"
  using assms
proof (induction as arbitrary: p ds rss l out)
  case (Cons a as)
  then obtain d ds' where ds: "ds = d # ds'" by (cases ds) auto
  then obtain rs rss' where rss: "rss = rs # rss'" "sends_all rs d" "list_all2 sends_all rss' ds'"
    using Cons.prems(4) by (auto simp: list_all2_Cons2)
  obtain n where n: "p = Some a" "h a = Some n" "path ck_next h (ck_next n) as None" using Cons.prems(1) by auto
  have d: "ck_data n = d" using Cons.prems(3) [of 0] n ds by simp
  have "send_from h (length as) rss' (ck_next n) (l + 1) (out @ d) = Some (Inr (l + 1 + length as, (out @ d) @ concat ds'))"
  proof (rule Cons.IH [OF n(3) _ _ rss(3)])
    show "length ds' = length as" using Cons.prems(2) ds by simp
    show "\<exists>n. h (as ! i) = Some n \<and> ck_data n = ds' ! i" if "i < length as" for i
      using Cons.prems(3) [of "Suc i"] that ds by simp
  qed
  then show ?case using n d ds rss sends_all_result [OF rss(2)] by simp
qed simp

lemma path_drop: "path nx h p as None \<Longrightarrow> i < length as \<Longrightarrow> path nx h (Some (as ! i)) (drop i as) None"
proof (induction as arbitrary: p i)
  case (Cons a as)
  then show ?case by (cases i) auto
qed simp

lemma add_chunk_begin_rep:
  assumes "sm_rep m as" "as \<noteq> []" "length as \<le> 127" "cc_rep (sm_container m) bs ds"
    and "\<And>a n. sm_subs m a = Some n \<Longrightarrow> sb_chunk_loaded n \<le> length ds"
    and "cc_heap (sm_container m) c = None" "sz \<noteq> 0" "es * sz \<le> length d" "\<And>a. a \<in> set as \<Longrightarrow> infos a"
  shows "\<exists>cc. add_chunk_begin (Some c) True infos (Some d) es sz m =
      Some (Inr (m\<lparr>sm_locked := True, sm_container := cc, sm_flag := int (length as)\<rparr>, as)) \<and>
    cc_rep cc (bs @ [c]) (ds @ [take (es * sz) d])"
proof -
  obtain cc where cc: "container_add_chunk (Some c) True (Some d) es sz (sm_container m) = Inr cc" "cc_rep cc (bs @ [c]) (ds @ [take (es * sz) d])"
    using container_add_chunk_rep [OF assms(4,6,7,8)] by blast
  have D: "dll sb_next sb_prev (sm_subs m) None (sm_first_subscriber m) as (sm_last_subscriber m) None" "\<not> sm_locked m"
    "sm_subscribers_count m = int (length as)" using assms(1) by (auto simp: sm_rep_def)
  let ?m = "m\<lparr>sm_locked := True, sm_container := cc, sm_flag := to_char (sm_subscribers_count m)\<rparr>"
  have cnt: "cc_count cc = length ds + 1" using cc(2) by (simp add: cc_rep_def)
  have "send_chunks_loop ?m infos (sm_first_subscriber ?m) [] = Some (Inr ([] @ as))"
  proof (rule send_chunks_loop_all)
    show "path sb_next (sm_subs ?m) (sm_first_subscriber ?m) as None" using dll_path [OF D(1)] by simp
    show "sb_chunk_loaded n \<noteq> cc_count (sm_container ?m) \<and> infos a" if "a \<in> set as" "sm_subs ?m a = Some n" for a n
      using that assms(5) [of a n] assms(9) [of a] cnt by simp
  qed
  moreover obtain n where "load (sm_subs m) (sm_first_subscriber m) = Inr n"
    using D(1) assms(2) by (cases as) auto
  ultimately have "add_chunk_begin (Some c) True infos (Some d) es sz m = Some (Inr (?m, as))"
    using cc(1) D(2) by (simp add: add_chunk_begin_def manager_lock_def send_chunks_def)
  then show ?thesis using cc(2) D(3) assms(3) by (auto simp: to_char_id)
qed

lemma send_task_rep:
  assumes "cc_rep c as ds" "start \<le> length ds" "list_all2 sends_all rss (drop start ds)"
  shows "send_chunks_to_subscriber rss c start = Some (Inr (length ds, concat (drop start ds)))"
proof (cases "start < length as")
  case True
  have D: "path ck_next (cc_heap c) (cc_first c) as None" and len: "length ds = length as" "cc_count c = length as"
    and at: "\<And>i. i < length as \<Longrightarrow> \<exists>n. cc_heap c (as ! i) = Some n \<and> ck_data n = ds ! i"
    using assms(1) dll_path by (auto simp: cc_rep_def chunk_at_def)
  have "send_from (cc_heap c) (length (drop start as)) rss (Some (as ! start)) start [] =
      Some (Inr (start + length (drop start as), [] @ concat (drop start ds)))"
  proof (rule send_from_chain [OF path_drop [OF D True] _ _ assms(3)])
    show "length (drop start ds) = length (drop start as)" using len by simp
    show "\<exists>n. cc_heap c (drop start as ! i) = Some n \<and> ck_data n = drop start ds ! i" if "i < length (drop start as)" for i
      using at [of "start + i"] that len by simp
  qed
  then show ?thesis using True len by (simp add: send_chunks_to_subscriber_def get_chunk_rep [OF assms(1)])
next
  case False
  then have "start = length ds" using assms(1,2) by (simp add: cc_rep_def)
  then show ?thesis using False by (simp add: send_chunks_to_subscriber_def get_chunk_rep [OF assms(1)])
qed

section \<open>The interleaving\<close>

text \<open>
  One call of \<open>add_chunk\<close> from its waiting loop on, with the \<open>n\<close> tasks it has pushed. \<open>ds\<close> are the
  chunks in the container. The caller holds the manager's mutex (\<open>B_Locked\<close>), waits on the condition
  variable, has been woken and wants the mutex back, or has returned. A task is queued, is about to
  send chunk \<open>i\<close>, wants the mutex in order to decrement the flag, or has returned. A send either
  delivers a whole chunk or fails after a part of it, which ends the task.
\<close>

datatype bmain = B_Locked | B_Waiting | B_Woken | B_Done
datatype btask = T_Queued | T_Sending nat | T_Finish | T_Done

record 'b bsys =
  bs_flag :: int
  bs_main :: bmain
  bs_task :: "nat \<Rightarrow> btask"
  bs_loaded :: "nat \<Rightarrow> nat"
  bs_sent :: "nat \<Rightarrow> 'b list"
  bs_failed :: "nat \<Rightarrow> bool"

inductive bstep :: "nat \<Rightarrow> 'b list list \<Rightarrow> 'b bsys \<Rightarrow> 'b bsys \<Rightarrow> bool" for n ds where
  b_wait: "bs_main s = B_Locked \<Longrightarrow> 0 < bs_flag s \<Longrightarrow> bstep n ds s (s\<lparr>bs_main := B_Waiting\<rparr>)"
| b_return: "bs_main s = B_Locked \<Longrightarrow> \<not> 0 < bs_flag s \<Longrightarrow> bstep n ds s (s\<lparr>bs_main := B_Done\<rparr>)"
| b_relock: "bs_main s = B_Woken \<Longrightarrow> bstep n ds s (s\<lparr>bs_main := B_Locked\<rparr>)"
| b_spurious: "bs_main s = B_Waiting \<Longrightarrow> bstep n ds s (s\<lparr>bs_main := B_Woken\<rparr>)"
| b_start: "t < n \<Longrightarrow> bs_task s t = T_Queued \<Longrightarrow>
    bstep n ds s (s\<lparr>bs_task := (bs_task s)(t := if bs_loaded s t < length ds then T_Sending (bs_loaded s t) else T_Finish)\<rparr>)"
| b_send: "t < n \<Longrightarrow> bs_task s t = T_Sending i \<Longrightarrow> i < length ds \<Longrightarrow>
    bstep n ds s (s\<lparr>bs_task := (bs_task s)(t := T_Sending (i + 1)), bs_loaded := (bs_loaded s)(t := bs_loaded s t + 1),
      bs_sent := (bs_sent s)(t := bs_sent s t @ ds ! i)\<rparr>)"
| b_fail: "t < n \<Longrightarrow> bs_task s t = T_Sending i \<Longrightarrow> i < length ds \<Longrightarrow> k < length (ds ! i) \<Longrightarrow>
    bstep n ds s (s\<lparr>bs_task := (bs_task s)(t := T_Finish), bs_failed := (bs_failed s)(t := True),
      bs_sent := (bs_sent s)(t := bs_sent s t @ take k (ds ! i))\<rparr>)"
| b_loop_end: "t < n \<Longrightarrow> bs_task s t = T_Sending i \<Longrightarrow> \<not> i < length ds \<Longrightarrow>
    bstep n ds s (s\<lparr>bs_task := (bs_task s)(t := T_Finish)\<rparr>)"
| b_finish: "t < n \<Longrightarrow> bs_task s t = T_Finish \<Longrightarrow> bs_main s \<noteq> B_Locked \<Longrightarrow>
    bstep n ds s (s\<lparr>bs_task := (bs_task s)(t := T_Done), bs_flag := to_char (bs_flag s - 1),
      bs_main := if bs_main s = B_Waiting then B_Woken else bs_main s\<rparr>)"

text \<open>The state in which \<open>__send_chunks\<close> leaves it: \<open>loaded t\<close> chunks were sent to client \<open>t\<close> before.\<close>

definition bsys_init :: "nat \<Rightarrow> 'b list list \<Rightarrow> (nat \<Rightarrow> nat) \<Rightarrow> 'b bsys" where
  "bsys_init n ds loaded = \<lparr>bs_flag = to_char (int n), bs_main = B_Locked, bs_task = (\<lambda>_. T_Queued), bs_loaded = loaded,
     bs_sent = (\<lambda>t. concat (take (loaded t) ds)), bs_failed = (\<lambda>_. False)\<rparr>"

definition undone :: "btask \<Rightarrow> int" where "undone x = (if x = T_Done then 0 else 1)"

definition client_inv :: "'b list list \<Rightarrow> btask \<Rightarrow> nat \<Rightarrow> 'b list \<Rightarrow> bool \<Rightarrow> bool" where
  "client_inv ds x loaded sent failed \<longleftrightarrow> (failed \<or>
       loaded \<le> length ds \<and> sent = concat (take loaded ds) \<and> (x \<in> {T_Finish, T_Done} \<longrightarrow> loaded = length ds)) \<and>
     (case x of T_Queued \<Rightarrow> \<not> failed | T_Sending i \<Rightarrow> \<not> failed \<and> loaded = i | _ \<Rightarrow> True)"

definition client_ok :: "'b list list \<Rightarrow> 'b bsys \<Rightarrow> nat \<Rightarrow> bool" where
  "client_ok ds s t \<longleftrightarrow> client_inv ds (bs_task s t) (bs_loaded s t) (bs_sent s t) (bs_failed s t)"

definition binv :: "nat \<Rightarrow> 'b list list \<Rightarrow> 'b bsys \<Rightarrow> bool" where
  "binv n ds s \<longleftrightarrow> bs_flag s = (\<Sum>t<n. undone (bs_task s t)) \<and>
     (bs_main s = B_Done \<longrightarrow> bs_flag s = 0) \<and> (bs_main s = B_Waiting \<longrightarrow> 0 < bs_flag s) \<and> (\<forall>t<n. client_ok ds s t)"

lemma undone_upd:
  fixes t n :: nat
  shows "t < n \<Longrightarrow> (\<Sum>u<n. undone ((f(t := x)) u)) = (\<Sum>u<n. undone (f u)) - undone (f t) + undone x"
  by (rule sum_thread_upd [of t n undone f x])

lemma undone_bounds: "0 \<le> (\<Sum>u<n. undone (f u))" "(\<Sum>u<n. undone (f u)) \<le> int n" for n :: nat
proof -
  show "0 \<le> (\<Sum>u<n. undone (f u))" by (rule sum_nonneg) (simp add: undone_def)
  have "(\<Sum>u<n. undone (f u)) \<le> (\<Sum>u<n. 1)" by (rule sum_mono) (simp add: undone_def)
  then show "(\<Sum>u<n. undone (f u)) \<le> int n" by simp
qed

lemma binv_init: "n \<le> 127 \<Longrightarrow> (\<And>t. t < n \<Longrightarrow> loaded t \<le> length ds) \<Longrightarrow> binv n ds (bsys_init n ds loaded)"
  by (simp add: binv_def bsys_init_def to_char_id undone_def client_ok_def client_inv_def)

lemma take_Suc_concat: "i < length ds \<Longrightarrow> concat (take (Suc i) ds) = concat (take i ds) @ ds ! i"
  by (simp add: take_Suc_conv_app_nth)

lemma binv_task:
  assumes inv: "binv n ds s" and t: "t < n" and u: "undone x = undone (bs_task s t)"
    and s': "s' = s\<lparr>bs_task := (bs_task s)(t := x), bs_loaded := l, bs_sent := o', bs_failed := f'\<rparr>"
    and fr: "\<And>v. v \<noteq> t \<Longrightarrow> l v = bs_loaded s v \<and> o' v = bs_sent s v \<and> f' v = bs_failed s v"
    and ok: "client_ok ds s' t"
  shows "binv n ds s'"
proof -
  have "(\<Sum>v<n. undone (bs_task s' v)) = (\<Sum>v<n. undone (bs_task s v))"
    using undone_upd [OF t, of "bs_task s" x] u by (simp add: s' del: fun_upd_apply)
  moreover have "client_ok ds s' v" if "v < n" for v
  proof (cases "v = t")
    case False
    then show ?thesis using inv that fr [OF False] by (simp add: binv_def client_ok_def s')
  qed (simp add: ok)
  moreover have "bs_flag s' = bs_flag s" "bs_main s' = bs_main s" by (simp_all add: s')
  ultimately show ?thesis using inv unfolding binv_def by auto
qed

lemma binv_client: "binv n ds s \<Longrightarrow> t < n \<Longrightarrow> client_ok ds s t" by (simp add: binv_def)

lemma bstep_inv:
  assumes "bstep n ds s s'" "binv n ds s" "n \<le> 127"
  shows "binv n ds s'"
  using assms(1)
proof cases
  case b_wait then show ?thesis using assms(2) by (simp add: binv_def client_ok_def)
next
  case b_return
  then show ?thesis using assms(2) undone_bounds(1) [where f = "bs_task s" and n = n] by (simp add: binv_def client_ok_def)
next
  case b_relock then show ?thesis using assms(2) by (simp add: binv_def client_ok_def)
next
  case b_spurious then show ?thesis using assms(2) by (simp add: binv_def client_ok_def)
next
  case (b_start t)
  then show ?thesis using binv_client [OF assms(2) b_start(2)]
    by (intro binv_task [OF assms(2) b_start(2), where l = "bs_loaded s" and o' = "bs_sent s" and f' = "bs_failed s"])
      (auto simp: undone_def client_ok_def client_inv_def)
next
  case (b_send t i)
  then show ?thesis using binv_client [OF assms(2) b_send(2)]
    by (intro binv_task [OF assms(2) b_send(2), where x = "T_Sending (i + 1)" and l = "(bs_loaded s)(t := bs_loaded s t + 1)"
        and o' = "(bs_sent s)(t := bs_sent s t @ ds ! i)" and f' = "bs_failed s"]) (auto simp: undone_def client_ok_def client_inv_def take_Suc_concat)
next
  case (b_fail t i k)
  then show ?thesis using binv_client [OF assms(2) b_fail(2)]
    by (intro binv_task [OF assms(2) b_fail(2), where x = T_Finish and l = "bs_loaded s"
        and o' = "(bs_sent s)(t := bs_sent s t @ take k (ds ! i))" and f' = "(bs_failed s)(t := True)"]) (auto simp: undone_def client_ok_def client_inv_def)
next
  case (b_loop_end t i)
  then show ?thesis using binv_client [OF assms(2) b_loop_end(2)]
    by (intro binv_task [OF assms(2) b_loop_end(2), where x = T_Finish and l = "bs_loaded s" and o' = "bs_sent s" and f' = "bs_failed s"])
      (auto simp: undone_def client_ok_def client_inv_def)
next
  case (b_finish t)
  have sum: "(\<Sum>v<n. undone (((bs_task s)(t := T_Done)) v)) = bs_flag s - 1"
    using undone_upd [OF b_finish(2), of "bs_task s" T_Done] assms(2) b_finish(3)
    by (simp add: binv_def undone_def [of T_Done] undone_def [of T_Finish] del: fun_upd_apply)
  then have "to_char (bs_flag s - 1) = (\<Sum>v<n. undone (((bs_task s)(t := T_Done)) v))"
    using undone_bounds [where f = "(bs_task s)(t := T_Done)" and n = n] assms(3) by (simp add: to_char_id del: fun_upd_apply)
  moreover have "bs_main s = B_Done \<longrightarrow> False"
    using sum undone_bounds(1) [where f = "(bs_task s)(t := T_Done)" and n = n] assms(2) by (auto simp: binv_def simp del: fun_upd_apply)
  moreover have "client_ok ds s' v" if "v < n" for v
    using binv_client [OF assms(2) that] b_finish by (auto simp: client_ok_def client_inv_def)
  ultimately show ?thesis using b_finish(1,4) by (auto simp: binv_def simp del: fun_upd_apply)
qed

lemma breach_inv:
  assumes "reach (bstep n ds) (bsys_init n ds loaded) s" "n \<le> 127" "\<And>t. t < n \<Longrightarrow> loaded t \<le> length ds"
  shows "binv n ds s"
  using assms(1) binv_init [OF assms(2,3)] bstep_inv [OF _ _ assms(2)] by (rule reach_invariant [where step = "bstep n ds"])

section \<open>Properties\<close>

text \<open>C9: With at most 127 subscribers \<open>add_chunk\<close> waits for all of them: in whatever order the pool runs the
  tasks and whether or not sends fail, when it returns every task has ended, and every client none of
  whose sends has failed has received all chunks of the container in order, exactly once, and its
  progress is the number of chunks (nothing is said of a client with a failed send); while \<open>add_chunk\<close>
  sleeps some task is still to come that will wake it.\<close>

theorem add_chunk_waits_for_all:
  assumes "reach (bstep n ds) (bsys_init n ds loaded) s" "n \<le> 127" "\<And>t. t < n \<Longrightarrow> loaded t \<le> length ds"
  shows "(bs_main s = B_Done \<longrightarrow> (\<forall>t<n. bs_task s t = T_Done \<and>
       (\<not> bs_failed s t \<longrightarrow> bs_sent s t = concat ds \<and> bs_loaded s t = length ds))) \<and>
    (bs_main s = B_Waiting \<longrightarrow> (\<exists>t<n. bs_task s t \<noteq> T_Done))"
proof -
  have inv: "binv n ds s" using assms by (rule breach_inv)
  have z: "bs_task s t = T_Done" if "bs_flag s = 0" "t < n" for t
  proof -
    have "(\<Sum>u<n. undone (bs_task s u)) = 0" using inv that(1) by (simp add: binv_def)
    then have "\<forall>u\<in>{..<n}. undone (bs_task s u) = 0" by (subst (asm) sum_nonneg_eq_0_iff) (auto simp: undone_def)
    then show ?thesis using that(2) by (auto simp: undone_def split: if_splits)
  qed
  have "\<forall>t<n. bs_task s t = T_Done \<and> (\<not> bs_failed s t \<longrightarrow> bs_sent s t = concat ds \<and> bs_loaded s t = length ds)"
    if "bs_main s = B_Done"
    using z inv that by (auto simp: binv_def client_ok_def client_inv_def)
  moreover have "\<exists>t<n. bs_task s t \<noteq> T_Done" if "bs_main s = B_Waiting"
  proof (rule ccontr)
    assume "\<not> ?thesis"
    then have "(\<Sum>t<n. undone (bs_task s t)) = 0" by (simp add: undone_def)
    then show False using inv that by (auto simp: binv_def)
  qed
  ultimately show ?thesis by blast
qed

theorem add_chunk_waits_for_all_witness:
  "\<exists>s. reach (bstep 1 [''ab'', ''c'']) (bsys_init 1 [''ab'', ''c''] (\<lambda>_. 1)) s \<and> bs_main s = B_Done \<and> bs_sent s 0 = ''abc''"
proof -
  let ?ds = "[''ab'', ''c'']"
  let ?st = "bstep 1 ?ds"
  let ?s0 = "bsys_init 1 ?ds (\<lambda>_. 1)"
  let ?s1 = "?s0\<lparr>bs_task := (bs_task ?s0)(0 := T_Sending 1)\<rparr>"
  let ?s2 = "?s1\<lparr>bs_task := (bs_task ?s1)(0 := T_Sending 2), bs_loaded := (bs_loaded ?s1)(0 := bs_loaded ?s1 0 + 1),
      bs_sent := (bs_sent ?s1)(0 := bs_sent ?s1 0 @ ''c'')\<rparr>"
  let ?s3 = "?s2\<lparr>bs_task := (bs_task ?s2)(0 := T_Finish)\<rparr>"
  let ?s4 = "?s3\<lparr>bs_main := B_Waiting\<rparr>"
  let ?s5 = "?s4\<lparr>bs_task := (bs_task ?s4)(0 := T_Done), bs_flag := 0, bs_main := B_Woken\<rparr>"
  let ?s6 = "?s5\<lparr>bs_main := B_Locked\<rparr>"
  let ?s7 = "?s6\<lparr>bs_main := B_Done\<rparr>"
  have 1: "?st ?s0 ?s1" using b_start [of 0 1 ?s0 ?ds] by (simp add: bsys_init_def)
  have 2: "?st ?s1 ?s2" using b_send [of 0 1 ?s1 1 ?ds] by (simp add: bsys_init_def numeral_2_eq_2)
  have 3: "?st ?s2 ?s3" using b_loop_end [of 0 1 ?s2 2 ?ds] by (simp add: bsys_init_def)
  have 4: "?st ?s3 ?s4" using b_wait [of ?s3 1 ?ds] by (simp add: bsys_init_def to_char_def)
  have 5: "?st ?s4 ?s5" using b_finish [of 0 1 ?s4 ?ds] by (simp add: bsys_init_def to_char_def)
  have 6: "?st ?s5 ?s6" using b_relock [of ?s5 1 ?ds] by simp
  have 7: "?st ?s6 ?s7" using b_return [of ?s6 1 ?ds] by simp
  have "run_of ?st ?s0 [?s1, ?s2, ?s3, ?s4, ?s5, ?s6, ?s7]" using 1 2 3 4 5 6 7 by (simp only: run_of.simps simp_thms)
  then have r: "reach ?st ?s0 ?s7" using run_of_reach [of ?st ?s0 "[?s1, ?s2, ?s3, ?s4, ?s5, ?s6, ?s7]"] by (simp only: last.simps list.simps if_False if_True simp_thms)
  have "bs_sent ?s7 0 = concat ?ds"
    using add_chunk_waits_for_all [OF r] by (simp add: bsys_init_def)
  then show ?thesis using r by (intro exI [of _ ?s7]) simp
qed

text \<open>The flag is a \<open>char\<close>: with 128 to 256 subscribers it starts negative or at zero, and \<open>add_chunk\<close> can return
  before a single task has run.\<close>

theorem add_chunk_flag_wraps:
  assumes "128 \<le> n" "n \<le> 256"
  shows "\<exists>s. reach (bstep n ds) (bsys_init n ds loaded) s \<and> bs_main s = B_Done \<and> (\<forall>t<n. bs_task s t = T_Queued)"
proof -
  let ?s = "(bsys_init n ds loaded)\<lparr>bs_main := B_Done\<rparr>"
  have "(int n + 128) mod 256 = (int n - 128 + 256) mod 256" by (simp add: algebra_simps)
  also have "\<dots> = int n - 128" using assms by (simp only: mod_add_self2) simp
  finally have "to_char (int n) = int n - 256" by (simp add: to_char_def)
  then have "bstep n ds (bsys_init n ds loaded) ?s" using assms by (intro b_return) (simp_all add: bsys_init_def)
  then have "reach (bstep n ds) (bsys_init n ds loaded) ?s" by (rule reach_single)
  then show ?thesis by (intro exI [of _ ?s]) (simp add: bsys_init_def)
qed

theorem add_chunk_flag_wraps_witness:
  "\<exists>s. reach (bstep 128 [''x'']) (bsys_init 128 [''x''] (\<lambda>_. 0)) s \<and> bs_main s = B_Done \<and> bs_task s 5 = T_Queued"
  using add_chunk_flag_wraps [of 128 "[''x'']" "\<lambda>_. 0"] by auto

text \<open>When the chunk is stored, \<open>add_chunk\<close> locks the manager once, appends the chunk and pushes one task for every
  subscriber, in order, with the flag set to their number: no subscriber can already have a chunk that
  was just added, so the branches of \<open>__send_chunks\<close> that would lock the mutex again are not taken.\<close>

theorem add_chunk_pushes_all:
  assumes "sm_rep m as" "as \<noteq> []" "length as \<le> 127" "cc_rep (sm_container m) bs ds"
    and "\<And>a n. sm_subs m a = Some n \<Longrightarrow> sb_chunk_loaded n \<le> length ds"
    and "cc_heap (sm_container m) c = None" "sz \<noteq> 0" "es * sz \<le> length d" "\<And>a. a \<in> set as \<Longrightarrow> infos a"
  shows "\<exists>m'. add_chunk_begin (Some c) True infos (Some d) es sz m = Some (Inr (m', as)) \<and> sm_locked m' \<and>
    sm_flag m' = int (length as) \<and> sub_info m' = sub_info m \<and> cc_rep (sm_container m') (bs @ [c]) (ds @ [take (es * sz) d])"
proof -
  have "\<exists>cc. add_chunk_begin (Some c) True infos (Some d) es sz m =
      Some (Inr (m\<lparr>sm_locked := True, sm_container := cc, sm_flag := int (length as)\<rparr>, as)) \<and>
    cc_rep cc (bs @ [c]) (ds @ [take (es * sz) d])" using assms by (rule add_chunk_begin_rep)
  then show ?thesis by (auto simp: sub_info_def fun_eq_iff)
qed

theorem add_chunk_pushes_all_witness:
  "\<exists>m'. add_chunk_begin (Some 5) True (\<lambda>_. True) (Some [1, 2, 3]) 3 1 two_subscribers = Some (Inr (m', [1, 2])) \<and> sm_flag m' = 2"
proof -
  have l: "sb_chunk_loaded n \<le> length ([] :: nat list list)" if "sm_subs two_subscribers a = Some n" for a n
    using two_subscribers_rep that by (auto simp: sub_info_def fun_eq_iff dest!: spec [of _ a] split: if_splits)
  have c: "cc_heap (sm_container two_subscribers) 5 = None" using two_subscribers_rep by (simp add: cc_rep_def)
  show ?thesis
    using add_chunk_pushes_all [of two_subscribers "[1, 2]" "[]" "[]" 5 1 3 "[1, 2, 3]" "\<lambda>_. True"] two_subscribers_rep l c by auto
qed

text \<open>When nothing is stored (an empty write, or no memory) and the first subscriber is up to date, \<open>add_chunk\<close>
  locks the mutex it already holds and blocks forever.\<close>

theorem add_chunk_nothing_stored_deadlocks:
  assumes "sm_rep m (a # as)" "sm_subs m a = Some n" "sb_chunk_loaded n = cc_count (sm_container m)" "sz = 0 \<or> new_chunk = None"
  shows "add_chunk_begin new_chunk b infos data es sz m = Some (Inl Self_Deadlock)"
proof -
  have f: "sm_first_subscriber m = Some a" "\<not> sm_locked m" using assms(1) by (auto simp: sm_rep_def)
  have c: "container_add_chunk new_chunk b data es sz (sm_container m) = Inr (sm_container m)"
    by (rule container_add_noop) (use assms(4) in blast)
  show ?thesis
    using f c assms(2,3)
    by (simp add: add_chunk_begin_def manager_lock_def send_chunks_def send_chunks_loop.simps [of _ _ "Some a"])
qed

theorem add_chunk_nothing_stored_deadlocks_witness:
  "add_chunk_begin (Some 5) True (\<lambda>_. True) (Some []) 1 0 two_subscribers = Some (Inl Self_Deadlock)"
proof -
  obtain n where n: "sm_subs two_subscribers 1 = Some n" "sb_chunk_loaded n = 0"
  proof -
    have "sub_info two_subscribers 1 = Some (7, 0)" using two_subscribers_rep by simp
    then show thesis using that by (auto simp: sub_info_def)
  qed
  show ?thesis using add_chunk_nothing_stored_deadlocks [OF _ n(1)] n two_subscribers_rep by (auto simp: cc_rep_def)
qed

text \<open>Run alone with a connection that accepts everything, in pieces of any sizes, a task sends its client exactly
  the chunks it has not had yet, in order, without a fault, and brings its progress to the end.\<close>

theorem send_chunks_to_subscriber_complete:
  assumes "cc_rep c as ds" "start \<le> length ds" "list_all2 sends_all rss (drop start ds)"
  shows "send_chunks_to_subscriber rss c start = Some (Inr (length ds, concat (drop start ds)))"
  using assms by (rule send_task_rep)

theorem send_chunks_to_subscriber_complete_witness:
  "\<exists>c. container_add_chunk (Some 4) True (Some ''hello'') 5 1 (the (create_chunk_container True)) = Inr c \<and>
     send_chunks_to_subscriber [[2, 1, 1, 1, 1]] c 0 = Some (Inr (1, ''hello''))"
proof -
  have z: "cc_rep (the (create_chunk_container True)) [] []" by (simp add: create_chunk_container_def cc_rep_def)
  obtain c where c: "container_add_chunk (Some 4) True (Some ''hello'') 5 1 (the (create_chunk_container True)) = Inr c" "cc_rep c [4] [''hello'']"
    using container_add_chunk_rep [OF z, of 4 1 5 "''hello''"] by (auto simp: create_chunk_container_def)
  show ?thesis using send_chunks_to_subscriber_complete [OF c(2), of 0 "[[2, 1, 1, 1, 1]]"] c(1) by (auto simp: sends_all_def)
qed

end
