(* ===== verification/Cache.thy ===== *)
theory Cache
  imports Http Broadcast
begin

text \<open>
  The cache files of the proxy, \<open>lab3/src/chunk/cache.c\<close>: a response is saved as the concatenation of
  its chunks and read back in blocks of 4048 bytes, each of which becomes a chunk. A file is its
  contents, \<open>None\<close> when it cannot be opened; writing is complete (the code ignores the result of
  \<open>fwrite\<close>).
\<close>

section \<open>Reading and writing\<close>

definition CACHE_BUFFER_SIZE :: nat where "CACHE_BUFFER_SIZE = 4048"
definition CACHENAME_LEN :: nat where "CACHENAME_LEN = 512"

text \<open>The loop of \<open>share_cache\<close>; \<open>add\<close> is \<open>add_chunk\<close> on the manager.\<close>

function share_loop :: "('b list \<Rightarrow> nat \<Rightarrow> nat \<Rightarrow> 'm \<Rightarrow> fault + 'm) \<Rightarrow> 'b list \<Rightarrow> 'm \<Rightarrow> fault + 'm" where
  "share_loop add bytes m = (let buffer = take CACHE_BUFFER_SIZE bytes in
     if buffer = [] then Inr m
     else ebind (add buffer (length buffer) 1 m) (\<lambda>m. share_loop add (drop CACHE_BUFFER_SIZE bytes) m))"
  by pat_completeness auto
termination by (relation "measure (\<lambda>(add, bytes, m). length bytes)") (auto simp: CACHE_BUFFER_SIZE_def)

declare share_loop.simps [simp del]

definition share_cache :: "('b list \<Rightarrow> nat \<Rightarrow> nat \<Rightarrow> 'm \<Rightarrow> fault + 'm) \<Rightarrow> 'b list option \<Rightarrow> 'm \<Rightarrow> fault + 'm" where
  "share_cache add bytes m = (case bytes of None \<Rightarrow> Inr m | Some f \<Rightarrow> share_loop add f m)"

partial_function (option) save_loop :: "(addr \<rightharpoonup> 'b chunk) \<Rightarrow> ptr \<Rightarrow> 'b list \<Rightarrow> (fault + 'b list) option" where
  "save_loop h current bytes = (case current of None \<Rightarrow> Some (Inr bytes)
     | Some a \<Rightarrow> (case h a of None \<Rightarrow> Some (Inl (Bad_Addr a))
         | Some n \<Rightarrow> save_loop h (ck_next n) (bytes @ take (ck_element_size n * ck_size n) (ck_data n))))"

definition save_cache :: "bool \<Rightarrow> 'b chunk_container \<Rightarrow> (fault + 'b list option) option" where
  "save_cache opened c = (if \<not> opened then Some (Inr None)
     else case save_loop (cc_heap c) (cc_first c) [] of None \<Rightarrow> None
     | Some (Inl e) \<Rightarrow> Some (Inl e)
     | Some (Inr f) \<Rightarrow> Some (Inr (Some f)))"

section \<open>Cache names\<close>

definition digit_char :: "nat \<Rightarrow> char" where "digit_char d = char_of (48 + d)"

fun dec_string :: "nat \<Rightarrow> string" where
  "dec_string n = (if n < 10 then [digit_char n] else dec_string (n div 10) @ [digit_char (n mod 10)])"

declare dec_string.simps [simp del]

text \<open>
  \<open>parse_request_to_cachename\<close>: \<open>sprintf\<close> writes the name and a terminator into a block of 512
  characters. The path is a buffer of \<open>HTTP_PATH_LEN\<close> characters that holds it with a terminator.
\<close>

definition parse_request_to_cachename :: "bool \<Rightarrow> bool \<Rightarrow> http_request \<Rightarrow> fault + string option" where
  "parse_request_to_cachename name_malloc host_malloc r = (if \<not> name_malloc then Inr None
     else case parse_host host_malloc (hr_path r) of None \<Rightarrow> Inr None
     | Some host \<Rightarrow> ebind (hashn (hr_path r @ [NUL]) HTTP_PATH_LEN) (\<lambda>hash.
         let name = hr_method r @ ''_'' @ host @ ''_'' @ dec_string (unat hash) @ ''.cch''
         in if length name < CACHENAME_LEN then Inr (Some name) else Inl Out_Of_Bounds))"

text \<open>The path of the file, in a buffer of \<open>CACHENAME_LEN + 10\<close> characters.\<close>

definition full_cachename :: "string \<Rightarrow> fault + string" where
  "full_cachename name = (let full = ''../cache/'' @ name in
     if length full < CACHENAME_LEN + 10 then Inr full else Inl Out_Of_Bounds)"

section \<open>Lemmas\<close>

lemma save_loop_chain:
  assumes "path ck_next h p as None" "length ds = length as"
    and "\<And>i. i < length as \<Longrightarrow> \<exists>n. h (as ! i) = Some n \<and> ck_data n = ds ! i \<and> length (ds ! i) = ck_element_size n * ck_size n"
  shows "save_loop h p bytes = Some (Inr (bytes @ concat ds))"
  using assms
proof (induction as arbitrary: p ds bytes)
  case Nil then show ?case by (simp add: save_loop.simps)
next
  case (Cons a as)
  then obtain d ds' where ds: "ds = d # ds'" by (cases ds) auto
  obtain n where n: "p = Some a" "h a = Some n" "path ck_next h (ck_next n) as None" using Cons.prems(1) by auto
  have d: "take (ck_element_size n * ck_size n) (ck_data n) = d" using Cons.prems(3) [of 0] n ds by simp
  have "save_loop h (ck_next n) (bytes @ d) = Some (Inr ((bytes @ d) @ concat ds'))"
  proof (rule Cons.IH [OF n(3)])
    show "length ds' = length as" using Cons.prems(2) ds by simp
    show "\<exists>n. h (as ! i) = Some n \<and> ck_data n = ds' ! i \<and> length (ds' ! i) = ck_element_size n * ck_size n" if "i < length as" for i
      using Cons.prems(3) [of "Suc i"] that ds by simp
  qed
  then show ?case using n d ds by (subst save_loop.simps) simp
qed

lemma save_cache_rep: "cc_rep c as ds \<Longrightarrow> save_cache True c = Some (Inr (Some (concat ds)))"
  using save_loop_chain [of "cc_heap c" "cc_first c" as ds "[]"] dll_path
  by (fastforce simp: save_cache_def cc_rep_def chunk_at_def)

text \<open>The container of the manager, with an allocator.\<close>

definition store_chunk :: "('b chunk_container \<Rightarrow> addr) \<Rightarrow> 'b list \<Rightarrow> nat \<Rightarrow> nat \<Rightarrow> 'b chunk_container \<Rightarrow> fault + 'b chunk_container" where
  "store_chunk alloc d es sz c = container_add_chunk (Some (alloc c)) True (Some d) es sz c"

lemma share_loop_stores:
  assumes alloc: "\<And>c. finite (dom (cc_heap c)) \<Longrightarrow> cc_heap c (alloc c) = None"
  shows "cc_rep c as ds \<Longrightarrow> \<exists>c' as' bs. share_loop (store_chunk alloc) bytes c = Inr c' \<and> cc_rep c' as' (ds @ bs) \<and>
    concat bs = bytes \<and> (\<forall>b\<in>set bs. length b \<le> CACHE_BUFFER_SIZE)"
proof (induction "length bytes" arbitrary: bytes c as ds rule: less_induct)
  case less
  show ?case
  proof (cases "bytes = []")
    case True
    then show ?thesis using less.prems by (intro exI [of _ c] exI [of _ as] exI [of _ "[]"]) (simp add: share_loop.simps)
  next
    case False
    let ?b = "take CACHE_BUFFER_SIZE bytes" and ?r = "drop CACHE_BUFFER_SIZE bytes"
    have "finite (dom (cc_heap c))" using less.prems by (simp add: cc_rep_def)
    then have f: "cc_heap c (alloc c) = None" by (rule alloc)
    obtain c1 where c1: "store_chunk alloc ?b (length ?b) 1 c = Inr c1" "cc_rep c1 (as @ [alloc c]) (ds @ [?b])"
    proof -
      have tk: "take (length ?b * 1) ?b = ?b" unfolding mult_1_right by (rule take_all) (rule order_refl)
      have le: "length ?b * 1 \<le> length ?b" by simp
      show thesis using container_add_chunk_rep [OF less.prems f one_neq_zero le] that unfolding store_chunk_def tk by blast
    qed
    have "length ?r < length bytes" using False by (simp add: CACHE_BUFFER_SIZE_def)
    then obtain c' as' bs where c': "share_loop (store_chunk alloc) ?r c1 = Inr c'" "cc_rep c' as' ((ds @ [?b]) @ bs)" "concat bs = ?r"
        "\<forall>b\<in>set bs. length b \<le> CACHE_BUFFER_SIZE"
      using less.hyps c1(2) by blast
    have "share_loop (store_chunk alloc) bytes c = Inr c'"
      using False c1(1) c'(1) by (subst share_loop.simps) (simp add: Let_def CACHE_BUFFER_SIZE_def)
    then show ?thesis using c' by (intro exI [of _ c'] exI [of _ as'] exI [of _ "?b # bs"]) auto
  qed
qed

lemma dec_string_length: "n < 10 ^ Suc k \<Longrightarrow> length (dec_string n) \<le> Suc k"
proof (induction k arbitrary: n)
  case 0 then show ?case by (simp add: dec_string.simps)
next
  case (Suc k)
  have "n div 10 < 10 ^ Suc k" using Suc.prems by (simp add: less_mult_imp_div_less)
  then show ?case using Suc.IH [of "n div 10"] by (subst dec_string.simps) simp
qed

lemma parse_host_length: "parse_host b url = Some h \<Longrightarrow> length h \<le> length url"
  by (auto simp: parse_host_def Let_def split: if_splits option.splits)

section \<open>Properties\<close>

text \<open>C31: A cached response comes back as it was: saving a container and sharing the file into an empty one gives
  chunks of at most 4048 bytes whose concatenation is the concatenation of the original chunks.
  \<open>alloc\<close> is any allocator that returns unused addresses.\<close>

theorem cache_roundtrip:
  assumes "\<And>c. finite (dom (cc_heap c)) \<Longrightarrow> cc_heap c (alloc c) = None"
    and "cc_rep c as ds" "create_chunk_container True = Some c0"
  shows "\<exists>f c' as' bs. save_cache True c = Some (Inr (Some f)) \<and> share_cache (store_chunk alloc) (Some f) c0 = Inr c' \<and>
    cc_rep c' as' bs \<and> concat bs = concat ds \<and> (\<forall>b\<in>set bs. length b \<le> CACHE_BUFFER_SIZE)"
proof -
  have f: "save_cache True c = Some (Inr (Some (concat ds)))" using assms(2) by (rule save_cache_rep)
  have z: "cc_rep c0 [] []" using assms(3) by (rule cc_rep_create)
  obtain c' as' bs where "share_loop (store_chunk alloc) (concat ds) c0 = Inr c'" "cc_rep c' as' ([] @ bs)" "concat bs = concat ds"
      "\<forall>b\<in>set bs. length b \<le> CACHE_BUFFER_SIZE"
    using share_loop_stores [OF assms(1) z] by blast
  then show ?thesis using f by (auto simp: share_cache_def)
qed

theorem cache_roundtrip_witness:
  "\<exists>c f c'. container_add_chunk (Some 4) True (Some ''hi'') 2 1 (the (create_chunk_container True)) = Inr c \<and>
     save_cache True c = Some (Inr (Some f)) \<and>
     share_cache (store_chunk (\<lambda>c. LEAST a. cc_heap c a = None)) (Some f) (the (create_chunk_container True)) = Inr c'"
proof -
  have z: "cc_rep (the (create_chunk_container True)) [] []" by (simp add: create_chunk_container_def cc_rep_def)
  obtain c where c: "container_add_chunk (Some 4) True (Some ''hi'') 2 1 (the (create_chunk_container True)) = Inr c" "cc_rep c [4] [''hi'']"
    using container_add_chunk_rep [OF z, of 4 1 2 "''hi''"] by (auto simp: create_chunk_container_def)
  have e: "create_chunk_container True = Some (the (create_chunk_container True))" by (simp add: create_chunk_container_def)
  have lf: "cc_heap k (LEAST a. cc_heap k a = None) = None" if "finite (dom (cc_heap k))" for k :: "char chunk_container"
    using that by (rule least_free)
  show ?thesis using cache_roundtrip [where alloc = "\<lambda>c. LEAST a. cc_heap c a = None", OF lf c(2) e] c(1) by blast
qed

text \<open>For every request the parser can produce (a method of at most 7 and a path of at most 255 characters) the
  cache name has at most 278 characters, so that \<open>sprintf\<close> stays within the block allocated for the
  name and within the buffer for the full path.\<close>

theorem cachename_in_bounds:
  assumes "length (hr_method r) \<le> 7" "length (hr_path r) \<le> 255" "NUL \<notin> set (hr_path r)"
  shows "\<exists>name. parse_request_to_cachename True True r = Inr (Some name) \<and> length name \<le> 278 \<and> full_cachename name = Inr (''../cache/'' @ name)"
proof -
  obtain host where host: "parse_host True (hr_path r) = Some host" by (simp add: parse_host_def Let_def)
  have hl: "length host \<le> 255" using parse_host_length [OF host] assms(2) by simp
  have "readable (Suc HTTP_PATH_LEN) (hr_path r @ [NUL])" by (simp add: readable_def)
  then obtain hash where hash: "hashn (hr_path r @ [NUL]) HTTP_PATH_LEN = Inr hash" using hashn_djb2 by blast
  have "unat hash < 2 ^ 32" using unsigned_less [of hash] by simp
  then have "unat hash < 10 ^ Suc 9" by simp
  then have dl: "length (dec_string (unat hash)) \<le> 10" using dec_string_length [of "unat hash" 9] by simp
  let ?name = "hr_method r @ ''_'' @ host @ ''_'' @ dec_string (unat hash) @ ''.cch''"
  have l: "length ?name \<le> 278" using hl dl assms(1) by simp
  then have "parse_request_to_cachename True True r = Inr (Some ?name)"
    by (simp add: parse_request_to_cachename_def host hash Let_def CACHENAME_LEN_def)
  then show ?thesis using l by (intro exI [of _ ?name]) (simp add: full_cachename_def Let_def CACHENAME_LEN_def)
qed

theorem cachename_in_bounds_witness:
  "\<exists>name. parse_request_to_cachename True True \<lparr>hr_method = ''GET'', hr_version = ''HTTP/1.0'', hr_path = ''http://a/'', hr_body = [], hr_headers = []\<rparr>
     = Inr (Some name) \<and> length name \<le> 278"
  using cachename_in_bounds [of "\<lparr>hr_method = ''GET'', hr_version = ''HTTP/1.0'', hr_path = ''http://a/'', hr_body = [], hr_headers = []\<rparr>"]
  by (auto simp: NUL_def)

lemma djb2_collision: "djb2 (p @ ''Ab'') = djb2 (p @ ''BA'')"
  by (simp add: djb2_def char_int_def)

text \<open>Different URLs share a cache file: the name only keeps the host and the hash, and the hash of a path that ends in
  \<open>Ab\<close> is the hash of the same path ending in \<open>BA\<close>. The second URL is then answered with the first one's
  response.\<close>

theorem cachename_collision:
  assumes "NUL \<notin> set p" "length p \<le> 500" "CHR ''/'' \<in> set p"
  shows "parse_request_to_cachename True True \<lparr>hr_method = m, hr_version = v, hr_path = ''http://'' @ p @ ''Ab'', hr_body = b, hr_headers = hs\<rparr>
    = parse_request_to_cachename True True \<lparr>hr_method = m, hr_version = v, hr_path = ''http://'' @ p @ ''BA'', hr_body = b, hr_headers = hs\<rparr>"
proof -
  have h: "parse_host True (''http://'' @ p @ x) = Some (takeWhile (\<lambda>c. c \<noteq> CHR ''/'') p)" for x
  proof -
    have "strstr ''://'' (''http'' @ ''://'' @ p @ x) = Some (length ''http'')" by (rule strstr_scheme) simp
    then show ?thesis using assms(3) by (simp add: parse_host_takeWhile takeWhile_append1)
  qed
  have hash: "hashn ((''http://'' @ p @ x) @ [NUL]) HTTP_PATH_LEN = Inr (of_int (djb2 ((''http://'' @ p) @ x)))"
    if "NUL \<notin> set x" "length x \<le> 2" for x
  proof -
    have "cstr ((''http://'' @ p @ x) @ [NUL]) = ''http://'' @ p @ x"
      using assms(1) that(1) by (simp add: cstr_def takeWhile_append NUL_def)
    then show ?thesis using hashn_djb2 [of HTTP_PATH_LEN "(''http://'' @ p @ x) @ [NUL]"] assms(2) that(2)
      by (simp add: readable_def HTTP_PATH_LEN_def)
  qed
  show ?thesis
    unfolding parse_request_to_cachename_def using h hash [of "''Ab''"] hash [of "''BA''"] djb2_collision [of "''http://'' @ p"]
    by (simp add: NUL_def)
qed

theorem cachename_collision_witness:
  "parse_request_to_cachename True True \<lparr>hr_method = ''GET'', hr_version = ''HTTP/1.0'', hr_path = ''http://nsu.ru/Ab'', hr_body = [], hr_headers = []\<rparr>
   = parse_request_to_cachename True True \<lparr>hr_method = ''GET'', hr_version = ''HTTP/1.0'', hr_path = ''http://nsu.ru/BA'', hr_body = [], hr_headers = []\<rparr>"
  using cachename_collision [of "''nsu.ru/''" "''GET''" "''HTTP/1.0''" "[]" "[]"] by (simp add: NUL_def)

end
