(* ===== verification/Session.thy ===== *)
theory Session
  imports Cache
begin

text \<open>
  One session of the proxy: what the session main thread does with the manager of a response between
  creating it and finishing it. \<open>add_chunk\<close> of \<open>lab3/src/chunk/subscription.c\<close> as a whole (the tasks it
  pushes are run in the order of the list; every other order is covered by the theory \<open>Broadcast\<close>),
  \<open>callback\<close>, \<open>__prepare_headers\<close>, \<open>create_request_context\<close> and \<open>send_http_request\<close> of
  \<open>lab3/src/http_utils/http_utils.c\<close>.

  While a session runs, other handlers find its manager in the table and subscribe their clients.
  \<open>se_joins\<close> lists, for each call of \<open>add_chunk\<close>, the clients that subscribe before it (with the answer
  of \<open>malloc\<close> for each). What \<open>libcurl\<close> does is an argument: the pieces of the response it passes to
  \<open>callback\<close>, and the response code, \<open>None\<close> when \<open>curl_easy_perform\<close> fails.
\<close>

section \<open>The environment\<close>

record curl_request =
  cu_url :: string
  cu_headers :: "string list"
  cu_post :: bool
  cu_custom :: "string option"
  cu_fields :: "string option"

record environment =
  ev_request :: "http_request option"   \<comment> \<open>the block allocated for the request\<close>
  ev_manager :: ptr                     \<comment> \<open>answers of \<open>malloc\<close>\<close>
  ev_container :: bool
  ev_node :: ptr
  ev_subscriber :: ptr
  ev_session :: bool
  ev_check_name :: "bool \<times> bool"
  ev_file_name :: "bool \<times> bool"
  ev_context :: bool
  ev_chunk :: "char chunk_container \<Rightarrow> ptr"
  ev_data :: bool
  ev_info :: "addr \<Rightarrow> bool"
  ev_fopen :: bool                      \<comment> \<open>opening the cache file for writing succeeds\<close>
  ev_send :: "int \<Rightarrow> char chunk_container \<Rightarrow> nat \<Rightarrow> int list list"  \<comment> \<open>answers of \<open>send\<close> on a descriptor\<close>
  ev_curl :: bool                       \<comment> \<open>\<open>curl_easy_init\<close> succeeds\<close>
  ev_slist :: "nat \<Rightarrow> bool"              \<comment> \<open>the calls of \<open>curl_slist_append\<close> that succeed\<close>
  ev_upstream :: "curl_request \<Rightarrow> string list \<times> int option"
  ev_joins :: "(int \<times> ptr) list list"

record session =
  se_manager :: "char subscription_manager"
  se_sent :: "int \<Rightarrow> string"
  se_joins :: "(int \<times> ptr) list list"

text \<open>The result of a call that may not return.\<close>

definition returned :: "(fault + 'a) option \<Rightarrow> fault + 'a" where
  "returned r = (case r of None \<Rightarrow> Inl Hangs | Some x \<Rightarrow> x)"

lemma returned_Some [simp]: "returned (Some x) = x" by (simp add: returned_def)

section \<open>add_chunk\<close>

text \<open>One task of the upload pool, from start to end.\<close>

definition run_task :: "environment \<Rightarrow> addr \<Rightarrow> session \<Rightarrow> fault + session" where
  "run_task ev a se =
     ebind (subscriber_lock (Some a) (se_manager se)) (\<lambda>m.
     ebind (load (sm_subs m) (Some a)) (\<lambda>n.
     ebind (returned (send_chunks_to_subscriber (ev_send ev (sb_fd n) (sm_container m) (sb_chunk_loaded n))
              (sm_container m) (sb_chunk_loaded n))) (\<lambda>(loaded, bytes).
     ebind (store (sm_subs m) (Some a) (sb_chunk_loaded_update (\<lambda>_. loaded))) (\<lambda>h.
     ebind (subscriber_unlock (Some a) (m\<lparr>sm_subs := h, sm_flag := to_char (sm_flag m - 1)\<rparr>)) (\<lambda>m.
     Inr (se\<lparr>se_manager := m, se_sent := (se_sent se)(sb_fd n := se_sent se (sb_fd n) @ bytes)\<rparr>))))))"

fun run_tasks :: "environment \<Rightarrow> addr list \<Rightarrow> session \<Rightarrow> fault + session" where
  "run_tasks ev [] se = Inr se"
| "run_tasks ev (a # as) se = ebind (run_task ev a se) (run_tasks ev as)"

text \<open>The other handlers ignore the result of \<open>subscribe\<close>.\<close>

fun join_clients :: "(int \<times> ptr) list \<Rightarrow> char subscription_manager \<Rightarrow> fault + char subscription_manager" where
  "join_clients [] m = Inr m"
| "join_clients ((fd, p) # js) m = ebind (subscribe p fd m) (\<lambda>(r, m). join_clients js m)"

definition next_joins :: "(int \<times> ptr) list list \<Rightarrow> (int \<times> ptr) list" where
  "next_joins js = (case js of [] \<Rightarrow> [] | j # _ \<Rightarrow> j)"

definition add_chunk :: "environment \<Rightarrow> string \<Rightarrow> nat \<Rightarrow> nat \<Rightarrow> session \<Rightarrow> fault + session" where
  "add_chunk ev data element_size sz se =
     ebind (join_clients (next_joins (se_joins se)) (se_manager se)) (\<lambda>m.
     ebind (returned (add_chunk_begin (ev_chunk ev (sm_container m)) (ev_data ev) (ev_info ev) (Some data) element_size sz m)) (\<lambda>(m, tasks).
     ebind (run_tasks ev tasks (se\<lparr>se_manager := m, se_joins := tl (se_joins se)\<rparr>)) (\<lambda>se.
     if 0 < sm_flag (se_manager se) then Inl Hangs
     else Inr (se\<lparr>se_manager := manager_unlock (se_manager se)\<rparr>))))"

section \<open>Downloading\<close>

text \<open>\<open>callback\<close>, which \<open>libcurl\<close> calls with \<open>size\<close> 1 for header lines and for pieces of the body.\<close>

definition callback :: "environment \<Rightarrow> string \<Rightarrow> nat \<Rightarrow> nat \<Rightarrow> session \<Rightarrow> fault + nat \<times> session" where
  "callback ev contents sz nmemb se = ebind (add_chunk ev contents nmemb sz se) (\<lambda>se. Inr (sz * nmemb, se))"

text \<open>The transfer is aborted when \<open>callback\<close> does not report all bytes as taken.\<close>

fun curl_deliver :: "environment \<Rightarrow> string list \<Rightarrow> session \<Rightarrow> fault + bool \<times> session" where
  "curl_deliver ev [] se = Inr (True, se)"
| "curl_deliver ev (b # bs) se = ebind (callback ev b 1 (length b) se) (\<lambda>(n, se).
     if n = length b then curl_deliver ev bs se else Inr (False, se))"

text \<open>A failed \<open>curl_slist_append\<close> returns \<open>NULL\<close>, and the next one starts a new list.\<close>

fun append_headers :: "(nat \<Rightarrow> bool) \<Rightarrow> nat \<Rightarrow> string list \<Rightarrow> string list \<Rightarrow> string list" where
  "append_headers ok i headers [] = headers"
| "append_headers ok i headers (h # hs) = append_headers ok (Suc i) (if ok i then headers @ [h] else []) hs"

definition prepare_headers :: "(nat \<Rightarrow> bool) \<Rightarrow> http_request \<Rightarrow> int \<times> string list" where
  "prepare_headers ok r = (if \<not> ok 0 then (-1, []) else (0, append_headers ok 1 [''Accept-Encoding:''] (hr_headers r)))"

record request_context =
  rx_downloaded_quarter :: nat
  rx_request :: http_request

definition create_request_context :: "bool \<Rightarrow> http_request \<Rightarrow> request_context option" where
  "create_request_context malloc_succeeds r =
     (if malloc_succeeds then Some \<lparr>rx_downloaded_quarter = 0, rx_request = r\<rparr> else None)"

text \<open>The options set before the transfer. \<open>HEAD\<close> and \<open>PATCH\<close> get none, so that \<open>libcurl\<close> sends \<open>GET\<close>.\<close>

definition curl_options :: "http_request \<Rightarrow> string list \<Rightarrow> curl_request" where
  "curl_options r headers =
     (let q = \<lparr>cu_url = hr_path r, cu_headers = headers, cu_post = False, cu_custom = None, cu_fields = None\<rparr> in
      case parse_method (hr_method r) of
        POST \<Rightarrow> q\<lparr>cu_post := True, cu_fields := Some (hr_body r)\<rparr>
      | PUT \<Rightarrow> q\<lparr>cu_custom := Some ''PUT'', cu_fields := Some (hr_body r)\<rparr>
      | DELETE \<Rightarrow> q\<lparr>cu_custom := Some ''DELETE''\<rparr>
      | _ \<Rightarrow> q)"

definition send_http_request :: "environment \<Rightarrow> request_context option \<Rightarrow> session \<Rightarrow> fault + int \<times> session" where
  "send_http_request ev context se = (if \<not> ev_curl ev then Inr (-1, se) else
     case context of None \<Rightarrow> Inl Null_Deref
     | Some c \<Rightarrow> (case prepare_headers (ev_slist ev) (rx_request c) of (err, headers) \<Rightarrow>
         if err \<noteq> 0 then Inr (-1, se)
         else (case ev_upstream ev (curl_options (rx_request c) headers) of (blocks, response) \<Rightarrow>
           ebind (curl_deliver ev blocks se) (\<lambda>(ok, se).
           Inr (case response of Some code \<Rightarrow> if ok then code else -1 | None \<Rightarrow> -1, se)))))"

section \<open>Clients of a session\<close>

text \<open>A connection that accepts every chunk, in pieces of any size.\<close>

definition accepting :: "environment \<Rightarrow> bool" where
  "accepting ev \<longleftrightarrow> (\<forall>fd c as ds l. cc_rep c as ds \<longrightarrow> l \<le> length ds \<longrightarrow> list_all2 sends_all (ev_send ev fd c l) (drop l ds))"

text \<open>Allocations during the session succeed, and return unused blocks.\<close>

definition storing :: "environment \<Rightarrow> bool" where
  "storing ev \<longleftrightarrow> ev_data ev \<and> (\<forall>a. ev_info ev a) \<and>
     (\<forall>c as ds. cc_rep c as ds \<longrightarrow> (\<exists>a. ev_chunk ev c = Some a \<and> cc_heap c a = None))"

lemma run_task_result:
  assumes "accepting ev" "cc_rep (sm_container m) bs ds" "sm_subs m a = Some n" "sb_chunk_loaded n \<le> length ds"
    "se_manager se = m" "\<not> sb_locked n"
  shows "run_task ev a se = Inr (se\<lparr>se_manager := m\<lparr>sm_subs := (sm_subs m)(a \<mapsto> n\<lparr>sb_chunk_loaded := length ds\<rparr>), sm_flag := to_char (sm_flag m - 1)\<rparr>,
     se_sent := (se_sent se)(sb_fd n := se_sent se (sb_fd n) @ concat (drop (sb_chunk_loaded n) ds))\<rparr>)"
proof -
  have "list_all2 sends_all (ev_send ev (sb_fd n) (sm_container m) (sb_chunk_loaded n)) (drop (sb_chunk_loaded n) ds)"
    using assms(1,2,4) unfolding accepting_def by blast
  note s = send_task_rep [OF assms(2,4) this]
  have n: "n\<lparr>sb_chunk_loaded := k, sb_locked := False\<rparr> = n\<lparr>sb_chunk_loaded := k\<rparr>" for k
    using assms(6) by (cases n) simp
  from s show ?thesis using assms(3,5,6)
    by (simp add: run_task_def subscriber_lock_def subscriber_unlock_def n)
qed

definition all_loaded :: "nat \<Rightarrow> addr list \<Rightarrow> (addr \<rightharpoonup> subscriber) \<Rightarrow> (addr \<rightharpoonup> subscriber)" where
  "all_loaded k as h = (\<lambda>a. if a \<in> set as then map_option (sb_chunk_loaded_update (\<lambda>_. k)) (h a) else h a)"

text \<open>What the client behind descriptor \<open>x\<close> is sent by the task of subscriber \<open>a\<close>.\<close>

definition missing :: "string list \<Rightarrow> (addr \<rightharpoonup> subscriber) \<Rightarrow> int \<Rightarrow> addr \<Rightarrow> string" where
  "missing ds h x a = (if sb_fd (the (h a)) = x then concat (drop (sb_chunk_loaded (the (h a))) ds) else [])"

lemma run_tasks_result:
  assumes "accepting ev" "distinct as" "cc_rep (sm_container m) bs ds" "se_manager se = m"
    and "\<And>a. a \<in> set as \<Longrightarrow> \<exists>n. sm_subs m a = Some n \<and> sb_chunk_loaded n \<le> length ds"
    and "int (length as) \<le> sm_flag m" "sm_flag m \<le> 127" "subs_free (sm_subs m)"
  shows "\<exists>se'. run_tasks ev as se = Inr se' \<and> se_joins se' = se_joins se \<and>
    se_manager se' = m\<lparr>sm_subs := all_loaded (length ds) as (sm_subs m), sm_flag := sm_flag m - int (length as)\<rparr> \<and>
    (\<forall>x. se_sent se' x = se_sent se x @ concat (map (missing ds (sm_subs m) x) as))"
  using assms(2-)
proof (induction as arbitrary: se m)
  case Nil
  then show ?case by (simp add: all_loaded_def)
next
  case (Cons a as)
  obtain n where n: "sm_subs m a = Some n" "sb_chunk_loaded n \<le> length ds" using Cons.prems(4) by auto
  let ?m = "m\<lparr>sm_subs := (sm_subs m)(a \<mapsto> n\<lparr>sb_chunk_loaded := length ds\<rparr>), sm_flag := sm_flag m - 1\<rparr>"
  let ?se = "se\<lparr>se_manager := ?m, se_sent := (se_sent se)(sb_fd n := se_sent se (sb_fd n) @ concat (drop (sb_chunk_loaded n) ds))\<rparr>"
  have "to_char (sm_flag m - 1) = sm_flag m - 1" using Cons.prems(5,6) by (intro to_char_id) auto
  with run_task_result [OF assms(1) Cons.prems(2) n Cons.prems(3) subs_freeD [OF Cons.prems(7) n(1)]]
  have r: "run_task ev a se = Inr ?se" by simp
  have a: "a \<notin> set as" using Cons.prems(1) by simp
  have "\<exists>se'. run_tasks ev as ?se = Inr se' \<and> se_joins se' = se_joins ?se \<and>
    se_manager se' = ?m\<lparr>sm_subs := all_loaded (length ds) as (sm_subs ?m), sm_flag := sm_flag ?m - int (length as)\<rparr> \<and>
    (\<forall>x. se_sent se' x = se_sent ?se x @ concat (map (missing ds (sm_subs ?m) x) as))"
  proof (rule Cons.IH)
    show "\<exists>n. sm_subs ?m b = Some n \<and> sb_chunk_loaded n \<le> length ds" if "b \<in> set as" for b
      using Cons.prems(4) [of b] that a by auto
    show "subs_free (sm_subs ?m)" using Cons.prems(7) n(1) by (auto simp: subs_free_def)
  qed (use Cons.prems in simp_all)
  then obtain se' where se': "run_tasks ev as ?se = Inr se'" "se_joins se' = se_joins ?se"
    "se_manager se' = ?m\<lparr>sm_subs := all_loaded (length ds) as (sm_subs ?m), sm_flag := sm_flag ?m - int (length as)\<rparr>"
    "\<And>x. se_sent se' x = se_sent ?se x @ concat (map (missing ds (sm_subs ?m) x) as)" by blast
  have al: "all_loaded (length ds) as (sm_subs ?m) = all_loaded (length ds) (a # as) (sm_subs m)"
    using n a by (auto simp: all_loaded_def fun_eq_iff)
  have ms: "map (missing ds (sm_subs ?m) x) as
      = map (missing ds (sm_subs m) x) as" for x
    using a by (intro map_cong) (auto simp: missing_def)
  have "missing ds (sm_subs m) x a = (if x = sb_fd n then concat (drop (sb_chunk_loaded n) ds) else [])" for x
    using n by (simp add: missing_def)
  then have "se_sent se' x = se_sent se x @ concat (map (missing ds (sm_subs m) x) (a # as))" for x
    using se'(4) [of x] by (simp only: ms) simp
  moreover have "run_tasks ev (a # as) se = Inr se'" using r se'(1) by simp
  ultimately show ?case using se'(2,3) al by (intro exI [of _ se']) simp
qed

text \<open>
  \<open>session_ok s0 se cs ds\<close>: the clients \<open>cs\<close> (subscriber and descriptor) are subscribed, the chunks \<open>ds\<close>
  are stored, and every client was sent a prefix of them, in addition to what it was sent before the
  session (\<open>s0\<close>).
\<close>

definition client_served :: "(int \<Rightarrow> string) \<Rightarrow> session \<Rightarrow> string list \<Rightarrow> addr \<times> int \<Rightarrow> bool" where
  "client_served s0 se ds c \<longleftrightarrow> (\<exists>l \<le> length ds. sub_info (se_manager se) (fst c) = Some (snd c, l) \<and>
     se_sent se (snd c) = s0 (snd c) @ concat (take l ds))"

definition session_ok :: "(int \<Rightarrow> string) \<Rightarrow> session \<Rightarrow> (addr \<times> int) list \<Rightarrow> string list \<Rightarrow> bool" where
  "session_ok s0 se cs ds \<longleftrightarrow> sm_rep (se_manager se) (map fst cs) \<and> (\<exists>bs. cc_rep (sm_container (se_manager se)) bs ds) \<and>
     sm_closed (se_manager se) = [] \<and> sm_is_busy (se_manager se) \<and> distinct (map snd cs) \<and>
     (\<forall>c \<in> set cs. client_served s0 se ds c) \<and> (\<forall>fd. fd \<notin> snd ` set cs \<longrightarrow> se_sent se fd = s0 fd)"

definition clients_of :: "(int \<times> ptr) list \<Rightarrow> (addr \<times> int) list" where
  "clients_of js = map (\<lambda>(fd, p). (the p, fd)) js"

lemma clients_of_simps [simp]: "clients_of [] = []" "clients_of ((fd, p) # js) = (the p, fd) # clients_of js"
  "clients_of (js @ ks) = clients_of js @ clients_of ks" "length (clients_of js) = length js"
  by (simp_all add: clients_of_def)

text \<open>The new clients: allocated, at unused addresses, with descriptors of their own.\<close>

definition joins_ok :: "(addr \<times> int) list \<Rightarrow> (int \<times> ptr) list \<Rightarrow> bool" where
  "joins_ok cs js \<longleftrightarrow> (\<forall>j \<in> set js. snd j \<noteq> None) \<and> distinct (map fst (cs @ clients_of js)) \<and> distinct (map snd (cs @ clients_of js))"

lemma joins_ok_append: "joins_ok cs (js @ ks) \<longleftrightarrow> joins_ok cs js \<and> joins_ok (cs @ clients_of js) ks"
  by (auto simp: joins_ok_def)

lemma join_clients_ok:
  assumes "session_ok s0 se cs ds" "joins_ok cs js"
  shows "\<exists>m. join_clients js (se_manager se) = Inr m \<and> session_ok s0 (se\<lparr>se_manager := m\<rparr>) (cs @ clients_of js) ds"
  using assms
proof (induction js arbitrary: se cs)
  case Nil
  then show ?case by simp
next
  case (Cons j js)
  obtain fd a where j: "j = (fd, Some a)" using Cons.prems(2) by (cases j) (auto simp: joins_ok_def)
  have J: "joins_ok cs [j]" "joins_ok (cs @ clients_of [j]) js" using joins_ok_append [of cs "[j]" js] Cons.prems(2) by auto
  let ?m = "se_manager se"
  have S: "sm_rep ?m (map fst cs)" "\<exists>bs. cc_rep (sm_container ?m) bs ds" "sm_closed ?m = []" "sm_is_busy ?m" "distinct (map snd cs)"
    "\<And>c. c \<in> set cs \<Longrightarrow> client_served s0 se ds c" "\<And>fd. fd \<notin> snd ` set cs \<Longrightarrow> se_sent se fd = s0 fd"
    using Cons.prems(1) by (auto simp: session_ok_def)
  have a: "a \<notin> fst ` set cs" "fd \<notin> snd ` set cs" using J(1) j by (auto simp: joins_ok_def)
  then have "sm_subs ?m a = None" by (intro sm_rep_fresh [OF S(1)]) simp
  from subscribe_rep [OF S(1) this, of fd] obtain m where m: "subscribe (Some a) fd ?m = Inr (0, m)"
    "sm_rep m (map fst cs @ [a])" "sm_container m = sm_container ?m" "sm_closed m = []" "sm_is_busy m" "sub_info m = (sub_info ?m)(a \<mapsto> (fd, 0))"
    using S by auto
  have "client_served s0 (se\<lparr>se_manager := m\<rparr>) ds c" if "c \<in> set cs" for c
    using S(6) [OF that] that a(1) m(6) by (auto simp: client_served_def)
  moreover have "client_served s0 (se\<lparr>se_manager := m\<rparr>) ds (a, fd)" using m(6) S(7) [OF a(2)] by (auto simp: client_served_def)
  ultimately have "session_ok s0 (se\<lparr>se_manager := m\<rparr>) (cs @ clients_of [j]) ds"
    using m S j a by (auto simp: session_ok_def)
  from Cons.IH [OF this J(2)] m(1) j show ?case by auto
qed

lemma concat_single:
  assumes "distinct xs" "a \<in> set xs" "\<And>b. b \<in> set xs \<Longrightarrow> b \<noteq> a \<Longrightarrow> f b = []"
  shows "concat (map f xs) = f a"
proof -
  obtain ys zs where xs: "xs = ys @ a # zs" using split_list [OF assms(2)] by blast
  have "f b = []" if "b \<in> set ys \<union> set zs" for b using assms(1) assms(3) [of b] that xs by auto
  then have "concat (map f ys) = []" "concat (map f zs) = []" by (simp_all add: concat_eq_Nil_conv)
  then show ?thesis unfolding xs by (simp del: concat_eq_Nil_conv)
qed

lemma all_loaded_rep:
  assumes "sm_rep m as" "m' = m\<lparr>sm_subs := all_loaded k as (sm_subs m), sm_flag := f, sm_container := c\<rparr>"
  shows "sm_rep m' as \<and> (\<forall>a \<in> set as. sub_info m' a = map_option (\<lambda>(fd, l). (fd, k)) (sub_info m a))"
proof -
  have D: "dll sb_next sb_prev (sm_subs m) None (sm_first_subscriber m) as (sm_last_subscriber m) None"
    and dm: "dom (sm_subs m) = set as" using assms(1) by (auto simp: sm_rep_def)
  have "dll sb_next sb_prev (all_loaded k as (sm_subs m)) None (sm_first_subscriber m) as (sm_last_subscriber m) None"
    by (rule dll_cong_links [OF D]) (auto simp: all_loaded_def)
  moreover have "dom (all_loaded k as (sm_subs m)) = set as" using dm by (auto simp: all_loaded_def dom_def split: if_splits)
  moreover have "subs_free (all_loaded k as (sm_subs m))"
    using assms(1) by (auto simp: sm_rep_def subs_free_def all_loaded_def split: if_splits)
  ultimately show ?thesis using assms by (auto simp: sm_rep_def sub_info_def all_loaded_def option.map_comp comp_def)
qed

lemma client_served_node:
  assumes "client_served s0 se ds c"
  shows "\<exists>l n. l \<le> length ds \<and> sm_subs (se_manager se) (fst c) = Some n \<and> sb_fd n = snd c \<and> sb_chunk_loaded n = l \<and>
    se_sent se (snd c) = s0 (snd c) @ concat (take l ds)"
  using assms by (auto simp: client_served_def sub_info_def)

text \<open>What the tasks of one \<open>add_chunk\<close> bring to the clients.\<close>

lemma tasks_sent:
  assumes d: "distinct (map fst cs)" "distinct (map snd cs)" and m: "se_manager se = m"
    and S: "\<And>c. c \<in> set cs \<Longrightarrow> client_served s0 se ds c" "\<And>fd. fd \<notin> snd ` set cs \<Longrightarrow> se_sent se fd = s0 fd"
  shows "c \<in> set cs \<Longrightarrow> se_sent se (snd c) @ concat (map (missing (ds @ [d]) (sm_subs m) (snd c)) (map fst cs)) = s0 (snd c) @ concat (ds @ [d])"
    and "fd \<notin> snd ` set cs \<Longrightarrow> se_sent se fd @ concat (map (missing (ds @ [d]) (sm_subs m) fd) (map fst cs)) = s0 fd"
proof -
  have none: "missing (ds @ [d]) (sm_subs m) fd (fst c') = []" if "c' \<in> set cs" "snd c' \<noteq> fd" for c' fd
    using client_served_node [OF S(1) [OF that(1)]] that(2) m by (auto simp: missing_def)
  show "se_sent se (snd c) @ concat (map (missing (ds @ [d]) (sm_subs m) (snd c)) (map fst cs)) = s0 (snd c) @ concat (ds @ [d])" if c: "c \<in> set cs"
  proof -
    obtain l n where l: "l \<le> length ds" "sm_subs m (fst c) = Some n" "sb_fd n = snd c" "sb_chunk_loaded n = l"
      "se_sent se (snd c) = s0 (snd c) @ concat (take l ds)" using client_served_node [OF S(1) [OF c]] m by blast
    have "concat (map (missing (ds @ [d]) (sm_subs m) (snd c)) (map fst cs)) = missing (ds @ [d]) (sm_subs m) (snd c) (fst c)"
    proof (rule concat_single [OF d(1)])
      show "fst c \<in> set (map fst cs)" using c by simp
      fix b assume b: "b \<in> set (map fst cs)" "b \<noteq> fst c"
      then obtain c' where c': "c' \<in> set cs" "b = fst c'" by auto
      then have "snd c' \<noteq> snd c" using d(2) c b(2) by (metis distinct_map inj_onD)
      then show "missing (ds @ [d]) (sm_subs m) (snd c) b = []" using none c' by simp
    qed
    also have "\<dots> = concat (drop l ds) @ d" using l by (simp add: missing_def)
    finally have "concat (map (missing (ds @ [d]) (sm_subs m) (snd c)) (map fst cs)) = concat (drop l ds) @ d" .
    moreover have "concat (take l ds) @ concat (drop l ds) = concat ds" by (metis append_take_drop_id concat_append)
    ultimately show ?thesis using l(5) by simp
  qed
  show "se_sent se fd @ concat (map (missing (ds @ [d]) (sm_subs m) fd) (map fst cs)) = s0 fd" if fd: "fd \<notin> snd ` set cs"
  proof -
    have "missing (ds @ [d]) (sm_subs m) fd (fst c') = []" if "c' \<in> set cs" for c' by (rule none [OF that]) (use that fd in auto)
    then have "concat (map (missing (ds @ [d]) (sm_subs m) fd) (map fst cs)) = []" by auto
    then show ?thesis using S(2) [OF fd] by simp
  qed
qed

lemma loaded_bound:
  assumes "session_ok s0 se cs ds" "sm_subs (se_manager se) a = Some n"
  shows "sb_chunk_loaded n \<le> length ds"
proof -
  have "dom (sm_subs (se_manager se)) = set (map fst cs)" using assms(1) by (simp add: session_ok_def sm_rep_def)
  with assms(2) have "a \<in> fst ` set cs" by (metis domI set_map)
  then obtain c where c: "c \<in> set cs" "a = fst c" by blast
  then have "client_served s0 se ds c" using assms(1) by (simp add: session_ok_def)
  from client_served_node [OF this] c(2) assms(2) show ?thesis by auto
qed

text \<open>The state that \<open>add_chunk\<close> leaves: \<open>m\<close> after the clients have joined, \<open>cc\<close> the new container.\<close>

definition chunk_sent :: "char chunk_container \<Rightarrow> nat \<Rightarrow> addr list \<Rightarrow> char subscription_manager \<Rightarrow> char subscription_manager" where
  "chunk_sent cc k as m = m\<lparr>sm_subs := all_loaded k as (sm_subs m), sm_flag := 0, sm_container := cc, sm_locked := False\<rparr>"

lemma add_chunk_run:
  assumes ok: "session_ok s0 (se\<lparr>se_manager := m\<rparr>) cs ds" and cs: "cs \<noteq> []" and ev: "accepting ev" "storing ev"
    and js: "join_clients (next_joins (se_joins se)) (se_manager se) = Inr m" "length cs \<le> 127"
  shows "\<exists>se' cc bs. add_chunk ev d (length d) 1 se = Inr se' \<and> se_joins se' = tl (se_joins se) \<and> cc_rep cc bs (ds @ [d]) \<and>
    se_manager se' = chunk_sent cc (length (ds @ [d])) (map fst cs) m \<and>
    (\<forall>x. se_sent se' x = se_sent se x @ concat (map (missing (ds @ [d]) (sm_subs m) x) (map fst cs)))"
proof -
  let ?as = "map fst cs"
  obtain bs where S: "sm_rep m ?as" "cc_rep (sm_container m) bs ds" using ok by (auto simp: session_ok_def)
  obtain x where x: "ev_chunk ev (sm_container m) = Some x" "cc_heap (sm_container m) x = None" "ev_data ev" "\<And>a. ev_info ev a"
    using ev(2) S(2) unfolding storing_def by blast
  have loaded: "sb_chunk_loaded n \<le> length ds" if "sm_subs m a = Some n" for a n using loaded_bound [OF ok, of a n] that by simp
  have "\<exists>cc. add_chunk_begin (Some x) True (ev_info ev) (Some d) (length d) 1 m =
      Some (Inr (m\<lparr>sm_locked := True, sm_container := cc, sm_flag := int (length ?as)\<rparr>, ?as)) \<and>
    cc_rep cc (bs @ [x]) (ds @ [take (length d * 1) d])"
    using S cs js(2) loaded x by (intro add_chunk_begin_rep) auto
  then obtain cc where b: "add_chunk_begin (Some x) True (ev_info ev) (Some d) (length d) 1 m =
      Some (Inr (m\<lparr>sm_locked := True, sm_container := cc, sm_flag := int (length ?as)\<rparr>, ?as))" "cc_rep cc (bs @ [x]) (ds @ [d])" by auto
  let ?m = "m\<lparr>sm_locked := True, sm_container := cc, sm_flag := int (length ?as)\<rparr>"
  let ?se = "se\<lparr>se_manager := ?m, se_joins := tl (se_joins se)\<rparr>"
  have d: "distinct ?as" using S(1) dll_distinct unfolding sm_rep_def by blast
  have "\<exists>se'. run_tasks ev ?as ?se = Inr se' \<and> se_joins se' = se_joins ?se \<and>
    se_manager se' = ?m\<lparr>sm_subs := all_loaded (length (ds @ [d])) ?as (sm_subs ?m), sm_flag := sm_flag ?m - int (length ?as)\<rparr> \<and>
    (\<forall>x. se_sent se' x = se_sent ?se x @ concat (map (missing (ds @ [d]) (sm_subs ?m) x) ?as))"
  proof (rule run_tasks_result [OF ev(1) d])
    show "cc_rep (sm_container ?m) (bs @ [x]) (ds @ [d])" using b(2) by simp
    show "\<exists>n. sm_subs ?m a = Some n \<and> sb_chunk_loaded n \<le> length (ds @ [d])" if "a \<in> set ?as" for a
    proof -
      have "a \<in> dom (sm_subs m)" using S(1) that by (simp add: sm_rep_def)
      then obtain n where n: "sm_subs m a = Some n" by blast
      with loaded [OF n] show ?thesis by simp
    qed
    show "subs_free (sm_subs ?m)" using S(1) by (simp add: sm_rep_def)
  qed (use js(2) in simp_all)
  then obtain se1 where r: "run_tasks ev ?as ?se = Inr se1" "se_joins se1 = tl (se_joins se)"
    "se_manager se1 = ?m\<lparr>sm_subs := all_loaded (length (ds @ [d])) ?as (sm_subs m), sm_flag := 0\<rparr>"
    "\<And>x. se_sent se1 x = se_sent se x @ concat (map (missing (ds @ [d]) (sm_subs m) x) ?as)" by (auto simp del: map_map)
  let ?se' = "se1\<lparr>se_manager := manager_unlock (se_manager se1)\<rparr>"
  have "add_chunk ev d (length d) 1 se = Inr ?se'" using js(1) x b(1) r(1,3) by (simp add: add_chunk_def)
  then show ?thesis using b(2) r
    by (intro exI [of _ ?se'] exI [of _ cc] exI [of _ "bs @ [x]"]) (simp add: chunk_sent_def manager_unlock_def)
qed

text \<open>One call of \<open>add_chunk\<close>: afterwards everybody subscribed has everything.\<close>

lemma add_chunk_ok:
  assumes ok: "session_ok s0 se cs ds" and cs: "cs \<noteq> []" and ev: "accepting ev" "storing ev"
    and js: "joins_ok cs (next_joins (se_joins se))" "length cs + length (next_joins (se_joins se)) \<le> 127"
  shows "\<exists>se'. add_chunk ev d (length d) 1 se = Inr se' \<and> se_joins se' = tl (se_joins se) \<and>
    session_ok s0 se' (cs @ clients_of (next_joins (se_joins se))) (ds @ [d]) \<and>
    (\<forall>fd \<in> snd ` set (cs @ clients_of (next_joins (se_joins se))). se_sent se' fd = s0 fd @ concat (ds @ [d]))"
proof -
  let ?cs = "cs @ clients_of (next_joins (se_joins se))"
  obtain m where m: "join_clients (next_joins (se_joins se)) (se_manager se) = Inr m" "session_ok s0 (se\<lparr>se_manager := m\<rparr>) ?cs ds"
    using join_clients_ok [OF ok js(1)] by blast
  have S: "sm_rep m (map fst ?cs)" "sm_closed m = []" "sm_is_busy m" "distinct (map snd ?cs)"
    "\<And>c. c \<in> set ?cs \<Longrightarrow> client_served s0 (se\<lparr>se_manager := m\<rparr>) ds c" "\<And>fd. fd \<notin> snd ` set ?cs \<Longrightarrow> se_sent (se\<lparr>se_manager := m\<rparr>) fd = s0 fd"
    using m(2) by (simp_all add: session_ok_def)
  obtain se' cc bs where r: "add_chunk ev d (length d) 1 se = Inr se'" "se_joins se' = tl (se_joins se)" "cc_rep cc bs (ds @ [d])"
    "se_manager se' = chunk_sent cc (length (ds @ [d])) (map fst ?cs) m"
    "\<And>x. se_sent se' x = se_sent se x @ concat (map (missing (ds @ [d]) (sm_subs m) x) (map fst ?cs))"
    using add_chunk_run [OF m(2) _ ev m(1), of d] cs js(2) by auto
  have d: "distinct (map fst ?cs)" using S(1) dll_distinct unfolding sm_rep_def by blast
  have sent: "se_sent se' (snd c) = s0 (snd c) @ concat (ds @ [d])" if "c \<in> set ?cs" for c
    using tasks_sent(1) [where se = "se\<lparr>se_manager := m\<rparr>" and m = m, OF d S(4) _ S(5,6) that, of d] r(5) [of "snd c"] by simp
  have other: "se_sent se' fd = s0 fd" if "fd \<notin> snd ` set ?cs" for fd
    using tasks_sent(2) [where se = "se\<lparr>se_manager := m\<rparr>" and m = m, OF d S(4) _ S(5,6) that, of d] r(5) [of fd] by simp
  have M: "sm_rep (se_manager se') (map fst ?cs)"
    "\<And>a. a \<in> set (map fst ?cs) \<Longrightarrow> sub_info (se_manager se') a = map_option (\<lambda>(fd, l). (fd, length (ds @ [d]))) (sub_info m a)"
    using all_loaded_rep [where k = "length (ds @ [d])" and f = 0 and c = cc, OF S(1) refl] unfolding r(4) chunk_sent_def sm_rep_def sub_info_def by auto
  have "client_served s0 se' (ds @ [d]) c" if c: "c \<in> set ?cs" for c
  proof -
    obtain l where "sub_info m (fst c) = Some (snd c, l)" using S(5) [OF c] by (auto simp: client_served_def)
    moreover have "fst c \<in> set (map fst ?cs)" unfolding set_map using c by (rule imageI)
    ultimately have "sub_info (se_manager se') (fst c) = Some (snd c, length (ds @ [d]))" using M(2) [of "fst c"] by (simp only: option.map prod.case)
    then show ?thesis using sent [OF c] unfolding client_served_def by (intro exI [of _ "length (ds @ [d])"]) simp
  qed
  then have "session_ok s0 se' ?cs (ds @ [d])" unfolding session_ok_def
    using M(1) S(2,3,4) r(3) other unfolding r(4) by (auto simp: chunk_sent_def)
  moreover have "\<forall>fd \<in> snd ` set ?cs. se_sent se' fd = s0 fd @ concat (ds @ [d])" using sent by blast
  ultimately show ?thesis using r(1,2) by blast
qed

section \<open>A whole response\<close>

fun deliver :: "environment \<Rightarrow> string list \<Rightarrow> session \<Rightarrow> fault + session" where
  "deliver ev [] se = Inr se"
| "deliver ev (b # bs) se = ebind (add_chunk ev b (length b) 1 se) (deliver ev bs)"

lemma curl_deliver_deliver: "curl_deliver ev bs se = ebind (deliver ev bs se) (\<lambda>se. Inr (True, se))"
  by (induction bs arbitrary: se) (simp_all add: callback_def ebind_assoc)

text \<open>The blocks in which \<open>share_cache\<close> reads a file.\<close>

function file_blocks :: "string \<Rightarrow> string list" where
  "file_blocks f = (if f = [] then [] else take CACHE_BUFFER_SIZE f # file_blocks (drop CACHE_BUFFER_SIZE f))"
  by pat_completeness auto
termination by (relation "measure length") (auto simp: CACHE_BUFFER_SIZE_def)

declare file_blocks.simps [simp del]

lemma file_blocks_concat [simp]: "concat (file_blocks f) = f"
  by (induction f rule: file_blocks.induct) (subst file_blocks.simps, simp)

lemma share_loop_deliver: "share_loop (add_chunk ev) f se = deliver ev (file_blocks f) se"
proof (induction f arbitrary: se rule: file_blocks.induct)
  case (1 f)
  have "CACHE_BUFFER_SIZE \<noteq> 0" by (simp add: CACHE_BUFFER_SIZE_def)
  then show ?case using 1 by (subst share_loop.simps, subst file_blocks.simps) (simp add: Let_def cong: ebind_cong)
qed

text \<open>
  Delivering the blocks \<open>bs\<close>: the clients that were there before the last block have all of them, the
  others are still to come.
\<close>

lemma deliver_ok:
  assumes "session_ok s0 se cs ds" "cs \<noteq> []" "accepting ev" "storing ev"
    and "joins_ok cs (concat (se_joins se))" "length cs + length (concat (se_joins se)) \<le> 127"
  shows "\<exists>se'. deliver ev bs se = Inr se' \<and> se_joins se' = drop (length bs) (se_joins se) \<and>
    session_ok s0 se' (cs @ clients_of (concat (take (length bs) (se_joins se)))) (ds @ bs) \<and>
    (bs \<noteq> [] \<longrightarrow> (\<forall>fd \<in> snd ` set (cs @ clients_of (concat (take (length bs) (se_joins se)))). se_sent se' fd = s0 fd @ concat (ds @ bs)))"
  using assms(1,2,5,6)
proof (induction bs arbitrary: se cs ds)
  case Nil
  then show ?case by simp
next
  case (Cons b bs)
  let ?j = "next_joins (se_joins se)" and ?js = "tl (se_joins se)"
  have split: "concat (se_joins se) = ?j @ concat ?js" by (cases "se_joins se") (simp_all add: next_joins_def)
  have tk: "concat (take (length (b # bs)) (se_joins se)) = ?j @ concat (take (length bs) ?js)"
    by (cases "se_joins se") (simp_all add: next_joins_def)
  have J: "joins_ok cs ?j" "joins_ok (cs @ clients_of ?j) (concat ?js)" using Cons.prems(3) by (simp_all add: split joins_ok_append)
  obtain se1 where se1: "add_chunk ev b (length b) 1 se = Inr se1" "se_joins se1 = ?js" "session_ok s0 se1 (cs @ clients_of ?j) (ds @ [b])"
    "\<forall>fd \<in> snd ` set (cs @ clients_of ?j). se_sent se1 fd = s0 fd @ concat (ds @ [b])"
    using add_chunk_ok [OF Cons.prems(1,2) assms(3,4) J(1), of b] Cons.prems(4) split by auto
  have "joins_ok (cs @ clients_of ?j) (concat (se_joins se1))" "length (cs @ clients_of ?j) + length (concat (se_joins se1)) \<le> 127"
    using J(2) se1(2) Cons.prems(4) split by simp_all
  from Cons.IH [OF se1(3) _ this] Cons.prems(2) obtain se' where se': "deliver ev bs se1 = Inr se'" "se_joins se' = drop (length bs) ?js"
    "session_ok s0 se' ((cs @ clients_of ?j) @ clients_of (concat (take (length bs) ?js))) ((ds @ [b]) @ bs)"
    "bs \<noteq> [] \<longrightarrow> (\<forall>fd \<in> snd ` set ((cs @ clients_of ?j) @ clients_of (concat (take (length bs) ?js))). se_sent se' fd = s0 fd @ concat ((ds @ [b]) @ bs))"
    unfolding se1(2) by blast
  have "\<forall>fd \<in> snd ` set (cs @ clients_of (?j @ concat (take (length bs) ?js))). se_sent se' fd = s0 fd @ concat (ds @ b # bs)"
  proof (cases "bs = []")
    case True
    with se' have "se' = se1" by simp
    with se1(4) True show ?thesis by simp
  next
    case False
    with se'(4) show ?thesis by simp
  qed
  moreover have "deliver ev (b # bs) se = Inr se'" "se_joins se' = drop (length (b # bs)) (se_joins se)"
    using se1(1) se'(1,2) by (simp_all add: drop_Suc)
  ultimately show ?case using se'(3) unfolding tk by (intro exI [of _ se']) simp
qed

end
