(* ===== verification/Stack_Map.thy ===== *)
theory Stack_Map
  imports Common
begin

text \<open>
  The contract between the proxy's handler and its table of cached responses: a map from keys to
  stacks of pointers. \<open>insert\<close> pushes (an older value of the same key is shadowed, not replaced),
  \<open>get\<close> returns the top or \<open>NULL\<close>, \<open>delete\<close> pops. The locale states what a table must satisfy and
  proves what its clients use.
\<close>

text \<open>The flag of \<open>Insert\<close> says whether the allocation of the node succeeds.\<close>

datatype map_op = Insert bool string ptr | Get string | Delete string

definition stack_top :: "ptr list \<Rightarrow> ptr" where
  "stack_top vs = (case vs of [] \<Rightarrow> None | v # _ \<Rightarrow> v)"

text \<open>One operation of the specification: what it returns (for \<open>get\<close>) and the new stacks.\<close>

fun stack_op :: "(string \<Rightarrow> string) \<Rightarrow> map_op \<Rightarrow> (string \<Rightarrow> ptr list) \<Rightarrow> ptr option \<times> (string \<Rightarrow> ptr list)" where
  "stack_op norm (Insert b k v) A = (None, if b then A(norm k := v # A (norm k)) else A)"
| "stack_op norm (Get k) A = (Some (stack_top (A (norm k))), A)"
| "stack_op norm (Delete k) A = (None, A(norm k := tl (A (norm k))))"

fun stack_ops :: "(string \<Rightarrow> string) \<Rightarrow> map_op list \<Rightarrow> (string \<Rightarrow> ptr list) \<Rightarrow> ptr option list \<times> (string \<Rightarrow> ptr list)" where
  "stack_ops norm [] A = ([], A)"
| "stack_ops norm (x # xs) A = (case stack_op norm x A of (r, A') \<Rightarrow>
     case stack_ops norm xs A' of (rs, A'') \<Rightarrow> (r # rs, A''))"

text \<open>
  A table given by its operations, run on a list of them: \<open>None\<close> as soon as one faults or does not
  return. \<open>alloc\<close> is the allocator: the address of the next node.
\<close>

fun map_do ::
  "(ptr \<Rightarrow> string \<Rightarrow> ptr \<Rightarrow> 's \<Rightarrow> fault + 's) \<Rightarrow> (string \<Rightarrow> 's \<Rightarrow> (fault + ptr) option) \<Rightarrow> (string \<Rightarrow> 's \<Rightarrow> (fault + 's) option) \<Rightarrow>
   ('s \<Rightarrow> addr) \<Rightarrow> map_op \<Rightarrow> 's \<Rightarrow> (ptr option \<times> 's) option" where
  "map_do ins get del alloc (Insert b k v) s =
     (case ins (if b then Some (alloc s) else None) k v s of Inr s' \<Rightarrow> Some (None, s') | Inl _ \<Rightarrow> None)"
| "map_do ins get del alloc (Get k) s = (case get k s of Some (Inr v) \<Rightarrow> Some (Some v, s) | _ \<Rightarrow> None)"
| "map_do ins get del alloc (Delete k) s = (case del k s of Some (Inr s') \<Rightarrow> Some (None, s') | _ \<Rightarrow> None)"

fun map_run ::
  "(ptr \<Rightarrow> string \<Rightarrow> ptr \<Rightarrow> 's \<Rightarrow> fault + 's) \<Rightarrow> (string \<Rightarrow> 's \<Rightarrow> (fault + ptr) option) \<Rightarrow> (string \<Rightarrow> 's \<Rightarrow> (fault + 's) option) \<Rightarrow>
   ('s \<Rightarrow> addr) \<Rightarrow> map_op list \<Rightarrow> 's \<Rightarrow> (ptr option list \<times> 's) option" where
  "map_run ins get del alloc [] s = Some ([], s)"
| "map_run ins get del alloc (x # xs) s = Option.bind (map_do ins get del alloc x s) (\<lambda>(r, s').
     Option.bind (map_run ins get del alloc xs s') (\<lambda>(rs, s''). Some (r # rs, s'')))"

fun op_key :: "map_op \<Rightarrow> string" where
  "op_key (Insert b k v) = k"
| "op_key (Get k) = k"
| "op_key (Delete k) = k"

locale stack_map =
  fixes rep :: "'s \<Rightarrow> (string \<Rightarrow> ptr list) \<Rightarrow> bool"
    and ins :: "ptr \<Rightarrow> string \<Rightarrow> ptr \<Rightarrow> 's \<Rightarrow> fault + 's"
    and get :: "string \<Rightarrow> 's \<Rightarrow> (fault + ptr) option"
    and del :: "string \<Rightarrow> 's \<Rightarrow> (fault + 's) option"
    and fresh :: "'s \<Rightarrow> ptr \<Rightarrow> bool"
    and good :: "string \<Rightarrow> bool"
    and norm :: "string \<Rightarrow> string"
  assumes ins_some: "rep s A \<Longrightarrow> good k \<Longrightarrow> fresh s (Some a) \<Longrightarrow>
      \<exists>s'. ins (Some a) k v s = Inr s' \<and> rep s' (A(norm k := v # A (norm k)))"
    and ins_none: "rep s A \<Longrightarrow> good k \<Longrightarrow> ins None k v s = Inr s"
    and get_top: "rep s A \<Longrightarrow> good k \<Longrightarrow> get k s = Some (Inr (stack_top (A (norm k))))"
    and del_pop: "rep s A \<Longrightarrow> good k \<Longrightarrow> \<exists>s'. del k s = Some (Inr s') \<and> rep s' (A(norm k := tl (A (norm k))))"
begin

lemma get_after_insert:
  assumes "rep s A" "good k" "good k'" "fresh s (Some a)"
  shows "\<exists>s'. ins (Some a) k v s = Inr s' \<and>
    get k' s' = Some (Inr (if norm k' = norm k then v else stack_top (A (norm k'))))"
proof -
  obtain s' where "ins (Some a) k v s = Inr s'" "rep s' (A(norm k := v # A (norm k)))"
    using ins_some [OF assms(1,2,4)] by blast
  with get_top [OF _ assms(3)] show ?thesis by (auto simp: stack_top_def)
qed

text \<open>Deleting a key that was just inserted gives back what the table answered before.\<close>

lemma delete_after_insert:
  assumes "rep s A" "good k" "fresh s (Some a)"
  shows "\<exists>s' s''. ins (Some a) k v s = Inr s' \<and> del k s' = Some (Inr s'') \<and> (\<forall>k'. good k' \<longrightarrow> get k' s'' = get k' s)"
proof -
  obtain s' where s': "ins (Some a) k v s = Inr s'" "rep s' (A(norm k := v # A (norm k)))"
    using ins_some [OF assms] by blast
  obtain s'' where s'': "del k s' = Some (Inr s'')" "rep s'' ((A(norm k := v # A (norm k)))(norm k := A (norm k)))"
    using del_pop [OF s'(2) assms(2)] by auto
  then have "rep s'' A" by simp
  then have "get k' s'' = get k' s" if "good k'" for k' using get_top [OF _ that] assms(1) by metis
  with s' s'' show ?thesis by blast
qed

lemma map_do_refines:
  assumes "rep s A" "good (op_key x)" "fresh s (Some (alloc s))"
  shows "\<exists>s'. map_do ins get del alloc x s = Some (fst (stack_op norm x A), s') \<and> rep s' (snd (stack_op norm x A))"
proof (cases x)
  case (Insert b k v)
  then show ?thesis using assms ins_none [OF assms(1), of k v] ins_some [OF assms(1) _ assms(3), of k v] by (cases b) auto
next
  case (Get k) then show ?thesis using assms get_top [OF assms(1), of k] by simp
next
  case (Delete k) then show ?thesis using assms del_pop [OF assms(1), of k] by auto
qed

lemma map_run_refines:
  assumes "\<And>s A. rep s A \<Longrightarrow> fresh s (Some (alloc s))"
  shows "rep s A \<Longrightarrow> list_all (\<lambda>x. good (op_key x)) xs \<Longrightarrow>
    \<exists>s'. map_run ins get del alloc xs s = Some (fst (stack_ops norm xs A), s') \<and> rep s' (snd (stack_ops norm xs A))"
proof (induction xs arbitrary: s A)
  case (Cons x xs)
  obtain s1 where s1: "map_do ins get del alloc x s = Some (fst (stack_op norm x A), s1)" "rep s1 (snd (stack_op norm x A))"
    using map_do_refines [where alloc = alloc and x = x, OF Cons.prems(1) _ assms [OF Cons.prems(1)]] Cons.prems(2) by auto
  obtain s2 where "map_run ins get del alloc xs s1 = Some (fst (stack_ops norm xs (snd (stack_op norm x A))), s2)"
      "rep s2 (snd (stack_ops norm xs (snd (stack_op norm x A))))"
    using Cons.IH [OF s1(2)] Cons.prems(2) by auto
  with s1 show ?case by (simp add: split_beta)
qed simp

end

end
