(* ===== verification/Hashmap.thy ===== *)
theory Hashmap
  imports Stack_Map
begin

text \<open>
  The proxy's hash table, \<open>lab3/src/common/hashmap.c\<close>: 128 chains of nodes in a heap, keys of at most
  512 characters compared with \<open>strncmp\<close> and stored with \<open>strncpy\<close> (so a longer key is cut and
  stored without terminator). A value is a pointer. Abstractly the table is a stack of values per
  key: \<open>insert\<close> shadows, \<open>get\<close> reads the top, \<open>delete\<close> pops.
\<close>

section \<open>Data and operations\<close>

definition MAX_KEY_LENGTH :: nat where "MAX_KEY_LENGTH = 512"
definition TABLE_SIZE :: nat where "TABLE_SIZE = 128"

record hnode =
  hn_key :: string
  hn_value :: ptr
  hn_next :: ptr

record hashmap =
  ht_table :: "ptr list"
  ht_nodes :: "addr \<rightharpoonup> hnode"

text \<open>\<open>None\<close>: the allocation of the table failed.\<close>

definition create_table :: "bool \<Rightarrow> hashmap option" where
  "create_table malloc_succeeds =
     (if malloc_succeeds then Some \<lparr>ht_table = replicate TABLE_SIZE None, ht_nodes = Map.empty\<rparr> else None)"

definition ht_index :: "string \<Rightarrow> fault + nat" where
  "ht_index key = ebind (hashn key MAX_KEY_LENGTH) (\<lambda>h. Inr (unat (h mod of_nat TABLE_SIZE)))"

definition ht_insert :: "ptr \<Rightarrow> string \<Rightarrow> ptr \<Rightarrow> hashmap \<Rightarrow> fault + hashmap" where
  "ht_insert new_node key value ht = ebind (ht_index key) (\<lambda>index.
     case new_node of None \<Rightarrow> Inr ht
     | Some a \<Rightarrow> ebind (strncpy key MAX_KEY_LENGTH) (\<lambda>k.
         Inr \<lparr>ht_table = (ht_table ht)[index := Some a],
              ht_nodes = (ht_nodes ht)(a \<mapsto> \<lparr>hn_key = k, hn_value = value, hn_next = ht_table ht ! index\<rparr>)\<rparr>))"

text \<open>The searches of \<open>get\<close> and \<open>delete\<close>; \<open>None\<close> only if they would run forever.\<close>

partial_function (option) ht_get_loop :: "(addr \<rightharpoonup> hnode) \<Rightarrow> string \<Rightarrow> ptr \<Rightarrow> (fault + ptr) option" where
  "ht_get_loop h key current = (case current of None \<Rightarrow> Some (Inr None)
     | Some a \<Rightarrow> (case h a of None \<Rightarrow> Some (Inl (Bad_Addr a))
         | Some n \<Rightarrow> (case strncmp_eq (hn_key n) key MAX_KEY_LENGTH of
             Inl e \<Rightarrow> Some (Inl e)
           | Inr eq \<Rightarrow> if eq then Some (Inr (hn_value n)) else ht_get_loop h key (hn_next n))))"

definition ht_get :: "string \<Rightarrow> hashmap \<Rightarrow> (fault + ptr) option" where
  "ht_get key ht = (case ht_index key of Inl e \<Rightarrow> Some (Inl e)
     | Inr index \<Rightarrow> ht_get_loop (ht_nodes ht) key (ht_table ht ! index))"

partial_function (option) ht_delete_loop ::
  "hashmap \<Rightarrow> string \<Rightarrow> nat \<Rightarrow> ptr \<Rightarrow> ptr \<Rightarrow> (fault + hashmap) option" where
  "ht_delete_loop ht key index previous current = (case current of None \<Rightarrow> Some (Inr ht)
     | Some a \<Rightarrow> (case ht_nodes ht a of None \<Rightarrow> Some (Inl (Bad_Addr a))
         | Some n \<Rightarrow> (case strncmp_eq (hn_key n) key MAX_KEY_LENGTH of
             Inl e \<Rightarrow> Some (Inl e)
           | Inr eq \<Rightarrow> if eq then Some (ebind (case previous of
                 None \<Rightarrow> Inr (ht\<lparr>ht_table := (ht_table ht)[index := hn_next n]\<rparr>)
               | Some b \<Rightarrow> ebind (store (ht_nodes ht) (Some b) (hn_next_update (\<lambda>_. hn_next n))) (\<lambda>h. Inr (ht\<lparr>ht_nodes := h\<rparr>)))
               (\<lambda>ht. ebind (release (ht_nodes ht) current) (\<lambda>h. Inr (ht\<lparr>ht_nodes := h\<rparr>))))
             else ht_delete_loop ht key index current (hn_next n))))"

definition ht_delete :: "string \<Rightarrow> hashmap \<Rightarrow> (fault + hashmap) option" where
  "ht_delete key ht = (case ht_index key of Inl e \<Rightarrow> Some (Inl e)
     | Inr index \<Rightarrow> ht_delete_loop ht key index None (ht_table ht ! index))"

text \<open>\<open>destroy_hashmap\<close>: the nodes that are left in the heap after the loop over the table.\<close>

fun destroy_buckets :: "ptr list \<Rightarrow> (addr \<rightharpoonup> hnode) \<Rightarrow> (fault + (addr \<rightharpoonup> hnode)) option" where
  "destroy_buckets [] h = Some (Inr h)"
| "destroy_buckets (p # ps) h = (case free_chain hn_next h p of None \<Rightarrow> None
     | Some (Inl e) \<Rightarrow> Some (Inl e)
     | Some (Inr h') \<Rightarrow> destroy_buckets ps h')"

definition destroy_hashmap :: "hashmap option \<Rightarrow> (fault + (addr \<rightharpoonup> hnode)) option" where
  "destroy_hashmap ht = (case ht of None \<Rightarrow> Some (Inr Map.empty)
     | Some t \<Rightarrow> destroy_buckets (ht_table t) (ht_nodes t))"

section \<open>Abstraction\<close>

text \<open>The key that a buffer stands for, and the chain its hash selects.\<close>

definition key_of :: "string \<Rightarrow> string" where "key_of b = take MAX_KEY_LENGTH (cstr b)"

definition key_ok :: "string \<Rightarrow> bool" where "key_ok b \<longleftrightarrow> readable (Suc MAX_KEY_LENGTH) b"

definition bucket_of :: "string \<Rightarrow> nat" where
  "bucket_of k = unat ((of_int (djb2 k) :: 32 word) mod of_nat TABLE_SIZE)"

definition entry :: "(addr \<rightharpoonup> hnode) \<Rightarrow> addr \<Rightarrow> string \<times> ptr" where
  "entry h a = (case h a of Some n \<Rightarrow> (key_of (hn_key n), hn_value n) | None \<Rightarrow> ([], None))"

definition values_of :: "string \<Rightarrow> (string \<times> ptr) list \<Rightarrow> ptr list" where
  "values_of k es = map snd (filter (\<lambda>e. fst e = k) es)"

text \<open>\<open>ht_rep ht bs\<close>: chain \<open>i\<close> of the table consists of the nodes \<open>bs ! i\<close>, and the heap of nothing else.\<close>

definition ht_rep :: "hashmap \<Rightarrow> addr list list \<Rightarrow> bool" where
  "ht_rep ht bs \<longleftrightarrow> length (ht_table ht) = TABLE_SIZE \<and> length bs = TABLE_SIZE \<and>
     (\<forall>i<TABLE_SIZE. path hn_next (ht_nodes ht) (ht_table ht ! i) (bs ! i) None) \<and>
     (\<forall>i<TABLE_SIZE. \<forall>j<TABLE_SIZE. i \<noteq> j \<longrightarrow> set (bs ! i) \<inter> set (bs ! j) = {}) \<and>
     dom (ht_nodes ht) = (\<Union>i<TABLE_SIZE. set (bs ! i)) \<and>
     (\<forall>i<TABLE_SIZE. \<forall>a\<in>set (bs ! i). \<forall>n. ht_nodes ht a = Some n \<longrightarrow>
        readable MAX_KEY_LENGTH (hn_key n) \<and> bucket_of (key_of (hn_key n)) = i)"

text \<open>The stack of values of every key.\<close>

definition ht_abs :: "hashmap \<Rightarrow> addr list list \<Rightarrow> string \<Rightarrow> ptr list" where
  "ht_abs ht bs k = values_of k (map (entry (ht_nodes ht)) (bs ! bucket_of k))"

lemma bucket_of_less: "bucket_of k < TABLE_SIZE"
  by (simp add: bucket_of_def TABLE_SIZE_def unat_mod_distrib)

lemma ht_index_bucket: "key_ok key \<Longrightarrow> ht_index key = Inr (bucket_of (key_of key))"
  by (simp add: ht_index_def key_ok_def hashn_djb2 key_of_def bucket_of_def)

lemma key_ok_readable: "key_ok key \<Longrightarrow> readable MAX_KEY_LENGTH key"
  by (auto simp: key_ok_def intro: readable_mono)

lemma key_cmp:
  "readable MAX_KEY_LENGTH k \<Longrightarrow> key_ok key \<Longrightarrow> strncmp_eq k key MAX_KEY_LENGTH = Inr (key_of k = key_of key)"
  by (simp add: strncmp_eq_iff key_ok_readable key_of_def)

section \<open>The searches\<close>

definition keys_match :: "(addr \<rightharpoonup> hnode) \<Rightarrow> string \<Rightarrow> addr \<Rightarrow> bool" where
  "keys_match h key a \<longleftrightarrow> fst (entry h a) = key_of key"

definition nodes_ok :: "(addr \<rightharpoonup> hnode) \<Rightarrow> addr list \<Rightarrow> bool" where
  "nodes_ok h as \<longleftrightarrow> (\<forall>a\<in>set as. \<forall>n. h a = Some n \<longrightarrow> readable MAX_KEY_LENGTH (hn_key n))"

lemma nodes_ok_simps [simp]:
  "nodes_ok h []"
  "nodes_ok h (a # as) \<longleftrightarrow> (\<forall>n. h a = Some n \<longrightarrow> readable MAX_KEY_LENGTH (hn_key n)) \<and> nodes_ok h as"
  by (auto simp: nodes_ok_def)

lemma ht_get_loop_path:
  "path hn_next h p as None \<Longrightarrow> nodes_ok h as \<Longrightarrow> key_ok key \<Longrightarrow>
   ht_get_loop h key p = Some (Inr (case values_of (key_of key) (map (entry h) as) of [] \<Rightarrow> None | v # _ \<Rightarrow> v))"
  by (induction as arbitrary: p)
    (auto simp: ht_get_loop.simps [of h key] values_of_def entry_def key_cmp split: list.splits)

lemma ht_delete_loop_absent:
  "path hn_next (ht_nodes ht) p as None \<Longrightarrow> nodes_ok (ht_nodes ht) as \<Longrightarrow> key_ok key \<Longrightarrow>
   \<forall>a\<in>set as. \<not> keys_match (ht_nodes ht) key a \<Longrightarrow> ht_delete_loop ht key i prev p = Some (Inr ht)"
  by (induction as arbitrary: p prev)
    (auto simp: ht_delete_loop.simps [of ht key] keys_match_def entry_def key_cmp)

lemma ht_delete_loop_skip:
  "path hn_next (ht_nodes ht) p xs q \<Longrightarrow> nodes_ok (ht_nodes ht) xs \<Longrightarrow> key_ok key \<Longrightarrow>
   \<forall>a\<in>set xs. \<not> keys_match (ht_nodes ht) key a \<Longrightarrow>
   ht_delete_loop ht key i prev p = ht_delete_loop ht key i (if xs = [] then prev else Some (last xs)) q"
proof (induction xs arbitrary: p prev)
  case (Cons a xs)
  then obtain n where n: "p = Some a" "ht_nodes ht a = Some n" "path hn_next (ht_nodes ht) (hn_next n) xs q" by auto
  then have "ht_delete_loop ht key i prev p = ht_delete_loop ht key i (Some a) (hn_next n)"
    using Cons.prems by (subst ht_delete_loop.simps) (auto simp: keys_match_def entry_def key_cmp)
  also have "\<dots> = ht_delete_loop ht key i (if xs = [] then Some a else Some (last xs)) q"
    using Cons.prems n by (intro Cons.IH) auto
  finally show ?case by auto
qed auto

lemma ht_delete_loop_hit:
  assumes "path hn_next (ht_nodes ht) p (xs @ a # ys) None" "nodes_ok (ht_nodes ht) (xs @ a # ys)" "key_ok key"
    and "\<forall>x\<in>set xs. \<not> keys_match (ht_nodes ht) key x" "keys_match (ht_nodes ht) key a"
    and n: "ht_nodes ht a = Some n"
  shows "ht_delete_loop ht key i None p = Some (Inr (if xs = []
      then ht\<lparr>ht_table := (ht_table ht)[i := hn_next n], ht_nodes := (ht_nodes ht)(a := None)\<rparr>
      else ht\<lparr>ht_nodes := (ht_nodes ht)(last xs \<mapsto> (the (ht_nodes ht (last xs)))\<lparr>hn_next := hn_next n\<rparr>, a := None)\<rparr>))"
proof -
  let ?h = "ht_nodes ht"
  have px: "path hn_next ?h p xs (Some a)" using assms(1) by (auto simp: path_append)
  have ok: "nodes_ok ?h xs" "readable MAX_KEY_LENGTH (hn_key n)" using assms(2) n by (auto simp: nodes_ok_def)
  have d: "a \<notin> set xs" using path_distinct [OF assms(1)] by auto
  have hit: "strncmp_eq (hn_key n) key MAX_KEY_LENGTH = Inr True"
    using assms(5) n by (simp add: key_cmp [OF ok(2) assms(3)] keys_match_def entry_def)
  have skip: "ht_delete_loop ht key i None p = ht_delete_loop ht key i (if xs = [] then None else Some (last xs)) (Some a)"
    by (rule ht_delete_loop_skip [OF px ok(1) assms(3,4)])
  show ?thesis
  proof (cases "xs = []")
    case True
    then show ?thesis unfolding skip using n hit by (simp add: ht_delete_loop.simps [of ht key i _ "Some _"])
  next
    case False
    then have "last xs \<in> set xs" by simp
    then obtain m where "?h (last xs) = Some m" "last xs \<noteq> a" using path_dom [OF px] d by blast
    then show ?thesis unfolding skip using n hit False
      by (simp add: ht_delete_loop.simps [of ht key i _ "Some _"] fun_upd_def)
  qed
qed

section \<open>Changing one chain\<close>

lemma ht_rep_disjoint:
  "ht_rep ht bs \<Longrightarrow> i < TABLE_SIZE \<Longrightarrow> j < TABLE_SIZE \<Longrightarrow> i \<noteq> j \<Longrightarrow> a \<in> set (bs ! i) \<Longrightarrow> a \<notin> set (bs ! j)"
  by (simp add: ht_rep_def disjoint_iff)

lemma ht_rep_nodes_ok: "ht_rep ht bs \<Longrightarrow> i < TABLE_SIZE \<Longrightarrow> nodes_ok (ht_nodes ht) (bs ! i)"
  by (simp add: ht_rep_def nodes_ok_def)

lemma ht_rep_path: "ht_rep ht bs \<Longrightarrow> i < TABLE_SIZE \<Longrightarrow> path hn_next (ht_nodes ht) (ht_table ht ! i) (bs ! i) None"
  by (simp add: ht_rep_def)

lemma ht_rep_change:
  assumes rep: "ht_rep ht bs" and i: "i < TABLE_SIZE"
    and t': "ht_table ht' = (ht_table ht)[i := p']" and p': "path hn_next (ht_nodes ht') p' as' None"
    and fr: "\<And>b. b \<notin> set (bs ! i) \<Longrightarrow> b \<notin> set as' \<Longrightarrow> ht_nodes ht' b = ht_nodes ht b"
    and new: "\<And>b. b \<in> set as' \<Longrightarrow> b \<in> set (bs ! i) \<or> ht_nodes ht b = None"
    and gone: "\<And>b. b \<in> set (bs ! i) \<Longrightarrow> b \<notin> set as' \<Longrightarrow> ht_nodes ht' b = None"
    and ok: "\<And>b n. b \<in> set as' \<Longrightarrow> ht_nodes ht' b = Some n \<Longrightarrow>
        readable MAX_KEY_LENGTH (hn_key n) \<and> bucket_of (key_of (hn_key n)) = i"
  shows "ht_rep ht' (bs[i := as']) \<and> (\<forall>k. bucket_of k \<noteq> i \<longrightarrow> ht_abs ht' (bs[i := as']) k = ht_abs ht bs k)"
proof -
  let ?h = "ht_nodes ht" and ?h' = "ht_nodes ht'"
  have len: "length (ht_table ht) = TABLE_SIZE" "length bs = TABLE_SIZE" using rep by (simp_all add: ht_rep_def)
  have live: "b \<in> dom ?h" if "j < TABLE_SIZE" "b \<in> set (bs ! j)" for j b
    using path_dom [OF ht_rep_path [OF rep that(1)]] that(2) by blast
  have out: "b \<notin> set as'" if "j < TABLE_SIZE" "j \<noteq> i" "b \<in> set (bs ! j)" for j b
    using new ht_rep_disjoint [OF rep that(1) i that(2,3)] live [OF that(1,3)] by force
  have same: "?h' b = ?h b" if "j < TABLE_SIZE" "j \<noteq> i" "b \<in> set (bs ! j)" for j b
    using fr [OF ht_rep_disjoint [OF rep that(1) i that(2,3)] out [OF that]] .
  have paths: "path hn_next ?h' (ht_table ht' ! j) (bs[i := as'] ! j) None" if j: "j < TABLE_SIZE" for j
  proof (cases "j = i")
    case True then show ?thesis using p' i len t' by simp
  next
    case False
    then show ?thesis using path_cong_heap [OF ht_rep_path [OF rep j], of ?h'] same [OF j False] t' by simp
  qed
  have disj: "\<forall>j<TABLE_SIZE. \<forall>l<TABLE_SIZE. j \<noteq> l \<longrightarrow> set (bs[i := as'] ! j) \<inter> set (bs[i := as'] ! l) = {}"
  proof (intro allI impI)
    fix j l assume jl: "j < TABLE_SIZE" "l < TABLE_SIZE" "j \<noteq> l"
    show "set (bs[i := as'] ! j) \<inter> set (bs[i := as'] ! l) = {}"
      using out [OF jl(1)] out [OF jl(2)] ht_rep_disjoint [OF rep jl] i len jl(3)
      by (cases "j = i"; cases "l = i") (auto simp: disjoint_iff)
  qed
  have doms: "dom ?h' = (\<Union>j<TABLE_SIZE. set (bs[i := as'] ! j))"
  proof (intro set_eqI iffI)
    fix b assume b: "b \<in> dom ?h'"
    show "b \<in> (\<Union>j<TABLE_SIZE. set (bs[i := as'] ! j))"
    proof (cases "b \<in> set as'")
      case True then show ?thesis using i len by (intro UN_I [of i]) auto
    next
      case False
      then have nb: "b \<notin> set (bs ! i)" using gone b by auto
      then have "b \<in> dom ?h" using fr [OF nb False] b by (simp add: domIff)
      then obtain j where "j < TABLE_SIZE" "b \<in> set (bs ! j)" using rep by (auto simp: ht_rep_def)
      then show ?thesis using nb by (intro UN_I [of j]) (cases "j = i"; auto)+
    qed
  next
    fix b assume "b \<in> (\<Union>j<TABLE_SIZE. set (bs[i := as'] ! j))"
    then obtain j where "j < TABLE_SIZE" "b \<in> set (bs[i := as'] ! j)" by auto
    then show "b \<in> dom ?h'" using path_dom [OF paths] by blast
  qed
  have nodes: "\<forall>j<TABLE_SIZE. \<forall>a\<in>set (bs[i := as'] ! j). \<forall>n. ?h' a = Some n \<longrightarrow>
        readable MAX_KEY_LENGTH (hn_key n) \<and> bucket_of (key_of (hn_key n)) = j"
  proof (intro allI ballI impI)
    fix j a n assume j: "j < TABLE_SIZE" and a: "a \<in> set (bs[i := as'] ! j)" and n: "?h' a = Some n"
    show "readable MAX_KEY_LENGTH (hn_key n) \<and> bucket_of (key_of (hn_key n)) = j"
    proof (cases "j = i")
      case True then show ?thesis using ok a n i len by simp
    next
      case False
      then have "?h a = Some n" "a \<in> set (bs ! j)" using same [OF j False] a n by auto
      then show ?thesis using rep j by (simp add: ht_rep_def)
    qed
  qed
  have abs: "ht_abs ht' (bs[i := as']) k = ht_abs ht bs k" if "bucket_of k \<noteq> i" for k
  proof -
    have "map (entry ?h') (bs ! bucket_of k) = map (entry ?h) (bs ! bucket_of k)"
      using same [OF bucket_of_less that] by (simp add: entry_def)
    then show ?thesis using that by (simp add: ht_abs_def del: map_eq_conv)
  qed
  have "ht_rep ht' (bs[i := as'])"
    unfolding ht_rep_def using paths disj doms nodes len t' by simp
  with abs show ?thesis by blast
qed

lemma values_of_simps [simp]:
  "values_of k [] = []"
  "values_of k (e # es) = (if fst e = k then snd e # values_of k es else values_of k es)"
  "values_of k (xs @ ys) = values_of k xs @ values_of k ys"
  by (simp_all add: values_of_def)

section \<open>The operations on the abstraction\<close>

lemma ht_create: "create_table True = Some ht \<Longrightarrow> ht_rep ht (replicate TABLE_SIZE []) \<and> ht_abs ht (replicate TABLE_SIZE []) = (\<lambda>k. [])"
  by (auto simp: create_table_def ht_rep_def ht_abs_def bucket_of_less fun_eq_iff)

lemma ht_insert_rep:
  assumes rep: "ht_rep ht bs" and key: "key_ok key" and fresh: "ht_nodes ht a = None"
  shows "\<exists>ht' bs'. ht_insert (Some a) key v ht = Inr ht' \<and> ht_rep ht' bs' \<and>
    ht_abs ht' bs' = (ht_abs ht bs)(key_of key := v # ht_abs ht bs (key_of key))"
proof -
  let ?i = "bucket_of (key_of key)" and ?h = "ht_nodes ht"
  obtain k where k: "strncpy key MAX_KEY_LENGTH = Inr k" "cstr k = take MAX_KEY_LENGTH (cstr key)" "readable MAX_KEY_LENGTH k"
    using strncpy_result [OF key_ok_readable [OF key]] by blast
  then have kk: "key_of k = key_of key" by (simp add: key_of_def)
  let ?n = "\<lparr>hn_key = k, hn_value = v, hn_next = ht_table ht ! ?i\<rparr>"
  let ?ht' = "\<lparr>ht_table = (ht_table ht)[?i := Some a], ht_nodes = ?h(a \<mapsto> ?n)\<rparr>"
  let ?bs' = "bs[?i := a # bs ! ?i]"
  have i: "?i < TABLE_SIZE" by (rule bucket_of_less)
  have len: "length bs = TABLE_SIZE" using rep by (simp add: ht_rep_def)
  have new: "a \<notin> set (bs ! j)" if "j < TABLE_SIZE" for j
    using path_dom [OF ht_rep_path [OF rep that]] fresh by auto
  have r: "ht_insert (Some a) key v ht = Inr ?ht'"
    by (simp add: ht_insert_def ht_index_bucket [OF key] k(1))
  have ch: "ht_rep ?ht' ?bs' \<and> (\<forall>k. bucket_of k \<noteq> ?i \<longrightarrow> ht_abs ?ht' ?bs' k = ht_abs ht bs k)"
  proof (rule ht_rep_change [OF rep i, where p' = "Some a"])
    show "path hn_next (ht_nodes ?ht') (Some a) (a # bs ! ?i) None"
      using ht_rep_path [OF rep i] new [OF i] by simp
    fix b n assume b: "b \<in> set (a # bs ! ?i)" "ht_nodes ?ht' b = Some n"
    show "readable MAX_KEY_LENGTH (hn_key n) \<and> bucket_of (key_of (hn_key n)) = ?i"
    proof (cases "b = a")
      case True then show ?thesis using b k kk by auto
    next
      case False then show ?thesis using b rep i unfolding ht_rep_def by auto
    qed
  qed (use fresh in auto)
  have "ht_abs ?ht' ?bs' k' = ((ht_abs ht bs)(key_of key := v # ht_abs ht bs (key_of key))) k'" for k'
  proof (cases "bucket_of k' = ?i")
    case True
    have m: "map (entry (?h(a \<mapsto> ?n))) (bs ! ?i) = map (entry ?h) (bs ! ?i)" using new [OF i] by (auto simp: entry_def)
    have e: "entry (?h(a \<mapsto> ?n)) a = (key_of key, v)" using kk by (simp add: entry_def)
    have "ht_abs ?ht' ?bs' k' = values_of k' ((key_of key, v) # map (entry ?h) (bs ! ?i))"
      using True i len m e by (simp add: ht_abs_def del: map_eq_conv values_of_simps)
    then show ?thesis using True by (auto simp: ht_abs_def)
  qed (use ch in auto)
  then show ?thesis using r ch by blast
qed

lemma ht_get_rep:
  assumes rep: "ht_rep ht bs" and key: "key_ok key"
  shows "ht_get key ht = Some (Inr (case ht_abs ht bs (key_of key) of [] \<Rightarrow> None | v # _ \<Rightarrow> v))"
  using ht_get_loop_path [OF ht_rep_path [OF rep bucket_of_less] ht_rep_nodes_ok [OF rep bucket_of_less] key]
  by (simp add: ht_get_def ht_index_bucket [OF key] ht_abs_def)

lemma values_of_absent: "\<forall>a\<in>set as. \<not> keys_match h key a \<Longrightarrow> values_of (key_of key) (map (entry h) as) = []"
  by (induction as) (auto simp: keys_match_def)

lemma unlink_path:
  assumes p: "path hn_next h p (xs @ a # ys) None" and n: "h a = Some n"
    and h': "h' = (if xs = [] then h(a := None) else h(last xs \<mapsto> (the (h (last xs)))\<lparr>hn_next := hn_next n\<rparr>, a := None))"
  shows "path hn_next h' (if xs = [] then hn_next n else p) (xs @ ys) None"
    and "\<And>b. b \<noteq> a \<Longrightarrow> map_option hn_key (h' b) = map_option hn_key (h b) \<and> map_option hn_value (h' b) = map_option hn_value (h b)"
    and "\<And>b. b \<noteq> a \<Longrightarrow> b \<notin> set xs \<Longrightarrow> h' b = h b"
proof -
  have d: "distinct (xs @ a # ys)" using p by (rule path_distinct)
  have ys: "path hn_next h (hn_next n) ys None" using p n by (auto simp: path_append)
  show "path hn_next h' (if xs = [] then hn_next n else p) (xs @ ys) None"
  proof (cases xs rule: rev_cases)
    case Nil then show ?thesis using ys d h' by simp
  next
    case (snoc zs z)
    obtain m where m: "h z = Some m" "path hn_next h p zs (Some z)" using p snoc by (auto simp: path_append)
    have h'z: "h' z = Some (m\<lparr>hn_next := hn_next n\<rparr>)" using h' snoc m d by auto
    have "path hn_next h' p zs (Some z)" using m(2) d snoc h' by (intro path_cong_heap [OF m(2)]) auto
    moreover have "path hn_next h' (hn_next n) ys None" using ys d snoc h' by (intro path_cong_heap [OF ys]) auto
    ultimately show ?thesis using snoc h'z by (auto simp: path_append)
  qed
  show "map_option hn_key (h' b) = map_option hn_key (h b) \<and> map_option hn_value (h' b) = map_option hn_value (h b)"
    if "b \<noteq> a" for b
  proof (cases "xs \<noteq> [] \<and> b = last xs")
    case True
    then have "b \<in> set (xs @ a # ys)" by simp
    then have "b \<in> dom h" using path_dom [OF p] by blast
    then show ?thesis using h' True that by auto
  qed (use h' that in auto)
  show "h' b = h b" if "b \<noteq> a" "b \<notin> set xs" for b using h' that by (auto split: if_splits)
qed

lemma entry_cong: "map_option hn_key (h' b) = map_option hn_key (h b) \<Longrightarrow> map_option hn_value (h' b) = map_option hn_value (h b)
   \<Longrightarrow> entry h' b = entry h b"
  by (cases "h b"; cases "h' b") (auto simp: entry_def)

lemma ht_delete_rep:
  assumes rep: "ht_rep ht bs" and key: "key_ok key"
  shows "\<exists>ht' bs'. ht_delete key ht = Some (Inr ht') \<and> ht_rep ht' bs' \<and>
    ht_abs ht' bs' = (ht_abs ht bs)(key_of key := tl (ht_abs ht bs (key_of key)))"
proof -
  let ?i = "bucket_of (key_of key)" and ?h = "ht_nodes ht"
  have i: "?i < TABLE_SIZE" by (rule bucket_of_less)
  note P = ht_rep_path [OF rep i] and N = ht_rep_nodes_ok [OF rep i]
  have del: "ht_delete key ht = ht_delete_loop ht key ?i None (ht_table ht ! ?i)"
    by (simp add: ht_delete_def ht_index_bucket [OF key])
  show ?thesis
  proof (cases "\<exists>a\<in>set (bs ! ?i). keys_match ?h key a")
    case False
    then have "ht_delete key ht = Some (Inr ht)" unfolding del by (intro ht_delete_loop_absent [OF P N key]) auto
    moreover have "ht_abs ht bs (key_of key) = []" using False values_of_absent [of "bs ! ?i" ?h key] by (auto simp: ht_abs_def)
    ultimately show ?thesis using rep by (intro exI [of _ ht] exI [of _ bs]) auto
  next
    case True
    then obtain xs a ys where bs: "bs ! ?i = xs @ a # ys" and hit: "keys_match ?h key a" and miss: "\<forall>x\<in>set xs. \<not> keys_match ?h key x"
      using split_list_first_prop [of "bs ! ?i" "keys_match ?h key"] by blast
    note P' = P [unfolded bs] and N' = N [unfolded bs]
    have d: "distinct (xs @ a # ys)" using P' by (rule path_distinct)
    obtain n where n: "?h a = Some n" using P' by (auto simp: path_append)
    define h' where "h' = (if xs = [] then ?h(a := None) else ?h(last xs \<mapsto> (the (?h (last xs)))\<lparr>hn_next := hn_next n\<rparr>, a := None))"
    note U = unlink_path [OF P' n h'_def]
    define ht' where "ht' = \<lparr>ht_table = (ht_table ht)[?i := if xs = [] then hn_next n else ht_table ht ! ?i], ht_nodes = h'\<rparr>"
    have r: "ht_delete key ht = Some (Inr ht')"
      unfolding del ht_delete_loop_hit [OF P' N' key miss hit n] ht'_def h'_def by (cases ht) simp
    have ent: "entry h' b = entry ?h b" if "b \<noteq> a" for b using entry_cong U(2) [OF that] by blast
    have dm: "a \<in> set (bs ! ?i)" "h' a = None" using bs h'_def by auto
    have ch: "ht_rep ht' (bs[?i := xs @ ys]) \<and> (\<forall>k. bucket_of k \<noteq> ?i \<longrightarrow> ht_abs ht' (bs[?i := xs @ ys]) k = ht_abs ht bs k)"
    proof (rule ht_rep_change [OF rep i, where p' = "if xs = [] then hn_next n else ht_table ht ! ?i"])
      fix b m assume b: "b \<in> set (xs @ ys)" "ht_nodes ht' b = Some m"
      then have "b \<noteq> a" "b \<in> set (bs ! ?i)" using d bs by auto
      moreover then obtain m' where "?h b = Some m'" "hn_key m' = hn_key m" using U(2) [of b] b by (cases "?h b") (auto simp: ht'_def)
      ultimately show "readable MAX_KEY_LENGTH (hn_key m) \<and> bucket_of (key_of (hn_key m)) = ?i"
        using rep i unfolding ht_rep_def by metis
    qed (use bs U(1,3) dm d in \<open>auto simp: ht'_def\<close>)
    have "ht_abs ht' (bs[?i := xs @ ys]) k = ((ht_abs ht bs)(key_of key := tl (ht_abs ht bs (key_of key)))) k" for k
    proof (cases "bucket_of k = ?i")
      case True
      have "map (entry h') xs = map (entry ?h) xs" "map (entry h') ys = map (entry ?h) ys" using d by (auto intro!: ent)
      then have "ht_abs ht' (bs[?i := xs @ ys]) k = values_of k (map (entry ?h) xs) @ values_of k (map (entry ?h) ys)"
        using True i rep by (simp add: ht_abs_def ht'_def ht_rep_def del: map_eq_conv)
      then show ?thesis using True bs hit values_of_absent [OF miss] by (auto simp: ht_abs_def keys_match_def)
    qed (use ch in auto)
    then show ?thesis using r ch by blast
  qed
qed

section \<open>Destroying the table\<close>

lemma destroy_buckets_frees:
  "length ps = length bs \<Longrightarrow> (\<forall>i<length ps. path hn_next h (ps ! i) (bs ! i) None) \<Longrightarrow>
   (\<forall>i<length bs. \<forall>j<length bs. i \<noteq> j \<longrightarrow> set (bs ! i) \<inter> set (bs ! j) = {}) \<Longrightarrow>
   destroy_buckets ps h = Some (Inr (h |` (- (\<Union>i<length bs. set (bs ! i)))))"
proof (induction ps bs arbitrary: h rule: list_induct2)
  case (Cons p ps as bs)
  have p: "path hn_next h p as None" using Cons.prems(1) by (auto dest: spec [of _ 0])
  let ?h = "h |` (- set as)"
  have "path hn_next ?h (ps ! i) (bs ! i) None" if i: "i < length ps" for i
  proof (rule path_cong_heap)
    show "path hn_next h (ps ! i) (bs ! i) None" using Cons.prems(1) i by (auto dest: spec [of _ "Suc i"])
    have "set as \<inter> set (bs ! i) = {}"
      using Cons.prems(2) [THEN spec, of 0, THEN mp, THEN spec, of "Suc i"] i Cons.hyps by simp
    then show "?h a = h a" if "a \<in> set (bs ! i)" for a using that by (auto simp: restrict_map_def)
  qed
  moreover have "\<forall>i<length bs. \<forall>j<length bs. i \<noteq> j \<longrightarrow> set (bs ! i) \<inter> set (bs ! j) = {}"
    using Cons.prems(2) by (metis Suc_inject Suc_mono length_Cons nth_Cons_Suc)
  ultimately have "destroy_buckets ps ?h = Some (Inr (?h |` (- (\<Union>i<length bs. set (bs ! i)))))" using Cons.IH by blast
  moreover have "- set as \<inter> - (\<Union>i<length bs. set (bs ! i)) = - (\<Union>i<length (as # bs). set ((as # bs) ! i))"
    by (auto simp: lessThan_Suc_eq_insert_0)
  ultimately show ?case using free_chain_path [OF p] by simp
qed (simp add: restrict_map_def)

section \<open>The table is a stack map\<close>

definition ht_stacks :: "hashmap \<Rightarrow> (string \<Rightarrow> ptr list) \<Rightarrow> bool" where
  "ht_stacks ht A \<longleftrightarrow> (\<exists>bs. ht_rep ht bs \<and> A = ht_abs ht bs)"

interpretation table: stack_map ht_stacks ht_insert ht_get ht_delete "\<lambda>ht. malloc_ok (ht_nodes ht)" key_ok key_of
proof unfold_locales
  fix ht A k v a assume "ht_stacks ht A" "key_ok k" "malloc_ok (ht_nodes ht) (Some a)"
  then show "\<exists>s'. ht_insert (Some a) k v ht = Inr s' \<and> ht_stacks s' (A(key_of k := v # A (key_of k)))"
    using ht_insert_rep unfolding ht_stacks_def by (metis malloc_ok_Some)
next
  fix ht A k v assume "ht_stacks ht A" "key_ok k"
  then show "ht_insert None k v ht = Inr ht" by (simp add: ht_insert_def ht_index_bucket)
next
  fix ht A k assume "ht_stacks ht A" "key_ok k"
  then show "ht_get k ht = Some (Inr (stack_top (A (key_of k))))" using ht_get_rep by (auto simp: ht_stacks_def stack_top_def)
next
  fix ht A k assume "ht_stacks ht A" "key_ok k"
  then show "\<exists>s'. ht_delete k ht = Some (Inr s') \<and> ht_stacks s' (A(key_of k := tl (A (key_of k))))"
    using ht_delete_rep unfolding ht_stacks_def by metis
qed

lemma ht_rep_finite: "ht_rep ht bs \<Longrightarrow> finite (dom (ht_nodes ht))"
  by (simp add: ht_rep_def)

section \<open>Properties\<close>

text \<open>C7: The hash table implements its specification for every sequence of operations: run on a fresh
  table, in any order, with allocations that may fail, every call returns without a fault, every
  \<open>get\<close> returns the value inserted last under the same first 512 characters and not deleted since, and
  keys that share a chain do not disturb each other. \<open>alloc\<close> is any allocator that returns unused
  addresses.\<close>

theorem hashmap_refines_stacks:
  assumes "\<And>ht. finite (dom (ht_nodes ht)) \<Longrightarrow> ht_nodes ht (alloc ht) = None"
    and "create_table True = Some ht" "list_all (\<lambda>x. key_ok (op_key x)) xs"
  shows "\<exists>ht'. map_run ht_insert ht_get ht_delete alloc xs ht = Some (fst (stack_ops key_of xs (\<lambda>k. [])), ht') \<and>
    ht_stacks ht' (snd (stack_ops key_of xs (\<lambda>k. [])))"
proof (rule table.map_run_refines)
  show "malloc_ok (ht_nodes s) (Some (alloc s))" if "ht_stacks s A" for s A
    using that assms(1) ht_rep_finite by (auto simp: ht_stacks_def)
  show "ht_stacks ht (\<lambda>k. [])" using ht_create [OF assms(2)] by (metis ht_stacks_def)
qed (rule assms(3))

theorem hashmap_refines_stacks_witness:
  "\<exists>ht'. map_run ht_insert ht_get ht_delete (\<lambda>ht. LEAST a. ht_nodes ht a = None)
      [Insert True [CHR ''k'', NUL] (Some 1), Insert True [CHR ''k'', NUL] (Some 2), Get [CHR ''k'', NUL], Delete [CHR ''k'', NUL],
       Get [CHR ''k'', NUL], Get [CHR ''q'', NUL]] (the (create_table True))
    = Some ([None, None, Some (Some 2), None, Some (Some 1), Some None], ht')"
proof -
  have a: "ht_nodes ht (LEAST a. ht_nodes ht a = None) = None" if f: "finite (dom (ht_nodes ht))" for ht
    using f by (rule least_free)
  have t: "create_table True = Some (the (create_table True))" by (simp add: create_table_def)
  show ?thesis
    using hashmap_refines_stacks [OF a t, of "[Insert True [CHR ''k'', NUL] (Some 1), Insert True [CHR ''k'', NUL] (Some 2),
       Get [CHR ''k'', NUL], Delete [CHR ''k'', NUL], Get [CHR ''k'', NUL], Get [CHR ''q'', NUL]]"]
    by (auto simp: key_ok_def readable_def key_of_def stack_top_def NUL_def MAX_KEY_LENGTH_def simp del: map_run.simps)
qed

text \<open>\<open>destroy_hashmap\<close> returns, and frees every node of the table exactly once.\<close>

theorem destroy_hashmap_frees_all:
  assumes "ht_rep ht bs"
  shows "destroy_hashmap (Some ht) = Some (Inr Map.empty)"
proof -
  have "destroy_buckets (ht_table ht) (ht_nodes ht) = Some (Inr (ht_nodes ht |` (- (\<Union>i<length bs. set (bs ! i)))))"
    using assms by (intro destroy_buckets_frees) (simp_all add: ht_rep_def)
  moreover have "ht_nodes ht |` (- (\<Union>i<length bs. set (bs ! i))) = Map.empty"
    using assms by (auto simp: ht_rep_def restrict_map_def domIff fun_eq_iff)
  ultimately show ?thesis by (simp add: destroy_hashmap_def)
qed

theorem destroy_hashmap_frees_all_witness:
  "\<exists>ht. ht_insert (Some 5) [NUL] None (the (create_table True)) = Inr ht \<and> ht_nodes ht \<noteq> Map.empty \<and>
     destroy_hashmap (Some ht) = Some (Inr Map.empty)"
proof -
  have rep: "ht_rep (the (create_table True)) (replicate TABLE_SIZE [])" using ht_create by (simp add: create_table_def)
  obtain ht bs where ht: "ht_insert (Some 5) [NUL] None (the (create_table True)) = Inr ht" "ht_rep ht bs"
    using ht_insert_rep [OF rep, of "[NUL]" 5 None] by (auto simp: key_ok_def create_table_def)
  have "ht_nodes ht 5 \<noteq> None" using ht(1) by (auto simp: ht_insert_def ebind_Inr_iff)
  then show ?thesis using ht destroy_hashmap_frees_all [OF ht(2)] by auto
qed

end
