(* ===== verification/Handler.thy ===== *)
theory Handler
  imports Session Hashmap
begin

text \<open>
  The session control of the proxy, \<open>lab3/src/handler/handler.c\<close>: \<open>__handle_client\<close> with everything it
  calls, on the state of the whole proxy: the table, the heap of managers, the cache files, what every
  connection was sent and which connections were closed. The model is the run of one handler; the
  handlers that subscribe further clients while it downloads are the \<open>ev_joins\<close> of the environment
  (their own run is \<open>handle_client_joins\<close> below). Interleavings of two handlers at a finer grain are the
  subject of the theory \<open>Handler_Race\<close>.
\<close>

section \<open>State\<close>

record proxy =
  px_map :: hashmap
  px_managers :: "addr \<rightharpoonup> char subscription_manager"
  px_files :: "string \<rightharpoonup> string"
  px_sent :: "int \<Rightarrow> string"
  px_closed :: "int list"

record session_data =
  sd_manager :: addr
  sd_request :: http_request

datatype outcome = Refused | Joined | Served | Failed

definition create_session_data :: "bool \<Rightarrow> addr \<Rightarrow> http_request \<Rightarrow> session_data option" where
  "create_session_data malloc_succeeds manager request =
     (if malloc_succeeds then Some \<lparr>sd_manager = manager, sd_request = request\<rparr> else None)"

definition close_fd :: "int \<Rightarrow> proxy \<Rightarrow> proxy" where
  "close_fd fd px = px\<lparr>px_closed := px_closed px @ [fd]\<rparr>"

text \<open>An operation on the manager at an address.\<close>

definition on_manager :: "addr \<Rightarrow> (char subscription_manager \<Rightarrow> fault + 'a \<times> char subscription_manager) \<Rightarrow> proxy \<Rightarrow> fault + 'a \<times> proxy" where
  "on_manager a f px = ebind (load (px_managers px) (Some a)) (\<lambda>m. ebind (f m) (\<lambda>(x, m).
     Inr (x, px\<lparr>px_managers := (px_managers px)(a \<mapsto> m)\<rparr>)))"

section \<open>Cache names\<close>

text \<open>\<open>sprintf\<close> with a \<open>NULL\<close> name is undefined, here a null dereference.\<close>

definition cache_path :: "bool \<times> bool \<Rightarrow> http_request \<Rightarrow> fault + string" where
  "cache_path answers r = ebind (parse_request_to_cachename (fst answers) (snd answers) r) (\<lambda>name.
     case name of None \<Rightarrow> Inl Null_Deref | Some n \<Rightarrow> full_cachename n)"

definition cache_exists :: "(string \<rightharpoonup> string) \<Rightarrow> string \<Rightarrow> int" where
  "cache_exists files full = (if files full = None then -1 else 0)"

definition check_cache :: "environment \<Rightarrow> (string \<rightharpoonup> string) \<Rightarrow> http_request \<Rightarrow> fault + int" where
  "check_cache ev files r = ebind (cache_path (ev_check_name ev) r) (\<lambda>full. Inr (cache_exists files full))"

section \<open>Sessions\<close>

text \<open>
  The session thread works on the manager while other handlers subscribe clients to it; those that
  come after the last chunk are subscribed when it is done.
\<close>

definition in_session :: "environment \<Rightarrow> addr \<Rightarrow> (session \<Rightarrow> fault + 'a \<times> session) \<Rightarrow> proxy \<Rightarrow> fault + 'a \<times> proxy" where
  "in_session ev a f px = ebind (load (px_managers px) (Some a)) (\<lambda>m.
     ebind (f \<lparr>se_manager = m, se_sent = px_sent px, se_joins = ev_joins ev\<rparr>) (\<lambda>(x, se).
     ebind (join_clients (concat (se_joins se)) (se_manager se)) (\<lambda>m.
     Inr (x, px\<lparr>px_managers := (px_managers px)(a \<mapsto> m), px_sent := se_sent se\<rparr>))))"

definition download_and_send :: "environment \<Rightarrow> session_data \<Rightarrow> proxy \<Rightarrow> fault + proxy" where
  "download_and_send ev sd px =
     (let request_context = create_request_context (ev_context ev) (sd_request sd) in
      ebind (in_session ev (sd_manager sd) (send_http_request ev request_context) px) (\<lambda>(response_code, px).
      if check_response_code response_code = 0
      then ebind (cache_path (ev_file_name ev) (sd_request sd)) (\<lambda>full.
           ebind (load (px_managers px) (Some (sd_manager sd))) (\<lambda>m.
           ebind (returned (save_cache (ev_fopen ev) (sm_container m))) (\<lambda>saved.
           Inr (case saved of None \<Rightarrow> px | Some bytes \<Rightarrow> px\<lparr>px_files := (px_files px)(full \<mapsto> bytes)\<rparr>))))
      else Inr px))"

definition share_cached :: "environment \<Rightarrow> session_data \<Rightarrow> proxy \<Rightarrow> fault + proxy" where
  "share_cached ev sd px = ebind (cache_path (ev_file_name ev) (sd_request sd)) (\<lambda>full.
     ebind (in_session ev (sd_manager sd) (\<lambda>se. ebind (share_cache (add_chunk ev) (px_files px full) se) (\<lambda>se. Inr ((), se))) px)
     (\<lambda>(_, px). Inr px))"

text \<open>\<open>destroy_subscription_manager(&manager)\<close> and the descriptors closed with it.\<close>

definition destroy_manager :: "addr \<Rightarrow> proxy \<Rightarrow> fault + proxy" where
  "destroy_manager a px = ebind (load (px_managers px) (Some a)) (\<lambda>m.
     ebind (returned (destroy_subscription_manager m)) (\<lambda>_.
     Inr (px\<lparr>px_managers := (px_managers px)(a := None), px_closed := px_closed px @ sm_closed m\<rparr>)))"

definition delete_key :: "string \<Rightarrow> proxy \<Rightarrow> fault + proxy" where
  "delete_key key px = ebind (returned (ht_delete key (px_map px))) (\<lambda>ht. Inr (px\<lparr>px_map := ht\<rparr>))"

text \<open>The thread that has set \<open>is_busy\<close>.\<close>

definition session_main :: "environment \<Rightarrow> addr \<Rightarrow> http_request \<Rightarrow> proxy \<Rightarrow> fault + outcome \<times> proxy" where
  "session_main ev manager r px = (let key = hr_path r @ [NUL] in
     case create_session_data (ev_session ev) manager r of
       None \<Rightarrow> ebind (destroy_manager manager px) (\<lambda>px. ebind (delete_key key px) (\<lambda>px. Inr (Failed, px)))
     | Some session \<Rightarrow>
       ebind (check_cache ev (px_files px) r) (\<lambda>cached.
       ebind (if cached \<noteq> 0 then download_and_send ev session px else share_cached ev session px) (\<lambda>px.
       ebind (on_manager manager (\<lambda>m. ebind (returned (finish_pending_chunks m)) (\<lambda>m. Inr ((), m))) px) (\<lambda>(_, px).
       ebind (destroy_manager manager px) (\<lambda>px.
       ebind (delete_key key px) (\<lambda>px. Inr (Served, px)))))))"

section \<open>The handler\<close>

text \<open>The manager of the request: the one in the table, or a new one.\<close>

definition find_manager :: "environment \<Rightarrow> http_request \<Rightarrow> proxy \<Rightarrow> fault + ptr \<times> proxy" where
  "find_manager ev r px = (let key = hr_path r @ [NUL] in
     ebind (returned (ht_get key (px_map px))) (\<lambda>manager. case manager of
       Some a \<Rightarrow> Inr (Some a, px)
     | None \<Rightarrow> (case ev_manager ev of None \<Rightarrow> Inr (None, px)
         | Some a \<Rightarrow> (case create_subscription_manager True (ev_container ev) of None \<Rightarrow> Inr (None, px)
           | Some m \<Rightarrow> ebind (ht_insert (ev_node ev) key (Some a) (px_map px)) (\<lambda>ht.
               Inr (Some a, px\<lparr>px_map := ht, px_managers := (px_managers px)(a \<mapsto> m)\<rparr>))))))"

definition handle_request :: "environment \<Rightarrow> int \<Rightarrow> http_request \<Rightarrow> proxy \<Rightarrow> fault + outcome \<times> proxy" where
  "handle_request ev fd r px = ebind (find_manager ev r px) (\<lambda>(manager, px). case manager of
     None \<Rightarrow> Inr (Refused, close_fd fd px)
   | Some a \<Rightarrow>
     ebind (on_manager a (subscribe (ev_subscriber ev) fd) px) (\<lambda>(_, px).
     ebind (on_manager a (\<lambda>m. case cas (sm_is_busy m) False True of (won, busy) \<Rightarrow> Inr (won, m\<lparr>sm_is_busy := busy\<rparr>)) px) (\<lambda>(won, px).
     if won then session_main ev a r px else Inr (Joined, px))))"

definition handle_client_run :: "environment \<Rightarrow> int \<Rightarrow> string option \<Rightarrow> proxy \<Rightarrow> fault + outcome \<times> proxy" where
  "handle_client_run ev fd received px = (case recv_request received of
     None \<Rightarrow> Inr (Refused, close_fd fd px)
   | Some request_buf \<Rightarrow> ebind (parse_http_request (ev_request ev) request_buf) (\<lambda>request. case request of
       None \<Rightarrow> Inr (Refused, close_fd fd px)
     | Some r \<Rightarrow> if validate_request request < 0 then Inr (Refused, close_fd fd px) else handle_request ev fd r px))"

section \<open>What a session does\<close>

text \<open>Sending \<open>bytes\<close> to the clients behind \<open>fds\<close>.\<close>

definition sent_to :: "(int \<Rightarrow> string) \<Rightarrow> int list \<Rightarrow> string \<Rightarrow> int \<Rightarrow> string" where
  "sent_to s0 fds bytes = (\<lambda>x. if x \<in> set fds then s0 x @ bytes else s0 x)"

lemma clients_of_fds [simp]: "map snd (clients_of js) = map fst js"
  by (induction js) auto

text \<open>Delivering the blocks \<open>bs\<close> to a session, and the clients that come too late.\<close>

lemma in_session_deliver:
  assumes m: "px_managers px a = Some m" and ok: "session_ok (px_sent px) \<lparr>se_manager = m, se_sent = px_sent px, se_joins = ev_joins ev\<rparr> cs []"
    and cs: "cs \<noteq> []" and ev: "accepting ev" "storing ev"
    and js: "joins_ok cs (concat (ev_joins ev))" "length cs + length (concat (ev_joins ev)) \<le> 127"
    and f: "\<And>se. f se = ebind (deliver ev bs se) (\<lambda>se. Inr (x, se))"
  shows "\<exists>m' se. in_session ev a f px = Inr (x, px\<lparr>px_managers := (px_managers px)(a \<mapsto> m'),
      px_sent := sent_to (px_sent px) (map snd cs @ map fst (concat (take (length bs) (ev_joins ev)))) (concat bs)\<rparr>) \<and>
    se_manager se = m' \<and> session_ok (px_sent px) se (cs @ clients_of (concat (ev_joins ev))) bs"
proof -
  let ?se = "\<lparr>se_manager = m, se_sent = px_sent px, se_joins = ev_joins ev\<rparr>"
  let ?early = "concat (take (length bs) (ev_joins ev))" and ?late = "concat (drop (length bs) (ev_joins ev))"
  have js': "joins_ok cs (concat (se_joins ?se))" "length cs + length (concat (se_joins ?se)) \<le> 127" using js by simp_all
  obtain se' where se': "deliver ev bs ?se = Inr se'" "se_joins se' = drop (length bs) (ev_joins ev)"
    "session_ok (px_sent px) se' (cs @ clients_of ?early) bs"
    "bs \<noteq> [] \<Longrightarrow> \<forall>fd \<in> snd ` set (cs @ clients_of ?early). se_sent se' fd = px_sent px fd @ concat bs"
    using deliver_ok [OF ok cs ev js', of bs] by auto
  have split: "concat (ev_joins ev) = ?early @ ?late" by (metis append_take_drop_id concat_append)
  then have "joins_ok (cs @ clients_of ?early) ?late" using js(1) joins_ok_append by metis
  from join_clients_ok [OF se'(3) this] obtain m' where m': "join_clients ?late (se_manager se') = Inr m'"
    "session_ok (px_sent px) (se'\<lparr>se_manager := m'\<rparr>) ((cs @ clients_of ?early) @ clients_of ?late) bs" by blast
  have in_early: "fd \<in> snd ` set (cs @ clients_of ?early) \<longleftrightarrow> fd \<in> set (map snd cs @ map fst ?early)" for fd
  proof -
    have "snd ` set (cs @ clients_of ?early) = set (map snd (cs @ clients_of ?early))" by (rule set_map [symmetric])
    then show ?thesis by (simp only: map_append clients_of_fds)
  qed
  have "se_sent se' fd = sent_to (px_sent px) (map snd cs @ map fst ?early) (concat bs) fd" for fd
  proof (cases "fd \<in> snd ` set (cs @ clients_of ?early)")
    case True
    then obtain c where c: "c \<in> set (cs @ clients_of ?early)" "fd = snd c" by blast
    then have "client_served (px_sent px) se' bs c" using se'(3) by (simp add: session_ok_def)
    then have "se_sent se' fd = px_sent px fd @ concat bs" using se'(4) True c(2)
      by (cases "bs = []") (fastforce simp: client_served_def simp del: set_append)+
    then show ?thesis using True in_early by (simp add: sent_to_def)
  next
    case False
    then have "se_sent se' fd = px_sent px fd" using se'(3) by (simp add: session_ok_def)
    then show ?thesis using False in_early by (simp add: sent_to_def)
  qed
  then have "se_sent se' = sent_to (px_sent px) (map snd cs @ map fst ?early) (concat bs)" ..
  then have "in_session ev a f px = Inr (x, px\<lparr>px_managers := (px_managers px)(a \<mapsto> m'),
      px_sent := sent_to (px_sent px) (map snd cs @ map fst ?early) (concat bs)\<rparr>)"
    using m se'(1,2) m'(1) by (simp add: in_session_def f)
  then show ?thesis using m'(2) split by (intro exI [of _ m'] exI [of _ "se'\<lparr>se_manager := m'\<rparr>"]) simp
qed

lemma session_end:
  assumes m: "px_managers px a = Some m" and ok: "session_ok s0 se cs ds" "se_manager se = m"
  shows "ebind (on_manager a (\<lambda>m. ebind (returned (finish_pending_chunks m)) (\<lambda>m. Inr ((), m))) px) (\<lambda>(_, px). destroy_manager a px) =
    Inr (px\<lparr>px_managers := (px_managers px)(a := None), px_closed := px_closed px @ map snd cs\<rparr>)"
proof -
  obtain bs where S: "sm_rep m (map fst cs)" "cc_rep (sm_container m) bs ds" "sm_closed m = []" and served: "\<And>c. c \<in> set cs \<Longrightarrow> client_served s0 se ds c"
    using ok by (auto simp: session_ok_def)
  obtain m' where m': "finish_pending_chunks m = Some (Inr m')" "sm_closed m' = map (\<lambda>a. fst (the (sub_info m a))) (map fst cs)"
    "destroy_subscription_manager m' = Some (Inr (Map.empty, Map.empty))"
    using finish_destroy_rep [OF S(1,2)] S(3) by auto
  have "map (\<lambda>a. fst (the (sub_info m a))) (map fst cs) = map snd cs"
    using served ok(2) by (fastforce simp: client_served_def)
  then show ?thesis using m m' by (simp add: on_manager_def destroy_manager_def)
qed

text \<open>
  The specification of the proxy's answer: the bytes of the response, as the blocks in which they come,
  and the cache afterwards. A response is kept only if its code is between 200 and 299.
\<close>

definition answer :: "environment \<Rightarrow> http_request \<Rightarrow> string \<Rightarrow> (string \<rightharpoonup> string) \<Rightarrow> string list \<times> (string \<rightharpoonup> string)" where
  "answer ev r full files = (case files full of
     Some f \<Rightarrow> (file_blocks f, files)
   | None \<Rightarrow> (case ev_upstream ev (curl_options r (''Accept-Encoding:'' # hr_headers r)) of (blocks, response) \<Rightarrow>
       (blocks, if (case response of Some code \<Rightarrow> 200 \<le> code \<and> code < 300 | None \<Rightarrow> False)
                then files(full \<mapsto> concat blocks) else files)))"

text \<open>All allocations succeed, with unused blocks; connections accept what they are sent.\<close>

definition healthy :: "environment \<Rightarrow> int \<Rightarrow> proxy \<Rightarrow> bool" where
  "healthy ev fd px \<longleftrightarrow> accepting ev \<and> storing ev \<and> ev_container ev \<and> ev_session ev \<and> ev_context ev \<and> ev_curl ev \<and> ev_fopen ev \<and>
     (\<forall>i. ev_slist ev i) \<and> ev_check_name ev = (True, True) \<and> ev_file_name ev = (True, True) \<and>
     (\<exists>a. ev_manager ev = Some a \<and> px_managers px a = None) \<and> (\<exists>n. ev_node ev = Some n \<and> ht_nodes (px_map px) n = None) \<and>
     joins_ok [] ((fd, ev_subscriber ev) # concat (ev_joins ev)) \<and> length (concat (ev_joins ev)) \<le> 126"

lemma append_headers_all: "(\<And>i. ok i) \<Longrightarrow> append_headers ok i hs rs = hs @ rs"
  by (induction rs arbitrary: i hs) simp_all

lemma send_http_request_deliver:
  assumes "ev_curl ev" "\<And>i. ev_slist ev i"
    and "ev_upstream ev (curl_options r (''Accept-Encoding:'' # hr_headers r)) = (blocks, response)"
  shows "send_http_request ev (create_request_context True r) se =
    ebind (deliver ev blocks se) (\<lambda>se. Inr (case response of Some code \<Rightarrow> code | None \<Rightarrow> -1, se))"
  using assms by (simp add: send_http_request_def create_request_context_def prepare_headers_def append_headers_all
      curl_deliver_deliver ebind_assoc split: option.split)

text \<open>The part of \<open>session_main\<close> that brings the response to the clients.\<close>

lemma session_answer:
  assumes m: "px_managers px a = Some m" and ok: "session_ok (px_sent px) \<lparr>se_manager = m, se_sent = px_sent px, se_joins = ev_joins ev\<rparr> cs []"
    and cs: "cs \<noteq> []" and ev: "accepting ev" "storing ev" "ev_context ev" "ev_curl ev" "ev_fopen ev" "\<And>i. ev_slist ev i"
    and js: "joins_ok cs (concat (ev_joins ev))" "length cs + length (concat (ev_joins ev)) \<le> 127"
    and name: "cache_path (ev_file_name ev) r = Inr full" and ans: "answer ev r full (px_files px) = (bs, files')"
  shows "\<exists>m' se. (if cache_exists (px_files px) full \<noteq> 0 then download_and_send ev \<lparr>sd_manager = a, sd_request = r\<rparr> px
        else share_cached ev \<lparr>sd_manager = a, sd_request = r\<rparr> px) =
      Inr (px\<lparr>px_managers := (px_managers px)(a \<mapsto> m'), px_files := files',
        px_sent := sent_to (px_sent px) (map snd cs @ map fst (concat (take (length bs) (ev_joins ev)))) (concat bs)\<rparr>) \<and>
    se_manager se = m' \<and> session_ok (px_sent px) se (cs @ clients_of (concat (ev_joins ev))) bs"
proof (cases "px_files px full")
  case None
  obtain response where up: "ev_upstream ev (curl_options r (''Accept-Encoding:'' # hr_headers r)) = (bs, response)"
    "files' = (if (case response of Some code \<Rightarrow> 200 \<le> code \<and> code < 300 | None \<Rightarrow> False) then (px_files px)(full \<mapsto> concat bs) else px_files px)"
    using ans None by (auto simp: answer_def split: prod.splits)
  let ?code = "case response of Some code \<Rightarrow> code | None \<Rightarrow> -1"
  obtain m' se where S: "in_session ev a (send_http_request ev (create_request_context True r)) px = Inr (?code, px\<lparr>px_managers := (px_managers px)(a \<mapsto> m'),
      px_sent := sent_to (px_sent px) (map snd cs @ map fst (concat (take (length bs) (ev_joins ev)))) (concat bs)\<rparr>)"
    "se_manager se = m'" "session_ok (px_sent px) se (cs @ clients_of (concat (ev_joins ev))) bs"
    using in_session_deliver [OF m ok cs ev(1,2) js send_http_request_deliver [OF ev(4,6) up(1)]] by blast
  then obtain as where "cc_rep (sm_container m') as bs" by (auto simp: session_ok_def)
  then have "save_cache True (sm_container m') = Some (Inr (Some (concat bs)))" by (rule save_cache_rep)
  with S(1) up(2) None name ev(3,5) have "download_and_send ev \<lparr>sd_manager = a, sd_request = r\<rparr> px =
      Inr (px\<lparr>px_managers := (px_managers px)(a \<mapsto> m'), px_files := files',
        px_sent := sent_to (px_sent px) (map snd cs @ map fst (concat (take (length bs) (ev_joins ev)))) (concat bs)\<rparr>)"
    by (auto simp: download_and_send_def check_response_code_def split: option.splits)
  then show ?thesis using S(2,3) None by (auto simp: cache_exists_def)
next
  case (Some f)
  then have bs: "bs = file_blocks f" "files' = px_files px" using ans by (auto simp: answer_def)
  have "share_cache (add_chunk ev) (px_files px full) se = deliver ev bs se" for se
    using Some bs by (simp add: share_cache_def share_loop_deliver)
  then have f: "\<And>se. ebind (share_cache (add_chunk ev) (px_files px full) se) (\<lambda>se. Inr ((), se)) = ebind (deliver ev bs se) (\<lambda>se. Inr ((), se))" by simp
  obtain m' se where S: "in_session ev a (\<lambda>se. ebind (share_cache (add_chunk ev) (px_files px full) se) (\<lambda>se. Inr ((), se))) px =
      Inr ((), px\<lparr>px_managers := (px_managers px)(a \<mapsto> m'),
      px_sent := sent_to (px_sent px) (map snd cs @ map fst (concat (take (length bs) (ev_joins ev)))) (concat bs)\<rparr>)"
    "se_manager se = m'" "session_ok (px_sent px) se (cs @ clients_of (concat (ev_joins ev))) bs"
    using in_session_deliver [OF m ok cs ev(1,2) js f] by blast
  with Some name bs(2) show ?thesis by (auto simp: cache_exists_def share_cached_def)
qed

lemma fresh_session:
  assumes "create_subscription_manager True True = Some m0"
  shows "\<exists>m1. subscribe (Some b) fd m0 = Inr (0, m1) \<and> \<not> sm_is_busy m1 \<and>
    session_ok s0 \<lparr>se_manager = m1\<lparr>sm_is_busy := True\<rparr>, se_sent = s0, se_joins = js\<rparr> [(b, fd)] []"
proof -
  have m0: "sm_rep m0 []" "cc_rep (sm_container m0) [] []" "sm_subs m0 b = None" "sm_closed m0 = []" "\<not> sm_is_busy m0"
    using assms create_manager_rep [OF assms] by (auto simp: create_subscription_manager_def create_chunk_container_def)
  obtain m1 where m1: "subscribe (Some b) fd m0 = Inr (0, m1)" "sm_rep m1 [b]" "sm_container m1 = sm_container m0"
    "sm_closed m1 = []" "\<not> sm_is_busy m1" "sub_info m1 b = Some (fd, 0)"
    using subscribe_rep [OF m0(1,3), of fd] m0 by auto
  have "session_ok s0 \<lparr>se_manager = m1\<lparr>sm_is_busy := True\<rparr>, se_sent = s0, se_joins = js\<rparr> [(b, fd)] []"
    using m1 m0 by (auto simp: session_ok_def client_served_def sm_rep_def sub_info_def)
  with m1 show ?thesis by blast
qed

text \<open>The thread that has created the manager: response, cache and clean-up.\<close>

lemma session_main_served:
  assumes m: "px_managers px a = Some m" and ok: "session_ok (px_sent px) \<lparr>se_manager = m, se_sent = px_sent px, se_joins = ev_joins ev\<rparr> [(b, fd)] []"
    and ev: "accepting ev" "storing ev" "ev_context ev" "ev_curl ev" "ev_fopen ev" "\<And>i. ev_slist ev i" "ev_session ev"
    and js: "joins_ok [(b, fd)] (concat (ev_joins ev))" "length (concat (ev_joins ev)) \<le> 126"
    and name: "cache_path (ev_check_name ev) r = Inr full" "cache_path (ev_file_name ev) r = Inr full"
    and ans: "answer ev r full (px_files px) = (bs, files')"
    and tab: "ht_stacks (px_map px) (A(key_of (hr_path r @ [NUL]) := v # A (key_of (hr_path r @ [NUL]))))"
  shows "\<exists>px'. session_main ev a r px = Inr (Served, px') \<and> ht_stacks (px_map px') A \<and>
    px_managers px' = (px_managers px)(a := None) \<and> px_files px' = files' \<and>
    px_sent px' = sent_to (px_sent px) (fd # map fst (concat (take (length bs) (ev_joins ev)))) (concat bs) \<and>
    px_closed px' = px_closed px @ fd # map fst (concat (ev_joins ev))"
proof -
  let ?key = "hr_path r @ [NUL]"
  let ?sent = "sent_to (px_sent px) (fd # map fst (concat (take (length bs) (ev_joins ev)))) (concat bs)"
  have js': "length [(b, fd)] + length (concat (ev_joins ev)) \<le> 127" using js(2) by simp
  obtain m' se where S: "(if cache_exists (px_files px) full \<noteq> 0 then download_and_send ev \<lparr>sd_manager = a, sd_request = r\<rparr> px
        else share_cached ev \<lparr>sd_manager = a, sd_request = r\<rparr> px) =
      Inr (px\<lparr>px_managers := (px_managers px)(a \<mapsto> m'), px_files := files', px_sent := ?sent\<rparr>)"
    "se_manager se = m'" "session_ok (px_sent px) se ([(b, fd)] @ clients_of (concat (ev_joins ev))) bs"
    using session_answer [OF m ok _ ev(1-6) js(1) js' name(2) ans] by auto
  let ?px = "px\<lparr>px_managers := (px_managers px)(a \<mapsto> m'), px_files := files', px_sent := ?sent\<rparr>"
  have "ebind (on_manager a (\<lambda>m. ebind (returned (finish_pending_chunks m)) (\<lambda>m. Inr ((), m))) ?px) (\<lambda>(_, px). destroy_manager a px) =
    Inr (?px\<lparr>px_managers := (px_managers ?px)(a := None), px_closed := px_closed ?px @ map snd ([(b, fd)] @ clients_of (concat (ev_joins ev)))\<rparr>)"
    by (rule session_end [OF _ S(3)]) (simp_all add: S(2))
  then obtain px1 where px1: "on_manager a (\<lambda>m. ebind (returned (finish_pending_chunks m)) (\<lambda>m. Inr ((), m))) ?px = Inr ((), px1)"
    "destroy_manager a px1 = Inr (?px\<lparr>px_managers := (px_managers px)(a := None), px_closed := px_closed px @ fd # map fst (concat (ev_joins ev))\<rparr>)"
    by (auto simp: ebind_Inr_iff)
  have ko: "key_ok ?key" by (simp add: key_ok_def readable_def)
  obtain ht where ht: "ht_delete ?key (px_map px) = Some (Inr ht)" "ht_stacks ht A"
    using table.del_pop [OF tab ko] by auto
  show ?thesis using name(1) S(1) px1 ht ev(7)
    by (simp add: session_main_def create_session_data_def check_cache_def delete_key_def)
qed

text \<open>The request that the bytes received stand for, when the handler accepts it.\<close>

definition reads :: "environment \<Rightarrow> string option \<Rightarrow> http_request \<Rightarrow> bool" where
  "reads ev received r \<longleftrightarrow> (\<exists>buf. recv_request received = Some buf \<and> parse_http_request (ev_request ev) buf = Inr (Some r) \<and>
     validate_request (Some r) = 0)"

lemma handle_client_reads: "reads ev received r \<Longrightarrow> handle_client_run ev fd received px = handle_request ev fd r px"
  by (auto simp: reads_def handle_client_run_def)

text \<open>A handler that creates the manager, up to the session.\<close>

lemma handle_request_new:
  assumes tab: "ht_stacks (px_map px) A" "A (key_of (hr_path r @ [NUL])) = []"
    and ev: "ev_manager ev = Some a" "ev_container ev" "ev_node ev = Some n" "ht_nodes (px_map px) n = None"
    and m0: "create_subscription_manager True True = Some m0" and m1: "subscribe (ev_subscriber ev) fd m0 = Inr (x, m1)"
  shows "\<exists>ht. handle_request ev fd r px =
      session_main ev a r (px\<lparr>px_map := ht, px_managers := (px_managers px)(a \<mapsto> m1\<lparr>sm_is_busy := True\<rparr>)\<rparr>) \<and>
    ht_stacks ht (A(key_of (hr_path r @ [NUL]) := [Some a]))"
proof -
  have nb: "\<not> sm_is_busy m1" using m0 m1
    by (auto simp: create_subscription_manager_def create_chunk_container_def subscribe_def manager_lock_def manager_unlock_def
        split: option.splits)
  have ko: "key_ok (hr_path r @ [NUL])" by (simp add: key_ok_def readable_def)
  have g: "ht_get (hr_path r @ [NUL]) (px_map px) = Some (Inr None)" using table.get_top [OF tab(1) ko] tab(2) by (simp add: stack_top_def)
  obtain ht where ht: "ht_insert (Some n) (hr_path r @ [NUL]) (Some a) (px_map px) = Inr ht" "ht_stacks ht (A(key_of (hr_path r @ [NUL]) := [Some a]))"
    using table.ins_some [OF tab(1) ko, of n "Some a"] ev(4) tab(2) by auto
  show ?thesis using g ev m0 ht m1 nb
    by (intro exI [of _ ht]) (simp add: handle_request_def find_manager_def on_manager_def cas_def)
qed

lemma handle_request_served:
  assumes h: "healthy ev fd px" and tab: "ht_stacks (px_map px) A" "A (key_of (hr_path r @ [NUL])) = []"
    and name: "cache_path (True, True) r = Inr full" and ans: "answer ev r full (px_files px) = (bs, files')"
  shows "\<exists>px'. handle_request ev fd r px = Inr (Served, px') \<and> ht_stacks (px_map px') A \<and>
    px_managers px' = px_managers px \<and> px_files px' = files' \<and>
    px_sent px' = sent_to (px_sent px) (fd # map fst (concat (take (length bs) (ev_joins ev)))) (concat bs) \<and>
    px_closed px' = px_closed px @ fd # map fst (concat (ev_joins ev))"
proof -
  let ?key = "hr_path r @ [NUL]"
  obtain a n b where ev: "ev_manager ev = Some a" "px_managers px a = None" "ev_node ev = Some n" "ht_nodes (px_map px) n = None"
    "ev_subscriber ev = Some b" "joins_ok [] ((fd, Some b) # concat (ev_joins ev))" "length (concat (ev_joins ev)) \<le> 126"
    using h by (auto simp: healthy_def joins_ok_def)
  have E: "accepting ev" "storing ev" "ev_context ev" "ev_curl ev" "ev_fopen ev" "\<And>i. ev_slist ev i" "ev_session ev" "ev_container ev"
    "ev_check_name ev = (True, True)" "ev_file_name ev = (True, True)" using h by (auto simp: healthy_def)
  have js: "joins_ok [(b, fd)] (concat (ev_joins ev))" using ev(6) joins_ok_append [of "[]" "[(fd, Some b)]" "concat (ev_joins ev)"] by simp
  obtain m0 :: "char subscription_manager" where m0: "create_subscription_manager True True = Some m0"
    by (simp add: create_subscription_manager_def create_chunk_container_def)
  obtain m1 where m1: "subscribe (Some b) fd m0 = Inr (0, m1)" "\<not> sm_is_busy m1"
    "session_ok (px_sent px) \<lparr>se_manager = m1\<lparr>sm_is_busy := True\<rparr>, se_sent = px_sent px, se_joins = ev_joins ev\<rparr> [(b, fd)] []"
    using fresh_session [OF m0] by blast
  obtain ht where ht: "handle_request ev fd r px =
      session_main ev a r (px\<lparr>px_map := ht, px_managers := (px_managers px)(a \<mapsto> m1\<lparr>sm_is_busy := True\<rparr>)\<rparr>)"
    "ht_stacks ht (A(key_of ?key := [Some a]))"
    using handle_request_new [OF tab ev(1) E(8) ev(3,4) m0, of fd 0 m1] m1(1) ev(5) by auto
  let ?px = "px\<lparr>px_map := ht, px_managers := (px_managers px)(a \<mapsto> m1\<lparr>sm_is_busy := True\<rparr>)\<rparr>"
  have "\<exists>px'. session_main ev a r ?px = Inr (Served, px') \<and> ht_stacks (px_map px') A \<and>
    px_managers px' = (px_managers ?px)(a := None) \<and> px_files px' = files' \<and>
    px_sent px' = sent_to (px_sent ?px) (fd # map fst (concat (take (length bs) (ev_joins ev)))) (concat bs) \<and>
    px_closed px' = px_closed ?px @ fd # map fst (concat (ev_joins ev))"
    by (rule session_main_served [OF _ _ E(1-7) js ev(7)]) (use m1(3) name E(9,10) ans ht(2) tab(2) in simp_all)
  moreover have "(px_managers ?px)(a := None) = px_managers px" using ev(2) by auto
  ultimately show ?thesis using ht(1) by simp
qed






lemma deliver_nobody:
  assumes "sm_first_subscriber (se_manager se) = None" "se_joins se = []"
  shows "deliver ev (d # bs) se = Inl Null_Deref"
  using assms by (simp add: add_chunk_def next_joins_def add_chunk_begin_def)

section \<open>A concrete environment\<close>

text \<open>One client at a time, an origin server that answers in two blocks, and connections that take every byte.\<close>

definition demo_send :: "int \<Rightarrow> char chunk_container \<Rightarrow> nat \<Rightarrow> int list list" where
  "demo_send fd c l = map (\<lambda>i. case get_chunk c i of
     Some (Inr (Some a)) \<Rightarrow> replicate (length (ck_data (the (cc_heap c a)))) 1 | _ \<Rightarrow> []) [l..<cc_count c]"

definition no_request :: http_request where
  "no_request = \<lparr>hr_method = [], hr_version = [], hr_path = [], hr_body = [], hr_headers = []\<rparr>"

definition demo_env :: environment where
  "demo_env = \<lparr>ev_request = Some no_request, ev_manager = Some 1, ev_container = True, ev_node = Some 1, ev_subscriber = Some 1,
     ev_session = True, ev_check_name = (True, True), ev_file_name = (True, True), ev_context = True,
     ev_chunk = (\<lambda>c. Some (LEAST a. cc_heap c a = None)), ev_data = True, ev_info = (\<lambda>_. True), ev_fopen = True,
     ev_send = demo_send, ev_curl = True, ev_slist = (\<lambda>_. True), ev_upstream = (\<lambda>_. ([''a'', ''bc''], Some 200)),
     ev_joins = [[], [(8, Some 2)], [(9, Some 3)]]\<rparr>"

definition demo_proxy :: proxy where
  "demo_proxy = \<lparr>px_map = the (create_table True), px_managers = Map.empty, px_files = Map.empty, px_sent = (\<lambda>_. []), px_closed = []\<rparr>"

definition demo_text :: string where
  "demo_text = ''GET http://a/ HTTP/1.0'' @ CRLF @ CRLF"

definition demo_request :: http_request where
  "demo_request = \<lparr>hr_method = ''GET'', hr_version = ''HTTP/1.0'', hr_path = ''http://a/'', hr_body = [], hr_headers = [[]]\<rparr>"

lemma send_ones: "send_results k (replicate j 1)"
proof (induction j arbitrary: k)
  case (Suc j)
  then show ?case by (cases k) simp_all
qed simp

lemma demo_accepting: "accepting demo_env"
proof -
  have "sends_all (demo_send fd c l ! i) (drop l ds ! i)" if rep: "cc_rep c as ds" and i: "i < length (drop l ds)" for fd c as ds l i
  proof -
    have li: "l + i < length ds" using i by simp
    have len: "length as = length ds" "cc_count c = length ds" and "\<exists>n. cc_heap c (as ! (l + i)) = Some n \<and> ck_data n = ds ! (l + i)"
      using rep i unfolding cc_rep_def chunk_at_def by (auto dest!: spec [of _ "l + i"])
    then obtain n where "cc_heap c (as ! (l + i)) = Some n" "ck_data n = ds ! (l + i)" by blast
    then have "demo_send fd c l ! i = replicate (length (ds ! (l + i))) 1" using i len li by (simp add: demo_send_def get_chunk_rep [OF rep])
    then show ?thesis using i send_ones [of "length (ds ! (l + i))" "length (ds ! (l + i))"] by (simp add: sends_all_def)
  qed
  moreover have "length (demo_send fd c l) = length (drop l ds)" if "cc_rep c as ds" for fd c as ds l
    using that by (simp add: demo_send_def cc_rep_def)
  ultimately show ?thesis by (auto simp: accepting_def demo_env_def list_all2_conv_all_nth)
qed

lemma demo_storing: "storing demo_env"
proof -
  have "cc_heap c (LEAST a. cc_heap c a = None) = None" if "cc_rep c as ds" for c :: "char chunk_container" and as ds
    using that by (intro least_free) (simp add: cc_rep_def)
  then show ?thesis by (auto simp: storing_def demo_env_def)
qed

lemma demo_healthy:
  assumes "px_managers px 1 = None" "ht_nodes (px_map px) n = None" "fd \<notin> {8, 9}"
  shows "healthy (demo_env\<lparr>ev_node := Some n\<rparr>) fd px"
proof -
  have "accepting (demo_env\<lparr>ev_node := Some n\<rparr>)" "storing (demo_env\<lparr>ev_node := Some n\<rparr>)"
    using demo_accepting demo_storing by (simp_all add: accepting_def storing_def)
  then show ?thesis using assms by (auto simp: healthy_def demo_env_def joins_ok_def)
qed

lemma demo_reads: "reads (demo_env\<lparr>ev_node := p\<rparr>) (Some demo_text) demo_request"
proof -
  have "\<exists>buf. recv_request (Some demo_text) = Some buf \<and> parse_http_request (Some no_request) buf = Inr (Some
    \<lparr>hr_method = ''GET'', hr_version = ''HTTP/1.0'', hr_path = ''http://a/'', hr_body = take 511 [], hr_headers = [] @ [[]]\<rparr>)"
    by (rule parse_request_text [where hs = "[]" and body = "[]"])
      (simp_all add: word_ok_def is_space_def NUL_def demo_text_def CRLF_def HTTP_REQUEST_BYTES_LEN_def)
  then show ?thesis by (simp add: reads_def demo_env_def demo_request_def validate_request_def)
qed

lemma demo_path: "\<exists>full. cache_path (True, True) demo_request = Inr full"
proof -
  obtain name where "parse_request_to_cachename True True demo_request = Inr (Some name)" "full_cachename name = Inr (''../cache/'' @ name)"
    using cachename_in_bounds [of demo_request] by (auto simp: demo_request_def NUL_def)
  then show ?thesis by (simp add: cache_path_def)
qed

lemma demo_table: "ht_stacks (px_map demo_proxy) (\<lambda>_. [])"
  using ht_create [of "the (create_table True)"] by (auto simp: ht_stacks_def demo_proxy_def create_table_def fun_eq_iff)

section \<open>Properties\<close>

text \<open>C2: The proxy answers a request as specified, in a healthy run. That means (\<open>healthy\<close>): every allocation, the
  opening of the cache file and every \<open>send\<close> succeed, the path of the cache can be built, new blocks are at
  unused addresses, and at most 126 other clients join, each once and with a descriptor of its own, before a
  block of the answer is stored or after the last one. Then a handler that can read the request and
  finds no session for the URL returns, and: its client and every client that joins before the last
  block have received exactly the bytes of the answer, in order (those of the cache file if there is
  one, those of the origin server otherwise); clients that join after the last block have received
  nothing; a response of the origin server with a code from 200 to 299 is in the cache, any other is
  not; the connections of all these clients are closed, each once; the table and the managers are as
  before.\<close>

theorem handle_client_serves:
  assumes "healthy ev fd px" "ht_stacks (px_map px) A" "A (key_of (hr_path r @ [NUL])) = []"
    and "reads ev received r" "cache_path (True, True) r = Inr full" "answer ev r full (px_files px) = (bs, files')"
  shows "\<exists>px'. handle_client_run ev fd received px = Inr (Served, px') \<and> ht_stacks (px_map px') A \<and>
    px_managers px' = px_managers px \<and> px_files px' = files' \<and>
    px_sent px' = sent_to (px_sent px) (fd # map fst (concat (take (length bs) (ev_joins ev)))) (concat bs) \<and>
    px_closed px' = px_closed px @ fd # map fst (concat (ev_joins ev))"
  using handle_request_served [OF assms(1,2,3,5,6)] handle_client_reads [OF assms(4)] by simp

theorem handle_client_serves_witness:
  "\<exists>px'. handle_client_run (demo_env\<lparr>ev_node := Some 1\<rparr>) 7 (Some demo_text) demo_proxy = Inr (Served, px') \<and>
     px_sent px' 7 = ''abc'' \<and> px_sent px' 8 = ''abc'' \<and> px_sent px' 9 = [] \<and> px_closed px' = [7, 8, 9]"
proof -
  obtain full where full: "cache_path (True, True) demo_request = Inr full" using demo_path by blast
  have h: "healthy (demo_env\<lparr>ev_node := Some 1\<rparr>) 7 demo_proxy" by (rule demo_healthy) (simp_all add: demo_proxy_def create_table_def)
  have ans: "answer (demo_env\<lparr>ev_node := Some 1\<rparr>) demo_request full (px_files demo_proxy) = ([''a'', ''bc''], [full \<mapsto> ''abc''])"
    by (simp add: answer_def demo_env_def demo_proxy_def)
  show ?thesis using handle_client_serves [OF h demo_table _ demo_reads full ans]
    by (auto simp: sent_to_def demo_proxy_def demo_env_def)
qed

text \<open>C11: A cached answer is the original one. When a request for a URL that was not in the cache has been
  answered by the origin server, in a healthy run (as in the property before) and with a code from 200 to
  299, then a later healthy run for the same URL and method, from any state of the proxy in which that
  cache file is still the same and no session for the URL is running, gets the same bytes from the
  cache and leaves the files as they are; the origin server (\<open>ev_upstream ev2\<close> is arbitrary) is not asked.\<close>

theorem cached_answer_same:
  assumes "healthy ev1 fd1 px" "ht_stacks (px_map px) A" "A (key_of (hr_path r1 @ [NUL])) = []"
    and "reads ev1 received1 r1" "cache_path (True, True) r1 = Inr full" "px_files px full = None"
    and "ev_upstream ev1 (curl_options r1 (''Accept-Encoding:'' # hr_headers r1)) = (bs, Some code)" "200 \<le> code" "code < 300"
    and "handle_client_run ev1 fd1 received1 px = Inr (out, px1)"
    and "px_files later full = px_files px1 full" "ht_stacks (px_map later) B" "B (key_of (hr_path r1 @ [NUL])) = []"
    and "healthy ev2 fd2 later" "reads ev2 received2 r2" "hr_path r2 = hr_path r1" "hr_method r2 = hr_method r1"
  shows "\<exists>px2. handle_client_run ev2 fd2 received2 later = Inr (Served, px2) \<and> px_files px2 = px_files later \<and>
    px_sent px2 fd2 = px_sent later fd2 @ concat bs"
proof -
  have ans1: "answer ev1 r1 full (px_files px) = (bs, (px_files px)(full \<mapsto> concat bs))" using assms(6-9) by (simp add: answer_def)
  from handle_request_served [OF assms(1,2,3,5) ans1] handle_client_reads [OF assms(4)] assms(10)
  have px1: "px_files px1 = (px_files px)(full \<mapsto> concat bs)" by auto
  have name: "cache_path (True, True) r2 = Inr full"
    using assms(5,16,17) by (simp add: cache_path_def parse_request_to_cachename_def cong: option.case_cong)
  have ans2: "answer ev2 r2 full (px_files later) = (file_blocks (concat bs), px_files later)"
    using px1 assms(11) by (simp add: answer_def)
  have "B (key_of (hr_path r2 @ [NUL])) = []" using assms(13,16) by simp
  from handle_request_served [OF assms(14,12) this name ans2] handle_client_reads [OF assms(15)]
  show ?thesis by (auto simp: sent_to_def)
qed

theorem cached_answer_same_witness:
  "\<exists>px1 ev2 px2. handle_client_run (demo_env\<lparr>ev_node := Some 1\<rparr>) 7 (Some demo_text) demo_proxy = Inr (Served, px1) \<and>
     handle_client_run (ev2\<lparr>ev_upstream := \<lambda>_. ([], None)\<rparr>) 10 (Some demo_text) px1 = Inr (Served, px2) \<and> px_sent px2 10 = ''abc''"
proof -
  let ?ev1 = "demo_env\<lparr>ev_node := Some 1\<rparr>"
  obtain full where full: "cache_path (True, True) demo_request = Inr full" using demo_path by blast
  have h: "healthy ?ev1 7 demo_proxy" by (rule demo_healthy) (simp_all add: demo_proxy_def create_table_def)
  have ans: "answer ?ev1 demo_request full (px_files demo_proxy) = ([''a'', ''bc''], [full \<mapsto> ''abc''])"
    by (simp add: answer_def demo_env_def demo_proxy_def)
  from handle_request_served [OF h demo_table _ full ans] handle_client_reads [OF demo_reads]
  obtain px1 where px1: "handle_client_run ?ev1 7 (Some demo_text) demo_proxy = Inr (Served, px1)" "ht_stacks (px_map px1) (\<lambda>_. [])"
    "px_managers px1 = px_managers demo_proxy" "px_sent px1 = sent_to (px_sent demo_proxy) (7 # map fst (concat (take 2 (ev_joins ?ev1)))) ''abc''"
    by (auto simp: numeral_2_eq_2)
  obtain n where "ht_nodes (px_map px1) n = None" using px1(2) ht_rep_finite least_free unfolding ht_stacks_def by blast
  let ?ev2 = "demo_env\<lparr>ev_node := Some n, ev_upstream := \<lambda>_. ([], None)\<rparr>"
  have "healthy (demo_env\<lparr>ev_node := Some n\<rparr>) 10 px1"
    using px1(3) \<open>ht_nodes (px_map px1) n = None\<close> by (intro demo_healthy) (simp_all add: demo_proxy_def)
  then have h2: "healthy ?ev2 10 px1" by (simp add: healthy_def accepting_def storing_def)
  have r2: "reads ?ev2 (Some demo_text) demo_request" using demo_reads [of "Some n"] by (simp add: reads_def)
  have up: "ev_upstream ?ev1 (curl_options demo_request (''Accept-Encoding:'' # hr_headers demo_request)) = ([''a'', ''bc''], Some 200)"
    by (simp add: demo_env_def)
  from cached_answer_same [OF h demo_table _ demo_reads full _ up _ _ px1(1) refl px1(2) _ h2 r2]
  obtain px2 where "handle_client_run ?ev2 10 (Some demo_text) px1 = Inr (Served, px2)" "px_sent px2 10 = px_sent px1 10 @ ''abc''"
    by (auto simp: demo_proxy_def)
  moreover have "px_sent px1 10 = []" using px1(4) by (simp add: sent_to_def demo_env_def demo_proxy_def)
  ultimately show ?thesis using px1(1) by (intro exI [of _ px1] exI [of _ "demo_env\<lparr>ev_node := Some n\<rparr>"] exI [of _ px2]) simp
qed



text \<open>Without memory for the client's entry the proxy crashes: \<open>subscribe\<close> returns -1, the handler goes on, and the
  first block of the response makes \<open>add_chunk\<close> dereference the \<open>NULL\<close> in \<open>first_subscriber\<close>.\<close>

theorem handle_client_oom_crashes:
  assumes "ht_stacks (px_map px) A" "A (key_of (hr_path r @ [NUL])) = []" "reads ev received r"
    and "ev_manager ev = Some a" "ev_container ev" "ev_node ev = Some n" "ht_nodes (px_map px) n = None"
    and "ev_subscriber ev = None" "ev_session ev" "ev_joins ev = []" "ev_context ev" "ev_curl ev" "\<And>i. ev_slist ev i"
    and "cache_path (ev_check_name ev) r = Inr full" "cache_path (ev_file_name ev) r = Inr full"
    and "answer ev r full (px_files px) = (d # bs, files')"
  shows "handle_client_run ev fd received px = Inl Null_Deref"
proof -
  obtain m0 :: "char subscription_manager" where m0: "create_subscription_manager True True = Some m0"
    by (simp add: create_subscription_manager_def create_chunk_container_def)
  have m1: "subscribe (ev_subscriber ev) fd m0 = Inr (-1, m0\<lparr>sm_locked := True\<rparr>)" "sm_first_subscriber m0 = None"
    using assms(8) m0 by (auto simp: subscribe_def manager_lock_def create_subscription_manager_def create_chunk_container_def)
  let ?m = "m0\<lparr>sm_locked := True, sm_is_busy := True\<rparr>"
  obtain ht where h: "handle_request ev fd r px = session_main ev a r (px\<lparr>px_map := ht, px_managers := (px_managers px)(a \<mapsto> ?m)\<rparr>)"
    using handle_request_new [OF assms(1,2,4-7) m0 m1(1)] by auto
  let ?px = "px\<lparr>px_map := ht, px_managers := (px_managers px)(a \<mapsto> ?m)\<rparr>"
  have nobody: "deliver ev (d # bs) \<lparr>se_manager = ?m, se_sent = px_sent px, se_joins = []\<rparr> = Inl Null_Deref"
    by (rule deliver_nobody) (simp_all add: m1(2))
  have "(if cache_exists (px_files px) full \<noteq> 0 then download_and_send ev \<lparr>sd_manager = a, sd_request = r\<rparr> ?px
      else share_cached ev \<lparr>sd_manager = a, sd_request = r\<rparr> ?px) = Inl Null_Deref"
  proof (cases "px_files px full")
    case None
    then obtain response where "ev_upstream ev (curl_options r (''Accept-Encoding:'' # hr_headers r)) = (d # bs, response)"
      using assms(16) by (auto simp: answer_def split: prod.splits)
    from send_http_request_deliver [OF assms(12,13) this] None nobody assms(10,11) show ?thesis
      by (simp add: cache_exists_def download_and_send_def in_session_def del: deliver.simps)
  next
    case (Some f)
    then have "file_blocks f = d # bs" using assms(16) by (simp add: answer_def)
    with Some nobody assms(10,15) show ?thesis
      by (simp add: cache_exists_def share_cached_def in_session_def share_cache_def share_loop_deliver del: deliver.simps)
  qed
  with h assms(9,14) handle_client_reads [OF assms(3)] show ?thesis
    by (simp add: session_main_def create_session_data_def check_cache_def)
qed

theorem handle_client_oom_crashes_witness:
  "handle_client_run (demo_env\<lparr>ev_node := Some 1, ev_subscriber := None, ev_joins := []\<rparr>) 7 (Some demo_text) demo_proxy = Inl Null_Deref"
proof -
  let ?ev = "demo_env\<lparr>ev_node := Some 1, ev_subscriber := None, ev_joins := []\<rparr>"
  obtain full where full: "cache_path (True, True) demo_request = Inr full" using demo_path by blast
  have r: "reads ?ev (Some demo_text) demo_request" using demo_reads [of "Some 1"] by (simp add: reads_def)
  have ans: "answer ?ev demo_request full (px_files demo_proxy) = (''a'' # [''bc''], [full \<mapsto> ''abc''])"
    by (simp add: answer_def demo_env_def demo_proxy_def)
  show ?thesis
    by (rule handle_client_oom_crashes [OF demo_table _ r _ _ _ _ _ _ _ _ _ _ _ _ ans, where a = 1 and n = 1])
      (use full in \<open>simp_all add: demo_env_def demo_proxy_def create_table_def\<close>)
qed

end
