(* ===== verification/Handler_Race.thy ===== *)
theory Handler_Race
  imports Handler
begin

text \<open>
  Several handlers at work, \<open>lab3/src/handler/handler.c\<close> run by the threads of the handler pool. The
  statements of \<open>__handle_client\<close> that touch the table or a manager are the steps; the table and the
  managers are those of the theory \<open>Handler\<close>, and a handler that runs alone computes \<open>handle_request\<close>.
  The table has no lock (each of its operations is one step here, although the code would allow more),
  and the lookup, the subscription and the clean-up of a session are separate, which the two races at
  the end exploit.
\<close>

section \<open>Steps\<close>

datatype hpc =
    H_Get                 \<comment> \<open>\<open>get\<close>, and the creation of a manager when there is none\<close>
  | H_Insert addr
  | H_Subscribe addr
  | H_Cas addr
  | H_Session addr        \<comment> \<open>session data, download or cache file\<close>
  | H_Finish addr
  | H_Destroy addr
  | H_Delete
  | H_End

definition handler_move :: "environment \<Rightarrow> int \<Rightarrow> http_request \<Rightarrow> hpc \<Rightarrow> proxy \<Rightarrow> fault + hpc \<times> proxy" where
  "handler_move ev fd r pc px = (let key = hr_path r @ [NUL] in case pc of
     H_Get \<Rightarrow> ebind (returned (ht_get key (px_map px))) (\<lambda>manager. case manager of
         Some a \<Rightarrow> Inr (H_Subscribe a, px)
       | None \<Rightarrow> (case ev_manager ev of None \<Rightarrow> Inr (H_End, close_fd fd px)
           | Some a \<Rightarrow> (case create_subscription_manager True (ev_container ev) of None \<Rightarrow> Inr (H_End, close_fd fd px)
             | Some m \<Rightarrow> Inr (H_Insert a, px\<lparr>px_managers := (px_managers px)(a \<mapsto> m)\<rparr>))))
   | H_Insert a \<Rightarrow> ebind (ht_insert (ev_node ev) key (Some a) (px_map px)) (\<lambda>ht. Inr (H_Subscribe a, px\<lparr>px_map := ht\<rparr>))
   | H_Subscribe a \<Rightarrow> ebind (on_manager a (subscribe (ev_subscriber ev) fd) px) (\<lambda>(_, px). Inr (H_Cas a, px))
   | H_Cas a \<Rightarrow> ebind (on_manager a (\<lambda>m. case cas (sm_is_busy m) False True of (won, busy) \<Rightarrow> Inr (won, m\<lparr>sm_is_busy := busy\<rparr>)) px)
       (\<lambda>(won, px). Inr (if won then H_Session a else H_End, px))
   | H_Session a \<Rightarrow> (case create_session_data (ev_session ev) a r of
         None \<Rightarrow> Inr (H_Destroy a, px)
       | Some session \<Rightarrow> ebind (check_cache ev (px_files px) r) (\<lambda>cached.
           ebind (if cached \<noteq> 0 then download_and_send ev session px else share_cached ev session px) (\<lambda>px. Inr (H_Finish a, px))))
   | H_Finish a \<Rightarrow> ebind (on_manager a (\<lambda>m. ebind (returned (finish_pending_chunks m)) (\<lambda>m. Inr ((), m))) px) (\<lambda>(_, px). Inr (H_Destroy a, px))
   | H_Destroy a \<Rightarrow> ebind (destroy_manager a px) (\<lambda>px. Inr (H_Delete, px))
   | H_Delete \<Rightarrow> ebind (delete_key key px) (\<lambda>px. Inr (H_End, px))
   | H_End \<Rightarrow> Inr (H_End, px))"

text \<open>A handler alone: eight moves take it from start to end.\<close>

fun handler_alone :: "environment \<Rightarrow> int \<Rightarrow> http_request \<Rightarrow> nat \<Rightarrow> hpc \<Rightarrow> proxy \<Rightarrow> fault + hpc \<times> proxy" where
  "handler_alone ev fd r 0 pc px = Inr (pc, px)"
| "handler_alone ev fd r (Suc k) pc px = ebind (handler_move ev fd r pc px) (\<lambda>(pc, px). handler_alone ev fd r k pc px)"

text \<open>The system: \<open>req t\<close> is what thread \<open>t\<close> works on.\<close>

record hsys =
  hs_px :: proxy
  hs_pc :: "nat \<Rightarrow> hpc"
  hs_fault :: "fault option"

inductive handler_step :: "(nat \<Rightarrow> environment \<times> int \<times> http_request) \<Rightarrow> nat \<Rightarrow> hsys \<Rightarrow> hsys \<Rightarrow> bool" for req n where
  handler_go: "hs_fault s = None \<Longrightarrow> t < n \<Longrightarrow> hs_pc s t \<noteq> H_End \<Longrightarrow> req t = (ev, fd, r) \<Longrightarrow>
    handler_move ev fd r (hs_pc s t) (hs_px s) = Inr (pc, px) \<Longrightarrow>
    handler_step req n s (s\<lparr>hs_px := px, hs_pc := (hs_pc s)(t := pc)\<rparr>)"
| handler_fault: "hs_fault s = None \<Longrightarrow> t < n \<Longrightarrow> req t = (ev, fd, r) \<Longrightarrow>
    handler_move ev fd r (hs_pc s t) (hs_px s) = Inl e \<Longrightarrow> handler_step req n s (s\<lparr>hs_fault := Some e\<rparr>)"

definition handlers_init :: "proxy \<Rightarrow> hsys" where
  "handlers_init px = \<lparr>hs_px = px, hs_pc = (\<lambda>_. H_Get), hs_fault = None\<rparr>"

section \<open>A handler alone\<close>

lemma handler_alone_end [simp]: "handler_alone ev fd r k H_End px = Inr (H_End, px)"
  by (induction k) (simp_all add: handler_move_def)

lemma handler_alone_tail:
  "handler_alone ev fd r (Suc (Suc k)) (H_Destroy a) px = ebind (destroy_manager a px) (\<lambda>px. ebind (delete_key (hr_path r @ [NUL]) px) (\<lambda>px. Inr (H_End, px)))"
  by (cases "destroy_manager a px") (simp_all add: handler_move_def ebind_assoc)

lemma handler_alone_session:
  "handler_alone ev fd r (Suc (Suc (Suc (Suc k)))) (H_Session a) px = ebind (session_main ev a r px) (\<lambda>(_, px). Inr (H_End, px))"
proof (cases "create_session_data (ev_session ev) a r")
  case None
  then show ?thesis unfolding handler_alone.simps(2) [of ev fd r "Suc (Suc (Suc k))" "H_Session a" px]
    by (simp add: handler_move_def session_main_def handler_alone_tail ebind_assoc del: handler_alone.simps)
next
  case (Some sd)
  then show ?thesis unfolding handler_alone.simps(2) [of ev fd r "Suc (Suc (Suc k))" "H_Session a" px]
    by (simp add: handler_move_def session_main_def handler_alone_tail ebind_assoc split_beta handler_alone.simps(2) [of _ _ _ _ "H_Finish a"]
        del: handler_alone.simps)
qed

lemma handler_alone_subscribe:
  "handler_alone ev fd r (Suc (Suc (Suc (Suc (Suc (Suc k)))))) (H_Subscribe a) px =
    ebind (on_manager a (subscribe (ev_subscriber ev) fd) px) (\<lambda>(_, px).
    ebind (on_manager a (\<lambda>m. case cas (sm_is_busy m) False True of (won, busy) \<Rightarrow> Inr (won, m\<lparr>sm_is_busy := busy\<rparr>)) px) (\<lambda>(won, px).
    if won then ebind (session_main ev a r px) (\<lambda>(_, px). Inr (H_End, px)) else Inr (H_End, px)))"
  (is "_ = ebind ?sub (\<lambda>(_, px). ebind (?cas px) (\<lambda>(won, px). ?rest won px))")
proof (cases ?sub)
  case (Inl e)
  then show ?thesis by (simp add: handler_move_def)
next
  case (Inr p)
  obtain x px1 where p: "p = (x, px1)" by (cases p)
  show ?thesis
  proof (cases "?cas px1")
    case (Inl e)
    then show ?thesis using Inr p by (simp add: handler_move_def)
  next
    case (Inr q)
    obtain won px2 where q: "q = (won, px2)" by (cases q)
    have "handler_alone ev fd r (Suc (Suc (Suc (Suc (Suc (Suc k)))))) (H_Subscribe a) px =
        handler_alone ev fd r (Suc (Suc (Suc (Suc k)))) (if won then H_Session a else H_End) px2"
      using \<open>?sub = Inr p\<close> p Inr q
      by (simp add: handler_move_def handler_alone.simps(2) [of _ _ _ _ "H_Subscribe a"] handler_alone.simps(2) [of _ _ _ _ "H_Cas a"]
          del: handler_alone.simps)
    then show ?thesis using \<open>?sub = Inr p\<close> p Inr q by (simp add: handler_alone_session del: handler_alone.simps)
  qed
qed

lemma handler_alone_request:
  "handler_alone ev fd r 8 H_Get px = ebind (handle_request ev fd r px) (\<lambda>(_, px). Inr (H_End, px))"
proof -
  let ?get = "returned (ht_get (hr_path r @ [NUL]) (px_map px))"
  have 8: "(8::nat) = Suc (Suc (Suc (Suc (Suc (Suc (Suc (Suc 0)))))))" by simp
  have tail: "handler_alone ev fd r (Suc (Suc (Suc (Suc (Suc (Suc k)))))) (H_Subscribe a) px1 =
    ebind (ebind (on_manager a (subscribe (ev_subscriber ev) fd) px1) (\<lambda>(_, px).
      ebind (on_manager a (\<lambda>m. case cas (sm_is_busy m) False True of (won, busy) \<Rightarrow> Inr (won, m\<lparr>sm_is_busy := busy\<rparr>)) px) (\<lambda>(won, px).
      if won then session_main ev a r px else Inr (Joined, px)))) (\<lambda>(_, px). Inr (H_End, px))" for k a px1
    unfolding handler_alone_subscribe ebind_assoc by (intro ebind_cong) (auto simp: ebind_assoc intro!: ebind_cong)
  have comm: "px\<lparr>px_managers := h, px_map := ht\<rparr> = px\<lparr>px_map := ht, px_managers := h\<rparr>" for px h ht by simp
  show ?thesis
  proof (cases ?get)
    case (Inl e)
    then show ?thesis by (simp add: 8 handler_move_def handle_request_def find_manager_def)
  next
    case (Inr manager)
    then show ?thesis unfolding 8 handler_alone.simps(2) [of _ _ _ _ H_Get]
      by (cases manager)
        (auto simp: handler_move_def handle_request_def find_manager_def Let_def ebind_assoc tail comm
          handler_alone.simps(2) [of _ _ _ _ "H_Insert a" for a]
          simp del: handler_alone.simps split: option.split)
  qed
qed

section \<open>Runs of the system\<close>

lemma handler_alone_reach:
  assumes "handler_alone ev fd r k pc px = Inr (pc', px')" "req t = (ev, fd, r)" "t < n"
    and "hs_px s = px" "hs_pc s t = pc" "hs_fault s = None"
  shows "reach (handler_step req n) s (s\<lparr>hs_px := px', hs_pc := (hs_pc s)(t := pc')\<rparr>)"
  using assms
proof (induction k arbitrary: s pc px)
  case 0
  then have "s\<lparr>hs_px := px', hs_pc := (hs_pc s)(t := pc')\<rparr> = s" by (cases s) auto
  then show ?case by (simp only: reach_refl)
next
  case (Suc k)
  show ?case
  proof (cases "pc = H_End")
    case True
    with Suc.prems have "s\<lparr>hs_px := px', hs_pc := (hs_pc s)(t := pc')\<rparr> = s" by (cases s) (auto simp del: handler_alone.simps)
    then show ?thesis by (simp only: reach_refl)
  next
    case False
    obtain pc1 px1 where m: "handler_move ev fd r pc px = Inr (pc1, px1)" "handler_alone ev fd r k pc1 px1 = Inr (pc', px')"
      using Suc.prems(1) by (auto simp: ebind_Inr_iff)
    let ?s1 = "s\<lparr>hs_px := px1, hs_pc := (hs_pc s)(t := pc1)\<rparr>"
    have "handler_step req n s ?s1" using False m(1) Suc.prems by (intro handler_go) auto
    then have "reach (handler_step req n) s ?s1" by (rule reach_single)
    moreover have "reach (handler_step req n) ?s1 (?s1\<lparr>hs_px := px', hs_pc := (hs_pc ?s1)(t := pc')\<rparr>)"
      using m(2) Suc.prems by (intro Suc.IH) simp_all
    moreover have "?s1\<lparr>hs_px := px', hs_pc := (hs_pc ?s1)(t := pc')\<rparr> = s\<lparr>hs_px := px', hs_pc := (hs_pc s)(t := pc')\<rparr>" by simp
    ultimately show ?thesis by (metis reach_trans)
  qed
qed

text \<open>What a session needs of its environment, apart from the blocks for the manager and the table entry.\<close>

definition session_env :: "environment \<Rightarrow> int \<Rightarrow> bool" where
  "session_env ev fd \<longleftrightarrow> accepting ev \<and> storing ev \<and> ev_container ev \<and> ev_session ev \<and> ev_context ev \<and> ev_curl ev \<and> ev_fopen ev \<and>
     (\<forall>i. ev_slist ev i) \<and> ev_check_name ev = (True, True) \<and> ev_file_name ev = (True, True) \<and>
     joins_ok [] ((fd, ev_subscriber ev) # concat (ev_joins ev)) \<and> length (concat (ev_joins ev)) \<le> 126"

lemma alone_create:
  assumes "ht_stacks (px_map px) A" "A (key_of (hr_path r @ [NUL])) = []" "ev_manager ev = Some a" "ev_container ev"
    and "create_subscription_manager True True = Some m0"
  shows "handler_alone ev fd r 1 H_Get px = Inr (H_Insert a, px\<lparr>px_managers := (px_managers px)(a \<mapsto> m0)\<rparr>)"
proof -
  have "key_ok (hr_path r @ [NUL])" by (simp add: key_ok_def readable_def)
  then show ?thesis using table.get_top [OF assms(1)] assms by (simp add: handler_move_def stack_top_def)
qed

lemma alone_find:
  assumes "ht_stacks (px_map px) A" "A (key_of (hr_path r @ [NUL])) = Some a # vs"
  shows "handler_alone ev fd r 1 H_Get px = Inr (H_Subscribe a, px)"
proof -
  have "key_ok (hr_path r @ [NUL])" by (simp add: key_ok_def readable_def)
  then show ?thesis using table.get_top [OF assms(1)] assms(2) by (simp add: handler_move_def stack_top_def)
qed

lemma alone_insert:
  assumes "ht_stacks (px_map px) A" "ev_node ev = Some n" "ht_nodes (px_map px) n = None"
  shows "\<exists>ht. handler_alone ev fd r 1 (H_Insert a) px = Inr (H_Subscribe a, px\<lparr>px_map := ht\<rparr>) \<and>
    ht_stacks ht (A(key_of (hr_path r @ [NUL]) := Some a # A (key_of (hr_path r @ [NUL])))) \<and>
    (\<forall>n'. n' \<noteq> n \<longrightarrow> ht_nodes ht n' = ht_nodes (px_map px) n')"
proof -
  have "key_ok (hr_path r @ [NUL])" by (simp add: key_ok_def readable_def)
  from table.ins_some [OF assms(1) this, of n "Some a"] assms(3) obtain ht where
    ht: "ht_insert (Some n) (hr_path r @ [NUL]) (Some a) (px_map px) = Inr ht"
    "ht_stacks ht (A(key_of (hr_path r @ [NUL]) := Some a # A (key_of (hr_path r @ [NUL]))))" by auto
  then have "\<forall>n'. n' \<noteq> n \<longrightarrow> ht_nodes ht n' = ht_nodes (px_map px) n'" by (auto simp: ht_insert_def ebind_Inr_iff)
  with ht assms(2) show ?thesis by (intro exI [of _ ht]) (simp add: handler_move_def)
qed

text \<open>From the subscription to the destruction of the manager.\<close>

lemma alone_session:
  assumes ev: "session_env ev fd" and m0: "create_subscription_manager True True = Some m0" "px_managers px a = Some m0"
    and name: "cache_path (True, True) r = Inr full"
  shows "\<exists>px'. handler_alone ev fd r 5 (H_Subscribe a) px = Inr (H_Delete, px') \<and> px_map px' = px_map px \<and>
    px_managers px' = (px_managers px)(a := None)"
proof -
  obtain b where b: "ev_subscriber ev = Some b" "joins_ok [] ((fd, Some b) # concat (ev_joins ev))" "length (concat (ev_joins ev)) \<le> 126"
    using ev by (auto simp: session_env_def joins_ok_def)
  have js: "joins_ok [(b, fd)] (concat (ev_joins ev))" using b(2) joins_ok_append [of "[]" "[(fd, Some b)]" "concat (ev_joins ev)"] by simp
  have E: "accepting ev" "storing ev" "ev_context ev" "ev_curl ev" "ev_fopen ev" "\<And>i. ev_slist ev i" "ev_session ev"
    "ev_check_name ev = (True, True)" "cache_path (ev_file_name ev) r = Inr full" using ev name by (auto simp: session_env_def)
  obtain m1 where m1: "subscribe (Some b) fd m0 = Inr (0, m1)" "\<not> sm_is_busy m1"
    "session_ok (px_sent px) \<lparr>se_manager = m1\<lparr>sm_is_busy := True\<rparr>, se_sent = px_sent px, se_joins = ev_joins ev\<rparr> [(b, fd)] []"
    using fresh_session [OF m0(1)] by blast
  let ?px = "px\<lparr>px_managers := (px_managers px)(a \<mapsto> m1\<lparr>sm_is_busy := True\<rparr>)\<rparr>"
  obtain bs files' where ans: "answer ev r full (px_files ?px) = (bs, files')" by (metis surj_pair)
  have m: "px_managers ?px a = Some (m1\<lparr>sm_is_busy := True\<rparr>)" by simp
  have ok: "session_ok (px_sent ?px) \<lparr>se_manager = m1\<lparr>sm_is_busy := True\<rparr>, se_sent = px_sent ?px, se_joins = ev_joins ev\<rparr> [(b, fd)] []"
    using m1(3) by simp
  have l: "length [(b, fd)] + length (concat (ev_joins ev)) \<le> 127" using b(3) by simp
  obtain m' se where S: "(if cache_exists (px_files ?px) full \<noteq> 0 then download_and_send ev \<lparr>sd_manager = a, sd_request = r\<rparr> ?px
        else share_cached ev \<lparr>sd_manager = a, sd_request = r\<rparr> ?px) = Inr (?px\<lparr>px_managers := (px_managers ?px)(a \<mapsto> m'), px_files := files',
        px_sent := sent_to (px_sent ?px) (map snd [(b, fd)] @ map fst (concat (take (length bs) (ev_joins ev)))) (concat bs)\<rparr>)"
    "se_manager se = m'" "session_ok (px_sent ?px) se ([(b, fd)] @ clients_of (concat (ev_joins ev))) bs"
    using session_answer [OF m ok _ E(1-6) js l E(9) ans] by blast
  let ?px2 = "?px\<lparr>px_managers := (px_managers ?px)(a \<mapsto> m'), px_files := files',
        px_sent := sent_to (px_sent ?px) (map snd [(b, fd)] @ map fst (concat (take (length bs) (ev_joins ev)))) (concat bs)\<rparr>"
  have "px_managers ?px2 a = Some m'" by simp
  from session_end [OF this S(3,2)] obtain px3 where px3: "on_manager a (\<lambda>m. ebind (returned (finish_pending_chunks m)) (\<lambda>m. Inr ((), m))) ?px2 = Inr ((), px3)"
    "destroy_manager a px3 = Inr (?px2\<lparr>px_managers := (px_managers ?px2)(a := None), px_closed := px_closed ?px2 @ map snd ([(b, fd)] @ clients_of (concat (ev_joins ev)))\<rparr>)"
    by (auto simp: ebind_Inr_iff)
  have "handler_move ev fd r (H_Subscribe a) px = Inr (H_Cas a, px\<lparr>px_managers := (px_managers px)(a \<mapsto> m1)\<rparr>)"
    using m0(2) m1(1) b(1) by (simp add: handler_move_def on_manager_def)
  moreover have "handler_move ev fd r (H_Cas a) (px\<lparr>px_managers := (px_managers px)(a \<mapsto> m1)\<rparr>) = Inr (H_Session a, ?px)"
    using m1(2) by (simp add: handler_move_def on_manager_def cas_def)
  moreover have "handler_move ev fd r (H_Session a) ?px = Inr (H_Finish a, ?px2)"
    using S(1) E(7,8) name by (simp add: handler_move_def create_session_data_def check_cache_def)
  moreover have "handler_move ev fd r (H_Finish a) ?px2 = Inr (H_Destroy a, px3)" using px3(1) by (simp add: handler_move_def)
  moreover have "handler_move ev fd r (H_Destroy a) px3 = Inr (H_Delete, ?px2\<lparr>px_managers := (px_managers ?px2)(a := None),
      px_closed := px_closed ?px2 @ map snd ([(b, fd)] @ clients_of (concat (ev_joins ev)))\<rparr>)" using px3(2) by (simp add: handler_move_def)
  ultimately have "handler_alone ev fd r (Suc (Suc (Suc (Suc (Suc 0))))) (H_Subscribe a) px = Inr (H_Delete, ?px2\<lparr>px_managers := (px_managers ?px2)(a := None),
      px_closed := px_closed ?px2 @ map snd ([(b, fd)] @ clients_of (concat (ev_joins ev)))\<rparr>)"
    by (simp only: handler_alone.simps ebind.simps prod.case)
  moreover have five: "(5::nat) = Suc (Suc (Suc (Suc (Suc 0))))" by simp
  ultimately show ?thesis unfolding five by (intro exI conjI) (assumption, simp_all)
qed

section \<open>Properties\<close>

text \<open>The steps are the handler: run without interruption, a thread is done after at most eight of them, and the
  proxy is then in the state that \<open>handle_request\<close> computes, with the same fault if there is one.\<close>

theorem handler_steps_equiv:
  "handler_alone ev fd r 8 H_Get px = ebind (handle_request ev fd r px) (\<lambda>(_, px). Inr (H_End, px))"
  by (rule handler_alone_request)

text \<open>A handler can use a freed manager. Thread 1 looks up the URL while the session of thread 0 runs; the session
  ends and its manager is destroyed before thread 1 subscribes its client to it.\<close>

theorem handler_race_use_after_free:
  assumes "session_env ev0 fd0" "ev_manager ev0 = Some a" "ev_node ev0 = Some n0" "ht_nodes (px_map px) n0 = None"
    and "ht_stacks (px_map px) A" "A (key_of (hr_path r0 @ [NUL])) = []" "cache_path (True, True) r0 = Inr full"
    and "req 0 = (ev0, fd0, r0)" "req 1 = (ev1, fd1, r1)" "hr_path r1 = hr_path r0"
  shows "\<exists>s. reach (handler_step req 2) (handlers_init px) s \<and> hs_fault s = Some (Bad_Addr a)"
proof -
  obtain m0 :: "char subscription_manager" where m0: "create_subscription_manager True True = Some m0"
    by (simp add: create_subscription_manager_def create_chunk_container_def)
  let ?k = "key_of (hr_path r0 @ [NUL])"
  let ?px1 = "px\<lparr>px_managers := (px_managers px)(a \<mapsto> m0)\<rparr>"
  have "ev_container ev0" using assms(1) by (simp add: session_env_def)
  from alone_create [OF assms(5,6,2) this m0] have 1: "handler_alone ev0 fd0 r0 1 H_Get px = Inr (H_Insert a, ?px1)" .
  obtain ht where 2: "handler_alone ev0 fd0 r0 1 (H_Insert a) ?px1 = Inr (H_Subscribe a, ?px1\<lparr>px_map := ht\<rparr>)"
    "ht_stacks ht (A(?k := Some a # A ?k))" using alone_insert [of ?px1 A ev0 n0 fd0 r0 a] assms(3-5) by auto
  let ?px2 = "?px1\<lparr>px_map := ht\<rparr>"
  have 3: "handler_alone ev1 fd1 r1 1 H_Get ?px2 = Inr (H_Subscribe a, ?px2)"
    using alone_find [of ?px2 "A(?k := Some a # A ?k)" r1 a "A ?k" ev1 fd1] 2(2) assms(10) by simp
  obtain px3 where 4: "handler_alone ev0 fd0 r0 5 (H_Subscribe a) ?px2 = Inr (H_Delete, px3)" "px_managers px3 = (px_managers ?px2)(a := None)"
    using alone_session [OF assms(1) m0, of ?px2 a r0 full] assms(7) by auto
  let ?s0 = "handlers_init px"
  let ?s1 = "?s0\<lparr>hs_px := ?px1, hs_pc := (hs_pc ?s0)(0 := H_Insert a)\<rparr>"
  let ?s2 = "?s1\<lparr>hs_px := ?px2, hs_pc := (hs_pc ?s1)(0 := H_Subscribe a)\<rparr>"
  let ?s3 = "?s2\<lparr>hs_px := ?px2, hs_pc := (hs_pc ?s2)(1 := H_Subscribe a)\<rparr>"
  let ?s4 = "?s3\<lparr>hs_px := px3, hs_pc := (hs_pc ?s3)(0 := H_Delete)\<rparr>"
  have "reach (handler_step req 2) ?s0 ?s1" by (rule handler_alone_reach [where req = req and t = 0, OF 1 assms(8)]) (simp_all add: handlers_init_def)
  moreover have "reach (handler_step req 2) ?s1 ?s2" by (rule handler_alone_reach [where req = req and t = 0, OF 2(1) assms(8)]) (simp_all add: handlers_init_def)
  moreover have "reach (handler_step req 2) ?s2 ?s3" by (rule handler_alone_reach [where req = req and t = 1, OF 3 assms(9)]) (simp_all add: handlers_init_def)
  moreover have "reach (handler_step req 2) ?s3 ?s4" by (rule handler_alone_reach [where req = req and t = 0, OF 4(1) assms(8)]) (simp_all add: handlers_init_def)
  moreover have "handler_step req 2 ?s4 (?s4\<lparr>hs_fault := Some (Bad_Addr a)\<rparr>)"
    using 4(2) by (intro handler_fault [where req = req and t = 1, OF _ _ assms(9)]) (simp_all add: handlers_init_def handler_move_def on_manager_def)
  ultimately have "reach (handler_step req 2) ?s0 (?s4\<lparr>hs_fault := Some (Bad_Addr a)\<rparr>)" by (meson reach_trans reach_single)
  then show ?thesis by (intro exI [of _ "?s4\<lparr>hs_fault := Some (Bad_Addr a)\<rparr>"]) simp
qed

theorem handler_race_use_after_free_witness:
  "\<exists>s. reach (handler_step (\<lambda>t. (demo_env\<lparr>ev_node := Some t, ev_manager := Some t\<rparr>, int t, demo_request)) 2) (handlers_init demo_proxy) s \<and>
     hs_fault s = Some (Bad_Addr 0)"
proof -
  obtain full where full: "cache_path (True, True) demo_request = Inr full" using demo_path by blast
  have "accepting (demo_env\<lparr>ev_node := Some 0, ev_manager := Some 0\<rparr>)" "storing (demo_env\<lparr>ev_node := Some 0, ev_manager := Some 0\<rparr>)"
    using demo_accepting demo_storing by (simp_all add: accepting_def storing_def)
  then have "session_env (demo_env\<lparr>ev_node := Some 0, ev_manager := Some 0\<rparr>) 0"
    by (auto simp: session_env_def demo_env_def joins_ok_def)
  from handler_race_use_after_free [OF this _ _ _ demo_table _ full, where req = "\<lambda>t. (demo_env\<lparr>ev_node := Some t, ev_manager := Some t\<rparr>, int t, demo_request)"]
  show ?thesis by (simp add: demo_proxy_def create_table_def)
qed

text \<open>Two handlers that take turns: both look the manager up, both insert theirs, and handler 0 finishes.\<close>

lemma crossed_handlers:
  assumes req: "req 0 = (ev0, fd0, r0)" "req 1 = (ev1, fd1, r1)"
    and a: "handler_alone ev0 fd0 r0 1 H_Get px = Inr (p1, px1)" "handler_alone ev1 fd1 r1 1 H_Get px1 = Inr (q1, px2)"
      "handler_alone ev0 fd0 r0 1 p1 px2 = Inr (p2, px3)" "handler_alone ev1 fd1 r1 1 q1 px3 = Inr (q2, px4)"
      "handler_alone ev0 fd0 r0 5 p2 px4 = Inr (p3, px5)" "handler_alone ev0 fd0 r0 1 p3 px5 = Inr (p4, px6)"
  shows "\<exists>s. reach (handler_step req 2) (handlers_init px) s \<and> hs_px s = px6 \<and> hs_pc s 0 = p4 \<and> hs_fault s = None"
proof -
  let ?s0 = "handlers_init px"
  let ?s1 = "?s0\<lparr>hs_px := px1, hs_pc := (hs_pc ?s0)(0 := p1)\<rparr>"
  let ?s2 = "?s1\<lparr>hs_px := px2, hs_pc := (hs_pc ?s1)(1 := q1)\<rparr>"
  let ?s3 = "?s2\<lparr>hs_px := px3, hs_pc := (hs_pc ?s2)(0 := p2)\<rparr>"
  let ?s4 = "?s3\<lparr>hs_px := px4, hs_pc := (hs_pc ?s3)(1 := q2)\<rparr>"
  let ?s5 = "?s4\<lparr>hs_px := px5, hs_pc := (hs_pc ?s4)(0 := p3)\<rparr>"
  let ?s6 = "?s5\<lparr>hs_px := px6, hs_pc := (hs_pc ?s5)(0 := p4)\<rparr>"
  note go = handler_alone_reach [where req = req and n = 2]
  have "reach (handler_step req 2) ?s0 ?s1" by (rule go [OF a(1) req(1)]) (simp_all add: handlers_init_def)
  moreover have "reach (handler_step req 2) ?s1 ?s2" by (rule go [OF a(2) req(2)]) (simp_all add: handlers_init_def)
  moreover have "reach (handler_step req 2) ?s2 ?s3" by (rule go [OF a(3) req(1)]) (simp_all add: handlers_init_def)
  moreover have "reach (handler_step req 2) ?s3 ?s4" by (rule go [OF a(4) req(2)]) (simp_all add: handlers_init_def)
  moreover have "reach (handler_step req 2) ?s4 ?s5" by (rule go [OF a(5) req(1)]) (simp_all add: handlers_init_def)
  moreover have "reach (handler_step req 2) ?s5 ?s6" by (rule go [OF a(6) req(1)]) (simp_all add: handlers_init_def)
  ultimately have "reach (handler_step req 2) ?s0 ?s6" by (meson reach_trans)
  then show ?thesis by (intro exI [of _ ?s6]) (simp add: handlers_init_def)
qed

text \<open>Two handlers that look up the same new URL at the same time both create a manager, and the one that ends first
  takes the entry of the other out of the table. Its own entry stays, and points to freed memory: every
  handler that comes for this URL now faults.\<close>

theorem handler_race_dangling:
  assumes "session_env ev0 fd0" "ev_manager ev0 = Some a0" "ev_node ev0 = Some n0" "ht_nodes (px_map px) n0 = None"
    and "ev_manager ev1 = Some a1" "ev_node ev1 = Some n1" "ht_nodes (px_map px) n1 = None" "ev_container ev1"
    and "a0 \<noteq> a1" "n0 \<noteq> n1" "ht_stacks (px_map px) A" "A (key_of (hr_path r0 @ [NUL])) = []" "cache_path (True, True) r0 = Inr full"
    and "req 0 = (ev0, fd0, r0)" "req 1 = (ev1, fd1, r1)" "hr_path r1 = hr_path r0"
  shows "\<exists>s. reach (handler_step req 2) (handlers_init px) s \<and> hs_pc s 0 = H_End \<and> hs_fault s = None \<and>
    (\<forall>ev fd r. hr_path r = hr_path r0 \<longrightarrow> handle_request ev fd r (hs_px s) = Inl (Bad_Addr a0))"
proof -
  obtain m0 :: "char subscription_manager" where m0: "create_subscription_manager True True = Some m0"
    by (simp add: create_subscription_manager_def create_chunk_container_def)
  let ?k = "key_of (hr_path r0 @ [NUL])"
  let ?px1 = "px\<lparr>px_managers := (px_managers px)(a0 \<mapsto> m0)\<rparr>"
  let ?px2 = "?px1\<lparr>px_managers := (px_managers ?px1)(a1 \<mapsto> m0)\<rparr>"
  have c0: "ev_container ev0" using assms(1) by (simp add: session_env_def)
  have 1: "handler_alone ev0 fd0 r0 1 H_Get px = Inr (H_Insert a0, ?px1)" by (rule alone_create [OF assms(11,12,2) c0 m0])
  have 2: "handler_alone ev1 fd1 r1 1 H_Get ?px1 = Inr (H_Insert a1, ?px2)"
    by (rule alone_create [OF _ _ assms(5,8) m0, of _ A]) (use assms(11,12,16) in simp_all)
  obtain ht1 where 3: "handler_alone ev0 fd0 r0 1 (H_Insert a0) ?px2 = Inr (H_Subscribe a0, ?px2\<lparr>px_map := ht1\<rparr>)"
    "ht_stacks ht1 (A(?k := [Some a0]))" "ht_nodes ht1 n1 = None"
    using alone_insert [of ?px2 A ev0 n0 fd0 r0 a0] assms(3,4,7,10,11,12) by auto
  let ?px3 = "?px2\<lparr>px_map := ht1\<rparr>"
  obtain ht2 where 4: "handler_alone ev1 fd1 r1 1 (H_Insert a1) ?px3 = Inr (H_Subscribe a1, ?px3\<lparr>px_map := ht2\<rparr>)"
    "ht_stacks ht2 (A(?k := [Some a1, Some a0]))"
    using alone_insert [of ?px3 "A(?k := [Some a0])" ev1 n1 fd1 r1 a1] 3 assms(6,16) by auto
  let ?px4 = "?px3\<lparr>px_map := ht2\<rparr>"
  obtain px5 where 5: "handler_alone ev0 fd0 r0 5 (H_Subscribe a0) ?px4 = Inr (H_Delete, px5)" "px_map px5 = ht2"
    "px_managers px5 = (px_managers ?px4)(a0 := None)"
    using alone_session [OF assms(1) m0, of ?px4 a0 r0 full] assms(9,13) by auto
  have ko: "key_ok (hr_path r0 @ [NUL])" by (simp add: key_ok_def readable_def)
  obtain ht3 where ht3: "ht_delete (hr_path r0 @ [NUL]) ht2 = Some (Inr ht3)" "ht_stacks ht3 (A(?k := [Some a0]))"
    using table.del_pop [OF 4(2) ko] by auto
  let ?px6 = "px5\<lparr>px_map := ht3\<rparr>"
  have 6: "handler_alone ev0 fd0 r0 1 H_Delete px5 = Inr (H_End, ?px6)" using ht3(1) 5(2) by (simp add: handler_move_def delete_key_def)
  obtain s6 where s6: "reach (handler_step req 2) (handlers_init px) s6" "hs_px s6 = ?px6" "hs_pc s6 0 = H_End" "hs_fault s6 = None"
    using crossed_handlers [OF assms(14,15) 1 2 3(1) 4(1) 5(1) 6] by blast
  have "handle_request ev fd r ?px6 = Inl (Bad_Addr a0)" if r: "hr_path r = hr_path r0" for ev fd r
  proof -
    have "ht_get (hr_path r @ [NUL]) ht3 = Some (Inr (Some a0))"
      using table.get_top [OF ht3(2)] r by (simp add: key_ok_def readable_def stack_top_def)
    then show ?thesis using 5(3) by (simp add: handle_request_def find_manager_def on_manager_def)
  qed
  with s6 show ?thesis by (intro exI [of _ s6]) simp
qed

theorem handler_race_dangling_witness:
  "\<exists>s. reach (handler_step (\<lambda>t. (demo_env\<lparr>ev_node := Some t, ev_manager := Some t\<rparr>, int t, demo_request)) 2) (handlers_init demo_proxy) s \<and>
     hs_pc s 0 = H_End \<and> hs_fault s = None \<and> handle_request demo_env 9 demo_request (hs_px s) = Inl (Bad_Addr 0)"
proof -
  obtain full where full: "cache_path (True, True) demo_request = Inr full" using demo_path by blast
  have "accepting (demo_env\<lparr>ev_node := Some 0, ev_manager := Some 0\<rparr>)" "storing (demo_env\<lparr>ev_node := Some 0, ev_manager := Some 0\<rparr>)"
    using demo_accepting demo_storing by (simp_all add: accepting_def storing_def)
  then have "session_env (demo_env\<lparr>ev_node := Some 0, ev_manager := Some 0\<rparr>) 0"
    by (auto simp: session_env_def demo_env_def joins_ok_def)
  from handler_race_dangling [OF this, of 0 0 demo_proxy "demo_env\<lparr>ev_node := Some 1, ev_manager := Some 1\<rparr>" 1 1 "\<lambda>_. []" demo_request full
      "\<lambda>t. (demo_env\<lparr>ev_node := Some t, ev_manager := Some t\<rparr>, int t, demo_request)" 1 demo_request]
  obtain s where "reach (handler_step (\<lambda>t. (demo_env\<lparr>ev_node := Some t, ev_manager := Some t\<rparr>, int t, demo_request)) 2) (handlers_init demo_proxy) s"
    "hs_pc s 0 = H_End" "hs_fault s = None" "\<forall>ev fd r. hr_path r = hr_path demo_request \<longrightarrow> handle_request ev fd r (hs_px s) = Inl (Bad_Addr 0)"
    using demo_table full by (auto simp: demo_proxy_def create_table_def demo_env_def)
  then show ?thesis by blast
qed

end
