(* ===== verification/Threadpool.thy ===== *)
theory Threadpool
  imports Prelude "HOL-Library.Multiset"
begin

text \<open>
  The thread pool of the proxy, \<open>lab3/src/threadpool/threadpool.c\<close>: tasks in a list linked by
  \<open>prev\<close> from \<open>last_task\<close> (the task pushed last is started first), worker threads that sleep on the
  condition variable. A task is a function with its argument, kept as one value. \<open>id_sequence\<close> is
  not set by \<open>init_threadpool\<close>: its first value is an argument.
\<close>

section \<open>Data and operations\<close>

record 'f task =
  tk_id :: int
  tk_fun :: 'f
  tk_next :: ptr
  tk_prev :: ptr

record 'f threadpool =
  tp_queue_size :: int
  tp_stop :: bool
  tp_id_sequence :: int
  tp_last_task :: ptr
  tp_heap :: "addr \<rightharpoonup> 'f task"

definition MAX_THREADS :: nat where "MAX_THREADS = 10"

text \<open>
  The array \<open>pool->threads\<close> has \<open>threads\<close> cells; the loop that starts the workers runs to
  \<open>MAX_THREADS\<close>. \<open>ids\<close> are the identifiers \<open>pthread_create\<close> stores.
\<close>

fun create_workers :: "(nat \<Rightarrow> nat) \<Rightarrow> nat \<Rightarrow> nat \<Rightarrow> nat list \<Rightarrow> fault + nat list" where
  "create_workers ids i 0 cells = Inr cells"
| "create_workers ids i (Suc k) cells =
     (if i < length cells then create_workers ids (Suc i) k (cells[i := ids i]) else Inl Out_Of_Bounds)"

definition init_threadpool ::
  "bool \<Rightarrow> bool \<Rightarrow> (nat \<Rightarrow> nat) \<Rightarrow> int \<Rightarrow> (nat \<Rightarrow> nat) \<Rightarrow> nat \<Rightarrow> fault + ('f threadpool \<times> nat list) option"
where
  "init_threadpool pool_malloc threads_malloc ids garbage_id garbage_cells threads =
     (if \<not> pool_malloc \<or> \<not> threads_malloc then Inr None
      else ebind (create_workers ids 0 MAX_THREADS (map garbage_cells [0..<threads])) (\<lambda>cells.
        Inr (Some (\<lparr>tp_queue_size = 0, tp_stop = False, tp_id_sequence = garbage_id, tp_last_task = None, tp_heap = Map.empty\<rparr>,
                   cells))))"

text \<open>\<open>threadpool_push_task\<close> does not test the result of \<open>malloc\<close>.\<close>

definition threadpool_push_task :: "ptr \<Rightarrow> 'f \<Rightarrow> 'f threadpool \<Rightarrow> fault + 'f threadpool" where
  "threadpool_push_task new_last_task f p = (case new_last_task of None \<Rightarrow> Inl Null_Deref
     | Some a \<Rightarrow>
       (let new = \<lparr>tk_id = tp_id_sequence p, tk_fun = f, tk_next = None, tk_prev = tp_last_task p\<rparr> in
        ebind (case tp_last_task p of None \<Rightarrow> Inr (tp_heap p)
                 | Some l \<Rightarrow> store (tp_heap p) (Some l) (tk_next_update (\<lambda>_. Some a))) (\<lambda>h.
        Inr (p\<lparr>tp_last_task := Some a, tp_id_sequence := tp_id_sequence p + 1, tp_queue_size := tp_queue_size p + 1,
               tp_heap := h(a \<mapsto> new)\<rparr>))))"

text \<open>The part of \<open>worker\<close> behind its waiting loop: the task it takes, and the pool.\<close>

definition worker_take :: "'f threadpool \<Rightarrow> fault + ptr \<times> 'f threadpool" where
  "worker_take p = ebind (load (tp_heap p) (tp_last_task p)) (\<lambda>task.
     Inr (tp_last_task p, p\<lparr>tp_queue_size := tp_queue_size p - 1, tp_last_task := tk_prev task\<rparr>))"

text \<open>\<open>destroy_threadpool\<close> after the workers have been joined: the heap it leaves.\<close>

definition destroy_threadpool :: "'f threadpool \<Rightarrow> (fault + (addr \<rightharpoonup> 'f task)) option" where
  "destroy_threadpool p = free_chain tk_prev (tp_heap p) (tp_last_task p)"

section \<open>The queue is a stack\<close>

definition tp_rep :: "'f threadpool \<Rightarrow> addr list \<Rightarrow> bool" where
  "tp_rep p as \<longleftrightarrow> path tk_prev (tp_heap p) (tp_last_task p) as None \<and> tp_queue_size p = int (length as)"

definition fun_of :: "(addr \<rightharpoonup> 'f task) \<Rightarrow> addr \<Rightarrow> 'f" where "fun_of h a = tk_fun (the (h a))"

lemma push_rep:
  assumes rep: "tp_rep p as" and a: "tp_heap p a = None"
  shows "\<exists>p'. threadpool_push_task (Some a) f p = Inr p' \<and> tp_rep p' (a # as) \<and> tp_stop p' = tp_stop p \<and>
    fun_of (tp_heap p') a = f \<and> (\<forall>b. b \<noteq> a \<longrightarrow> fun_of (tp_heap p') b = fun_of (tp_heap p) b) \<and>
    dom (tp_heap p') = insert a (dom (tp_heap p)) \<and> tp_queue_size p' = tp_queue_size p + 1"
proof (cases as)
  case Nil
  then show ?thesis using rep a by (auto simp: tp_rep_def threadpool_push_task_def fun_of_def)
next
  case (Cons b bs)
  with rep obtain n where n: "tp_last_task p = Some b" "tp_heap p b = Some n" "path tk_prev (tp_heap p) (tk_prev n) bs None"
    by (auto simp: tp_rep_def)
  have d: "b \<notin> set bs" "a \<notin> set as"
    using path_distinct [of tk_prev "tp_heap p" _ as] path_dom [of tk_prev "tp_heap p" _ as] rep Cons a
    by (auto simp: tp_rep_def simp del: path.simps)
  have ab: "a \<noteq> b" using a n by auto
  let ?h = "(tp_heap p)(b \<mapsto> n\<lparr>tk_next := Some a\<rparr>)"
  let ?new = "\<lparr>tk_id = tp_id_sequence p, tk_fun = f, tk_next = None, tk_prev = Some b\<rparr>"
  have "path tk_prev (?h(a \<mapsto> ?new)) (Some a) (a # as) None" using n d Cons ab by simp
  then show ?thesis using rep n ab Cons
    by (auto simp: tp_rep_def threadpool_push_task_def fun_of_def simp del: path.simps)
qed

lemma take_rep:
  assumes "tp_rep p (a # as)"
  shows "\<exists>p'. worker_take p = Inr (Some a, p') \<and> tp_rep p' as \<and> tp_heap p' = tp_heap p \<and> tp_stop p' = tp_stop p \<and>
    tp_queue_size p' = tp_queue_size p - 1"
  using assms by (auto simp: tp_rep_def worker_take_def)

section \<open>The pool at work\<close>

text \<open>
  A worker is about to take the mutex, asleep in \<open>pthread_cond_wait\<close>, running a task, or has
  returned. The critical sections are the steps: pushing a task (and signalling one sleeper, if
  any), a worker's pass through its waiting loop, the end of a task, a spurious wakeup, and the stop
  request of \<open>destroy_threadpool\<close> (which wakes everybody). \<open>ps_pushed\<close> and \<open>ps_done\<close> record the tasks
  pushed and finished.
\<close>

datatype wstate = W_Ready | W_Asleep | W_Running addr | W_Exited

record 'f poolsys =
  ps_pool :: "'f threadpool"
  ps_workers :: "nat \<Rightarrow> wstate"
  ps_pushed :: "'f list"
  ps_done :: "'f list"

definition signal_ok :: "nat \<Rightarrow> (nat \<Rightarrow> wstate) \<Rightarrow> nat option \<Rightarrow> bool" where
  "signal_ok n ws w \<longleftrightarrow> (case w of None \<Rightarrow> \<forall>u<n. ws u \<noteq> W_Asleep | Some u \<Rightarrow> u < n \<and> ws u = W_Asleep)"

definition wake_one :: "nat option \<Rightarrow> (nat \<Rightarrow> wstate) \<Rightarrow> (nat \<Rightarrow> wstate)" where
  "wake_one w ws = (case w of None \<Rightarrow> ws | Some u \<Rightarrow> ws(u := W_Ready))"

definition wake_all :: "(nat \<Rightarrow> wstate) \<Rightarrow> (nat \<Rightarrow> wstate)" where
  "wake_all ws = (\<lambda>u. if ws u = W_Asleep then W_Ready else ws u)"

inductive pool_step :: "nat \<Rightarrow> 'f poolsys \<Rightarrow> 'f poolsys \<Rightarrow> bool" for n where
  pool_push: "tp_heap (ps_pool s) a = None \<Longrightarrow> threadpool_push_task (Some a) f (ps_pool s) = Inr p \<Longrightarrow>
    signal_ok n (ps_workers s) w \<Longrightarrow>
    pool_step n s (s\<lparr>ps_pool := p, ps_workers := wake_one w (ps_workers s), ps_pushed := ps_pushed s @ [f]\<rparr>)"
| pool_exit: "t < n \<Longrightarrow> ps_workers s t = W_Ready \<Longrightarrow> tp_stop (ps_pool s) \<Longrightarrow>
    pool_step n s (s\<lparr>ps_workers := (ps_workers s)(t := W_Exited)\<rparr>)"
| pool_sleep: "t < n \<Longrightarrow> ps_workers s t = W_Ready \<Longrightarrow> \<not> tp_stop (ps_pool s) \<Longrightarrow> tp_queue_size (ps_pool s) = 0 \<Longrightarrow>
    pool_step n s (s\<lparr>ps_workers := (ps_workers s)(t := W_Asleep)\<rparr>)"
| pool_take: "t < n \<Longrightarrow> ps_workers s t = W_Ready \<Longrightarrow> \<not> tp_stop (ps_pool s) \<Longrightarrow> tp_queue_size (ps_pool s) \<noteq> 0 \<Longrightarrow>
    worker_take (ps_pool s) = Inr (Some a, p) \<Longrightarrow>
    pool_step n s (s\<lparr>ps_pool := p, ps_workers := (ps_workers s)(t := W_Running a)\<rparr>)"
| pool_finish: "t < n \<Longrightarrow> ps_workers s t = W_Running a \<Longrightarrow>
    pool_step n s (s\<lparr>ps_workers := (ps_workers s)(t := W_Ready), ps_done := ps_done s @ [fun_of (tp_heap (ps_pool s)) a]\<rparr>)"
| pool_spurious: "t < n \<Longrightarrow> ps_workers s t = W_Asleep \<Longrightarrow>
    pool_step n s (s\<lparr>ps_workers := (ps_workers s)(t := W_Ready)\<rparr>)"
| pool_stop: "pool_step n s (s\<lparr>ps_pool := (ps_pool s)\<lparr>tp_stop := True\<rparr>, ps_workers := wake_all (ps_workers s)\<rparr>)"

definition poolsys_init :: "int \<Rightarrow> 'f poolsys" where
  "poolsys_init garbage = \<lparr>ps_pool = \<lparr>tp_queue_size = 0, tp_stop = False, tp_id_sequence = garbage, tp_last_task = None, tp_heap = Map.empty\<rparr>,
     ps_workers = (\<lambda>_. W_Ready), ps_pushed = [], ps_done = []\<rparr>"

definition running_task :: "(addr \<rightharpoonup> 'f task) \<Rightarrow> wstate \<Rightarrow> 'f multiset" where
  "running_task h w = (case w of W_Running a \<Rightarrow> {#fun_of h a#} | _ \<Rightarrow> {#})"

definition ready_one :: "wstate \<Rightarrow> int" where "ready_one w = (if w = W_Ready then 1 else 0)"

definition pool_inv :: "nat \<Rightarrow> 'f poolsys \<Rightarrow> addr list \<Rightarrow> bool" where
  "pool_inv n s as \<longleftrightarrow> (let h = tp_heap (ps_pool s) in
     tp_rep (ps_pool s) as \<and>
     (\<forall>t<n. \<forall>a. ps_workers s t = W_Running a \<longrightarrow> a \<in> dom h) \<and>
     mset (ps_pushed s) = mset (map (fun_of h) as) + (\<Sum>t<n. running_task h (ps_workers s t)) + mset (ps_done s) \<and>
     (tp_stop (ps_pool s) \<longrightarrow> (\<forall>t<n. ps_workers s t \<noteq> W_Asleep)) \<and>
     (\<not> tp_stop (ps_pool s) \<longrightarrow> (\<forall>t<n. ps_workers s t \<noteq> W_Exited)) \<and>
     ((\<exists>t<n. ps_workers s t = W_Asleep) \<longrightarrow> int (length as) \<le> (\<Sum>t<n. ready_one (ps_workers s t))))"

lemma pool_inv_init: "pool_inv n (poolsys_init g) []"
  by (simp add: pool_inv_def poolsys_init_def tp_rep_def running_task_def)

lemma running_upd:
  fixes t n :: nat
  shows "t < n \<Longrightarrow> (\<Sum>u<n. running_task h ((ws(t := x)) u)) + running_task h (ws t) = (\<Sum>u<n. running_task h (ws u)) + running_task h x"
  by (rule sum_thread_upd_nat [of t n "running_task h" ws x])

lemma ready_upd:
  fixes t n :: nat
  shows "t < n \<Longrightarrow> (\<Sum>u<n. ready_one ((ws(t := x)) u)) = (\<Sum>u<n. ready_one (ws u)) - ready_one (ws t) + ready_one x"
  by (rule sum_thread_upd [of t n ready_one ws x])

lemma running_quiet:
  fixes t n :: nat
  assumes "t < n" "running_task h (ws t) = {#}" "running_task h x = {#}"
  shows "(\<Sum>u<n. running_task h ((ws(t := x)) u)) = (\<Sum>u<n. running_task h (ws u))"
  using running_upd [OF assms(1), of h ws x] assms(2,3) by simp

lemma sum_ready_nonneg: "0 \<le> (\<Sum>u\<in>A. ready_one (f u))"
  by (rule sum_nonneg) (simp add: ready_one_def)

text \<open>A step that only changes what one worker, not running a task, is doing.\<close>

lemma pool_inv_worker:
  assumes inv: "pool_inv n s as" and t: "t < n"
    and q: "running_task (tp_heap (ps_pool s)) (ps_workers s t) = {#}" "x \<in> {W_Ready, W_Asleep, W_Exited}"
    and st: "tp_stop (ps_pool s) \<longrightarrow> x \<noteq> W_Asleep" "\<not> tp_stop (ps_pool s) \<longrightarrow> x \<noteq> W_Exited"
    and rd: "(\<exists>u<n. ((ps_workers s)(t := x)) u = W_Asleep) \<longrightarrow>
       int (length as) \<le> (\<Sum>u<n. ready_one (((ps_workers s)(t := x)) u))"
  shows "pool_inv n (s\<lparr>ps_workers := (ps_workers s)(t := x)\<rparr>) as"
proof -
  have "running_task (tp_heap (ps_pool s)) x = {#}" using q(2) by (auto simp: running_task_def)
  note eq = running_quiet [where ws = "ps_workers s", OF t q(1) this]
  show ?thesis
    using inv q(2) st rd unfolding pool_inv_def Let_def
    by (simp add: eq del: fun_upd_apply) (auto simp: fun_upd_apply)
qed

lemma pool_inv_push:
  assumes inv: "pool_inv n s as" and a: "tp_heap (ps_pool s) a = None"
    and p: "threadpool_push_task (Some a) f (ps_pool s) = Inr p" and w: "signal_ok n (ps_workers s) w"
  shows "pool_inv n (s\<lparr>ps_pool := p, ps_workers := wake_one w (ps_workers s), ps_pushed := ps_pushed s @ [f]\<rparr>) (a # as)"
proof -
  let ?h = "tp_heap (ps_pool s)" and ?ws = "ps_workers s" and ?ws' = "wake_one w (ps_workers s)"
  have rep: "tp_rep (ps_pool s) as" using inv by (simp add: pool_inv_def Let_def)
  from push_rep [OF rep a, of f] p have p': "tp_rep p (a # as)" "tp_stop p = tp_stop (ps_pool s)" "fun_of (tp_heap p) a = f"
      "dom (tp_heap p) = insert a (dom ?h)" and same: "\<And>b. b \<noteq> a \<Longrightarrow> fun_of (tp_heap p) b = fun_of ?h b"
    by auto
  have live: "set as \<subseteq> dom ?h" using rep path_dom by (fastforce simp: tp_rep_def)
  have ms: "map (fun_of (tp_heap p)) as = map (fun_of ?h) as" using live a same by (metis (no_types, lifting) domIff list.map_cong0 subsetD)
  have "running_task (tp_heap p) (?ws t) = running_task ?h (?ws t)" if t: "t < n" for t
  proof (cases "?ws t")
    case (W_Running b)
    then have "b \<in> dom ?h" using inv t by (simp add: pool_inv_def Let_def)
    then have "b \<noteq> a" using a by auto
    then show ?thesis using same W_Running by (simp add: running_task_def)
  qed (simp_all add: running_task_def)
  then have r1: "(\<Sum>t<n. running_task (tp_heap p) (?ws t)) = (\<Sum>t<n. running_task ?h (?ws t))" by simp
  have r2: "(\<Sum>t<n. running_task (tp_heap p) (?ws' t)) = (\<Sum>t<n. running_task (tp_heap p) (?ws t))"
  proof (cases w)
    case (Some u)
    then have "u < n" "?ws u = W_Asleep" using w by (auto simp: signal_ok_def)
    then show ?thesis using running_quiet [of u n "tp_heap p" ?ws W_Ready] Some
      by (simp add: wake_one_def running_task_def [of _ W_Asleep] running_task_def [of _ W_Ready] del: fun_upd_apply)
  qed (simp add: wake_one_def)
  have rd: "int (length (a # as)) \<le> (\<Sum>t<n. ready_one (?ws' t))" if ex: "\<exists>t<n. ?ws' t = W_Asleep"
  proof (cases w)
    case None then show ?thesis using w ex by (auto simp: wake_one_def signal_ok_def)
  next
    case (Some u)
    then have u: "u < n" "?ws u = W_Asleep" using w by (auto simp: signal_ok_def)
    then have "int (length as) \<le> (\<Sum>t<n. ready_one (?ws t))" using inv by (auto simp: pool_inv_def Let_def)
    then show ?thesis using ready_upd [OF u(1), of ?ws W_Ready] u Some by (simp add: wake_one_def ready_one_def)
  qed
  have wk: "?ws' t = ?ws t \<or> ?ws' t = W_Ready" for t by (auto simp: wake_one_def split: option.splits)
  have "mset (ps_pushed s) = mset (map (fun_of ?h) as) + (\<Sum>t<n. running_task ?h (?ws t)) + mset (ps_done s)"
    using inv by (simp add: pool_inv_def Let_def)
  then have "mset (ps_pushed s @ [f]) = mset (map (fun_of (tp_heap p)) (a # as)) + (\<Sum>t<n. running_task (tp_heap p) (?ws' t)) + mset (ps_done s)"
    using r1 r2 p'(3) ms by (simp del: map_eq_conv)
  moreover have "\<forall>t<n. \<forall>b. ?ws' t = W_Running b \<longrightarrow> b \<in> dom (tp_heap p)"
    using inv wk p'(4) unfolding pool_inv_def Let_def by (metis insertCI wstate.distinct(3))
  moreover have "tp_stop p \<longrightarrow> (\<forall>t<n. ?ws' t \<noteq> W_Asleep)" "\<not> tp_stop p \<longrightarrow> (\<forall>t<n. ?ws' t \<noteq> W_Exited)"
    using inv wk p'(2) unfolding pool_inv_def Let_def by (metis wstate.distinct)+
  ultimately show ?thesis
    using p'(1) rd unfolding pool_inv_def Let_def by (simp del: map_eq_conv)
qed

lemma pool_inv_take:
  assumes inv: "pool_inv n s as" and t: "t < n" "ps_workers s t = W_Ready" and q: "tp_queue_size (ps_pool s) \<noteq> 0"
    and r: "worker_take (ps_pool s) = Inr (Some a, p)"
  shows "\<exists>bs. as = a # bs \<and> pool_inv n (s\<lparr>ps_pool := p, ps_workers := (ps_workers s)(t := W_Running a)\<rparr>) bs"
proof -
  let ?h = "tp_heap (ps_pool s)" and ?ws = "ps_workers s"
  have rep: "tp_rep (ps_pool s) as" using inv by (simp add: pool_inv_def Let_def)
  then have "as \<noteq> []" using q by (auto simp: tp_rep_def)
  then obtain b bs where as: "as = b # bs" by (cases as) auto
  with take_rep [OF rep [unfolded as]] r have p: "b = a" "tp_rep p bs" "tp_heap p = ?h" "tp_stop p = tp_stop (ps_pool s)"
    by auto
  have "a \<in> dom ?h" using rep as p(1) by (auto simp: tp_rep_def)
  moreover have "running_task ?h (?ws t) = {#}" using t by (simp add: running_task_def)
  then have "(\<Sum>u<n. running_task ?h ((?ws(t := W_Running a)) u)) = (\<Sum>u<n. running_task ?h (?ws u)) + {#fun_of ?h a#}"
    using running_upd [OF t(1), of ?h ?ws "W_Running a"] by (simp add: running_task_def [of _ "W_Running a"] del: fun_upd_apply)
  moreover have "int (length bs) \<le> (\<Sum>u<n. ready_one ((?ws(t := W_Running a)) u))"
    if "\<exists>u<n. (?ws(t := W_Running a)) u = W_Asleep"
  proof -
    have "\<exists>u<n. ?ws u = W_Asleep" using that by (auto split: if_splits)
    then have "int (length as) \<le> (\<Sum>u<n. ready_one (?ws u))" using inv by (simp add: pool_inv_def Let_def)
    then show ?thesis using ready_upd [OF t(1), of ?ws "W_Running a"] t as by (simp add: ready_one_def [of W_Ready] ready_one_def [of "W_Running a"] del: fun_upd_apply)
  qed
  ultimately have "pool_inv n (s\<lparr>ps_pool := p, ps_workers := ?ws(t := W_Running a)\<rparr>) bs"
    using inv p as unfolding pool_inv_def Let_def
    by (simp add: ac_simps del: fun_upd_apply) (auto simp: fun_upd_apply)
  then show ?thesis using as p(1) by blast
qed

lemma pool_inv_finish:
  assumes inv: "pool_inv n s as" and t: "t < n" "ps_workers s t = W_Running a"
  shows "pool_inv n (s\<lparr>ps_workers := (ps_workers s)(t := W_Ready), ps_done := ps_done s @ [fun_of (tp_heap (ps_pool s)) a]\<rparr>) as"
proof -
  let ?h = "tp_heap (ps_pool s)" and ?ws = "ps_workers s"
  have "(\<Sum>u<n. running_task ?h ((?ws(t := W_Ready)) u)) + {#fun_of ?h a#} = (\<Sum>u<n. running_task ?h (?ws u))"
    using running_upd [OF t(1), of ?h ?ws W_Ready] t
    by (simp add: running_task_def [of _ "W_Running a"] running_task_def [of _ W_Ready] del: fun_upd_apply)
  moreover have "(\<Sum>u<n. ready_one ((?ws(t := W_Ready)) u)) = (\<Sum>u<n. ready_one (?ws u)) + 1"
    using ready_upd [OF t(1), of ?ws W_Ready] t by (simp add: ready_one_def [of W_Ready] ready_one_def [of "W_Running a"] del: fun_upd_apply)
  moreover have "(\<exists>u<n. (?ws(t := W_Ready)) u = W_Asleep) \<longrightarrow> (\<exists>u<n. ?ws u = W_Asleep)" by (auto split: if_splits)
  ultimately show ?thesis
    using inv unfolding pool_inv_def Let_def
    by (simp add: ac_simps del: fun_upd_apply) (auto simp: fun_upd_apply)
qed

lemma pool_inv_stop:
  assumes inv: "pool_inv n s as"
  shows "pool_inv n (s\<lparr>ps_pool := (ps_pool s)\<lparr>tp_stop := True\<rparr>, ps_workers := wake_all (ps_workers s)\<rparr>) as"
proof -
  have "running_task h (wake_all (ps_workers s) t) = running_task h (ps_workers s t)" for h :: "addr \<rightharpoonup> 'a task" and t
    by (simp add: wake_all_def running_task_def)
  then show ?thesis using inv
    by (auto simp: pool_inv_def Let_def tp_rep_def wake_all_def split: if_splits)
qed

lemma pool_step_inv: "pool_step n s s' \<Longrightarrow> pool_inv n s as \<Longrightarrow> \<exists>bs. pool_inv n s' bs"
proof (induction rule: pool_step.induct)
  case (pool_push s a f p w) then show ?case using pool_inv_push by metis
next
  case (pool_take t s a p) then show ?case using pool_inv_take by blast
next
  case (pool_finish t s a) then show ?case using pool_inv_finish by blast
next
  case (pool_stop s) then show ?case using pool_inv_stop by blast
next
  case (pool_exit t s)
  have "pool_inv n (s\<lparr>ps_workers := (ps_workers s)(t := W_Exited)\<rparr>) as"
    using pool_exit by (intro pool_inv_worker) (auto simp: running_task_def pool_inv_def Let_def split: if_splits)
  then show ?case using pool_exit by blast
next
  case (pool_sleep t s)
  then have "as = []" by (auto simp: pool_inv_def Let_def tp_rep_def)
  then have "pool_inv n (s\<lparr>ps_workers := (ps_workers s)(t := W_Asleep)\<rparr>) as"
    using pool_sleep by (intro pool_inv_worker) (auto simp: running_task_def sum_ready_nonneg)
  then show ?case using pool_sleep by blast
next
  case (pool_spurious t s)
  have "(\<Sum>u<n. ready_one (((ps_workers s)(t := W_Ready)) u)) = (\<Sum>u<n. ready_one (ps_workers s u)) + 1"
    using ready_upd [OF \<open>t < n\<close>, of "ps_workers s" W_Ready] pool_spurious by (simp add: ready_one_def [of W_Ready] ready_one_def [of W_Asleep] del: fun_upd_apply)
  then have "pool_inv n (s\<lparr>ps_workers := (ps_workers s)(t := W_Ready)\<rparr>) as"
    using pool_spurious by (intro pool_inv_worker) (auto simp: running_task_def pool_inv_def Let_def split: if_splits)
  then show ?case using pool_spurious by blast
qed

lemma pool_reach_inv: "reach (pool_step n) (poolsys_init g) s \<Longrightarrow> \<exists>as. pool_inv n s as"
  by (erule reach_invariant) (use pool_inv_init pool_step_inv in blast)+

lemma create_workers_fault:
  "create_workers ids i k cells = Inl Out_Of_Bounds \<longleftrightarrow> length cells < i + k \<and> k \<noteq> 0"
  "create_workers ids i k cells = Inr cs \<Longrightarrow> length cs = length cells"
  by (induction k arbitrary: i cells) (auto split: if_splits)

lemma create_workers_only: "create_workers ids i k cells = Inl e \<Longrightarrow> e = Out_Of_Bounds"
  by (induction k arbitrary: i cells) (auto split: if_splits)

section \<open>Properties\<close>

text \<open>C10: No task is lost or run twice. In every reachable state, for any number of workers and any
  interleaving, the stop request included, the tasks pushed are, as a multiset, those still in the queue
  (the chain \<open>as\<close> behind \<open>last_task\<close>), those being run and those finished; so when the queue is empty and
  no worker is running a task, the finished tasks are exactly the pushed ones, each run once. (Tasks that
  are queued when the pool is told to stop stay in the queue.)\<close>

theorem threadpool_exactly_once:
  assumes "reach (pool_step n) (poolsys_init g) s"
  shows "\<exists>as. tp_rep (ps_pool s) as \<and>
     mset (ps_pushed s) = mset (map (fun_of (tp_heap (ps_pool s))) as)
       + (\<Sum>t<n. running_task (tp_heap (ps_pool s)) (ps_workers s t)) + mset (ps_done s) \<and>
     (tp_queue_size (ps_pool s) = 0 \<and> (\<forall>t<n. ps_workers s t \<in> {W_Ready, W_Asleep, W_Exited}) \<longrightarrow>
       mset (ps_done s) = mset (ps_pushed s))"
proof -
  obtain as where inv: "pool_inv n s as" using pool_reach_inv [OF assms] by blast
  then have all: "tp_rep (ps_pool s) as"
    "mset (ps_pushed s) = mset (map (fun_of (tp_heap (ps_pool s))) as)
       + (\<Sum>t<n. running_task (tp_heap (ps_pool s)) (ps_workers s t)) + mset (ps_done s)" by (simp_all add: pool_inv_def Let_def)
  have "mset (ps_done s) = mset (ps_pushed s)"
    if "tp_queue_size (ps_pool s) = 0" "\<forall>t<n. ps_workers s t \<in> {W_Ready, W_Asleep, W_Exited}"
  proof -
    have "as = []" using all(1) that(1) by (simp add: tp_rep_def)
    moreover have "(\<Sum>t<n. running_task (tp_heap (ps_pool s)) (ps_workers s t)) = {#}"
      using that(2) by (auto simp: running_task_def intro!: sum.neutral)
    ultimately show ?thesis using all(2) by simp
  qed
  with all show ?thesis by blast
qed

lemma pool_one_task_run:
  "\<exists>s. reach (pool_step 1) (poolsys_init 0) s \<and> tp_queue_size (ps_pool s) = 0 \<and> ps_workers s 0 = W_Ready \<and> ps_pushed s = [''job'']"
proof -
  define p0 where "p0 = (ps_pool (poolsys_init 0) :: string threadpool)"
  obtain p1 where p1: "threadpool_push_task (Some 7) ''job'' p0 = Inr p1" "tp_rep p1 [7]" "\<not> tp_stop p1" "tp_queue_size p1 = 1"
    using push_rep [of p0 "[]" 7 "''job''"] by (auto simp: p0_def poolsys_init_def tp_rep_def)
  obtain p2 where p2: "worker_take p1 = Inr (Some 7, p2)" "tp_queue_size p2 = 0" using take_rep [OF p1(2)] p1(4) by auto
  define s1 where "s1 = (poolsys_init 0)\<lparr>ps_pool := p1, ps_workers := wake_one None (ps_workers (poolsys_init 0)), ps_pushed := [''job'']\<rparr>"
  define s2 where "s2 = s1\<lparr>ps_pool := p2, ps_workers := (ps_workers s1)(0 := W_Running 7)\<rparr>"
  define s3 where "s3 = s2\<lparr>ps_workers := (ps_workers s2)(0 := W_Ready), ps_done := ps_done s2 @ [fun_of (tp_heap (ps_pool s2)) 7]\<rparr>"
  have "pool_step 1 (poolsys_init 0) s1"
    using pool_push [of "poolsys_init 0" 7 "''job''" p1 1 None] p1(1) by (simp add: s1_def p0_def signal_ok_def) (simp add: poolsys_init_def)
  then have r1: "reach (pool_step 1) (poolsys_init 0) s1" by (rule reach_single)
  have "pool_step 1 s1 s2"
    using pool_take [of 0 1 s1 7 p2] p1 p2 by (simp add: s2_def s1_def wake_one_def poolsys_init_def)
  then have r2: "reach (pool_step 1) (poolsys_init 0) s2" by (rule reach_step [OF r1])
  have "pool_step 1 s2 s3" using pool_finish [of 0 1 s2 7] by (simp add: s3_def s2_def)
  then have "reach (pool_step 1) (poolsys_init 0) s3" by (rule reach_step [OF r2])
  then show ?thesis using p2(2) by (intro exI [of _ s3]) (simp add: s3_def s2_def s1_def)
qed

theorem threadpool_exactly_once_witness:
  "\<exists>s. reach (pool_step 1) (poolsys_init 0) s \<and> mset (ps_done s) = {#''job''#}"
proof -
  obtain s where s: "reach (pool_step 1) (poolsys_init 0) s" "tp_queue_size (ps_pool s) = 0" "ps_workers s 0 = W_Ready" "ps_pushed s = [''job'']"
    using pool_one_task_run by blast
  then have "mset (ps_done s) = mset (ps_pushed s)" using threadpool_exactly_once [OF s(1)] by auto
  with s show ?thesis by auto
qed

text \<open>C25: No wakeup is lost: in every reachable state of the pool, if a worker sleeps then at least as many
  workers are awake and about to look at the queue as there are tasks in it; in particular the workers
  are never all asleep while a task waits, and none of them sleeps once the pool is told to stop.\<close>

theorem threadpool_no_lost_wakeup:
  assumes "reach (pool_step n) (poolsys_init g) s" "t < n" "ps_workers s t = W_Asleep"
  shows "tp_queue_size (ps_pool s) \<le> (\<Sum>u<n. ready_one (ps_workers s u)) \<and> \<not> tp_stop (ps_pool s)"
proof -
  obtain as where "pool_inv n s as" using pool_reach_inv [OF assms(1)] by blast
  then show ?thesis using assms(2,3) by (auto simp: pool_inv_def Let_def tp_rep_def)
qed

theorem threadpool_no_lost_wakeup_witness:
  "\<exists>s :: nat poolsys. reach (pool_step 1) (poolsys_init 0) s \<and> ps_workers s 0 = W_Asleep \<and> tp_queue_size (ps_pool s) \<le> 0"
proof -
  let ?s = "(poolsys_init 0 :: nat poolsys)\<lparr>ps_workers := (ps_workers (poolsys_init 0 :: nat poolsys))(0 := W_Asleep)\<rparr>"
  have "pool_step 1 (poolsys_init 0) ?s" by (rule pool_sleep) (simp_all add: poolsys_init_def)
  then have r: "reach (pool_step 1) (poolsys_init 0) ?s" by (rule reach_single)
  show ?thesis using threadpool_no_lost_wakeup [OF r, of 0] r by (intro exI [of _ ?s]) (simp add: ready_one_def)
qed

text \<open>\<open>init_threadpool\<close> writes outside the array of thread identifiers it has just allocated exactly
  when it is asked for fewer than \<open>MAX_THREADS\<close> threads: the loop ignores its argument. The proxy's
  \<open>main\<close> asks for 5 upload threads.\<close>

theorem init_threadpool_overflow:
  "init_threadpool True True ids g cells threads = Inl Out_Of_Bounds \<longleftrightarrow> threads < MAX_THREADS"
  unfolding init_threadpool_def
  by (auto simp: ebind_Inl_iff create_workers_fault(1) MAX_THREADS_def)

text \<open>Pushing tasks and taking them back is last in, first out, and \<open>destroy_threadpool\<close> returns and frees
  exactly the tasks that were never started: those that were run stay allocated.\<close>

theorem threadpool_lifo:
  assumes "tp_rep p as" "tp_heap p a = None"
  shows "\<exists>p' p''. threadpool_push_task (Some a) f p = Inr p' \<and> worker_take p' = Inr (Some a, p'') \<and> tp_rep p'' as \<and>
    fun_of (tp_heap p'') a = f \<and> destroy_threadpool p'' = Some (Inr (tp_heap p'' |` (- set as))) \<and> a \<in> dom (tp_heap p'' |` (- set as))"
proof -
  obtain p' where p': "threadpool_push_task (Some a) f p = Inr p'" "tp_rep p' (a # as)" "fun_of (tp_heap p') a = f"
    and dm: "dom (tp_heap p') = insert a (dom (tp_heap p))"
    using push_rep [OF assms] by blast
  obtain p'' where p'': "worker_take p' = Inr (Some a, p'')" "tp_rep p'' as" "tp_heap p'' = tp_heap p'"
    using take_rep [OF p'(2)] by blast
  have "a \<notin> set as" using path_distinct [of tk_prev "tp_heap p'" _ "a # as"] p'(2) by (auto simp: tp_rep_def simp del: path.simps)
  then have "a \<in> dom (tp_heap p'' |` (- set as))" using dm p''(3) by auto
  moreover have "destroy_threadpool p'' = Some (Inr (tp_heap p'' |` (- set as)))"
    using p''(2) by (simp add: destroy_threadpool_def tp_rep_def free_chain_path)
  ultimately show ?thesis using p' p'' by auto
qed

theorem threadpool_lifo_witness:
  "\<exists>p' p''. threadpool_push_task (Some 3) ''f'' (ps_pool (poolsys_init 0)) = Inr p' \<and> worker_take p' = Inr (Some 3, p'')"
  using threadpool_lifo [of "ps_pool (poolsys_init 0)" "[]" 3 "''f''"] by (auto simp: tp_rep_def poolsys_init_def)

end
