(* ===== verification/Context.thy ===== *)
theory Context
  imports Hashmap Threadpool
begin

text \<open>
  The frame of the proxy: \<open>init_context\<close> and \<open>destroy_context\<close> of \<open>lab3/src/context/context.c\<close>,
  \<open>handle_client\<close> of \<open>lab3/src/handler/handler.c\<close>, the accept loop of \<open>lab3/src/server/server.c\<close> and
  \<open>main\<close>. The tasks of the handler pool are the descriptors of the clients, those of the upload pool
  pairs of a subscriber and its manager. The results of the socket calls are arguments.
\<close>

section \<open>The context\<close>

record proxy_context =
  cx_stop :: bool
  cx_port :: int
  cx_map :: hashmap
  cx_handler_pool :: "int threadpool"
  cx_upload_pool :: "(addr \<times> addr) threadpool"

text \<open>The answers of the system to one \<open>init_threadpool\<close>.\<close>

record pool_answers =
  pa_pool :: bool
  pa_threads :: bool
  pa_ids :: "nat \<Rightarrow> nat"
  pa_sequence :: int
  pa_cells :: "nat \<Rightarrow> nat"

definition start_pool :: "pool_answers \<Rightarrow> nat \<Rightarrow> fault + ('f threadpool \<times> nat list) option" where
  "start_pool h threads = init_threadpool (pa_pool h) (pa_threads h) (pa_ids h) (pa_sequence h) (pa_cells h) threads"

text \<open>What a failed \<open>init_context\<close> leaves behind: the table, and workers whose pool has been freed.\<close>

record init_leak =
  il_map :: "hashmap option"
  il_workers :: "nat list"

definition init_context ::
  "bool \<Rightarrow> bool \<Rightarrow> pool_answers \<Rightarrow> pool_answers \<Rightarrow> int \<Rightarrow> nat \<Rightarrow> nat \<Rightarrow> fault + proxy_context option \<times> init_leak" where
  "init_context context_malloc map_malloc ha ua port upload_threads handler_threads =
     (if \<not> context_malloc then Inr (None, \<lparr>il_map = None, il_workers = []\<rparr>)
      else case create_table map_malloc of None \<Rightarrow> Inr (None, \<lparr>il_map = None, il_workers = []\<rparr>)
      | Some ht \<Rightarrow> ebind (start_pool ha handler_threads) (\<lambda>handlers. case handlers of
          None \<Rightarrow> Inr (None, \<lparr>il_map = Some ht, il_workers = []\<rparr>)
        | Some (handler_pool, workers) \<Rightarrow> ebind (start_pool ua upload_threads) (\<lambda>uploads. case uploads of
            None \<Rightarrow> Inr (None, \<lparr>il_map = Some ht, il_workers = workers\<rparr>)
          | Some (upload_pool, _) \<Rightarrow> Inr (Some \<lparr>cx_stop = False, cx_port = port, cx_map = ht,
              cx_handler_pool = handler_pool, cx_upload_pool = upload_pool\<rparr>, \<lparr>il_map = None, il_workers = []\<rparr>))))"

text \<open>
  What \<open>destroy_context\<close> leaves allocated: nodes of the table, tasks of the handler pool, and the upload
  pool, which nobody destroys.
\<close>

record leftover =
  lo_nodes :: "addr \<rightharpoonup> hnode"
  lo_tasks :: "addr \<rightharpoonup> int task"
  lo_upload_pool :: "(addr \<times> addr) threadpool option"

definition destroy_context :: "proxy_context option \<Rightarrow> (fault + leftover) option" where
  "destroy_context context = (case context of
     None \<Rightarrow> Some (Inr \<lparr>lo_nodes = Map.empty, lo_tasks = Map.empty, lo_upload_pool = None\<rparr>)
   | Some cx \<Rightarrow> (case destroy_hashmap (Some (cx_map cx)) of None \<Rightarrow> None
       | Some (Inl e) \<Rightarrow> Some (Inl e)
       | Some (Inr nodes) \<Rightarrow> (case destroy_threadpool (cx_handler_pool cx) of None \<Rightarrow> None
         | Some (Inl e) \<Rightarrow> Some (Inl e)
         | Some (Inr tasks) \<Rightarrow> Some (Inr \<lparr>lo_nodes = nodes, lo_tasks = tasks, lo_upload_pool = Some (cx_upload_pool cx)\<rparr>))))"

section \<open>The server\<close>

text \<open>\<open>handle_client\<close> in the \<open>PARALLEL\<close> build: a task for the handler pool.\<close>

definition handle_client :: "bool \<Rightarrow> ptr \<Rightarrow> int \<Rightarrow> proxy_context \<Rightarrow> fault + proxy_context" where
  "handle_client data_malloc task_malloc fd cx = ebind (check data_malloc Null_Deref) (\<lambda>_.
     ebind (threadpool_push_task task_malloc fd (cx_handler_pool cx)) (\<lambda>p. Inr (cx\<lparr>cx_handler_pool := p\<rparr>)))"

text \<open>The tasks that workers take from the pool before the next connection: at most \<open>k\<close>.\<close>

fun pool_takes :: "nat \<Rightarrow> 'f threadpool \<Rightarrow> fault + 'f threadpool" where
  "pool_takes 0 p = Inr p"
| "pool_takes (Suc k) p = (if tp_queue_size p = 0 then Inr p else ebind (worker_take p) (\<lambda>(_, p). pool_takes k p))"

text \<open>The answers of the system in the rounds of the accept loop.\<close>

record server_answers =
  sv_accept :: "nat \<Rightarrow> int"
  sv_data :: "nat \<Rightarrow> bool"
  sv_task :: "int threadpool \<Rightarrow> ptr"
  sv_taken :: "nat \<Rightarrow> nat"

text \<open>One client accepted, and what the workers do before the next round.\<close>

definition serve_client :: "server_answers \<Rightarrow> nat \<Rightarrow> proxy_context \<Rightarrow> fault + proxy_context" where
  "serve_client sv i cx = ebind (handle_client (sv_data sv i) (sv_task sv (cx_handler_pool cx)) (sv_accept sv i) cx) (\<lambda>cx.
     ebind (pool_takes (sv_taken sv i) (cx_handler_pool cx)) (\<lambda>p. Inr (cx\<lparr>cx_handler_pool := p\<rparr>)))"

text \<open>The loop \<open>while (!context->stop)\<close>; \<open>None\<close>: it does not end.\<close>

partial_function (option) server_loop :: "server_answers \<Rightarrow> nat \<Rightarrow> proxy_context \<Rightarrow> (fault + proxy_context) option" where
  "server_loop sv i cx = (if cx_stop cx then Some (Inr cx)
     else if sv_accept sv i < 0 then server_loop sv (Suc i) cx
     else (case serve_client sv i cx of
       Inl e \<Rightarrow> Some (Inl e)
     | Inr cx \<Rightarrow> server_loop sv (Suc i) cx))"

definition start_server :: "int \<Rightarrow> int \<Rightarrow> server_answers \<Rightarrow> proxy_context option \<Rightarrow> (fault + int \<times> proxy_context option) option" where
  "start_server server_socket bound sv context = (if server_socket < 0 then Some (Inr (-1, context))
     else case context of None \<Rightarrow> Some (Inl Null_Deref)
     | Some cx \<Rightarrow> if bound < 0 then Some (Inr (1, context))
         else (case server_loop sv 0 cx of None \<Rightarrow> None
           | Some (Inl e) \<Rightarrow> Some (Inl e)
           | Some (Inr cx) \<Rightarrow> Some (Inr (0, Some cx))))"

definition PORT :: int where "PORT = 8080"
definition UPLOAD_THREADS :: nat where "UPLOAD_THREADS = 5"
definition HANDLER_THREADS :: nat where "HANDLER_THREADS = 10"

text \<open>\<open>main\<close>: its exit status.\<close>

definition main_proxy :: "bool \<Rightarrow> bool \<Rightarrow> pool_answers \<Rightarrow> pool_answers \<Rightarrow> int \<Rightarrow> int \<Rightarrow> server_answers \<Rightarrow> (fault + int) option" where
  "main_proxy context_malloc map_malloc ha ua server_socket bound sv =
     (case init_context context_malloc map_malloc ha ua PORT UPLOAD_THREADS HANDLER_THREADS of
       Inl e \<Rightarrow> Some (Inl e)
     | Inr (context, _) \<Rightarrow> (case start_server server_socket bound sv context of None \<Rightarrow> None
       | Some (Inl e) \<Rightarrow> Some (Inl e)
       | Some (Inr (err, context)) \<Rightarrow> (case destroy_context context of None \<Rightarrow> None
         | Some (Inl e) \<Rightarrow> Some (Inl e)
         | Some (Inr _) \<Rightarrow> Some (Inr (if err \<noteq> 0 then 1 else 0)))))"

section \<open>Lemmas\<close>

text \<open>A pool whose tasks are all allocated: every round of the loop keeps it.\<close>

definition pool_ok :: "'f threadpool \<Rightarrow> bool" where
  "pool_ok p \<longleftrightarrow> (\<exists>as. tp_rep p as) \<and> finite (dom (tp_heap p))"

lemma pool_takes_ok: "pool_ok p \<Longrightarrow> \<exists>p'. pool_takes k p = Inr p' \<and> pool_ok p'"
proof (induction k arbitrary: p)
  case (Suc k)
  then obtain as where as: "tp_rep p as" "finite (dom (tp_heap p))" by (auto simp: pool_ok_def)
  show ?case
  proof (cases as)
    case Nil
    with as Suc.prems show ?thesis by (simp add: tp_rep_def)
  next
    case (Cons a bs)
    then obtain p1 where p1: "worker_take p = Inr (Some a, p1)" "tp_rep p1 bs" "tp_heap p1 = tp_heap p" using take_rep as(1) by blast
    then have "pool_ok p1" using as(2) by (auto simp: pool_ok_def)
    from Suc.IH [OF this] p1(1) Cons as(1) show ?thesis by (simp add: tp_rep_def)
  qed
qed simp

definition allocating :: "server_answers \<Rightarrow> bool" where
  "allocating sv \<longleftrightarrow> (\<forall>i. sv_data sv i) \<and> (\<forall>p. finite (dom (tp_heap p)) \<longrightarrow> (\<exists>a. sv_task sv p = Some a \<and> tp_heap p a = None))"

lemma serve_client_ok:
  assumes "allocating sv" "pool_ok (cx_handler_pool cx)"
  shows "\<exists>p. serve_client sv i cx = Inr (cx\<lparr>cx_handler_pool := p\<rparr>) \<and> pool_ok p"
proof -
  obtain as where as: "tp_rep (cx_handler_pool cx) as" "finite (dom (tp_heap (cx_handler_pool cx)))" using assms(2) by (auto simp: pool_ok_def)
  then obtain a where a: "sv_task sv (cx_handler_pool cx) = Some a" "tp_heap (cx_handler_pool cx) a = None" "sv_data sv i"
    using assms(1) by (auto simp: allocating_def)
  obtain p1 where p1: "threadpool_push_task (Some a) (sv_accept sv i) (cx_handler_pool cx) = Inr p1" "tp_rep p1 (a # as)"
    "dom (tp_heap p1) = insert a (dom (tp_heap (cx_handler_pool cx)))" using push_rep [OF as(1) a(2)] by blast
  then have "pool_ok p1" using as(2) by (auto simp: pool_ok_def)
  from pool_takes_ok [OF this] obtain p2 where p2: "pool_takes (sv_taken sv i) p1 = Inr p2" "pool_ok p2" by blast
  then have "serve_client sv i cx = Inr (cx\<lparr>cx_handler_pool := p2\<rparr>)" using a p1 by (simp add: serve_client_def handle_client_def)
  with p2(2) show ?thesis by blast
qed

lemma server_loop_runs:
  assumes "allocating sv" "\<not> cx_stop cx" "pool_ok (cx_handler_pool cx)"
  shows "server_loop sv i cx = None"
proof (rule ccontr)
  assume "server_loop sv i cx \<noteq> None"
  then obtain res where "server_loop sv i cx = Some res" by blast
  then have "\<not> (allocating sv \<and> \<not> cx_stop cx \<and> pool_ok (cx_handler_pool cx))"
  proof (rule server_loop.raw_induct [where P = "\<lambda>sv i cx r. \<not> (allocating sv \<and> \<not> cx_stop cx \<and> pool_ok (cx_handler_pool cx))", rotated])
    fix f :: "server_answers \<Rightarrow> nat \<Rightarrow> proxy_context \<Rightarrow> (fault + proxy_context) option" and sv i cx r
    assume IH: "\<And>sv i cx r. f sv i cx = Some r \<Longrightarrow> \<not> (allocating sv \<and> \<not> cx_stop cx \<and> pool_ok (cx_handler_pool cx))"
      and body: "(if cx_stop cx then Some (Inr cx) else if sv_accept sv i < 0 then f sv (Suc i) cx
        else (case serve_client sv i cx of Inl e \<Rightarrow> Some (Inl e) | Inr cx \<Rightarrow> f sv (Suc i) cx)) = Some r"
    show "\<not> (allocating sv \<and> \<not> cx_stop cx \<and> pool_ok (cx_handler_pool cx))"
    proof
      assume H: "allocating sv \<and> \<not> cx_stop cx \<and> pool_ok (cx_handler_pool cx)"
      then obtain p where "serve_client sv i cx = Inr (cx\<lparr>cx_handler_pool := p\<rparr>)" "pool_ok p" using serve_client_ok by blast
      with H body IH [of sv "Suc i" cx] IH [of sv "Suc i" "cx\<lparr>cx_handler_pool := p\<rparr>"] show False by (auto split: if_splits)
    qed
  qed
  with assms show False by blast
qed

lemma start_pool_result:
  "pa_pool h \<Longrightarrow> pa_threads h \<Longrightarrow> start_pool h threads = Inl e \<Longrightarrow> threads < MAX_THREADS \<and> e = Out_Of_Bounds"
  "pa_pool h \<Longrightarrow> pa_threads h \<Longrightarrow> threads < MAX_THREADS \<Longrightarrow> start_pool h threads = Inl Out_Of_Bounds"
  "start_pool h threads = Inr (Some (p, ids)) \<Longrightarrow> pool_ok p \<and> \<not> tp_stop p \<and> tp_heap p = Map.empty"
proof -
  show "threads < MAX_THREADS \<and> e = Out_Of_Bounds" if "pa_pool h" "pa_threads h" "start_pool h threads = Inl e"
    using that create_workers_only [of "pa_ids h" 0 MAX_THREADS _ e]
      create_workers_fault(1) [of "pa_ids h" 0 MAX_THREADS "map (pa_cells h) [0..<threads]"]
    by (auto simp: start_pool_def init_threadpool_def ebind_Inl_iff)
  show "start_pool h threads = Inl Out_Of_Bounds" if "pa_pool h" "pa_threads h" "threads < MAX_THREADS"
    using that create_workers_fault(1) [of "pa_ids h" 0 MAX_THREADS "map (pa_cells h) [0..<threads]"]
    by (auto simp: start_pool_def init_threadpool_def ebind_Inl_iff MAX_THREADS_def)
  show "pool_ok p \<and> \<not> tp_stop p \<and> tp_heap p = Map.empty" if "start_pool h threads = Inr (Some (p, ids))"
    using that by (auto simp: start_pool_def init_threadpool_def ebind_Inr_iff pool_ok_def tp_rep_def split: if_splits)
qed

text \<open>
  \<open>destroy_context\<close> frees the table and the tasks that no worker has taken; the tasks that were run and
  the whole upload pool stay.
\<close>

lemma destroy_context_leaks:
  assumes "destroy_hashmap (Some (cx_map cx)) = Some (Inr Map.empty)" "tp_rep (cx_handler_pool cx) as"
  shows "destroy_context (Some cx) = Some (Inr \<lparr>lo_nodes = Map.empty, lo_tasks = tp_heap (cx_handler_pool cx) |` (- set as),
    lo_upload_pool = Some (cx_upload_pool cx)\<rparr>)"
  using assms(1) free_chain_path [of tk_prev "tp_heap (cx_handler_pool cx)" "tp_last_task (cx_handler_pool cx)" as] assms(2) by (simp add: destroy_context_def destroy_threadpool_def tp_rep_def)

text \<open>A failed \<open>init_context\<close>: the table is lost, and with the second pool also the workers of the first, which go on.\<close>

lemma init_context_leaks:
  assumes "create_table mm = Some ht" "start_pool ha handlers = Inr (Some (p :: int threadpool, ids))" "\<not> pa_pool ua"
  shows "init_context True mm ha ua port uploads handlers = Inr (None, \<lparr>il_map = Some ht, il_workers = ids\<rparr>)"
proof -
  have "start_pool ua uploads = (Inr None :: fault + ((addr \<times> addr) threadpool \<times> nat list) option)"
    using assms(3) by (simp add: start_pool_def init_threadpool_def)
  with assms(1,2) show ?thesis by (simp add: init_context_def)
qed

text \<open>With all its memory, the program as it is configured overruns the array of upload threads when it starts.\<close>

lemma main_proxy_overruns:
  assumes "pa_pool ha" "pa_threads ha" "pa_pool ua" "pa_threads ua"
  shows "main_proxy True True ha ua server_socket bound sv = Some (Inl Out_Of_Bounds)"
proof -
  obtain ht where ht: "create_table True = Some ht" by (simp add: create_table_def)
  obtain p :: "int threadpool" and ids where p: "start_pool ha HANDLER_THREADS = Inr (Some (p, ids))"
    using assms(1,2) start_pool_result(1) [of ha HANDLER_THREADS]
    by (cases "start_pool ha HANDLER_THREADS :: fault + (int threadpool \<times> nat list) option")
      (auto simp: start_pool_def init_threadpool_def HANDLER_THREADS_def MAX_THREADS_def ebind_Inr_iff)
  have "start_pool ua UPLOAD_THREADS = (Inl Out_Of_Bounds :: fault + ((addr \<times> addr) threadpool \<times> nat list) option)"
    using assms(3,4) by (intro start_pool_result(2)) (simp_all add: UPLOAD_THREADS_def MAX_THREADS_def)
  with ht p show ?thesis by (simp add: main_proxy_def init_context_def)
qed

section \<open>Properties\<close>

text \<open>The accept loop never ends: no statement of the program sets \<open>stop\<close>. Started with any context that
  \<open>init_context\<close> returns, on a socket that could be created and bound, whatever \<open>accept\<close> returns and
  however many tasks the workers take, and as long as memory can be allocated, \<open>start_server\<close> runs for
  ever without a fault, so that \<open>destroy_context\<close> is reached only when the server could not start.\<close>

theorem start_server_never_returns:
  assumes "init_context cm mm ha ua port uploads handlers = Inr (Some cx, leak)" "allocating sv" "0 \<le> server_socket" "0 \<le> bound"
  shows "start_server server_socket bound sv (Some cx) = None"
proof -
  have "\<not> cx_stop cx \<and> pool_ok (cx_handler_pool cx)" using assms(1)
    by (auto simp: init_context_def ebind_Inr_iff split: if_splits option.splits prod.splits dest!: start_pool_result(3))
  then have "server_loop sv 0 cx = None" using server_loop_runs [OF assms(2)] by blast
  with assms(3,4) show ?thesis by (simp add: start_server_def)
qed

theorem start_server_never_returns_witness:
  "\<exists>cx. (\<exists>leak. init_context True True \<lparr>pa_pool = True, pa_threads = True, pa_ids = id, pa_sequence = 0, pa_cells = id\<rparr>
      \<lparr>pa_pool = True, pa_threads = True, pa_ids = id, pa_sequence = 0, pa_cells = id\<rparr> 8080 10 10 = Inr (Some cx, leak)) \<and>
    start_server 3 0 \<lparr>sv_accept = int, sv_data = (\<lambda>_. True), sv_task = (\<lambda>p. Some (LEAST a. tp_heap p a = None)), sv_taken = id\<rparr> (Some cx) = None"
proof -
  let ?h = "\<lparr>pa_pool = True, pa_threads = True, pa_ids = id, pa_sequence = 0, pa_cells = id\<rparr>"
  let ?sv = "\<lparr>sv_accept = int, sv_data = (\<lambda>_. True), sv_task = (\<lambda>p. Some (LEAST a. tp_heap p a = None)), sv_taken = id\<rparr>"
  have "\<exists>cx leak. init_context True True ?h ?h 8080 10 10 = Inr (Some cx, leak)"
    by (simp add: init_context_def create_table_def start_pool_def init_threadpool_def MAX_THREADS_def numeral_eq_Suc)
  then obtain cx leak where i: "init_context True True ?h ?h 8080 10 10 = Inr (Some cx, leak)" by blast
  have "tp_heap p (LEAST a. tp_heap p a = None) = None" if f: "finite (dom (tp_heap p))" for p :: "int threadpool"
    using f by (rule least_free)
  then have "allocating ?sv" by (simp add: allocating_def)
  from start_server_never_returns [OF i this, of 3 0] i show ?thesis by auto
qed

end
