(* ===== verification/Log.thy ===== *)
theory Log
  imports Cache
begin

text \<open>
  The log of the proxy, \<open>lab3/src/log/log.c\<close>: every function is the text that it prints. A \<open>char *\<close> that
  is printed with \<open>%s\<close> is the option of its string, \<open>None\<close> being \<open>NULL\<close>, which \<open>printf\<close> must not be
  given. The lines can be read back: the part in brackets and the message are told apart, also in the
  lines about the progress of a download.
\<close>

section \<open>The functions\<close>

definition newline :: char where "newline = CHR 0x0A"

text \<open>The format \<open>%d\<close>.\<close>

definition dec_int :: "int \<Rightarrow> string" where
  "dec_int i = (if i < 0 then ''-'' @ dec_string (nat (- i)) else dec_string (nat i))"

definition str_arg :: "string option \<Rightarrow> fault + string" where
  "str_arg s = (case s of None \<Rightarrow> Inl Null_Deref | Some s \<Rightarrow> Inr s)"

definition log_line :: "string \<Rightarrow> string \<Rightarrow> string" where
  "log_line who msg = ''['' @ who @ ''] :: '' @ msg @ [newline]"

definition logis :: "int \<Rightarrow> string \<Rightarrow> string" where
  "logis who msg = log_line (dec_int who) msg"

definition logss :: "string option \<Rightarrow> string \<Rightarrow> fault + string" where
  "logss who msg = ebind (str_arg who) (\<lambda>who. Inr (log_line who msg))"

definition logisi :: "int \<Rightarrow> string \<Rightarrow> int \<Rightarrow> string" where
  "logisi who msg value = log_line (dec_int who) (msg @ '' '' @ dec_int value)"

definition logiss :: "int \<Rightarrow> string \<Rightarrow> string option \<Rightarrow> fault + string" where
  "logiss who msg value = ebind (str_arg value) (\<lambda>v. Inr (log_line (dec_int who) (msg @ '' '' @ v)))"

definition logssi :: "string option \<Rightarrow> string \<Rightarrow> int \<Rightarrow> fault + string" where
  "logssi who msg value = ebind (str_arg who) (\<lambda>who. Inr (log_line who (msg @ '' '' @ dec_int value)))"

definition logsss :: "string option \<Rightarrow> string \<Rightarrow> string option \<Rightarrow> fault + string" where
  "logsss who msg value = ebind (str_arg who) (\<lambda>who. ebind (str_arg value) (\<lambda>v. Inr (log_line who (msg @ '' '' @ v))))"

text \<open>\<open>logurls\<close> prints the host of the URL and frees it; \<open>b\<close> says whether its \<open>malloc\<close> succeeded.\<close>

definition logurls :: "bool \<Rightarrow> string \<Rightarrow> string \<Rightarrow> fault + string" where
  "logurls b url msg = ebind (str_arg (parse_host b url)) (\<lambda>host. Inr (log_line host msg))"

text \<open>What \<open>xferinfo_callback\<close> prints for the percentage it logs, and the log of a whole download.\<close>

definition progress_msg :: "nat \<Rightarrow> string" where
  "progress_msg x = ''Downloaded: '' @ dec_string x @ CHR 0x25 # (if x = 0 then '' ... Started!''
     else if x = 100 then '' ... Completed!'' else '' ...'')"

fun log_all :: "bool \<Rightarrow> string \<Rightarrow> nat list \<Rightarrow> fault + string" where
  "log_all b url [] = Inr []"
| "log_all b url (x # xs) = ebind (logurls b url (progress_msg x)) (\<lambda>l. ebind (log_all b url xs) (\<lambda>ls. Inr (l @ ls)))"

definition progress_log :: "bool \<Rightarrow> string \<Rightarrow> (int \<times> int) list \<Rightarrow> fault + string" where
  "progress_log b url es = log_all b url (xfer_log es 0)"

section \<open>Reading the log\<close>

text \<open>The number that a string of digits stands for.\<close>

fun dec_value :: "nat \<Rightarrow> string \<Rightarrow> nat" where
  "dec_value acc [] = acc"
| "dec_value acc (c # s) = dec_value (10 * acc + (of_char c - 48)) s"

definition int_value :: "string \<Rightarrow> int" where
  "int_value s = (case s of c # s' \<Rightarrow> if c = CHR ''-'' then - int (dec_value 0 s') else int (dec_value 0 s) | [] \<Rightarrow> 0)"

lemma dec_value_append: "dec_value a (s @ t) = dec_value (dec_value a s) t"
  by (induction s arbitrary: a) auto

lemma digit_char: "d < 10 \<Longrightarrow> of_char (digit_char d) = 48 + d"
  by (simp add: digit_char_def)

lemma digit_char_not: "d < 10 \<Longrightarrow> digit_char d \<noteq> CHR ''-'' \<and> digit_char d \<noteq> CHR '']'' \<and> digit_char d \<noteq> newline"
  using digit_char [of d] by (auto simp: newline_def)

lemma dec_string_value: "dec_value 0 (dec_string n) = n"
proof (induction n rule: dec_string.induct)
  case (1 n)
  then show ?case by (subst dec_string.simps) (simp add: dec_value_append digit_char)
qed

lemma dec_string_chars: "c \<in> set (dec_string n) \<Longrightarrow> c \<noteq> CHR ''-'' \<and> c \<noteq> CHR '']'' \<and> c \<noteq> newline"
proof (induction n rule: dec_string.induct)
  case (1 n)
  show ?case
  proof (cases "n < 10")
    case True
    with 1(2) have "c = digit_char n" by (subst (asm) dec_string.simps) simp
    with True show ?thesis using digit_char_not by simp
  next
    case False
    with 1(2) have "c \<in> set (dec_string (n div 10)) \<or> c = digit_char (n mod 10)" by (subst (asm) dec_string.simps) auto
    with 1(1) [OF False] show ?thesis using digit_char_not [of "n mod 10"] by auto
  qed
qed

lemma dec_string_nonempty: "dec_string n \<noteq> []"
  by (subst dec_string.simps) simp

lemma dec_int_value: "int_value (dec_int i) = i"
proof (cases "i < 0")
  case True
  then show ?thesis by (simp add: dec_int_def int_value_def dec_string_value)
next
  case False
  obtain c s where c: "dec_string (nat i) = c # s" using dec_string_nonempty by (cases "dec_string (nat i)") auto
  then have "c \<noteq> CHR ''-''" using dec_string_chars [of c "nat i"] by simp
  with False c show ?thesis using dec_string_value [of "nat i"] by (simp add: dec_int_def int_value_def)
qed

lemma dec_int_chars: "CHR '']'' \<notin> set (dec_int i)" "newline \<notin> set (dec_int i)"
  using dec_string_chars by (auto simp: dec_int_def newline_def split: if_splits)

text \<open>One line of the log, split at the first \<open>]\<close>, and the lines of a log.\<close>

definition log_split :: "string \<Rightarrow> string \<times> string" where
  "log_split l = (let who = takeWhile (\<lambda>c. c \<noteq> CHR '']'') (drop 1 l) in (who, drop (length who + 6) (butlast l)))"

fun log_lines :: "string \<Rightarrow> string list" where
  "log_lines [] = []"
| "log_lines (c # s) = (case log_lines s of [] \<Rightarrow> [[c]] | l # ls \<Rightarrow> if c = newline then [c] # l # ls else (c # l) # ls)"

lemma log_split_line: "CHR '']'' \<notin> set who \<Longrightarrow> log_split (log_line who msg) = (who, msg)"
proof -
  assume a: "CHR '']'' \<notin> set who"
  have "takeWhile (\<lambda>c. c \<noteq> CHR '']'') (who @ ''] :: '' @ msg @ [newline]) = who" using a by (subst takeWhile_append2) auto
  then show ?thesis by (simp add: log_split_def log_line_def butlast_append numeral_eq_Suc)
qed

lemma log_lines_line: "newline \<notin> set who \<Longrightarrow> newline \<notin> set msg \<Longrightarrow> log_lines (log_line who msg @ s) = log_line who msg # log_lines s"
proof -
  have one: "newline \<notin> set l \<Longrightarrow> log_lines (l @ newline # s) = (l @ [newline]) # log_lines s" for l
    by (induction l) (auto split: list.splits)
  assume "newline \<notin> set who" "newline \<notin> set msg"
  then have "newline \<notin> set (''['' @ who @ ''] :: '' @ msg)" by (simp add: newline_def)
  from one [OF this] show ?thesis by (simp add: log_line_def)
qed

text \<open>The number in brackets and the message of \<open>logis\<close> can be read back.\<close>

lemma logis_split: "map_prod int_value (\<lambda>m. m) (log_split (logis who msg)) = (who, msg)"
  by (simp add: logis_def log_split_line dec_int_chars dec_int_value)

text \<open>All the functions print exactly one line when their arguments hold no line feed, and the ones that
  are given strings fault on \<open>NULL\<close> only.\<close>

lemma logis_one_line: "newline \<notin> set msg \<Longrightarrow> log_lines (logis who msg @ s) = logis who msg # log_lines s"
  by (simp add: logis_def log_lines_line dec_int_chars)

lemma logurls_fault: "logurls b url msg = Inl e \<longleftrightarrow> \<not> b \<and> e = Null_Deref"
  by (auto simp: logurls_def str_arg_def parse_host_def Let_def)

lemma logurls_host: "parse_host True url = Some host \<Longrightarrow> logurls True url msg = Inr (log_line host msg)"
  by (simp add: logurls_def str_arg_def)

lemma progress_msg_chars: "newline \<notin> set (progress_msg x)"
  using dec_string_chars [of newline x] by (auto simp: progress_msg_def newline_def)

text \<open>
  The log of a download: one line for each percentage that \<open>xferinfo_callback\<close> logs, in their order,
  each of them with the host of the URL in brackets.
\<close>

lemma log_all_lines:
  assumes "parse_host True url = Some host" and "newline \<notin> set host" and "CHR '']'' \<notin> set host"
  shows "\<exists>out. log_all True url xs = Inr out \<and> map log_split (log_lines out) = map (\<lambda>x. (host, progress_msg x)) xs"
proof (induction xs)
  case (Cons x xs)
  then obtain out where "log_all True url xs = Inr out" "map log_split (log_lines out) = map (\<lambda>x. (host, progress_msg x)) xs" by blast
  then show ?case
    using logurls_host [OF assms(1)] log_lines_line [OF assms(2) progress_msg_chars] log_split_line [OF assms(3)] by simp
qed simp

lemma progress_log_lines:
  assumes "CHR '':'' \<notin> set scheme" "CHR ''/'' \<notin> set host" "rest = [] \<or> hd rest = CHR ''/''"
    and "newline \<notin> set host" and "CHR '']'' \<notin> set host"
  shows "\<exists>out. progress_log True (scheme @ ''://'' @ host @ rest) es = Inr out \<and>
     map log_split (log_lines out) = map (\<lambda>x. (host, progress_msg x)) (xfer_log es 0)"
proof -
  have "takeWhile (\<lambda>c. c \<noteq> CHR ''/'') (host @ rest) = host"
    using assms(2,3) by (cases rest) (auto simp: takeWhile_append takeWhile_eq_all_conv)
  then have "parse_host True (scheme @ ''://'' @ host @ rest) = Some host"
    using strstr_scheme [OF assms(1), of "host @ rest"] by (simp add: parse_host_takeWhile)
  from log_all_lines [OF this assms(4,5)] show ?thesis unfolding progress_log_def .
qed

end
