(* ===== verification/Uthread.thy ===== *)
theory Uthread
  imports Prelude
begin

text \<open>
  The cooperative user-level threads of \<open>lab1/src/7/uthreadpool.c\<close> and the test of \<open>main.c\<close>. The
  \<open>uthread_t\<close> that a list node points to is allocated, freed and reached together with the node and
  is kept inside it. A saved context is what the thread has left to do: a list of commands, output
  (the test's \<open>cnt++\<close>) or a call of \<open>usched_yield\<close>; \<open>swapcontext\<close> leaves the rest of the list in
  the node and goes on with another node's, \<open>setcontext(&initial_context)\<close> ends the run.
  \<open>init_scheduler\<close> does not set \<open>head_uthread\<close>: what the block held is an argument.
\<close>

section \<open>Data and operations\<close>

datatype uthread_status = IDLE | READY | RUNNING | TERMINATED

datatype 'o ucmd = Out 'o | Yield

record 'o uthread_node =
  un_next :: ptr
  un_prev :: ptr
  un_status :: uthread_status
  un_id :: int
  un_todo :: "'o ucmd list"

record 'o uthread_scheduler =
  sc_is_finished :: bool
  sc_id_generator :: int
  sc_size :: int
  sc_head :: ptr
  sc_active :: ptr
  sc_heap :: "addr \<rightharpoonup> 'o uthread_node"

definition init_scheduler :: "bool \<Rightarrow> ptr \<Rightarrow> 'o uthread_scheduler option" where
  "init_scheduler malloc_succeeds garbage_head = (if malloc_succeeds
     then Some \<lparr>sc_is_finished = False, sc_id_generator = 0, sc_size = 0, sc_head = garbage_head, sc_active = None, sc_heap = Map.empty\<rparr>
     else None)"

text \<open>\<open>while (node != NULL && node->uthread->status != want) node = node->next;\<close>\<close>

partial_function (option) find_status ::
  "(addr \<rightharpoonup> 'o uthread_node) \<Rightarrow> uthread_status \<Rightarrow> ptr \<Rightarrow> (fault + ptr) option" where
  "find_status h want node = (case node of None \<Rightarrow> Some (Inr None)
     | Some a \<Rightarrow> (case h a of None \<Rightarrow> Some (Inl (Bad_Addr a))
         | Some n \<Rightarrow> if un_status n \<noteq> want then find_status h want (un_next n) else Some (Inr node)))"

text \<open>\<open>__create_uthread\<close>: its result and the scheduler. The three allocations may fail.\<close>

definition create_uthread :: "bool \<Rightarrow> bool \<Rightarrow> ptr \<Rightarrow> 'o uthread_scheduler \<Rightarrow> fault + int \<times> 'o uthread_scheduler" where
  "create_uthread uthread_malloc stack_mmap node s =
     (if \<not> uthread_malloc then Inr (-1, s)
      else let id = sc_id_generator s; s = s\<lparr>sc_id_generator := id + 1\<rparr> in
      if \<not> stack_mmap then Inr (-1, s)
      else case node of None \<Rightarrow> Inr (-1, s)
      | Some a \<Rightarrow>
        (let new = \<lparr>un_next = sc_head s, un_prev = None, un_status = IDLE, un_id = id, un_todo = []\<rparr> in
         ebind (if sc_head s \<noteq> None then store (sc_heap s) (sc_head s) (un_prev_update (\<lambda>_. Some a)) else Inr (sc_heap s)) (\<lambda>h.
         Inr (0, s\<lparr>sc_head := Some a, sc_size := sc_size s + 1, sc_heap := h(a \<mapsto> new)\<rparr>))))"

definition set_ready :: "bool \<Rightarrow> 'o ucmd list \<Rightarrow> ptr \<Rightarrow> 'o uthread_scheduler \<Rightarrow> fault + int \<times> 'o uthread_scheduler" where
  "set_ready getcontext_ok func node s =
     ebind (store (sc_heap s) node (\<lambda>n. n\<lparr>un_status := READY, un_todo := if getcontext_ok then func else un_todo n\<rparr>)) (\<lambda>h.
     Inr (if getcontext_ok then 0 else -1, s\<lparr>sc_heap := h\<rparr>))"

definition add_to_scheduler ::
  "bool \<Rightarrow> bool \<Rightarrow> ptr \<Rightarrow> bool \<Rightarrow> 'o ucmd list \<Rightarrow> 'o uthread_scheduler \<Rightarrow> (fault + int \<times> 'o uthread_scheduler) option"
where
  "add_to_scheduler uthread_malloc stack_mmap node_malloc getcontext_ok func s =
     (case find_status (sc_heap s) IDLE (sc_head s) of None \<Rightarrow> None
      | Some (Inl e) \<Rightarrow> Some (Inl e)
      | Some (Inr (Some a)) \<Rightarrow> Some (set_ready getcontext_ok func (Some a) s)
      | Some (Inr None) \<Rightarrow> Some (ebind (create_uthread uthread_malloc stack_mmap node_malloc s) (\<lambda>(r, s).
          if r \<noteq> 0 then Inr (-1, s) else set_ready getcontext_ok func (sc_head s) s)))"

text \<open>\<open>usched_yield\<close>: whether another thread goes on, and the scheduler.\<close>

definition usched_yield :: "'o uthread_scheduler \<Rightarrow> (fault + bool \<times> 'o uthread_scheduler) option" where
  "usched_yield s = (case find_status (sc_heap s) READY (sc_head s) of None \<Rightarrow> None
     | Some (Inl e) \<Rightarrow> Some (Inl e)
     | Some (Inr None) \<Rightarrow> Some (Inr (False, s\<lparr>sc_is_finished := True\<rparr>))
     | Some (Inr node) \<Rightarrow> Some (ebind (store (sc_heap s) (sc_active s)
           (\<lambda>n. n\<lparr>un_status := if un_status n = TERMINATED then IDLE else READY\<rparr>)) (\<lambda>h.
         ebind (store h node (un_status_update (\<lambda>_. RUNNING))) (\<lambda>h.
         Inr (True, s\<lparr>sc_active := node, sc_heap := h\<rparr>)))))"

text \<open>The active thread runs until the scheduler jumps back; \<open>out\<close> is what the threads have output.\<close>

partial_function (option) run_uthreads ::
  "'o uthread_scheduler \<Rightarrow> 'o list \<Rightarrow> (fault + 'o uthread_scheduler \<times> 'o list) option" where
  "run_uthreads s out = (case load (sc_heap s) (sc_active s) of Inl e \<Rightarrow> Some (Inl e)
     | Inr n \<Rightarrow> (case un_todo n of
         Out x # p \<Rightarrow> run_uthreads (s\<lparr>sc_heap := (sc_heap s)(the (sc_active s) \<mapsto> n\<lparr>un_todo := p\<rparr>)\<rparr>) (out @ [x])
       | Yield # p \<Rightarrow> (case usched_yield (s\<lparr>sc_heap := (sc_heap s)(the (sc_active s) \<mapsto> n\<lparr>un_todo := p\<rparr>)\<rparr>) of
             None \<Rightarrow> None | Some (Inl e) \<Rightarrow> Some (Inl e)
           | Some (Inr (go, s')) \<Rightarrow> if go then run_uthreads s' out else Some (Inr (s', out)))
       | [] \<Rightarrow> (case usched_yield (s\<lparr>sc_heap := (sc_heap s)(the (sc_active s) \<mapsto> n\<lparr>un_status := TERMINATED\<rparr>)\<rparr>) of
             None \<Rightarrow> None | Some (Inl e) \<Rightarrow> Some (Inl e)
           | Some (Inr (go, s')) \<Rightarrow> if go then run_uthreads s' out else Some (Inr (s', out)))))"

definition run_scheduler :: "'o uthread_scheduler \<Rightarrow> (fault + 'o uthread_scheduler \<times> 'o list) option" where
  "run_scheduler s = (if sc_is_finished s then Some (Inr (s, []))
     else case find_status (sc_heap s) READY (sc_head s) of None \<Rightarrow> None
     | Some (Inl e) \<Rightarrow> Some (Inl e)
     | Some (Inr None) \<Rightarrow> Some (Inr (s, []))
     | Some (Inr node) \<Rightarrow> (case store (sc_heap s) node (un_status_update (\<lambda>_. RUNNING)) of Inl e \<Rightarrow> Some (Inl e)
         | Inr h \<Rightarrow> run_uthreads (s\<lparr>sc_active := node, sc_heap := h\<rparr>) []))"

definition reset_scheduler :: "'o uthread_scheduler \<Rightarrow> 'o uthread_scheduler" where
  "reset_scheduler s = s\<lparr>sc_is_finished := False\<rparr>"

definition destroy_scheduler :: "'o uthread_scheduler \<Rightarrow> (fault + (addr \<rightharpoonup> 'o uthread_node)) option" where
  "destroy_scheduler s = free_chain un_next (sc_heap s) (sc_head s)"

section \<open>The list of threads\<close>

definition sc_rep :: "'o uthread_scheduler \<Rightarrow> addr list \<Rightarrow> bool" where
  "sc_rep s as \<longleftrightarrow> path un_next (sc_heap s) (sc_head s) as None \<and> dom (sc_heap s) = set as \<and> sc_size s = int (length as)"

definition status_of :: "(addr \<rightharpoonup> 'o uthread_node) \<Rightarrow> addr \<Rightarrow> uthread_status" where
  "status_of h a = un_status (the (h a))"

definition todo_of :: "(addr \<rightharpoonup> 'o uthread_node) \<Rightarrow> addr \<Rightarrow> 'o ucmd list" where
  "todo_of h a = un_todo (the (h a))"

lemma find_status_skip:
  "path un_next h p xs q \<Longrightarrow> \<forall>a\<in>set xs. status_of h a \<noteq> want \<Longrightarrow> find_status h want p = find_status h want q"
proof (induction xs arbitrary: p)
  case (Cons a xs)
  then obtain n where n: "p = Some a" "h a = Some n" "path un_next h (un_next n) xs q" by auto
  then have "find_status h want p = find_status h want (un_next n)"
    using Cons.prems(2) by (subst find_status.simps) (simp add: status_of_def)
  then show ?case using Cons n by simp
qed simp

lemma find_status_none:
  "path un_next h p as None \<Longrightarrow> \<forall>a\<in>set as. status_of h a \<noteq> want \<Longrightarrow> find_status h want p = Some (Inr None)"
  using find_status_skip [of h p as None want] by (simp add: find_status.simps)

lemma find_status_first:
  assumes "path un_next h p (xs @ a # ys) None" "\<forall>x\<in>set xs. status_of h x \<noteq> want" "status_of h a = want"
  shows "find_status h want p = Some (Inr (Some a))"
proof -
  obtain n where n: "path un_next h p xs (Some a)" "h a = Some n" using assms(1) by (auto simp: path_append)
  have "find_status h want (Some a) = Some (Inr (Some a))"
    using assms(3) n(2) by (subst find_status.simps) (simp add: status_of_def)
  then show ?thesis using find_status_skip [OF n(1) assms(2)] by simp
qed

text \<open>The threads \<open>as\<close> of a running scheduler, with the active one, their statuses and their programs.\<close>

definition running :: "'o uthread_scheduler \<Rightarrow> addr list \<Rightarrow> addr \<Rightarrow> (addr \<Rightarrow> uthread_status) \<Rightarrow> (addr \<Rightarrow> 'o ucmd list) \<Rightarrow> bool" where
  "running s as act st td \<longleftrightarrow> sc_rep s as \<and> sc_active s = Some act \<and> act \<in> set as \<and>
     (\<forall>a\<in>set as. status_of (sc_heap s) a = st a \<and> todo_of (sc_heap s) a = td a)"

lemma sc_rep_upd:
  assumes "sc_rep s as" "sc_heap s a = Some n" "un_next n' = un_next n"
  shows "sc_rep (s\<lparr>sc_heap := (sc_heap s)(a \<mapsto> n')\<rparr>) as"
proof -
  have "path un_next ((sc_heap s)(a \<mapsto> n')) (sc_head s) as None"
  proof (rule path_cong_next)
    show "path un_next (sc_heap s) (sc_head s) as None" using assms(1) by (simp add: sc_rep_def)
    show "\<exists>m. ((sc_heap s)(a \<mapsto> n')) b = Some m \<and> un_next m = un_next k" if "sc_heap s b = Some k" for b k
      using assms(2,3) that by (cases "b = a") auto
  qed
  then show ?thesis using assms(1,2) by (auto simp: sc_rep_def)
qed

lemma ring_running_upd:
  assumes "running s as act st td" "a \<in> set as" "sc_heap s a = Some n" "un_next n' = un_next n"
  shows "running (s\<lparr>sc_heap := (sc_heap s)(a \<mapsto> n')\<rparr>) as act (st(a := un_status n')) (td(a := un_todo n'))"
  using sc_rep_upd [of s as a n n'] assms by (auto simp: running_def status_of_def todo_of_def)

lemma running_node: "running s as act st td \<Longrightarrow> a \<in> set as \<Longrightarrow> \<exists>n. sc_heap s a = Some n \<and> un_status n = st a \<and> un_todo n = td a"
  unfolding running_def sc_rep_def status_of_def todo_of_def by (metis domD option.sel)

lemma running_active: "running s as act st td \<Longrightarrow> act \<in> set as" by (simp add: running_def)

lemma yield_switch:
  assumes run: "running s as a st td" and as: "as = xs @ b # ys"
    and st: "\<forall>x\<in>set xs. st x \<noteq> READY" "st b = READY" "st a \<noteq> READY"
  shows "\<exists>s'. usched_yield s = Some (Inr (True, s')) \<and>
    running s' as b (st(a := if st a = TERMINATED then IDLE else READY, b := RUNNING)) td"
proof -
  let ?h = "sc_heap s"
  have P: "path un_next ?h (sc_head s) (xs @ b # ys) None" and act: "sc_active s = Some a"
    and same: "\<forall>x\<in>set as. status_of ?h x = st x" using run as by (auto simp: running_def sc_rep_def)
  have f: "find_status ?h READY (sc_head s) = Some (Inr (Some b))"
    by (rule find_status_first [OF P]) (use same st as in auto)
  obtain n where n: "?h a = Some n" "un_status n = st a" "un_todo n = td a" using running_node [OF run] running_active [OF run] by blast
  obtain m where m: "?h b = Some m" "un_todo m = td b" using running_node [OF run, of b] as by auto
  have ab: "a \<noteq> b" using st by auto
  let ?n = "n\<lparr>un_status := if un_status n = TERMINATED then IDLE else READY\<rparr>" and ?m = "m\<lparr>un_status := RUNNING\<rparr>"
  let ?s1 = "s\<lparr>sc_heap := ?h(a \<mapsto> ?n)\<rparr>"
  let ?s2 = "?s1\<lparr>sc_heap := (sc_heap ?s1)(b \<mapsto> ?m)\<rparr>"
  have r1: "running ?s1 as a (st(a := un_status ?n)) (td(a := un_todo ?n))"
    using ring_running_upd [OF run running_active [OF run] n(1), of ?n] by simp
  have r2: "running ?s2 as a ((st(a := un_status ?n))(b := un_status ?m)) ((td(a := un_todo ?n))(b := un_todo ?m))"
    using m ab as by (intro ring_running_upd [OF r1, where n = m]) auto
  let ?s3 = "s\<lparr>sc_active := Some b, sc_heap := ?h(a \<mapsto> ?n, b \<mapsto> ?m)\<rparr>"
  have tdeq: "(td(a := un_todo ?n))(b := un_todo ?m) = td" using n(3) m(2) by auto
  have "running ?s3 as b ((st(a := un_status ?n))(b := un_status ?m)) td"
    using r2 as unfolding tdeq by (auto simp: running_def sc_rep_def)
  moreover have "usched_yield s = Some (Inr (True, ?s3))"
    using f act n(1) m(1) ab by (simp add: usched_yield_def)
  ultimately show ?thesis using n(2) by auto
qed

lemma yield_stop:
  assumes run: "running s as a st td" and st: "\<forall>x\<in>set as. st x \<noteq> READY"
  shows "usched_yield s = Some (Inr (False, s\<lparr>sc_is_finished := True\<rparr>))"
proof -
  have "find_status (sc_heap s) READY (sc_head s) = Some (Inr None)"
    using run st by (intro find_status_none [where as = as]) (auto simp: running_def sc_rep_def)
  then show ?thesis by (simp add: usched_yield_def)
qed

section \<open>One command of the active thread\<close>

lemma run_out:
  assumes run: "running s as a st td" and t: "td a = Out x # p"
  shows "\<exists>s'. run_uthreads s out = run_uthreads s' (out @ [x]) \<and> running s' as a st (td(a := p))"
proof -
  obtain n where n: "sc_heap s a = Some n" "un_status n = st a" "un_todo n = td a" using running_node [OF run] running_active [OF run] by blast
  have act: "sc_active s = Some a" using run by (simp add: running_def)
  let ?s = "s\<lparr>sc_heap := (sc_heap s)(a \<mapsto> n\<lparr>un_todo := p\<rparr>)\<rparr>"
  have "run_uthreads s out = run_uthreads ?s (out @ [x])"
    by (subst run_uthreads.simps) (simp add: act n t)
  moreover have "running ?s as a st (td(a := p))"
    using ring_running_upd [OF run running_active [OF run] n(1), of "n\<lparr>un_todo := p\<rparr>"] n(2) by (simp add: fun_upd_idem)
  ultimately show ?thesis by blast
qed

text \<open>The two ways into \<open>usched_yield\<close>: the thread calls it, or its function has returned.\<close>

definition into_yield :: "(addr \<Rightarrow> uthread_status) \<Rightarrow> (addr \<Rightarrow> 'o ucmd list) \<Rightarrow> addr \<Rightarrow> uthread_status \<Rightarrow> 'o ucmd list \<Rightarrow> bool" where
  "into_yield st td a st' p \<longleftrightarrow> (td a = Yield # p \<and> st' = st a) \<or> (td a = [] \<and> p = [] \<and> st' = TERMINATED)"

lemma run_into_yield:
  assumes run: "running s as a st td" and i: "into_yield st td a st' p"
  shows "\<exists>s1. running s1 as a (st(a := st')) (td(a := p)) \<and> run_uthreads s out = (case usched_yield s1 of
     None \<Rightarrow> None | Some (Inl e) \<Rightarrow> Some (Inl e)
   | Some (Inr (go, s')) \<Rightarrow> if go then run_uthreads s' out else Some (Inr (s', out)))"
proof -
  obtain n where n: "sc_heap s a = Some n" "un_status n = st a" "un_todo n = td a" using running_node [OF run] running_active [OF run] by blast
  have act: "sc_active s = Some a" using run by (simp add: running_def)
  let ?n = "n\<lparr>un_status := st', un_todo := p\<rparr>"
  let ?s = "s\<lparr>sc_heap := (sc_heap s)(a \<mapsto> ?n)\<rparr>"
  have "running ?s as a (st(a := st')) (td(a := p))"
    using ring_running_upd [OF run running_active [OF run] n(1), of ?n] by simp
  moreover have "run_uthreads s out = (case usched_yield ?s of
     None \<Rightarrow> None | Some (Inl e) \<Rightarrow> Some (Inl e)
   | Some (Inr (go, s')) \<Rightarrow> if go then run_uthreads s' out else Some (Inr (s', out)))"
  proof (cases "td a")
    case Nil
    then have e: "un_todo n = []" "n\<lparr>un_status := TERMINATED\<rparr> = ?n" using i n by (cases n; simp add: into_yield_def)+
    show ?thesis by (subst run_uthreads.simps) (simp only: act load_simps(2) [of "sc_heap s" a n, OF n(1)] e sum.case list.case option.sel)
  next
    case (Cons c q)
    then have e: "un_todo n = Yield # p" "n\<lparr>un_todo := p\<rparr> = ?n" using i n by (cases n; simp add: into_yield_def)+
    show ?thesis by (subst run_uthreads.simps) (simp only: act load_simps(2) [of "sc_heap s" a n, OF n(1)] e sum.case list.case ucmd.case option.sel)
  qed
  ultimately show ?thesis by blast
qed

lemma run_switch:
  assumes run: "running s as a st td" and i: "into_yield st td a st' p" and as: "as = xs @ b # ys"
    and st: "\<forall>x\<in>set xs. x \<noteq> a \<longrightarrow> st x \<noteq> READY" "st b = READY" "st a \<noteq> READY"
  shows "\<exists>s'. run_uthreads s out = run_uthreads s' out \<and>
    running s' as b (st(a := if st' = TERMINATED then IDLE else READY, b := RUNNING)) (td(a := p))"
proof -
  obtain s1 where s1: "running s1 as a (st(a := st')) (td(a := p))" and r: "run_uthreads s out = (case usched_yield s1 of
     None \<Rightarrow> None | Some (Inl e) \<Rightarrow> Some (Inl e)
   | Some (Inr (go, s')) \<Rightarrow> if go then run_uthreads s' out else Some (Inr (s', out)))"
    using run_into_yield [OF run i] by blast
  have st': "st' \<noteq> READY" using i st(3) by (auto simp: into_yield_def)
  have ab: "a \<noteq> b" using st by auto
  have "\<forall>x\<in>set xs. (st(a := st')) x \<noteq> READY" using st(1) st' by simp
  then obtain s' where "usched_yield s1 = Some (Inr (True, s'))"
    "running s' as b ((st(a := st'))(a := if (st(a := st')) a = TERMINATED then IDLE else READY, b := RUNNING)) (td(a := p))"
    using yield_switch [OF s1 as] st(2) st' ab by (auto simp del: fun_upd_apply simp: fun_upd_same fun_upd_other)
  then show ?thesis using r by auto
qed

lemma run_stop:
  assumes run: "running s as a st td" and i: "into_yield st td a st' p" and st: "\<forall>x\<in>set as. x \<noteq> a \<longrightarrow> st x \<noteq> READY" "st a \<noteq> READY"
  shows "\<exists>s'. run_uthreads s out = Some (Inr (s', out)) \<and> sc_is_finished s' \<and> sc_rep s' as"
proof -
  obtain s1 where s1: "running s1 as a (st(a := st')) (td(a := p))" and r: "run_uthreads s out = (case usched_yield s1 of
     None \<Rightarrow> None | Some (Inl e) \<Rightarrow> Some (Inl e)
   | Some (Inr (go, s')) \<Rightarrow> if go then run_uthreads s' out else Some (Inr (s', out)))"
    using run_into_yield [OF run i] by blast
  have "st' \<noteq> READY" using i st(2) by (auto simp: into_yield_def)
  then have "usched_yield s1 = Some (Inr (False, s1\<lparr>sc_is_finished := True\<rparr>))" using st by (intro yield_stop [OF s1]) auto
  moreover have "sc_rep (s1\<lparr>sc_is_finished := True\<rparr>) as" using s1 by (simp add: running_def sc_rep_def)
  ultimately show ?thesis using r by (intro exI [of _ "s1\<lparr>sc_is_finished := True\<rparr>"]) simp
qed

section \<open>Every run ends\<close>

definition work_left :: "addr list \<Rightarrow> (addr \<Rightarrow> uthread_status) \<Rightarrow> (addr \<Rightarrow> 'o ucmd list) \<Rightarrow> nat" where
  "work_left as st td = (\<Sum>a\<leftarrow>as. length (td a) + (if st a = IDLE then 0 else 1))"

lemma work_left_less:
  assumes "a \<in> set as" "\<And>x. x \<in> set as \<Longrightarrow> length (td' x) + (if st' x = IDLE then 0 else 1) \<le> length (td x) + (if st x = IDLE then 0 else (1::nat))"
    and "length (td' a) + (if st' a = IDLE then 0 else 1) < length (td a) + (if st a = IDLE then 0 else (1::nat))"
  shows "work_left as st' td' < work_left as st td"
  using assms
proof (induction as)
  case (Cons b as)
  have tl: "work_left as st' td' \<le> work_left as st td"
    unfolding work_left_def by (rule sum_list_mono) (simp add: Cons.prems(2))
  show ?case
  proof (cases "a = b")
    case True then show ?thesis using tl Cons.prems(3) by (simp add: work_left_def)
  next
    case False
    then have "work_left as st' td' < work_left as st td" using Cons by simp
    then show ?thesis using Cons.prems(2) [of b] by (simp add: work_left_def)
  qed
qed simp

lemma run_total:
  assumes "running s as a st td" "st a = RUNNING"
  shows "\<exists>s' out'. run_uthreads s out = Some (Inr (s', out')) \<and> sc_is_finished s' \<and> sc_rep s' as"
  using assms
proof (induction "work_left as st td" arbitrary: s a st td out rule: less_induct)
  case less
  note run = less.prems(1) and ra = less.prems(2)
  show ?case
  proof (cases "\<exists>x p. td a = Out x # p")
    case True
    then obtain x p where t: "td a = Out x # p" by blast
    obtain s1 where s1: "run_uthreads s out = run_uthreads s1 (out @ [x])" "running s1 as a st (td(a := p))"
      using run_out [OF run t] by blast
    have "work_left as st (td(a := p)) < work_left as st td"
      by (rule work_left_less [OF running_active [OF run]]) (auto simp: t)
    then show ?thesis using less.hyps [OF _ s1(2) ra] s1(1) by simp
  next
    case False
    then obtain st' p where i: "into_yield st td a st' p"
      by (cases "td a") (auto simp: into_yield_def intro: that split: ucmd.splits, metis ucmd.exhaust)
    have na: "st a \<noteq> READY" using ra by simp
    show ?thesis
    proof (cases "\<exists>b\<in>set as. st b = READY")
      case False
      then show ?thesis using run_stop [OF run i _ na] by blast
    next
      case True
      then obtain xs b ys where b: "as = xs @ b # ys" "st b = READY" "\<forall>x\<in>set xs. st x \<noteq> READY"
        using split_list_first_prop [of as "\<lambda>b. st b = READY"] by blast
      let ?st = "st(a := if st' = TERMINATED then IDLE else READY, b := RUNNING)"
      obtain s1 where s1: "run_uthreads s out = run_uthreads s1 out" "running s1 as b ?st (td(a := p))"
        using run_switch [OF run i b(1) _ b(2) na] b(3) by blast
      have ab: "a \<noteq> b" using b(2) na by auto
      have "work_left as ?st (td(a := p)) < work_left as st td"
        using i ra b(2) ab by (intro work_left_less [OF running_active [OF run]]) (auto simp: into_yield_def)
      then show ?thesis using less.hyps [OF _ s1(2)] s1(1) by simp
    qed
  qed
qed

section \<open>The test program\<close>

text \<open>\<open>foo_with_scheduling\<close> of task \<open>i\<close>: output, yield, output. Node \<open>i\<close> is allocated at address \<open>i\<close>.\<close>

definition foo_with_scheduling :: "nat \<Rightarrow> nat ucmd list" where
  "foo_with_scheduling i = [Out i, Yield, Out i]"

definition main_add :: "nat \<Rightarrow> nat uthread_scheduler \<Rightarrow> nat uthread_scheduler" where
  "main_add i s = (case add_to_scheduler True True (Some i) True (foo_with_scheduling i) s of
     Some (Inr (_, s')) \<Rightarrow> s' | _ \<Rightarrow> s)"

definition main_sched :: "nat \<Rightarrow> nat uthread_scheduler" where
  "main_sched tasks = fold main_add [0..<tasks] (the (init_scheduler True None))"

text \<open>The order of the outputs: the threads run in pairs, and a last one without partner is cut short.\<close>

fun pair_order :: "'a list \<Rightarrow> 'a list" where
  "pair_order [] = []"
| "pair_order [a] = [a]"
| "pair_order (a # b # as) = [a, b, a, b] @ pair_order as"

lemma pair_order_length: "length (pair_order as) = (if even (length as) then 2 * length as else 2 * length as - 1)"
proof (induction as rule: pair_order.induct)
  case (3 a b as) then show ?case by (cases as) auto
qed auto

lemma run_pairs:
  assumes "running s (xs @ as) (hd as) st td" "as \<noteq> []" "st (hd as) = RUNNING" "distinct (xs @ as)"
    and "\<forall>x\<in>set xs. st x \<noteq> READY" "\<forall>y\<in>set (tl as). st y = READY" "\<forall>y\<in>set as. td y = foo_with_scheduling y"
  shows "\<exists>s'. run_uthreads s out = Some (Inr (s', out @ pair_order as)) \<and> sc_is_finished s'"
  using assms
proof (induction as arbitrary: s xs st td out rule: pair_order.induct)
  case (2 a)
  then have r: "running s (xs @ [a]) a st td" "td a = [Out a, Yield, Out a]" by (simp_all add: foo_with_scheduling_def)
  obtain s1 where s1: "run_uthreads s out = run_uthreads s1 (out @ [a])" "running s1 (xs @ [a]) a st (td(a := [Yield, Out a]))"
    using run_out [OF r] by blast
  have "into_yield st (td(a := [Yield, Out a])) a (st a) [Out a]" by (simp add: into_yield_def)
  then show ?case using run_stop [OF s1(2), of "st a" "[Out a]" "out @ [a]"] 2 s1(1) by auto
next
  case (3 a b as)
  let ?as = "xs @ a # b # as"
  have ab: "a \<noteq> b" "a \<notin> set as" "b \<notin> set as" and na: "st a = RUNNING" "st b = READY" using 3 by auto
  have ta: "td a = [Out a, Yield, Out a]" and tb: "td b = [Out b, Yield, Out b]" using 3(8) by (simp_all add: foo_with_scheduling_def)
  have r0: "running s ?as a st td" using 3(2) by simp
  have e1: "?as = (xs @ [a]) @ b # as" and e2: "?as = xs @ a # b # as" by simp_all
  obtain s1 where s1: "run_uthreads s out = run_uthreads s1 (out @ [a])" "running s1 ?as a st (td(a := [Yield, Out a]))"
    using run_out [OF r0 ta] by blast
  obtain s2 where s2: "run_uthreads s1 (out @ [a]) = run_uthreads s2 (out @ [a])"
      "running s2 ?as b (st(a := READY, b := RUNNING)) (td(a := [Out a]))"
    using run_switch [OF s1(2) _ e1, of "st a" "[Out a]"] 3(6) na by (auto simp: into_yield_def)
  obtain s3 where s3: "run_uthreads s2 (out @ [a]) = run_uthreads s3 (out @ [a, b])"
      "running s3 ?as b (st(a := READY, b := RUNNING)) (td(a := [Out a], b := [Yield, Out b]))"
    using run_out [OF s2(2), of b "[Yield, Out b]" "out @ [a]"] tb ab by auto
  obtain s4 where s4: "run_uthreads s3 (out @ [a, b]) = run_uthreads s4 (out @ [a, b])"
      "running s4 ?as a (st(a := RUNNING, b := READY)) (td(a := [Out a], b := [Out b]))"
  proof -
    have "\<forall>x\<in>set xs. x \<noteq> b \<longrightarrow> (st(a := READY, b := RUNNING)) x \<noteq> READY" using 3(5,6) by auto
    then show thesis using run_switch [OF s3(2) _ e2, of RUNNING "[Out b]" "out @ [a, b]"] na ab that
      by (auto simp: into_yield_def fun_upd_twist)
  qed
  obtain s5 where s5: "run_uthreads s4 (out @ [a, b]) = run_uthreads s5 (out @ [a, b, a])"
      "running s5 ?as a (st(a := RUNNING, b := READY)) (td(a := [], b := [Out b]))"
    using run_out [OF s4(2), of a "[]" "out @ [a, b]"] ab by (auto simp: fun_upd_twist)
  obtain s6 where s6: "run_uthreads s5 (out @ [a, b, a]) = run_uthreads s6 (out @ [a, b, a])"
      "running s6 ?as b (st(a := IDLE, b := RUNNING)) (td(a := [], b := [Out b]))"
    using run_switch [OF s5(2) _ e1, of TERMINATED "[]"] 3(6) na ab by (auto simp: into_yield_def fun_upd_twist fun_upd_idem)
  obtain s7 where s7: "run_uthreads s6 (out @ [a, b, a]) = run_uthreads s7 (out @ [a, b, a, b])"
      "running s7 ?as b (st(a := IDLE, b := RUNNING)) (td(a := [], b := []))"
    using run_out [OF s6(2), of b "[]" "out @ [a, b, a]"] ab by auto
  have until: "run_uthreads s out = run_uthreads s7 (out @ [a, b, a, b])" using s1 s2 s3 s4 s5 s6 s7 by simp
  have i7: "into_yield (st(a := IDLE, b := RUNNING)) (td(a := [], b := [])) b TERMINATED []" by (simp add: into_yield_def)
  show ?case
  proof (cases as)
    case Nil
    have "\<forall>x\<in>set ?as. x \<noteq> b \<longrightarrow> (st(a := IDLE, b := RUNNING)) x \<noteq> READY" using 3(6) Nil by auto
    then show ?thesis using run_stop [OF s7(2) i7, of "out @ [a, b, a, b]"] Nil until by auto
  next
    case (Cons c cs)
    have e3: "?as = (xs @ [a, b]) @ c # cs" using Cons by simp
    obtain s8 where s8: "run_uthreads s7 (out @ [a, b, a, b]) = run_uthreads s8 (out @ [a, b, a, b])"
        "running s8 ?as c (st(a := IDLE, b := IDLE, c := RUNNING)) (td(a := [], b := []))"
    proof -
      have "\<forall>x\<in>set (xs @ [a, b]). x \<noteq> b \<longrightarrow> (st(a := IDLE, b := RUNNING)) x \<noteq> READY" using 3(6) by auto
      then show thesis using run_switch [OF s7(2) i7 e3, of "out @ [a, b, a, b]"] 3(7) Cons ab that by (auto simp: fun_upd_idem)
    qed
    have "\<exists>s'. run_uthreads s8 (out @ [a, b, a, b]) = Some (Inr (s', (out @ [a, b, a, b]) @ pair_order as)) \<and> sc_is_finished s'"
    proof (rule 3(1))
      show "running s8 ((xs @ [a, b]) @ as) (hd as) (st(a := IDLE, b := IDLE, c := RUNNING)) (td(a := [], b := []))"
        using s8(2) Cons by simp
    qed (use 3(5-8) Cons ab in auto)
    then show ?thesis using until s8(1) by simp
  qed
qed simp

text \<open>Adding a task to a scheduler none of whose threads is idle.\<close>

lemma add_new:
  assumes rep: "sc_rep s as" and st: "\<forall>a\<in>set as. status_of (sc_heap s) a \<noteq> IDLE" and a: "sc_heap s a = None"
  shows "\<exists>s'. add_to_scheduler True True (Some a) True p s = Some (Inr (0, s')) \<and> sc_rep s' (a # as) \<and>
    status_of (sc_heap s') a = READY \<and> todo_of (sc_heap s') a = p \<and> sc_is_finished s' = sc_is_finished s \<and>
    (\<forall>b\<in>set as. status_of (sc_heap s') b = status_of (sc_heap s) b \<and> todo_of (sc_heap s') b = todo_of (sc_heap s) b)"
proof -
  let ?h = "sc_heap s"
  have P: "path un_next ?h (sc_head s) as None" "dom ?h = set as" using rep by (auto simp: sc_rep_def)
  have f: "find_status ?h IDLE (sc_head s) = Some (Inr None)" using find_status_none [OF P(1) st] .
  have aas: "a \<notin> set as" using P(2) a by auto
  let ?new = "\<lparr>un_next = sc_head s, un_prev = None, un_status = READY, un_id = sc_id_generator s, un_todo = p\<rparr>"
  let ?h1 = "case sc_head s of None \<Rightarrow> ?h | Some b \<Rightarrow> ?h(b \<mapsto> (the (?h b))\<lparr>un_prev := Some a\<rparr>)"
  let ?s' = "s\<lparr>sc_id_generator := sc_id_generator s + 1, sc_head := Some a, sc_size := sc_size s + 1, sc_heap := ?h1(a \<mapsto> ?new)\<rparr>"
  have hd: "sc_head s = (if as = [] then None else Some (hd as))" using P(1) by (cases as) auto
  have live: "\<exists>k. ?h b = Some k" if "b \<in> set as" for b using P(2) that by blast
  have r: "add_to_scheduler True True (Some a) True p s = Some (Inr (0, ?s'))"
    using f hd live [of "hd as"] by (cases as) (auto simp: add_to_scheduler_def create_uthread_def set_ready_def Let_def)
  have same: "\<exists>k k'. ?h b = Some k \<and> (?h1(a \<mapsto> ?new)) b = Some k' \<and> un_next k' = un_next k \<and> un_status k' = un_status k \<and> un_todo k' = un_todo k"
    if "b \<in> set as" for b using live [OF that] aas that hd by (auto split: if_splits)
  have "path un_next (?h1(a \<mapsto> ?new)) (sc_head s) as None"
    using same by (intro path_cong_next [OF P(1)]) fastforce
  then have "path un_next (?h1(a \<mapsto> ?new)) (Some a) (a # as) None" by simp
  moreover have "dom (?h1(a \<mapsto> ?new)) = set (a # as)" using P(2) hd hd_in_set [of as] by (auto split: if_splits)
  ultimately have "sc_rep ?s' (a # as)" using rep by (simp add: sc_rep_def)
  moreover have "\<forall>b\<in>set as. status_of (sc_heap ?s') b = status_of ?h b \<and> todo_of (sc_heap ?s') b = todo_of ?h b"
    using same by (fastforce simp: status_of_def todo_of_def)
  ultimately show ?thesis using r by (intro exI [of _ ?s']) (simp add: status_of_def todo_of_def)
qed

lemma main_sched_rep:
  "sc_rep (main_sched n) (rev [0..<n]) \<and> \<not> sc_is_finished (main_sched n) \<and>
   (\<forall>a<n. status_of (sc_heap (main_sched n)) a = READY \<and> todo_of (sc_heap (main_sched n)) a = foo_with_scheduling a)"
proof (induction n)
  case 0
  show ?case by (simp add: main_sched_def init_scheduler_def sc_rep_def)
next
  case (Suc n)
  let ?s = "main_sched n"
  have rep: "sc_rep ?s (rev [0..<n])" using Suc by blast
  have fr: "sc_heap ?s n = None"
  proof -
    have "dom (sc_heap ?s) = {0..<n}" using rep by (simp add: sc_rep_def)
    then have "n \<notin> dom (sc_heap ?s)" by simp
    then show ?thesis by (simp add: domIff)
  qed
  have ni: "\<forall>a\<in>set (rev [0..<n]). status_of (sc_heap ?s) a \<noteq> IDLE" using Suc by simp
  obtain s' where s': "add_to_scheduler True True (Some n) True (foo_with_scheduling n) ?s = Some (Inr (0, s'))" "sc_rep s' (n # rev [0..<n])"
     "status_of (sc_heap s') n = READY" "todo_of (sc_heap s') n = foo_with_scheduling n" "sc_is_finished s' = sc_is_finished ?s"
     "\<forall>b\<in>set (rev [0..<n]). status_of (sc_heap s') b = status_of (sc_heap ?s) b \<and> todo_of (sc_heap s') b = todo_of (sc_heap ?s) b"
    using add_new [OF rep ni fr, of "foo_with_scheduling n"] by blast
  have "main_sched (Suc n) = s'" using s'(1) by (simp add: main_sched_def main_add_def)
  then show ?case using s' Suc by (auto simp: less_Suc_eq)
qed

text \<open>Starting the scheduler: the first ready thread of the list runs.\<close>

lemma run_scheduler_first:
  assumes rep: "sc_rep s (xs @ a # ys)" and f: "\<not> sc_is_finished s"
    and st: "\<forall>x\<in>set xs. status_of (sc_heap s) x \<noteq> READY" "status_of (sc_heap s) a = READY"
  shows "\<exists>s1. run_scheduler s = run_uthreads s1 [] \<and>
    running s1 (xs @ a # ys) a ((status_of (sc_heap s))(a := RUNNING)) (todo_of (sc_heap s))"
proof -
  let ?h = "sc_heap s" and ?as = "xs @ a # ys"
  have P: "path un_next ?h (sc_head s) ?as None" using rep by (simp add: sc_rep_def)
  have fs: "find_status ?h READY (sc_head s) = Some (Inr (Some a))" by (rule find_status_first [OF P st])
  have "a \<in> dom ?h" using rep by (simp add: sc_rep_def)
  then obtain n where n: "?h a = Some n" by blast
  let ?s0 = "s\<lparr>sc_active := Some a\<rparr>"
  have "running ?s0 ?as a (status_of ?h) (todo_of ?h)" using rep by (simp add: running_def sc_rep_def)
  then have "running (?s0\<lparr>sc_heap := (sc_heap ?s0)(a \<mapsto> n\<lparr>un_status := RUNNING\<rparr>)\<rparr>) ?as a
      ((status_of ?h)(a := un_status (n\<lparr>un_status := RUNNING\<rparr>))) ((todo_of ?h)(a := un_todo (n\<lparr>un_status := RUNNING\<rparr>)))"
    by (rule ring_running_upd) (use n in simp_all)
  moreover have "(todo_of ?h)(a := un_todo (n\<lparr>un_status := RUNNING\<rparr>)) = todo_of ?h" using n by (auto simp: todo_of_def)
  ultimately show ?thesis using f fs n by (intro exI [of _ "s\<lparr>sc_active := Some a, sc_heap := ?h(a \<mapsto> n\<lparr>un_status := RUNNING\<rparr>)\<rparr>"]) (simp add: run_scheduler_def)
qed

lemma run_scheduler_start:
  "sc_rep s (a # as) \<Longrightarrow> \<not> sc_is_finished s \<Longrightarrow> status_of (sc_heap s) a = READY \<Longrightarrow>
   \<exists>s1. run_scheduler s = run_uthreads s1 [] \<and>
    running s1 (a # as) a ((status_of (sc_heap s))(a := RUNNING)) (todo_of (sc_heap s))"
  using run_scheduler_first [of s "[]" a as] by simp

text \<open>A scheduler that is finished or has no ready thread returns at once.\<close>

lemma run_scheduler_idle:
  assumes "sc_rep s as" and "sc_is_finished s \<or> (\<forall>x\<in>set as. status_of (sc_heap s) x \<noteq> READY)"
  shows "run_scheduler s = Some (Inr (s, []))"
  using assms find_status_none [of "sc_heap s" "sc_head s" as READY] by (auto simp: run_scheduler_def sc_rep_def)

section \<open>Properties\<close>

text \<open>C30: Whatever the threads do, as long as each of them is a finite program, \<open>run_scheduler\<close> returns, for any list
  of threads in any states: without a fault and with the list of threads intact. When the scheduler is
  finished or no thread is ready it returns at once; otherwise every chain of context switches ends with
  the jump back to the initial context.\<close>

theorem run_scheduler_returns:
  assumes "sc_rep s as"
  shows "\<exists>s' out. run_scheduler s = Some (Inr (s', out)) \<and> sc_rep s' as \<and>
    (if sc_is_finished s \<or> (\<forall>x\<in>set as. status_of (sc_heap s) x \<noteq> READY) then s' = s \<and> out = [] else sc_is_finished s')"
proof (cases "sc_is_finished s \<or> (\<forall>x\<in>set as. status_of (sc_heap s) x \<noteq> READY)")
  case True
  from run_scheduler_idle [OF assms True] assms True show ?thesis by auto
next
  case False
  then obtain xs a ys where a: "as = xs @ a # ys" "status_of (sc_heap s) a = READY" "\<forall>x\<in>set xs. status_of (sc_heap s) x \<noteq> READY"
    using split_list_first_prop [of as "\<lambda>x. status_of (sc_heap s) x = READY"] by blast
  obtain s1 where s1: "run_scheduler s = run_uthreads s1 []" "running s1 as a ((status_of (sc_heap s))(a := RUNNING)) (todo_of (sc_heap s))"
    using run_scheduler_first [of s xs a ys] assms a False by blast
  from run_total [OF s1(2), of "[]"] s1(1) False show ?thesis by auto
qed

theorem run_scheduler_returns_witness:
  "\<exists>s' out. run_scheduler (main_sched 2) = Some (Inr (s', out)) \<and> sc_is_finished s'"
proof -
  have "\<not> sc_is_finished (main_sched 2)" "1 \<in> set (rev [0..<2])" "status_of (sc_heap (main_sched 2)) 1 = READY"
    using main_sched_rep [of 2] by auto
  then have "(sc_is_finished (main_sched 2) \<or> (\<forall>x\<in>set (rev [0..<2]). status_of (sc_heap (main_sched 2)) x \<noteq> READY)) = False" by blast
  with run_scheduler_returns [OF conjunct1 [OF main_sched_rep [of 2]]] show ?thesis by (simp only: if_False) blast
qed

text \<open>The outputs of the test program with \<open>n\<close> tasks, in order: the tasks run in pairs from the last one added, each
  pair alternating. The counter it prints is \<open>2 * n\<close> only when \<open>n\<close> is even (the source: 10): with an odd
  number the last thread yields when no other is ready, and is abandoned after its first half.\<close>

theorem uthread_test_output:
  "\<exists>s'. run_scheduler (main_sched n) = Some (Inr (s', pair_order (rev [0..<n]))) \<and>
     length (pair_order (rev [0..<n])) = (if even n then 2 * n else 2 * n - 1)"
proof (cases n)
  case 0
  have "run_scheduler (main_sched 0) = Some (Inr (main_sched 0, []))"
    by (simp add: main_sched_def init_scheduler_def run_scheduler_def find_status.simps)
  then show ?thesis using 0 by simp
next
  case (Suc m)
  let ?as = "rev [0..<m]"
  have as: "rev [0..<n] = m # ?as" using Suc by simp
  note M = main_sched_rep [of n, unfolded as]
  obtain s1 where s1: "run_scheduler (main_sched n) = run_uthreads s1 []"
      "running s1 (m # ?as) m ((status_of (sc_heap (main_sched n)))(m := RUNNING)) (todo_of (sc_heap (main_sched n)))"
    using run_scheduler_start [of "main_sched n" m ?as] M Suc by auto
  have "\<exists>s'. run_uthreads s1 [] = Some (Inr (s', [] @ pair_order (m # ?as))) \<and> sc_is_finished s'"
    by (rule run_pairs [of s1 "[]" _ "(status_of (sc_heap (main_sched n)))(m := RUNNING)" "todo_of (sc_heap (main_sched n))"])
      (use s1(2) M Suc in auto)
  moreover have "length (pair_order (rev [0..<n])) = (if even n then 2 * n else 2 * n - 1)" by (simp add: pair_order_length)
  ultimately show ?thesis using s1(1) as by auto
qed

end
