(* ===== verification/Uthread_Ring.thy ===== *)
theory Uthread_Ring
  imports Uthread
begin

text \<open>
  The second scheduler, \<open>lab1/src/7/uthreadpool2.c\<close>: the same data, but the nodes form a ring, a new
  node is inserted behind the head and becomes the head, and \<open>usched_yield\<close> searches from the active
  thread on, at most \<open>size - 1\<close> steps.
\<close>

section \<open>Operations\<close>

text \<open>As in the first scheduler, \<open>head_uthread\<close> keeps what the block held.\<close>

definition ring_init_scheduler :: "bool \<Rightarrow> ptr \<Rightarrow> 'o uthread_scheduler option" where
  "ring_init_scheduler malloc_succeeds garbage_head = (if malloc_succeeds
     then Some \<lparr>sc_is_finished = False, sc_id_generator = 0, sc_size = 0, sc_head = garbage_head, sc_active = None, sc_heap = Map.empty\<rparr>
     else None)"

definition ring_reset_scheduler :: "'o uthread_scheduler \<Rightarrow> 'o uthread_scheduler" where
  "ring_reset_scheduler s = s\<lparr>sc_is_finished := False\<rparr>"

text \<open>\<open>while (cnt < size && node->uthread->status != want)\<close>: \<open>cnt\<close> and \<open>node\<close> afterwards.\<close>

fun ring_find :: "(addr \<rightharpoonup> 'o uthread_node) \<Rightarrow> uthread_status \<Rightarrow> nat \<Rightarrow> nat \<Rightarrow> ptr \<Rightarrow> fault + nat \<times> ptr" where
  "ring_find h want 0 cnt node = Inr (cnt, node)"
| "ring_find h want (Suc k) cnt node = ebind (load h node) (\<lambda>n.
     if un_status n \<noteq> want then ring_find h want k (cnt + 1) (un_next n) else Inr (cnt, node))"

text \<open>\<open>while (node->uthread->status != READY && cnt < size - 1)\<close> of \<open>usched_yield\<close>.\<close>

fun ring_next_ready :: "(addr \<rightharpoonup> 'o uthread_node) \<Rightarrow> nat \<Rightarrow> nat \<Rightarrow> ptr \<Rightarrow> fault + nat \<times> ptr" where
  "ring_next_ready h 0 cnt node = ebind (load h node) (\<lambda>n. Inr (cnt, node))"
| "ring_next_ready h (Suc k) cnt node = ebind (load h node) (\<lambda>n.
     if un_status n \<noteq> READY then ring_next_ready h k (cnt + 1) (un_next n) else Inr (cnt, node))"

definition ring_create_uthread :: "bool \<Rightarrow> bool \<Rightarrow> ptr \<Rightarrow> 'o uthread_scheduler \<Rightarrow> fault + int \<times> 'o uthread_scheduler" where
  "ring_create_uthread uthread_malloc stack_mmap node s =
     (if \<not> uthread_malloc then Inr (-1, s)
      else let id = sc_id_generator s; s = s\<lparr>sc_id_generator := id + 1\<rparr> in
      if \<not> stack_mmap then Inr (-1, s)
      else case node of None \<Rightarrow> Inr (-1, s)
      | Some a \<Rightarrow>
        ebind (case sc_head s of
            None \<Rightarrow> Inr ((sc_heap s)(a \<mapsto> \<lparr>un_next = Some a, un_prev = Some a, un_status = IDLE, un_id = id, un_todo = []\<rparr>))
          | Some head \<Rightarrow> ebind (load (sc_heap s) (Some head)) (\<lambda>n.
              let h = (sc_heap s)(a \<mapsto> \<lparr>un_next = un_next n, un_prev = Some head, un_status = IDLE, un_id = id, un_todo = []\<rparr>) in
              ebind (store h (un_next n) (un_prev_update (\<lambda>_. Some a))) (\<lambda>h.
              store h (Some head) (un_next_update (\<lambda>_. Some a)))))
          (\<lambda>h. Inr (0, s\<lparr>sc_head := Some a, sc_size := sc_size s + 1, sc_heap := h\<rparr>)))"

definition ring_add_to_scheduler ::
  "bool \<Rightarrow> bool \<Rightarrow> ptr \<Rightarrow> bool \<Rightarrow> 'o ucmd list \<Rightarrow> 'o uthread_scheduler \<Rightarrow> fault + int \<times> 'o uthread_scheduler"
where
  "ring_add_to_scheduler uthread_malloc stack_mmap node_malloc getcontext_ok func s =
     ebind (ring_find (sc_heap s) IDLE (nat (sc_size s)) 0 (sc_head s)) (\<lambda>(cnt, node).
     if int cnt \<ge> sc_size s
     then ebind (ring_create_uthread uthread_malloc stack_mmap node_malloc s) (\<lambda>(r, s).
       if r \<noteq> 0 then Inr (-1, s) else set_ready getcontext_ok func (sc_head s) s)
     else set_ready getcontext_ok func node s)"

definition ring_usched_yield :: "'o uthread_scheduler \<Rightarrow> fault + bool \<times> 'o uthread_scheduler" where
  "ring_usched_yield s =
     ebind (ring_next_ready (sc_heap s) (nat (sc_size s - 1)) 0 (if sc_active s = None then sc_head s else sc_active s)) (\<lambda>(cnt, node).
     if int cnt \<ge> sc_size s - 1 then Inr (False, s\<lparr>sc_is_finished := True\<rparr>)
     else ebind (store (sc_heap s) (sc_active s) (\<lambda>n. n\<lparr>un_status := if un_status n = TERMINATED then IDLE else READY\<rparr>)) (\<lambda>h.
       ebind (store h node (un_status_update (\<lambda>_. RUNNING))) (\<lambda>h.
       Inr (True, s\<lparr>sc_active := node, sc_heap := h\<rparr>))))"

partial_function (option) ring_run_uthreads ::
  "'o uthread_scheduler \<Rightarrow> 'o list \<Rightarrow> (fault + 'o uthread_scheduler \<times> 'o list) option" where
  "ring_run_uthreads s out = (case load (sc_heap s) (sc_active s) of Inl e \<Rightarrow> Some (Inl e)
     | Inr n \<Rightarrow> (case un_todo n of
         Out x # p \<Rightarrow> ring_run_uthreads (s\<lparr>sc_heap := (sc_heap s)(the (sc_active s) \<mapsto> n\<lparr>un_todo := p\<rparr>)\<rparr>) (out @ [x])
       | Yield # p \<Rightarrow> (case ring_usched_yield (s\<lparr>sc_heap := (sc_heap s)(the (sc_active s) \<mapsto> n\<lparr>un_todo := p\<rparr>)\<rparr>) of
             Inl e \<Rightarrow> Some (Inl e)
           | Inr (go, s') \<Rightarrow> if go then ring_run_uthreads s' out else Some (Inr (s', out)))
       | [] \<Rightarrow> (case ring_usched_yield (s\<lparr>sc_heap := (sc_heap s)(the (sc_active s) \<mapsto> n\<lparr>un_status := TERMINATED\<rparr>)\<rparr>) of
             Inl e \<Rightarrow> Some (Inl e)
           | Inr (go, s') \<Rightarrow> if go then ring_run_uthreads s' out else Some (Inr (s', out)))))"

definition ring_run_scheduler :: "'o uthread_scheduler \<Rightarrow> (fault + 'o uthread_scheduler \<times> 'o list) option" where
  "ring_run_scheduler s = (if sc_is_finished s then Some (Inr (s, []))
     else case ring_find (sc_heap s) READY (nat (sc_size s)) 0 (sc_head s) of Inl e \<Rightarrow> Some (Inl e)
     | Inr (cnt, node) \<Rightarrow> if int cnt \<ge> sc_size s then Some (Inr (s, []))
         else (case store (sc_heap s) node (un_status_update (\<lambda>_. RUNNING)) of Inl e \<Rightarrow> Some (Inl e)
           | Inr h \<Rightarrow> ring_run_uthreads (s\<lparr>sc_active := node, sc_heap := h\<rparr>) []))"

text \<open>\<open>destroy_scheduler\<close>: \<open>size\<close> nodes are freed, following \<open>next\<close>.\<close>

fun ring_free :: "nat \<Rightarrow> (addr \<rightharpoonup> 'o uthread_node) \<Rightarrow> ptr \<Rightarrow> fault + (addr \<rightharpoonup> 'o uthread_node)" where
  "ring_free 0 h node = Inr h"
| "ring_free (Suc k) h node = ebind (load h node) (\<lambda>n. ebind (release h node) (\<lambda>h'. ring_free k h' (un_next n)))"

definition ring_destroy_scheduler :: "'o uthread_scheduler \<Rightarrow> fault + (addr \<rightharpoonup> 'o uthread_node)" where
  "ring_destroy_scheduler s = ring_free (nat (sc_size s)) (sc_heap s) (sc_head s)"

section \<open>The ring\<close>

text \<open>\<open>ring s as\<close>: from the head, the nodes are \<open>as\<close>, and the last one is linked to the head again.\<close>

definition ring :: "'o uthread_scheduler \<Rightarrow> addr list \<Rightarrow> bool" where
  "ring s as \<longleftrightarrow> path un_next (sc_heap s) (sc_head s) as (sc_head s) \<and> distinct as \<and> dom (sc_heap s) = set as \<and>
     sc_size s = int (length as) \<and> (as = [] \<longrightarrow> sc_head s = None)"

lemma ring_rotate:
  assumes "path un_next h (Some a) (xs @ b # ys) (Some a)"
  shows "path un_next h (Some b) (b # ys @ xs) (Some b)"
proof -
  have "path un_next h (Some a) xs (Some b)" "path un_next h (Some b) (b # ys) (Some a)"
    using assms by (auto simp: path_append)
  then show ?thesis unfolding append_Cons [symmetric] path_append by blast
qed

lemma ring_next_ready_path:
  assumes "path un_next h p (xs @ [b]) q" "\<forall>x\<in>set xs. status_of h x \<noteq> READY" "length xs \<le> k" "status_of h b = READY \<or> length xs = k"
  shows "ring_next_ready h k c p = Inr (c + length xs, Some b)"
  using assms
proof (induction xs arbitrary: p k c)
  case Nil
  then obtain n where "p = Some b" "h b = Some n" by auto
  then show ?case using Nil by (cases k) (auto simp: status_of_def)
next
  case (Cons x xs)
  then obtain n k' where n: "p = Some x" "h x = Some n" "path un_next h (un_next n) (xs @ [b]) q" and k: "k = Suc k'" by (cases k) auto
  have "ring_next_ready h k' (c + 1) (un_next n) = Inr (c + 1 + length xs, Some b)"
    using Cons.prems n k by (intro Cons.IH) auto
  then show ?case using n k Cons.prems(2) by (simp add: status_of_def)
qed

lemma ring_free_path:
  "path un_next h p as q \<Longrightarrow> distinct as \<Longrightarrow> ring_free (length as) h p = Inr (h |` (- set as))"
proof (induction as arbitrary: h p)
  case Nil then show ?case by (simp add: restrict_map_def)
next
  case (Cons a as)
  then obtain n where n: "p = Some a" "h a = Some n" "path un_next h (un_next n) as q" by auto
  have "path un_next (h(a := None)) (un_next n) as q" using Cons.prems(2) by (intro path_upd [THEN iffD2, OF _ n(3)]) simp
  then have "ring_free (length as) (h(a := None)) (un_next n) = Inr ((h(a := None)) |` (- set as))"
    by (rule Cons.IH) (use Cons.prems in simp)
  moreover have "(h(a := None)) |` (- set as) = h |` (- set (a # as))" by (auto simp: restrict_map_def)
  ultimately show ?case using n by simp
qed

text \<open>Inserting a node behind the head, which it replaces.\<close>

lemma ring_create:
  assumes R: "ring s as" and a: "sc_heap s a = None"
  shows "\<exists>s'. ring_create_uthread True True (Some a) s = Inr (0, s') \<and> ring s' (a # tl as @ (if as = [] then [] else [hd as])) \<and>
    status_of (sc_heap s') a = IDLE \<and> (\<forall>b. b \<noteq> a \<longrightarrow> status_of (sc_heap s') b = status_of (sc_heap s) b \<and> todo_of (sc_heap s') b = todo_of (sc_heap s) b)"
proof (cases as)
  case Nil
  then show ?thesis using R a
    by (auto simp: ring_def ring_create_uthread_def Let_def status_of_def todo_of_def)
next
  case (Cons b bs)
  let ?h = "sc_heap s"
  have P: "path un_next ?h (Some b) (b # bs) (Some b)" and hb: "sc_head s = Some b" and d: "distinct (b # bs)" and dm: "dom ?h = set (b # bs)"
    and sz: "sc_size s = int (length as)" using R Cons by (auto simp: ring_def)
  obtain n where n: "?h b = Some n" "path un_next ?h (un_next n) bs (Some b)" using P by auto
  have ab: "a \<noteq> b" and abs: "a \<notin> set bs" using dm a by auto
  let ?new = "\<lparr>un_next = un_next n, un_prev = Some b, un_status = IDLE, un_id = sc_id_generator s, un_todo = []\<rparr>"
  obtain c where c: "un_next n = Some c" "c \<in> set (b # bs)" using n(2) by (cases bs) auto
  obtain m where m: "?h c = Some m" using dm c(2) by auto
  have ac: "a \<noteq> c" using m a by auto
  let ?h1 = "?h(a \<mapsto> ?new, c \<mapsto> m\<lparr>un_prev := Some a\<rparr>)"
  let ?n' = "(the (?h1 b))\<lparr>un_next := Some a\<rparr>"
  let ?s' = "s\<lparr>sc_id_generator := sc_id_generator s + 1, sc_head := Some a, sc_size := sc_size s + 1, sc_heap := ?h1(b \<mapsto> ?n')\<rparr>"
  have r: "ring_create_uthread True True (Some a) s = Inr (0, ?s')"
    using hb n(1) c(1) m ac ab by (auto simp: ring_create_uthread_def Let_def)
  have k: "\<exists>m'. (?h1(b \<mapsto> ?n')) x = Some m' \<and> un_next m' = un_next k" if "x \<in> set bs" "?h x = Some k" for x k
    using that d abs m ac by (cases "x = c") auto
  have "path un_next (?h1(b \<mapsto> ?n')) (un_next n) bs (Some b)"
    using k by (intro path_cong_next [OF n(2)]) blast
  then have "path un_next (?h1(b \<mapsto> ?n')) (Some a) (a # bs @ [b]) (Some a)" using ab ac by (auto simp: path_append)
  moreover have "dom (?h1(b \<mapsto> ?n')) = set (a # bs @ [b])" using dm c(2) by auto
  ultimately have "ring ?s' (a # bs @ [b])" using d ab abs sz Cons by (auto simp: ring_def)
  moreover have "status_of (sc_heap ?s') a = IDLE" using ab ac by (simp add: status_of_def)
  moreover have "status_of (sc_heap ?s') x = status_of ?h x \<and> todo_of (sc_heap ?s') x = todo_of ?h x" if "x \<noteq> a" for x
    using that n(1) m by (cases "x = b"; cases "x = c") (auto simp: status_of_def todo_of_def)
  ultimately show ?thesis using r Cons by auto
qed

lemma ring_destroy_frees: "ring s as \<Longrightarrow> ring_destroy_scheduler s = Inr Map.empty"
proof -
  assume R: "ring s as"
  then have "ring_free (length as) (sc_heap s) (sc_head s) = Inr (sc_heap s |` (- set as))"
    by (intro ring_free_path) (auto simp: ring_def)
  moreover have "sc_heap s |` (- set as) = Map.empty" using R by (auto simp: ring_def restrict_map_def fun_eq_iff domIff)
  ultimately show ?thesis using R by (simp add: ring_destroy_scheduler_def ring_def)
qed

section \<open>Properties\<close>

text \<open>The search of the second \<open>usched_yield\<close> never reaches the thread just before the active one in the ring: when no
  other thread is ready the scheduler declares itself finished, whatever that thread's status.\<close>

theorem ring_yield_misses_last:
  assumes "ring s (xs @ b # ys)" "sc_active s = Some b" "ys @ xs = zs @ [z]" "\<forall>x\<in>set (b # zs). status_of (sc_heap s) x \<noteq> READY"
  shows "ring_usched_yield s = Inr (False, s\<lparr>sc_is_finished := True\<rparr>)"
proof -
  have "sc_head s = Some (hd (xs @ b # ys))" using assms(1) by (cases xs) (auto simp: ring_def)
  then have "path un_next (sc_heap s) (Some b) (b # ys @ xs) (Some b)"
    using assms(1) ring_rotate [of "sc_heap s" _ xs b ys] by (auto simp: ring_def)
  then have P: "path un_next (sc_heap s) (Some b) ((b # zs) @ [z]) (Some b)" using assms(3) by simp
  have "length (xs @ b # ys) = Suc (length (ys @ xs))" by simp
  then have len: "length (xs @ b # ys) = length zs + 2" using assms(3) by simp
  then have "nat (sc_size s - 1) = length (b # zs)" "sc_size s - 1 = int (length (b # zs))" using assms(1) by (simp_all add: ring_def)
  moreover have "ring_next_ready (sc_heap s) (length (b # zs)) 0 (Some b) = Inr (0 + length (b # zs), Some z)"
    by (rule ring_next_ready_path [OF P assms(4)]) simp_all
  ultimately show ?thesis using assms(2) by (simp add: ring_usched_yield_def)
qed

text \<open>
  \<open>main.c\<close> with this scheduler. For every task the answers of the system are: \<open>malloc\<close> of the \<open>uthread_t\<close>, \<open>mmap\<close>
  of the stack, \<open>malloc\<close> of the node, \<open>getcontext\<close>. \<open>main\<close> ignores what \<open>add_to_scheduler\<close> returns. The result
  is the output and the nodes that \<open>destroy_scheduler\<close> leaves.
\<close>

type_synonym add_answers = "nat \<Rightarrow> bool \<times> bool \<times> ptr \<times> bool"

definition ring_main_add :: "add_answers \<Rightarrow> nat \<Rightarrow> fault + nat uthread_scheduler \<Rightarrow> fault + nat uthread_scheduler" where
  "ring_main_add answers i m = ebind m (\<lambda>s. case answers i of (uthread_malloc, stack_mmap, node_malloc, getcontext_ok) \<Rightarrow>
     ebind (ring_add_to_scheduler uthread_malloc stack_mmap node_malloc getcontext_ok (foo_with_scheduling i) s) (\<lambda>(r, s). Inr s))"

definition ring_main_sched :: "bool \<Rightarrow> ptr \<Rightarrow> add_answers \<Rightarrow> nat \<Rightarrow> fault + nat uthread_scheduler" where
  "ring_main_sched malloc_succeeds garbage_head answers tasks = (case ring_init_scheduler malloc_succeeds garbage_head of
     None \<Rightarrow> Inl Null_Deref | Some s \<Rightarrow> fold (ring_main_add answers) [0..<tasks] (Inr s))"

definition ring_main :: "bool \<Rightarrow> ptr \<Rightarrow> add_answers \<Rightarrow> nat \<Rightarrow> (fault + nat list \<times> (addr \<rightharpoonup> nat uthread_node)) option" where
  "ring_main malloc_succeeds garbage_head answers tasks = (case ring_main_sched malloc_succeeds garbage_head answers tasks of
     Inl e \<Rightarrow> Some (Inl e)
   | Inr s \<Rightarrow> (case ring_run_scheduler s of None \<Rightarrow> None | Some (Inl e) \<Rightarrow> Some (Inl e)
       | Some (Inr (s, out)) \<Rightarrow> Some (ebind (ring_destroy_scheduler s) (\<lambda>h. Inr (out, h)))))"

text \<open>No call fails, and the node of task \<open>i\<close> is at address \<open>i\<close>.\<close>

definition good_answers :: add_answers where
  "good_answers i = (True, True, Some i, True)"

text \<open>
  \<open>init_scheduler\<close> does not set \<open>head_uthread\<close>: when the block held anything but zeros the first
  \<open>add_to_scheduler\<close> follows a wild pointer.
\<close>

lemma ring_main_fault: "fold (ring_main_add answers) is (Inl e) = Inl e"
  by (induction "is") (simp_all add: ring_main_add_def)

lemma ring_garbage_head: "ring_main True (Some a) good_answers (Suc n) = Some (Inl (Bad_Addr a))"
proof -
  have "[0..<Suc n] = 0 # [1..<Suc n]" by (simp add: upt_conv_Cons del: upt_Suc)
  then have "ring_main_sched True (Some a) good_answers (Suc n) = Inl (Bad_Addr a)"
    by (simp add: ring_main_sched_def ring_init_scheduler_def ring_main_add_def good_answers_def ring_add_to_scheduler_def
        ring_create_uthread_def Let_def ring_main_fault [unfolded good_answers_def] del: upt_Suc)
  then show ?thesis by (simp add: ring_main_def)
qed

definition ring_two :: "nat uthread_scheduler" where
  "ring_two = \<lparr>sc_is_finished = False, sc_id_generator = 2, sc_size = 2, sc_head = Some 1, sc_active = None,
     sc_heap = [0 \<mapsto> \<lparr>un_next = Some 1, un_prev = Some 1, un_status = READY, un_id = 0, un_todo = foo_with_scheduling 0\<rparr>,
                1 \<mapsto> \<lparr>un_next = Some 0, un_prev = Some 0, un_status = READY, un_id = 1, un_todo = foo_with_scheduling 1\<rparr>]\<rparr>"

lemma ring_two_tasks: "ring_main_sched True None good_answers 2 = Inr ring_two"
  by (simp add: ring_main_sched_def ring_main_add_def ring_add_to_scheduler_def ring_create_uthread_def set_ready_def
      ring_init_scheduler_def good_answers_def ring_two_def numeral_2_eq_2 Let_def fun_eq_iff)

theorem ring_yield_misses_last_witness:
  "ring_usched_yield (ring_two\<lparr>sc_active := Some 1, sc_heap := (sc_heap ring_two)(1 \<mapsto>
      \<lparr>un_next = Some 0, un_prev = Some 0, un_status = RUNNING, un_id = 1, un_todo = [Out 1]\<rparr>)\<rparr>)
    = Inr (False, ring_two\<lparr>sc_active := Some 1, sc_is_finished := True, sc_heap := (sc_heap ring_two)(1 \<mapsto>
      \<lparr>un_next = Some 0, un_prev = Some 0, un_status = RUNNING, un_id = 1, un_todo = [Out 1]\<rparr>)\<rparr>)"
  (is "ring_usched_yield ?s = _")
proof -
  have "ring ?s ([] @ 1 # [0])" by (auto simp: ring_two_def ring_def)
  then show ?thesis using ring_yield_misses_last [of ?s "[]" 1 "[0]" "[]" 0]
    by (simp add: ring_two_def status_of_def)
qed

text \<open>With two tasks the second scheduler outputs once and stops: three of the four increments of the test are lost,
  although a thread is ready all the time.\<close>

theorem ring_test_two_tasks: "\<exists>h. ring_main True None good_answers 2 = Some (Inr ([1], h))"
  unfolding ring_main_def ring_two_tasks unfolding ring_two_def
  by (simp add: ring_run_scheduler_def numeral_2_eq_2 foo_with_scheduling_def ring_run_uthreads.simps
      ring_usched_yield_def ring_destroy_scheduler_def status_of_def)

end
