(* ===== verification/Ring_Runs.thy ===== *)
theory Ring_Runs
  imports Uthread_Ring
begin

text \<open>
  Runs of the second scheduler (\<open>lab1/src/7/uthreadpool2.c\<close>) with any number of threads. The ring is
  seen from the active thread: a context switch rotates this list, as in a round robin. Every run of
  finite threads returns, and from three tasks on the test of \<open>main.c\<close> runs every task to its end.
\<close>

section \<open>The ring seen from the active thread\<close>

lemma ring_upd:
  assumes "ring s as" "sc_heap s a = Some n" "un_next n' = un_next n"
  shows "ring (s\<lparr>sc_heap := (sc_heap s)(a \<mapsto> n')\<rparr>) as"
proof -
  have "path un_next ((sc_heap s)(a \<mapsto> n')) (sc_head s) as (sc_head s)"
  proof (rule path_cong_next)
    show "path un_next (sc_heap s) (sc_head s) as (sc_head s)" using assms(1) by (simp add: ring_def)
    show "\<exists>m. ((sc_heap s)(a \<mapsto> n')) b = Some m \<and> un_next m = un_next k" if "sc_heap s b = Some k" for b k
      using assms(2,3) that by (cases "b = a") auto
  qed
  then show ?thesis using assms(1,2) by (auto simp: ring_def)
qed

lemma ring_cong:
  "ring s as \<Longrightarrow> sc_heap s' = sc_heap s \<Longrightarrow> sc_head s' = sc_head s \<Longrightarrow> sc_size s' = sc_size s \<Longrightarrow> ring s' as"
  by (simp add: ring_def)

text \<open>
  The threads \<open>ts\<close> in the order of the ring, the active one first, with their statuses and what they
  have left to do.
\<close>

definition rotated :: "'a list \<Rightarrow> 'a list \<Rightarrow> bool" where
  "rotated as ts \<longleftrightarrow> (\<exists>xs ys. as = xs @ ys \<and> ts = ys @ xs)"

definition ring_round :: "'o uthread_scheduler \<Rightarrow> addr list \<Rightarrow> addr list \<Rightarrow> (addr \<Rightarrow> uthread_status) \<Rightarrow> (addr \<Rightarrow> 'o ucmd list) \<Rightarrow> bool" where
  "ring_round s as ts st td \<longleftrightarrow> ring s as \<and> rotated as ts \<and> ts \<noteq> [] \<and> sc_active s = Some (hd ts) \<and>
     (\<forall>a\<in>set ts. status_of (sc_heap s) a = st a \<and> todo_of (sc_heap s) a = td a)"

lemma rotated_set: "rotated as ts \<Longrightarrow> set ts = set as \<and> length ts = length as \<and> (distinct ts \<longleftrightarrow> distinct as)"
  by (auto simp: rotated_def)

lemma rotated_append: "rotated as (xs @ ys) \<Longrightarrow> rotated as (ys @ xs)"
proof -
  assume "rotated as (xs @ ys)"
  then obtain us vs where e: "as = us @ vs" "xs @ ys = vs @ us" by (auto simp: rotated_def)
  from e(2) consider zs where "xs = vs @ zs" "zs @ ys = us" | zs where "xs @ zs = vs" "ys = zs @ us"
    by (auto simp: append_eq_append_conv2)
  then show ?thesis
  proof cases
    case 1
    then have "as = zs @ (ys @ vs)" "ys @ xs = (ys @ vs) @ zs" using e by auto
    then show ?thesis unfolding rotated_def by blast
  next
    case 2
    then have "as = (us @ xs) @ zs" "ys @ xs = zs @ us @ xs" using e by auto
    then show ?thesis unfolding rotated_def by blast
  qed
qed

lemma rotated_refl [simp]: "rotated as as"
  unfolding rotated_def by (intro exI [of _ "[]"] exI [of _ as]) simp

lemma round_path:
  assumes "ring_round s as ts st td"
  shows "path un_next (sc_heap s) (Some (hd ts)) ts (Some (hd ts))"
proof -
  from assms obtain xs b ys where as: "as = xs @ b # ys" and ts: "ts = b # ys @ xs"
  proof -
    obtain us vs where e: "as = us @ vs" "ts = vs @ us" "ts \<noteq> []" using assms by (auto simp: ring_round_def rotated_def)
    show thesis
    proof (cases vs)
      case Nil
      with e that [of "[]" "hd us" "tl us"] show thesis by simp
    next
      case (Cons b ys)
      with e that [of us b ys] show thesis by simp
    qed
  qed
  have "sc_head s = Some (hd as)" using assms as by (cases xs) (auto simp: ring_round_def ring_def)
  then have "path un_next (sc_heap s) (Some (hd as)) (xs @ b # ys) (Some (hd as))" using assms as by (simp add: ring_round_def ring_def)
  from ring_rotate [OF this] show ?thesis by (simp add: ts)
qed

lemma round_node:
  assumes "ring_round s as ts st td" "a \<in> set ts"
  obtains n where "sc_heap s a = Some n" "un_status n = st a" "un_todo n = td a"
proof -
  have "a \<in> dom (sc_heap s)" using assms rotated_set [of as ts] by (simp add: ring_round_def ring_def)
  then obtain n where "sc_heap s a = Some n" by blast
  with assms that [of n] show thesis by (auto simp: ring_round_def status_of_def todo_of_def)
qed

lemma round_upd:
  assumes "ring_round s as ts st td" "a \<in> set ts" "sc_heap s a = Some n" "un_next n' = un_next n"
  shows "ring_round (s\<lparr>sc_heap := (sc_heap s)(a \<mapsto> n')\<rparr>) as ts (st(a := un_status n')) (td(a := un_todo n'))"
  using ring_upd [of s as a n n'] assms by (auto simp: ring_round_def status_of_def todo_of_def)

lemma round_distinct: "ring_round s as ts st td \<Longrightarrow> distinct ts"
  using rotated_set [of as ts] by (auto simp: ring_round_def ring_def)

lemma round_size: "ring_round s as ts st td \<Longrightarrow> sc_size s = int (length ts)"
  using rotated_set [of as ts] by (auto simp: ring_round_def ring_def)

section \<open>A context switch\<close>

text \<open>
  The search of \<open>usched_yield\<close> sees all but the last thread of the ring: the first ready one among
  them goes on, and the ring is seen from it.
\<close>

lemma round_switch:
  assumes run: "ring_round s as (a # xs @ b # ys) st td" and ys: "ys \<noteq> []"
    and st: "\<forall>x\<in>set xs. st x \<noteq> READY" "st b = READY" "st a \<noteq> READY"
  shows "\<exists>s'. ring_usched_yield s = Inr (True, s') \<and>
    ring_round s' as (b # ys @ a # xs) (st(a := if st a = TERMINATED then IDLE else READY, b := RUNNING)) td"
proof -
  let ?h = "sc_heap s" and ?ts = "a # xs @ b # ys"
  have act: "sc_active s = Some a" and same: "\<forall>x\<in>set ?ts. status_of ?h x = st x" using run by (auto simp: ring_round_def)
  have "path un_next ?h (Some a) ((a # xs) @ [b] @ ys) (Some a)" using round_path [OF run] by simp
  then obtain q where P: "path un_next ?h (Some a) ((a # xs) @ [b]) q" by (auto simp: path_append)
  have k: "nat (sc_size s - 1) = length xs + 1 + length ys" using round_size [OF run] by simp
  have f: "ring_next_ready ?h (nat (sc_size s - 1)) 0 (Some a) = Inr (0 + length (a # xs), Some b)"
    by (rule ring_next_ready_path [OF P]) (use same st k in auto)
  obtain n where n: "?h a = Some n" "un_status n = st a" "un_todo n = td a" using round_node [OF run, of a] by auto
  obtain m where m: "?h b = Some m" "un_todo m = td b" using round_node [OF run, of b] by auto
  have ab: "a \<noteq> b" using st by auto
  let ?n = "n\<lparr>un_status := if un_status n = TERMINATED then IDLE else READY\<rparr>" and ?m = "m\<lparr>un_status := RUNNING\<rparr>"
  let ?s1 = "s\<lparr>sc_heap := ?h(a \<mapsto> ?n)\<rparr>"
  let ?s2 = "?s1\<lparr>sc_heap := (sc_heap ?s1)(b \<mapsto> ?m)\<rparr>"
  have r1: "ring_round ?s1 as ?ts (st(a := un_status ?n)) (td(a := un_todo ?n))" by (rule round_upd [OF run _ n(1)]) simp_all
  have r2: "ring_round ?s2 as ?ts ((st(a := un_status ?n))(b := un_status ?m)) ((td(a := un_todo ?n))(b := un_todo ?m))"
    using m ab by (intro round_upd [OF r1, where n = m]) auto
  let ?s3 = "s\<lparr>sc_active := Some b, sc_heap := ?h(a \<mapsto> ?n, b \<mapsto> ?m)\<rparr>"
  have tdeq: "(td(a := un_todo ?n))(b := un_todo ?m) = td" using n(3) m(2) by auto
  have "rotated as ((a # xs) @ (b # ys))" using run by (simp add: ring_round_def)
  then have rot: "rotated as (b # ys @ a # xs)" using rotated_append by fastforce
  have "ring ?s2 as" using r2 by (simp only: ring_round_def)
  then have "ring ?s3 as" by (rule ring_cong) simp_all
  then have "ring_round ?s3 as (b # ys @ a # xs) ((st(a := un_status ?n))(b := un_status ?m)) td"
    using r2 rot unfolding tdeq ring_round_def by auto
  moreover have "ring_usched_yield s = Inr (True, ?s3)"
    using f act n(1) m(1) ab k round_size [OF run] ys by (simp add: ring_usched_yield_def)
  ultimately show ?thesis using n(2) by auto
qed

lemma round_stop:
  assumes run: "ring_round s as ts st td" and st: "\<forall>x\<in>set (butlast ts). st x \<noteq> READY"
  shows "ring_usched_yield s = Inr (False, s\<lparr>sc_is_finished := True\<rparr>)"
proof -
  have ne: "ts \<noteq> []" and act: "sc_active s = Some (hd ts)" using run by (auto simp: ring_round_def)
  have P: "path un_next (sc_heap s) (Some (hd ts)) (butlast ts @ [last ts]) (Some (hd ts))"
    using round_path [OF run] ne by simp
  have same: "\<forall>x\<in>set (butlast ts). status_of (sc_heap s) x \<noteq> READY"
    using run st in_set_butlastD unfolding ring_round_def by metis
  have k: "nat (sc_size s - 1) = length (butlast ts)" "sc_size s - 1 = int (length (butlast ts))"
    using round_size [OF run] ne by (cases ts; simp)+
  have "ring_next_ready (sc_heap s) (length (butlast ts)) 0 (Some (hd ts)) = Inr (0 + length (butlast ts), Some (last ts))"
    by (rule ring_next_ready_path [OF P same]) simp_all
  then show ?thesis using k act by (simp add: ring_usched_yield_def)
qed

section \<open>One command of the active thread\<close>

lemma round_out:
  assumes run: "ring_round s as (a # ts) st td" and t: "td a = Out x # p"
  shows "\<exists>s'. ring_run_uthreads s out = ring_run_uthreads s' (out @ [x]) \<and> ring_round s' as (a # ts) st (td(a := p))"
proof -
  obtain n where n: "sc_heap s a = Some n" "un_status n = st a" "un_todo n = td a" using round_node [OF run, of a] by auto
  have act: "sc_active s = Some a" using run by (simp add: ring_round_def)
  let ?s = "s\<lparr>sc_heap := (sc_heap s)(a \<mapsto> n\<lparr>un_todo := p\<rparr>)\<rparr>"
  have "ring_run_uthreads s out = ring_run_uthreads ?s (out @ [x])"
    by (subst ring_run_uthreads.simps) (simp add: act n t)
  moreover have "ring_round ?s as (a # ts) st (td(a := p))"
    using round_upd [OF run _ n(1), of "n\<lparr>un_todo := p\<rparr>"] n(2) by (simp add: fun_upd_idem)
  ultimately show ?thesis by blast
qed

lemma round_into_yield:
  assumes run: "ring_round s as (a # ts) st td" and i: "into_yield st td a st' p"
  shows "\<exists>s1. ring_round s1 as (a # ts) (st(a := st')) (td(a := p)) \<and> ring_run_uthreads s out = (case ring_usched_yield s1 of
     Inl e \<Rightarrow> Some (Inl e)
   | Inr (go, s') \<Rightarrow> if go then ring_run_uthreads s' out else Some (Inr (s', out)))"
proof -
  obtain n where n: "sc_heap s a = Some n" "un_status n = st a" "un_todo n = td a" using round_node [OF run, of a] by auto
  have act: "sc_active s = Some a" using run by (simp add: ring_round_def)
  let ?n = "n\<lparr>un_status := st', un_todo := p\<rparr>"
  let ?s = "s\<lparr>sc_heap := (sc_heap s)(a \<mapsto> ?n)\<rparr>"
  have "ring_round ?s as (a # ts) (st(a := st')) (td(a := p))"
    using round_upd [OF run _ n(1), of ?n] by simp
  moreover have "ring_run_uthreads s out = (case ring_usched_yield ?s of
     Inl e \<Rightarrow> Some (Inl e)
   | Inr (go, s') \<Rightarrow> if go then ring_run_uthreads s' out else Some (Inr (s', out)))"
  proof (cases "td a")
    case Nil
    then have e: "un_todo n = []" "n\<lparr>un_status := TERMINATED\<rparr> = ?n" using i n by (cases n; simp add: into_yield_def)+
    show ?thesis
      by (subst ring_run_uthreads.simps) (simp only: act load_simps(2) [of "sc_heap s" a n, OF n(1)] e sum.case list.case option.sel)
  next
    case (Cons c q)
    then have e: "un_todo n = Yield # p" "n\<lparr>un_todo := p\<rparr> = ?n" using i n by (cases n; simp add: into_yield_def)+
    show ?thesis
      by (subst ring_run_uthreads.simps) (simp only: act load_simps(2) [of "sc_heap s" a n, OF n(1)] e sum.case list.case ucmd.case option.sel)
  qed
  ultimately show ?thesis by blast
qed

lemma round_run_switch:
  assumes run: "ring_round s as (a # xs @ b # ys) st td" and ys: "ys \<noteq> []" and i: "into_yield st td a st' p"
    and st: "\<forall>x\<in>set xs. st x \<noteq> READY" "st b = READY" "st a \<noteq> READY"
  shows "\<exists>s'. ring_run_uthreads s out = ring_run_uthreads s' out \<and>
    ring_round s' as (b # ys @ a # xs) (st(a := if st' = TERMINATED then IDLE else READY, b := RUNNING)) (td(a := p))"
proof -
  obtain s1 where s1: "ring_round s1 as (a # xs @ b # ys) (st(a := st')) (td(a := p))" and
    r: "ring_run_uthreads s out = (case ring_usched_yield s1 of Inl e \<Rightarrow> Some (Inl e)
      | Inr (go, s') \<Rightarrow> if go then ring_run_uthreads s' out else Some (Inr (s', out)))"
    using round_into_yield [OF run i] by blast
  have st': "st' \<noteq> READY" using i st(3) by (auto simp: into_yield_def)
  have ab: "a \<noteq> b" using st by auto
  have "\<forall>x\<in>set xs. (st(a := st')) x \<noteq> READY" using st(1) st' by simp
  then obtain s' where s': "ring_usched_yield s1 = Inr (True, s')"
    "ring_round s' as (b # ys @ a # xs) (st(a := if st' = TERMINATED then IDLE else READY, b := RUNNING)) (td(a := p))"
    using round_switch [OF s1 ys] st(2) st' ab by (auto simp del: fun_upd_apply simp: fun_upd_same fun_upd_other)
  with s' r show ?thesis by auto
qed

lemma round_run_stop:
  assumes run: "ring_round s as (a # ts) st td" and i: "into_yield st td a st' p"
    and st: "\<forall>x\<in>set (butlast (a # ts)). st x \<noteq> READY"  "st a \<noteq> READY"
  shows "\<exists>s'. ring_run_uthreads s out = Some (Inr (s', out)) \<and> sc_is_finished s' \<and> ring s' as \<and>
    (\<forall>x\<in>set (a # ts). todo_of (sc_heap s') x = (td(a := p)) x)"
proof -
  obtain s1 where s1: "ring_round s1 as (a # ts) (st(a := st')) (td(a := p))" and
    r: "ring_run_uthreads s out = (case ring_usched_yield s1 of Inl e \<Rightarrow> Some (Inl e)
      | Inr (go, s') \<Rightarrow> if go then ring_run_uthreads s' out else Some (Inr (s', out)))"
    using round_into_yield [OF run i] by blast
  have "st' \<noteq> READY" using i st(2) by (auto simp: into_yield_def)
  then have "ring_usched_yield s1 = Inr (False, s1\<lparr>sc_is_finished := True\<rparr>)"
    using st by (intro round_stop [OF s1]) (auto split: if_splits)
  moreover have "ring (s1\<lparr>sc_is_finished := True\<rparr>) as"
    by (rule ring_cong [of s1]) (use s1 in \<open>simp_all add: ring_round_def\<close>)
  ultimately show ?thesis using r s1
    by (intro exI [of _ "s1\<lparr>sc_is_finished := True\<rparr>"]) (auto simp: ring_round_def)
qed

section \<open>Every run ends\<close>

lemma round_total:
  assumes "ring_round s as ts st td" "st (hd ts) = RUNNING"
  shows "\<exists>s' out'. ring_run_uthreads s out = Some (Inr (s', out')) \<and> sc_is_finished s' \<and> ring s' as"
  using assms
proof (induction "work_left as st td" arbitrary: s ts st td out rule: less_induct)
  case less
  note run = less.prems(1)
  obtain a rest where ts: "ts = a # rest" using run by (cases ts) (auto simp: ring_round_def)
  note r = run [unfolded ts]
  have ra: "st a = RUNNING" using less.prems(2) ts by simp
  have mem: "a \<in> set as" using rotated_set [of as ts] run ts by (auto simp: ring_round_def)
  show ?case
  proof (cases "\<exists>x p. td a = Out x # p")
    case True
    then obtain x p where t: "td a = Out x # p" by blast
    obtain s1 where s1: "ring_run_uthreads s out = ring_run_uthreads s1 (out @ [x])" "ring_round s1 as (a # rest) st (td(a := p))"
      using round_out [OF r t] by blast
    have "work_left as st (td(a := p)) < work_left as st td"
      by (rule work_left_less [OF mem]) (auto simp: t)
    from less.hyps [OF this s1(2)] ra s1(1) show ?thesis by simp
  next
    case False
    then obtain st' p where i: "into_yield st td a st' p"
      by (cases "td a") (auto simp: into_yield_def intro: that split: ucmd.splits, metis ucmd.exhaust)
    show ?thesis
    proof (cases "\<exists>b\<in>set (butlast rest). st b = READY")
      case False
      then have "\<forall>x\<in>set (butlast (a # rest)). st x \<noteq> READY" using ra by auto
      then show ?thesis using round_run_stop [OF r i] ra by fastforce
    next
      case True
      then obtain xs b ys where b: "butlast rest = xs @ b # ys" "st b = READY" "\<forall>x\<in>set xs. st x \<noteq> READY"
        using split_list_first_prop [of "butlast rest" "\<lambda>b. st b = READY"] by blast
      have "rest \<noteq> []" using b(1) by auto
      then obtain z where z: "rest = butlast rest @ [z]" by (metis append_butlast_last_id)
      have rest: "rest = xs @ b # (ys @ [z])" by (subst z) (simp add: b(1))
      let ?st = "st(a := if st' = TERMINATED then IDLE else READY, b := RUNNING)"
      obtain s1 where s1: "ring_run_uthreads s out = ring_run_uthreads s1 out"
        "ring_round s1 as (b # (ys @ [z]) @ a # xs) ?st (td(a := p))"
        using round_run_switch [OF r [unfolded rest], of st' p out] i b ra by auto
      have ab: "a \<noteq> b" using b(2) ra by auto
      have "work_left as ?st (td(a := p)) < work_left as st td"
        using i ra b(2) ab by (intro work_left_less [OF mem]) (auto simp: into_yield_def)
      from less.hyps [OF this s1(2)] s1(1) show ?thesis by simp
    qed
  qed
qed

lemma ring_find_path:
  "path un_next h p xs q \<Longrightarrow> \<forall>x\<in>set xs. status_of h x \<noteq> want \<Longrightarrow> length xs \<le> k \<Longrightarrow>
     ring_find h want k c p = ring_find h want (k - length xs) (c + length xs) q"
proof (induction xs arbitrary: p k c)
  case (Cons x xs)
  then obtain n k' where n: "p = Some x" "h x = Some n" "path un_next h (un_next n) xs q" and k: "k = Suc k'"
    by (cases k) auto
  with Cons.IH [OF n(3), of k' "c + 1"] Cons.prems show ?case by (simp add: status_of_def)
qed simp

text \<open>Starting the scheduler: the first ready thread from the head runs.\<close>

lemma ring_start:
  assumes R: "ring s (xs @ b # ys)" and f: "\<not> sc_is_finished s"
    and st: "\<forall>x\<in>set xs. status_of (sc_heap s) x \<noteq> READY" "status_of (sc_heap s) b = READY"
  shows "\<exists>s1. ring_run_scheduler s = ring_run_uthreads s1 [] \<and>
    ring_round s1 (xs @ b # ys) (b # ys @ xs) ((status_of (sc_heap s))(b := RUNNING)) (todo_of (sc_heap s))"
proof -
  let ?h = "sc_heap s" and ?as = "xs @ b # ys"
  have P: "path un_next ?h (sc_head s) xs (Some b)" and sz: "nat (sc_size s) = Suc (length xs + length ys)"
    using R by (auto simp: ring_def path_append)
  have "b \<in> dom ?h" using R by (simp add: ring_def)
  then obtain n where n: "?h b = Some n" by blast
  let ?s1 = "s\<lparr>sc_active := Some b, sc_heap := ?h(b \<mapsto> n\<lparr>un_status := RUNNING\<rparr>)\<rparr>"
  have "ring_find ?h READY (nat (sc_size s)) 0 (sc_head s) = Inr (length xs, Some b)"
    using ring_find_path [OF P st(1), of "nat (sc_size s)" 0] st(2) n sz by (simp add: status_of_def)
  moreover have "int (length xs) < sc_size s" using R by (simp add: ring_def)
  ultimately have r: "ring_run_scheduler s = ring_run_uthreads ?s1 []"
    using f n by (simp add: ring_run_scheduler_def)
  have "ring (s\<lparr>sc_heap := ?h(b \<mapsto> n\<lparr>un_status := RUNNING\<rparr>)\<rparr>) ?as" by (rule ring_upd [OF R n]) simp
  then have "ring ?s1 ?as" by (rule ring_cong) simp_all
  moreover have "rotated ?as (b # ys @ xs)" using rotated_append [OF rotated_refl, of xs "b # ys"] by simp
  ultimately have "ring_round ?s1 ?as (b # ys @ xs) ((status_of ?h)(b := RUNNING)) (todo_of ?h)"
    using n by (auto simp: ring_round_def status_of_def todo_of_def)
  with r show ?thesis by blast
qed

lemma ring_start_none:
  assumes R: "ring s as" and f: "\<not> sc_is_finished s" and st: "\<forall>x\<in>set as. status_of (sc_heap s) x \<noteq> READY"
  shows "ring_run_scheduler s = Some (Inr (s, []))"
  using ring_find_path [of "sc_heap s" "sc_head s" as "sc_head s" READY "length as" 0] assms
  by (simp add: ring_run_scheduler_def ring_def)

section \<open>The test program\<close>

text \<open>First round: each thread outputs once and yields to its neighbour.\<close>

lemma first_round:
  assumes "ring_round s as (a # us @ vs) st td" and "3 \<le> length (a # us @ vs)" and "st a = RUNNING"
    and "\<forall>x\<in>set (us @ vs). st x = READY" and "\<forall>x\<in>set (a # us). td x = foo_with_scheduling x" and "\<forall>x\<in>set vs. td x = [Out x]"
  shows "\<exists>s' st' td'. ring_run_uthreads s out = ring_run_uthreads s' (out @ a # us) \<and> ring_round s' as (vs @ a # us) st' td' \<and>
    st' (hd (vs @ [a])) = RUNNING \<and> (\<forall>x\<in>set (tl (vs @ a # us)). st' x = READY) \<and> (\<forall>x\<in>set (a # us @ vs). td' x = [Out x])"
  using assms
proof (induction us arbitrary: s a vs st td out)
  case Nil
  have d: "a \<notin> set vs" using round_distinct [OF Nil.prems(1)] by simp
  have ta: "td a = [Out a, Yield, Out a]" using Nil.prems(5) by (simp add: foo_with_scheduling_def)
  obtain s1 where s1: "ring_run_uthreads s out = ring_run_uthreads s1 (out @ [a])"
    "ring_round s1 as (a # vs) st (td(a := [Yield, Out a]))"
    using round_out [of s as a vs st td a "[Yield, Out a]" out] Nil.prems(1) ta by auto
  obtain v w ws where vs: "vs = v # w # ws" using Nil.prems(2) by (cases vs; cases "tl vs") auto
  have "into_yield st (td(a := [Yield, Out a])) a (st a) [Out a]" by (simp add: into_yield_def)
  from round_run_switch [of s1 as a "[]" v "w # ws", OF _ _ this, where out = "out @ [a]"] s1(2) vs Nil.prems(3,4)
  obtain s2 where s2: "ring_run_uthreads s1 (out @ [a]) = ring_run_uthreads s2 (out @ [a])"
    "ring_round s2 as (v # (w # ws) @ [a]) (st(a := READY, v := RUNNING)) (td(a := [Out a]))"
    by (auto simp: fun_upd_upd)
  have "distinct (v # w # ws @ [a])" using round_distinct [OF s2(2)] by simp
  define st2 td2 where e: "st2 = st(a := READY, v := RUNNING)" "td2 = td(a := [Out a])"
  have "ring_round s2 as (vs @ [a]) st2 td2" using s2(2) vs by (simp add: e)
  moreover have "st2 (hd (vs @ [a])) = RUNNING \<and> (\<forall>x\<in>set (tl (vs @ [a])). st2 x = READY) \<and> (\<forall>x\<in>set (a # vs). td2 x = [Out x])"
    using \<open>distinct (v # w # ws @ [a])\<close> vs Nil.prems(4,6) by (auto simp: e)
  ultimately show ?case using s1(1) s2(1) by (intro exI [of _ s2] exI [of _ st2] exI [of _ td2]) simp
next
  case (Cons u us)
  have ta: "td a = [Out a, Yield, Out a]" using Cons.prems(5) by (simp add: foo_with_scheduling_def)
  have d: "distinct (a # u # us @ vs)" using round_distinct [OF Cons.prems(1)] by simp
  obtain s1 where s1: "ring_run_uthreads s out = ring_run_uthreads s1 (out @ [a])"
    "ring_round s1 as (a # u # us @ vs) st (td(a := [Yield, Out a]))"
    using round_out [of s as a "u # us @ vs" st td a "[Yield, Out a]" out] Cons.prems(1) ta by auto
  have ne: "us @ vs \<noteq> []" using Cons.prems(2) by (cases us) auto
  have "into_yield st (td(a := [Yield, Out a])) a (st a) [Out a]" by (simp add: into_yield_def)
  from round_run_switch [of s1 as a "[]" u "us @ vs", OF _ ne this, where out = "out @ [a]"] s1(2) Cons.prems(3,4)
  obtain s2 where s2: "ring_run_uthreads s1 (out @ [a]) = ring_run_uthreads s2 (out @ [a])"
    "ring_round s2 as (u # us @ vs @ [a]) (st(a := READY, u := RUNNING)) (td(a := [Out a]))"
    by (auto simp: fun_upd_upd)
  from Cons.IH [OF s2(2), where out = "out @ [a]"] Cons.prems(2,4,5,6) d
  obtain s' st' td' where "ring_run_uthreads s2 (out @ [a]) = ring_run_uthreads s' ((out @ [a]) @ u # us)"
    "ring_round s' as ((vs @ [a]) @ u # us) st' td'" "st' (hd ((vs @ [a]) @ [u])) = RUNNING"
    "\<forall>x\<in>set (tl ((vs @ [a]) @ u # us)). st' x = READY" "\<forall>x\<in>set (u # us @ vs @ [a]). td' x = [Out x]"
    by fastforce
  then show ?case using s1(1) s2(1)
    by (intro exI [of _ s'] exI [of _ st'] exI [of _ td']) (auto simp: hd_append split: if_splits)
qed

text \<open>Second round: each thread outputs again and ends; the last one finds nobody ready.\<close>

lemma second_round:
  assumes "ring_round s as (a # us @ vs) st td" and "3 \<le> length (a # us @ vs)" and "st a = RUNNING"
    and "\<forall>x\<in>set us. st x = READY" and "\<forall>x\<in>set vs. st x = IDLE" and "\<forall>x\<in>set (a # us). td x = [Out x]"
    and "\<forall>x\<in>set vs. td x = []"
  shows "\<exists>s'. ring_run_uthreads s out = Some (Inr (s', out @ a # us)) \<and> sc_is_finished s' \<and> ring s' as \<and>
    (\<forall>x\<in>set (a # us @ vs). todo_of (sc_heap s') x = [])"
  using assms
proof (induction us arbitrary: s a vs st td out)
  case Nil
  obtain s1 where s1: "ring_run_uthreads s out = ring_run_uthreads s1 (out @ [a])"
    "ring_round s1 as (a # vs) st (td(a := []))"
    using round_out [of s as a vs st td a "[]" out] Nil.prems(1,6) by auto
  have i: "into_yield st (td(a := [])) a TERMINATED []" by (simp add: into_yield_def)
  have "\<forall>x\<in>set (butlast (a # vs)). st x \<noteq> READY" using Nil.prems(3,5) by (auto dest: in_set_butlastD split: if_splits)
  from round_run_stop [OF s1(2) i this, where out = "out @ [a]"] s1(1) Nil.prems(3,7) show ?case by (auto split: if_splits)
next
  case (Cons u us)
  have d: "distinct (a # u # us @ vs)" using round_distinct [OF Cons.prems(1)] by simp
  obtain s1 where s1: "ring_run_uthreads s out = ring_run_uthreads s1 (out @ [a])"
    "ring_round s1 as (a # u # us @ vs) st (td(a := []))"
    using round_out [of s as a "u # us @ vs" st td a "[]" out] Cons.prems(1,6) by auto
  have ne: "us @ vs \<noteq> []" using Cons.prems(2) by (cases us) auto
  have "into_yield st (td(a := [])) a TERMINATED []" by (simp add: into_yield_def)
  from round_run_switch [of s1 as a "[]" u "us @ vs", OF _ ne this, where out = "out @ [a]"] s1(2) Cons.prems(3,4)
  obtain s2 where s2: "ring_run_uthreads s1 (out @ [a]) = ring_run_uthreads s2 (out @ [a])"
    "ring_round s2 as (u # us @ vs @ [a]) (st(a := IDLE, u := RUNNING)) (td(a := []))"
    by (auto simp: fun_upd_upd)
  from Cons.IH [OF s2(2), where out = "out @ [a]"] Cons.prems(2,4-7) d
  obtain s' where "ring_run_uthreads s2 (out @ [a]) = Some (Inr (s', (out @ [a]) @ u # us))" "sc_is_finished s'" "ring s' as"
    "\<forall>x\<in>set (u # us @ vs @ [a]). todo_of (sc_heap s') x = []" by fastforce
  then show ?case using s1(1) s2(1) by auto
qed

text \<open>What \<open>main\<close> builds: from the head the last task, then the others in the order they were added.\<close>

lemma ring_add_new:
  assumes R: "ring s as" and st: "\<forall>x\<in>set as. status_of (sc_heap s) x \<noteq> IDLE" and a: "sc_heap s a = None"
  shows "\<exists>s'. ring_add_to_scheduler True True (Some a) True p s = Inr (0, s') \<and>
    ring s' (a # tl as @ (if as = [] then [] else [hd as])) \<and> sc_is_finished s' = sc_is_finished s \<and>
    status_of (sc_heap s') a = READY \<and> todo_of (sc_heap s') a = p \<and>
    (\<forall>x\<in>set as. status_of (sc_heap s') x = status_of (sc_heap s) x \<and> todo_of (sc_heap s') x = todo_of (sc_heap s) x)"
proof -
  have f: "ring_find (sc_heap s) IDLE (nat (sc_size s)) 0 (sc_head s) = Inr (length as, sc_head s)"
    using ring_find_path [of "sc_heap s" "sc_head s" as "sc_head s" IDLE "length as" 0] R st by (simp add: ring_def)
  obtain s1 where s1: "ring_create_uthread True True (Some a) s = Inr (0, s1)"
    "ring s1 (a # tl as @ (if as = [] then [] else [hd as]))"
    "\<forall>b. b \<noteq> a \<longrightarrow> status_of (sc_heap s1) b = status_of (sc_heap s) b \<and> todo_of (sc_heap s1) b = todo_of (sc_heap s) b"
    using ring_create [OF R a] by blast
  have fin: "sc_is_finished s1 = sc_is_finished s"
    using s1(1) by (auto simp: ring_create_uthread_def Let_def ebind_Inr_iff split: option.splits)
  have hd: "sc_head s1 = Some a" and "a \<in> dom (sc_heap s1)" using s1(2) by (auto simp: ring_def)
  then obtain n where n: "sc_heap s1 a = Some n" by blast
  let ?n = "n\<lparr>un_status := READY, un_todo := p\<rparr>"
  let ?s' = "s1\<lparr>sc_heap := (sc_heap s1)(a \<mapsto> ?n)\<rparr>"
  have "ring_add_to_scheduler True True (Some a) True p s = Inr (0, ?s')"
    using f s1(1) hd n R by (simp add: ring_add_to_scheduler_def set_ready_def ring_def)
  moreover have "ring ?s' (a # tl as @ (if as = [] then [] else [hd as]))" by (rule ring_upd [OF s1(2) n]) simp
  moreover have "a \<notin> set as" using R a by (auto simp: ring_def)
  ultimately show ?thesis using fin s1(3) by (auto simp: status_of_def todo_of_def)
qed

definition test_ring :: "nat \<Rightarrow> nat list" where
  "test_ring n = (if n = 0 then [] else (n - 1) # [0..<n - 1])"

lemma ring_main_sched_ring:
  "\<exists>s. ring_main_sched True None good_answers n = Inr s \<and> ring s (test_ring n) \<and> \<not> sc_is_finished s \<and>
   (\<forall>a<n. status_of (sc_heap s) a = READY \<and> todo_of (sc_heap s) a = foo_with_scheduling a)"
proof (induction n)
  case 0
  show ?case by (simp add: ring_main_sched_def ring_init_scheduler_def ring_def test_ring_def)
next
  case (Suc n)
  then obtain s where s: "ring_main_sched True None good_answers n = Inr s" "ring s (test_ring n)" "\<not> sc_is_finished s"
    "\<forall>a<n. status_of (sc_heap s) a = READY \<and> todo_of (sc_heap s) a = foo_with_scheduling a" by blast
  have set: "set (test_ring n) = {0..<n}" by (cases n) (auto simp: test_ring_def)
  then have "n \<notin> dom (sc_heap s)" using s(2) by (simp add: ring_def)
  then have fr: "sc_heap s n = None" by (simp add: domIff)
  have ni: "\<forall>a\<in>set (test_ring n). status_of (sc_heap s) a \<noteq> IDLE" using s(4) set by simp
  obtain s' where s': "ring_add_to_scheduler True True (Some n) True (foo_with_scheduling n) s = Inr (0, s')"
     "ring s' (n # tl (test_ring n) @ (if test_ring n = [] then [] else [hd (test_ring n)]))"
     "status_of (sc_heap s') n = READY" "todo_of (sc_heap s') n = foo_with_scheduling n" "sc_is_finished s' = sc_is_finished s"
     "\<forall>b\<in>set (test_ring n). status_of (sc_heap s') b = status_of (sc_heap s) b \<and> todo_of (sc_heap s') b = todo_of (sc_heap s) b"
    using ring_add_new [OF s(2) ni fr, of "foo_with_scheduling n"] by blast
  have "n # tl (test_ring n) @ (if test_ring n = [] then [] else [hd (test_ring n)]) = test_ring (Suc n)"
    by (cases n) (simp_all add: test_ring_def)
  moreover have "ring_main_sched True None good_answers (Suc n) = Inr s'"
    using s(1) s'(1) by (simp add: ring_main_sched_def ring_main_add_def good_answers_def ring_init_scheduler_def)
  ultimately show ?case using s' s set by (intro exI [of _ s']) (auto simp: less_Suc_eq)
qed

section \<open>Properties\<close>

text \<open>C18: With the second scheduler too every run of finite threads returns, whatever the threads do: no
  fault, and the ring intact, so that \<open>destroy_scheduler\<close> then frees every node.\<close>

theorem ring_run_scheduler_returns:
  assumes "ring s as" and "\<not> sc_is_finished s"
  shows "\<exists>s' out. ring_run_scheduler s = Some (Inr (s', out)) \<and> ring s' as \<and> ring_destroy_scheduler s' = Inr Map.empty"
proof (cases "\<exists>b\<in>set as. status_of (sc_heap s) b = READY")
  case False
  then show ?thesis using ring_start_none [OF assms] assms(1) ring_destroy_frees by blast
next
  case True
  then obtain xs b ys where b: "as = xs @ b # ys" "status_of (sc_heap s) b = READY" "\<forall>x\<in>set xs. status_of (sc_heap s) x \<noteq> READY"
    using split_list_first_prop [of as "\<lambda>b. status_of (sc_heap s) b = READY"] by blast
  from ring_start [of s xs b ys] assms b obtain s1 where "ring_run_scheduler s = ring_run_uthreads s1 []"
    "ring_round s1 as (b # ys @ xs) ((status_of (sc_heap s))(b := RUNNING)) (todo_of (sc_heap s))" by blast
  with round_total [of s1 as "b # ys @ xs"] show ?thesis using ring_destroy_frees by fastforce
qed

theorem ring_run_scheduler_returns_witness:
  "\<exists>s' out. ring_run_scheduler ring_two = Some (Inr (s', out)) \<and> ring_destroy_scheduler s' = Inr Map.empty"
proof -
  have "ring ring_two (test_ring 2)" "\<not> sc_is_finished ring_two" using ring_main_sched_ring [of 2] by (simp_all add: ring_two_tasks)
  from ring_run_scheduler_returns [OF this] show ?thesis by blast
qed

text \<open>C19: The test of \<open>main.c\<close> with the second scheduler, for every number \<open>n\<close> of tasks from 3 on (the source:
  10), when the block of the scheduler held a zero \<open>head_uthread\<close> (\<open>init_scheduler\<close> does not set it: with
  anything else the program faults) and no allocation, mapping or \<open>getcontext\<close> fails: the
  tasks take turns, the last one added first, each of them outputs twice, so that the
  counter printed is \<open>2 * n\<close>, and \<open>destroy_scheduler\<close> frees everything.\<close>

theorem ring_test_output:
  assumes "3 \<le> n"
  shows "ring_main True None good_answers n = Some (Inr (test_ring n @ test_ring n, Map.empty)) \<and>
    length (test_ring n @ test_ring n) = 2 * n"
proof -
  let ?us = "[0..<n - 1]"
  have as: "test_ring n = (n - 1) # ?us" and len: "length (test_ring n) = n" using assms by (simp_all add: test_ring_def)
  obtain s where s: "ring_main_sched True None good_answers n = Inr s" and M: "ring s (test_ring n)" "\<not> sc_is_finished s"
    "\<forall>a<n. status_of (sc_heap s) a = READY \<and> todo_of (sc_heap s) a = foo_with_scheduling a" using ring_main_sched_ring by blast
  have R: "ring s ([] @ (n - 1) # ?us)" using M(1) as by simp
  obtain s1 where s1: "ring_run_scheduler s = ring_run_uthreads s1 []"
    "ring_round s1 (test_ring n) ((n - 1) # ?us @ []) ((status_of (sc_heap s))(n - 1 := RUNNING)) (todo_of (sc_heap s))"
    using ring_start [OF R] M assms as by auto
  from first_round [OF s1(2), where out = "[]"] M assms obtain s2 st td where
    s2: "ring_run_uthreads s1 [] = ring_run_uthreads s2 (test_ring n)" "ring_round s2 (test_ring n) ((n - 1) # ?us @ []) st td"
      "st (n - 1) = RUNNING" "\<forall>x\<in>set ?us. st x = READY" "\<forall>x\<in>set ((n - 1) # ?us). td x = [Out x]"
    by (auto simp: as)
  from second_round [OF s2(2), where out = "test_ring n"] s2(3-5) assms obtain s3 where
    s3: "ring_run_uthreads s2 (test_ring n) = Some (Inr (s3, test_ring n @ test_ring n))" "ring s3 (test_ring n)"
    by (auto simp: as)
  show ?thesis using s s1(1) s2(1) s3(1) ring_destroy_frees [OF s3(2)] len by (simp add: ring_main_def)
qed

theorem ring_test_output_witness:
  "ring_main True None good_answers 10 = Some (Inr ([9, 0, 1, 2, 3, 4, 5, 6, 7, 8, 9, 0, 1, 2, 3, 4, 5, 6, 7, 8], Map.empty))"
  using ring_test_output [of 10] by (simp add: test_ring_def upt_rec)

end
