(* ===== verification/My_Thread.thy ===== *)
theory My_Thread
  imports Prelude
begin

text \<open>
  The threads of \<open>lab1/src/6\<close>: \<open>my_thread/my_thread.c\<close> creates a thread with \<open>clone\<close> on a stack
  that it maps itself, and \<open>a.c\<close> starts \<open>N\<close> of them, sleeps, and unmaps the stacks.

  The address space is a partial map from byte addresses to protections; \<open>mmap\<close>, \<open>mprotect\<close> and
  \<open>munmap\<close> change it on a range, and what the kernel answers (the place of the mapping, success or
  failure, the thread id) is an argument. The heap of \<open>wrapper_data_t\<close> and the caller's
  \<open>my_thread_t\<close> objects are maps from addresses. A started thread runs the statements of
  \<open>wrapper\<close> one by one, each of them touching the first bytes of its stack; \<open>func\<close> is a list of
  atomic actions on a register and on the caller's globals.
\<close>

section \<open>The address space\<close>

datatype prot = PROT_NONE | PROT_RW

type_synonym vm = "addr \<rightharpoonup> prot"

definition GUARD_SIZE :: nat where "GUARD_SIZE = 2 ^ 12"

definition STACK_SIZE :: nat where "STACK_SIZE = 2 ^ 23"

definition set_range :: "addr \<Rightarrow> nat \<Rightarrow> prot option \<Rightarrow> vm \<Rightarrow> vm" where
  "set_range a len q vm = (\<lambda>x. if a \<le> x \<and> x < a + len then q else vm x)"

definition mmap :: "addr \<Rightarrow> nat \<Rightarrow> vm \<Rightarrow> vm" where
  "mmap a len = set_range a len (Some PROT_RW)"

definition mprotect_none :: "addr \<Rightarrow> nat \<Rightarrow> vm \<Rightarrow> vm" where
  "mprotect_none a len = set_range a len (Some PROT_NONE)"

definition munmap :: "addr \<Rightarrow> nat \<Rightarrow> vm \<Rightarrow> vm" where
  "munmap a len = set_range a len None"

text \<open>The ranges of \<open>GUARD_SIZE\<close> usable bytes that stay mapped at the addresses \<open>ls\<close>.\<close>

definition leaked :: "addr list \<Rightarrow> vm \<Rightarrow> vm" where
  "leaked ls vm = foldr (\<lambda>a. set_range a GUARD_SIZE (Some PROT_RW)) ls vm"

lemma leaked_simps [simp]:
  "leaked [] vm = vm" "leaked (a # ls) vm = set_range a GUARD_SIZE (Some PROT_RW) (leaked ls vm)"
  by (simp_all add: leaked_def)

text \<open>\<open>mmap(NULL, len, ...)\<close> never answers with a range that overlaps a mapping.\<close>

definition mmap_ok :: "vm \<Rightarrow> nat \<Rightarrow> addr option \<Rightarrow> bool" where
  "mmap_ok vm len r = (case r of None \<Rightarrow> True | Some a \<Rightarrow> \<forall>x. a \<le> x \<and> x < a + len \<longrightarrow> vm x = None)"

section \<open>Threads and the process\<close>

record my_thread_t =
  is_finished :: int
  mt_tid :: int
  mt_stack :: addr
  mt_guard :: addr

type_synonym 's action = "int \<times> 's \<Rightarrow> int \<times> 's"
type_synonym 's thread_func = "nat \<Rightarrow> 's action list"

record 's wrapper_data_t =
  wd_thread :: addr
  wd_func :: "'s thread_func"
  wd_arg :: nat

datatype 's wpc = W_Call | W_Body "'s action list" | W_Flag | W_Free_Data | W_Set_Flag | W_Return | W_Gone

text \<open>
  A started thread: its control point in \<open>wrapper\<close>, its locals \<open>data\<close> and \<open>flag\<close> (the latter as
  the object whose \<open>is_finished\<close> it points to), the register of \<open>func\<close>, and the stack pointer that
  \<open>clone\<close> was given. \<open>wk_owner\<close> is a ghost: the \<open>my_thread_t\<close> it was created for.
\<close>

record 's wtask =
  wk_pc :: "'s wpc"
  wk_data :: addr
  wk_flag :: addr
  wk_reg :: int
  wk_sp :: addr
  wk_owner :: addr

text \<open>\<open>mp_cleared\<close> is a ghost: the thread objects on which \<open>clear\<close> has unmapped a stack.\<close>

record 's mt_proc =
  mp_vm :: vm
  mp_threads :: "addr \<rightharpoonup> my_thread_t"
  mp_data :: "addr \<rightharpoonup> 's wrapper_data_t"
  mp_tasks :: "int \<rightharpoonup> 's wtask"
  mp_globals :: 's
  mp_cleared :: "addr set"

section \<open>Operations\<close>

text \<open>What the kernel and the allocator answer to the calls of \<open>mythread_create\<close>.\<close>

record mt_env =
  en_mmap :: "addr option"
  en_mprotect :: bool
  en_malloc :: ptr
  en_clone :: "int option"

definition mt_env_ok :: "mt_env \<Rightarrow> 's mt_proc \<Rightarrow> bool" where
  "mt_env_ok e p \<longleftrightarrow> mmap_ok (mp_vm p) (STACK_SIZE + GUARD_SIZE) (en_mmap e) \<and>
     malloc_ok (mp_data p) (en_malloc e) \<and>
     (case en_clone e of None \<Rightarrow> True | Some tid \<Rightarrow> 0 < tid \<and> mp_tasks p tid = None)"

definition mythread_create ::
  "mt_env \<Rightarrow> addr \<Rightarrow> 's thread_func \<Rightarrow> nat \<Rightarrow> 's mt_proc \<Rightarrow> fault + int \<times> 's mt_proc" where
  "mythread_create e thread func arg p = (case en_mmap e of None \<Rightarrow> Inr (-1, p)
   | Some stack \<Rightarrow>
     (let vm = mmap stack (STACK_SIZE + GUARD_SIZE) (mp_vm p) in
      if \<not> en_mprotect e then Inr (-1, p\<lparr>mp_vm := munmap stack STACK_SIZE vm\<rparr>)
      else
       let vm = mprotect_none stack GUARD_SIZE vm; guard = stack; stack = stack + GUARD_SIZE in
       ebind (store (mp_threads p) (Some thread) (mt_guard_update (\<lambda>_. guard) \<circ> mt_stack_update (\<lambda>_. stack))) (\<lambda>threads.
       case en_malloc e of None \<Rightarrow> Inl Null_Deref
       | Some d \<Rightarrow>
         (let heap = (mp_data p)(d \<mapsto> \<lparr>wd_thread = thread, wd_func = func, wd_arg = arg\<rparr>);
              p = p\<lparr>mp_vm := vm, mp_threads := threads, mp_data := heap\<rparr> in
          case en_clone e of
            None \<Rightarrow> ebind (store threads (Some thread) (mt_tid_update (\<lambda>_. -1))) (\<lambda>threads.
              Inr (-1, p\<lparr>mp_threads := threads, mp_vm := munmap guard (GUARD_SIZE + STACK_SIZE) vm\<rparr>))
          | Some tid \<Rightarrow> ebind (store threads (Some thread) (mt_tid_update (\<lambda>_. tid))) (\<lambda>threads.
              Inr (tid, p\<lparr>mp_threads := threads, mp_tasks := (mp_tasks p)(tid \<mapsto>
                \<lparr>wk_pc = W_Call, wk_data = d, wk_flag = 0, wk_reg = 0, wk_sp = stack + STACK_SIZE, wk_owner = thread\<rparr>)\<rparr>))))))"

text \<open>\<open>clear\<close>; its first argument is whether \<open>munmap\<close> succeeds.\<close>

definition clear :: "bool \<Rightarrow> addr \<Rightarrow> 's mt_proc \<Rightarrow> fault + int \<times> 's mt_proc" where
  "clear unmaps thread p = ebind (load (mp_threads p) (Some thread)) (\<lambda>t.
     if is_finished t = 0 then Inr (-1, p)
     else if \<not> unmaps then Inr (-1, p)
     else Inr (0, p\<lparr>mp_vm := munmap (mt_guard t) (STACK_SIZE + GUARD_SIZE) (mp_vm p),
                    mp_cleared := insert thread (mp_cleared p)\<rparr>))"

text \<open>
  An access to the \<open>depth\<close>-th byte of the stack below its top; every step of \<open>wrapper\<close> makes one to
  its own frame, at depth 1.
\<close>

definition touch_stack :: "vm \<Rightarrow> addr \<Rightarrow> nat \<Rightarrow> fault + unit" where
  "touch_stack vm sp depth = check (vm (sp - depth) = Some PROT_RW) (Bad_Addr (sp - depth))"

definition wrapper_exec :: "'s wtask \<Rightarrow> 's mt_proc \<Rightarrow> fault + 's wtask \<times> 's mt_proc" where
  "wrapper_exec w p = (case wk_pc w of
       W_Call \<Rightarrow> ebind (load (mp_data p) (Some (wk_data w))) (\<lambda>d.
         Inr (w\<lparr>wk_pc := W_Body (wd_func d (wd_arg d))\<rparr>, p))
     | W_Body [] \<Rightarrow> Inr (w\<lparr>wk_pc := W_Flag\<rparr>, p)
     | W_Body (act # acts) \<Rightarrow> (case act (wk_reg w, mp_globals p) of (r, g) \<Rightarrow>
         Inr (w\<lparr>wk_pc := W_Body acts, wk_reg := r\<rparr>, p\<lparr>mp_globals := g\<rparr>))
     | W_Flag \<Rightarrow> ebind (load (mp_data p) (Some (wk_data w))) (\<lambda>d.
         Inr (w\<lparr>wk_pc := W_Free_Data, wk_flag := wd_thread d\<rparr>, p))
     | W_Free_Data \<Rightarrow> ebind (release (mp_data p) (Some (wk_data w))) (\<lambda>heap.
         Inr (w\<lparr>wk_pc := W_Set_Flag\<rparr>, p\<lparr>mp_data := heap\<rparr>))
     | W_Set_Flag \<Rightarrow> ebind (store (mp_threads p) (Some (wk_flag w)) (is_finished_update (\<lambda>_. 1))) (\<lambda>threads.
         Inr (w\<lparr>wk_pc := W_Return\<rparr>, p\<lparr>mp_threads := threads\<rparr>))
     | _ \<Rightarrow> Inr (w\<lparr>wk_pc := W_Gone\<rparr>, p))"

text \<open>One step of the thread \<open>tid\<close>; \<open>None\<close> when it was not started or has ended.\<close>

definition wrapper_step :: "int \<Rightarrow> 's mt_proc \<Rightarrow> (fault + 's mt_proc) option" where
  "wrapper_step tid p = (case mp_tasks p tid of None \<Rightarrow> None
     | Some w \<Rightarrow> (case wk_pc w of W_Gone \<Rightarrow> None
       | _ \<Rightarrow> Some (ebind (touch_stack (mp_vm p) (wk_sp w) 1) (\<lambda>_.
           ebind (wrapper_exec w p) (\<lambda>(w', p'). Inr (p'\<lparr>mp_tasks := (mp_tasks p')(tid \<mapsto> w')\<rparr>))))))"

section \<open>One creation, one clearing\<close>

lemma sizes_pos [simp]: "0 < GUARD_SIZE" "0 < STACK_SIZE"
  by (simp_all add: GUARD_SIZE_def STACK_SIZE_def)

text \<open>The protection of an address in the mapping below the stack pointer \<open>sp\<close>.\<close>

definition stack_prot :: "addr \<Rightarrow> addr \<Rightarrow> prot option" where
  "stack_prot sp x = (if x < sp - (GUARD_SIZE + STACK_SIZE) \<or> sp \<le> x then None
     else if x < sp - STACK_SIZE then Some PROT_NONE else Some PROT_RW)"

lemma created_vm:
  assumes "sp = stack + (GUARD_SIZE + STACK_SIZE)"
  shows "mprotect_none stack GUARD_SIZE (mmap stack (STACK_SIZE + GUARD_SIZE) vm) x
       = (case stack_prot sp x of None \<Rightarrow> vm x | Some q \<Rightarrow> Some q)"
  using assms by (auto simp: stack_prot_def mprotect_none_def mmap_def set_range_def)

lemma munmap_vm:
  assumes "sp = stack + (GUARD_SIZE + STACK_SIZE)"
  shows "munmap stack (STACK_SIZE + GUARD_SIZE) vm x = (case stack_prot sp x of None \<Rightarrow> vm x | Some q \<Rightarrow> None)"
  using assms by (auto simp: stack_prot_def munmap_def set_range_def)

text \<open>
  Every answer of the kernel and of \<open>malloc\<close> to one \<open>mythread_create\<close>. When \<open>mprotect\<close> fails the
  last \<open>GUARD_SIZE\<close> bytes stay mapped; when \<open>clone\<close> fails the wrapper data stays allocated.
\<close>

lemma mythread_create_cases:
  assumes t: "mp_threads p th = Some t" and ok: "mt_env_ok e p"
  shows "mythread_create e th func arg p = (case en_mmap e of None \<Rightarrow> Inr (-1, p)
     | Some a \<Rightarrow> if \<not> en_mprotect e
         then Inr (-1, p\<lparr>mp_vm := set_range (a + STACK_SIZE) GUARD_SIZE (Some PROT_RW) (mp_vm p)\<rparr>)
       else (case en_malloc e of None \<Rightarrow> Inl Null_Deref
     | Some d \<Rightarrow>
       (let heap = (mp_data p)(d \<mapsto> \<lparr>wd_thread = th, wd_func = func, wd_arg = arg\<rparr>);
            made = t\<lparr>mt_stack := a + GUARD_SIZE, mt_guard := a\<rparr> in
        case en_clone e of
          None \<Rightarrow> Inr (-1, p\<lparr>mp_data := heap, mp_threads := (mp_threads p)(th \<mapsto> made\<lparr>mt_tid := -1\<rparr>)\<rparr>)
        | Some tid \<Rightarrow> Inr (tid, p\<lparr>
            mp_vm := mprotect_none a GUARD_SIZE (mmap a (STACK_SIZE + GUARD_SIZE) (mp_vm p)),
            mp_data := heap, mp_threads := (mp_threads p)(th \<mapsto> made\<lparr>mt_tid := tid\<rparr>),
            mp_tasks := (mp_tasks p)(tid \<mapsto> \<lparr>wk_pc = W_Call, wk_data = d, wk_flag = 0, wk_reg = 0,
              wk_sp = a + (GUARD_SIZE + STACK_SIZE), wk_owner = th\<rparr>)\<rparr>))))"
proof (cases "en_mmap e")
  case None
  then show ?thesis by (simp add: mythread_create_def)
next
  case (Some a)
  have free: "mp_vm p x = None" if "a \<le> x" "x < a + (STACK_SIZE + GUARD_SIZE)" for x
    using ok Some that by (simp add: mt_env_ok_def mmap_ok_def)
  have leak: "munmap a STACK_SIZE (mmap a (STACK_SIZE + GUARD_SIZE) (mp_vm p))
      = set_range (a + STACK_SIZE) GUARD_SIZE (Some PROT_RW) (mp_vm p)"
    using free by (auto simp: fun_eq_iff munmap_def mmap_def set_range_def)
  have undo: "munmap a (GUARD_SIZE + STACK_SIZE) (mprotect_none a GUARD_SIZE (mmap a (STACK_SIZE + GUARD_SIZE) (mp_vm p))) = mp_vm p"
    using free by (auto simp: fun_eq_iff munmap_def mprotect_none_def mmap_def set_range_def)
  show ?thesis using t Some
    by (auto simp: mythread_create_def Let_def leak undo store_def add.assoc split: option.splits)
qed

text \<open>
  The stack of a new thread: \<open>STACK_SIZE\<close> bytes below the stack pointer are usable, and an access
  in the \<open>GUARD_SIZE\<close> bytes below these is a fault.
\<close>

lemma created_stack:
  assumes "mythread_create e th func arg p = Inr (tid, p')" "mt_env_ok e p" "tid \<noteq> -1" "mp_threads p th = Some t"
  shows "\<exists>w. mp_tasks p' tid = Some w \<and> wk_pc w = W_Call \<and> wk_owner w = th \<and>
     (\<forall>depth. 0 < depth \<and> depth \<le> STACK_SIZE \<longrightarrow> touch_stack (mp_vm p') (wk_sp w) depth = Inr ()) \<and>
     (\<forall>depth. STACK_SIZE < depth \<and> depth \<le> STACK_SIZE + GUARD_SIZE \<longrightarrow>
        touch_stack (mp_vm p') (wk_sp w) depth = Inl (Bad_Addr (wk_sp w - depth)))"
  using assms(1,3) unfolding mythread_create_cases [OF assms(4,2)]
  by (auto simp: Let_def touch_stack_def check_def created_vm [OF refl] stack_prot_def
      split: option.splits if_splits)

text \<open>Creating a thread and, once it has set its flag, clearing it leaves the address space as it was.\<close>

lemma create_clear_vm:
  assumes c: "mythread_create e th func arg p = Inr (tid, p')" and ok: "mt_env_ok e p" and tid: "tid \<noteq> -1"
    and t: "mp_threads p th = Some t"
    and q: "mp_vm q = mp_vm p'" "mp_threads q th = map_option (is_finished_update (\<lambda>_. 1)) (mp_threads p' th)"
  shows "\<exists>q'. clear True th q = Inr (0, q') \<and> mp_vm q' = mp_vm p"
proof -
  obtain a where a: "en_mmap e = Some a" "mp_vm p' = mprotect_none a GUARD_SIZE (mmap a (STACK_SIZE + GUARD_SIZE) (mp_vm p))"
    "map_option mt_guard (mp_threads p' th) = Some a"
    using c tid unfolding mythread_create_cases [OF t ok] by (auto simp: Let_def split: option.splits if_splits)
  then have "munmap a (STACK_SIZE + GUARD_SIZE) (mp_vm p') = mp_vm p"
    using ok by (auto simp: fun_eq_iff munmap_def mprotect_none_def mmap_def set_range_def mt_env_ok_def mmap_ok_def)
  then show ?thesis using a(3) q by (auto simp: clear_def load_def)
qed

section \<open>The program\<close>

text \<open>
  \<open>a.c\<close>: the globals of the process are the counter \<open>g\<close>, the array \<open>args\<close> and the output.
  \<open>g++\<close> is a load and a store. The two calls of \<open>sleep\<close> in \<open>main\<close> promise nothing, so they are no
  steps; \<open>free(args)\<close> comes right before the end of the process and is not modelled.
\<close>

datatype a6_output = Arg int | Count int

record a6_globals =
  a6_g :: int
  a6_args :: "nat \<Rightarrow> int"
  a6_out :: "a6_output list"

definition a6_func :: "a6_globals thread_func" where
  "a6_func arg =
     [\<lambda>(r, s). (r, s\<lparr>a6_out := a6_out s @ [Arg (a6_args s arg)]\<rparr>),
      \<lambda>(r, s). (a6_g s, s),
      \<lambda>(r, s). (r, s\<lparr>a6_g := r + 1\<rparr>)]"

datatype a6_pc = M_Create nat | M_Print | M_Clear nat | M_Sleep

type_synonym a6_state = "a6_pc \<times> a6_globals mt_proc"

definition a6_main :: "nat \<Rightarrow> mt_env \<Rightarrow> bool \<Rightarrow> a6_state \<Rightarrow> fault + a6_state" where
  "a6_main n e unmaps s = (case s of (pc, p) \<Rightarrow> (case pc of
       M_Create i \<Rightarrow>
         if i < n then
           let g = mp_globals p; p = p\<lparr>mp_globals := g\<lparr>a6_args := (a6_args g)(i := int i)\<rparr>\<rparr> in
           ebind (mythread_create e i a6_func i p) (\<lambda>(success, p). Inr (M_Create (i + 1), p))
         else Inr (M_Print, p)
     | M_Print \<Rightarrow> let g = mp_globals p in
         Inr (M_Clear 0, p\<lparr>mp_globals := g\<lparr>a6_out := a6_out g @ [Count (a6_g g)]\<rparr>\<rparr>)
     | M_Clear i \<Rightarrow>
         if i < n then ebind (clear unmaps i p) (\<lambda>(err, p). Inr (M_Clear (i + 1), p))
         else Inr (M_Sleep, p)
     | M_Sleep \<Rightarrow> Inr (M_Sleep, p)))"

text \<open>
  A step of \<open>main\<close>, the kernel answering as it may (and, for the theorems that assume more of it,
  as \<open>E\<close> allows), or a step of a thread.
\<close>

inductive a6_step :: "nat \<Rightarrow> (mt_env \<Rightarrow> bool) \<Rightarrow> a6_state \<Rightarrow> a6_state \<Rightarrow> bool" for n E where
  a6_main_moves: "mt_env_ok e p \<Longrightarrow> E e \<Longrightarrow> a6_main n e unmaps (pc, p) = Inr s \<Longrightarrow> a6_step n E (pc, p) s"
| a6_thread_moves: "wrapper_step tid p = Some (Inr p') \<Longrightarrow> a6_step n E (pc, p) (pc, p')"

text \<open>
  The start of \<open>main\<close>: the \<open>threads\<close> array is on the stack and not initialised; \<open>flags\<close> are the
  bytes it happens to hold for \<open>is_finished\<close>.
\<close>

definition a6_init :: "nat \<Rightarrow> (nat \<Rightarrow> int) \<Rightarrow> vm \<Rightarrow> a6_globals mt_proc" where
  "a6_init n flags vm = \<lparr>mp_vm = vm,
     mp_threads = (\<lambda>i. if i < n then Some \<lparr>is_finished = flags i, mt_tid = 0, mt_stack = 0, mt_guard = 0\<rparr> else None),
     mp_data = Map.empty, mp_tasks = Map.empty,
     mp_globals = \<lparr>a6_g = 0, a6_args = (\<lambda>_. 0), a6_out = []\<rparr>, mp_cleared = {}\<rparr>"

section \<open>Invariant\<close>

text \<open>A thread is live until it has set \<open>is_finished\<close>.\<close>

definition live :: "'s wtask \<Rightarrow> bool" where
  "live w \<longleftrightarrow> (case wk_pc w of W_Return \<Rightarrow> False | W_Gone \<Rightarrow> False | _ \<Rightarrow> True)"

definition has_data :: "'s wtask \<Rightarrow> bool" where
  "has_data w \<longleftrightarrow> (case wk_pc w of W_Call \<Rightarrow> True | W_Body _ \<Rightarrow> True | W_Flag \<Rightarrow> True | W_Free_Data \<Rightarrow> True | _ \<Rightarrow> False)"

definition task_ok :: "'s mt_proc \<Rightarrow> 's wtask \<Rightarrow> bool" where
  "task_ok p w \<longleftrightarrow> GUARD_SIZE + STACK_SIZE \<le> wk_sp w \<and>
     (\<exists>t. mp_threads p (wk_owner w) = Some t \<and> mt_guard t + (GUARD_SIZE + STACK_SIZE) = wk_sp w \<and>
          (is_finished t = 0 \<longleftrightarrow> live w)) \<and>
     (has_data w \<longrightarrow> (\<exists>d. mp_data p (wk_data w) = Some d \<and> wd_thread d = wk_owner w)) \<and>
     (wk_pc w = W_Free_Data \<or> wk_pc w = W_Set_Flag \<longrightarrow> wk_flag w = wk_owner w)"

definition apart :: "'s wtask \<Rightarrow> 's wtask \<Rightarrow> bool" where
  "apart v w \<longleftrightarrow> wk_owner v \<noteq> wk_owner w \<and> (has_data v \<and> has_data w \<longrightarrow> wk_data v \<noteq> wk_data w) \<and>
     (\<forall>x. stack_prot (wk_sp v) x = None \<or> stack_prot (wk_sp w) x = None)"

definition vm_ok :: "vm \<Rightarrow> 's mt_proc \<Rightarrow> bool" where
  "vm_ok base p \<longleftrightarrow>
     (\<forall>tid w x. mp_tasks p tid = Some w \<and> wk_owner w \<notin> mp_cleared p \<and> stack_prot (wk_sp w) x \<noteq> None \<longrightarrow>
        mp_vm p x = stack_prot (wk_sp w) x \<and> base x = None) \<and>
     (\<forall>x. (\<forall>tid w. mp_tasks p tid = Some w \<and> wk_owner w \<notin> mp_cleared p \<longrightarrow> stack_prot (wk_sp w) x = None) \<longrightarrow>
        mp_vm p x = base x)"

definition mt_inv :: "vm \<Rightarrow> nat \<Rightarrow> 's mt_proc \<Rightarrow> bool" where
  "mt_inv base c p \<longleftrightarrow>
     (\<forall>tid w. mp_tasks p tid = Some w \<longrightarrow> task_ok p w \<and> wk_owner w < c) \<and>
     (\<forall>tid tid' v w. mp_tasks p tid = Some v \<and> mp_tasks p tid' = Some w \<and> tid \<noteq> tid' \<longrightarrow> apart v w) \<and>
     (\<forall>i t. mp_threads p i = Some t \<and> is_finished t \<noteq> 0 \<longrightarrow> (\<exists>tid w. mp_tasks p tid = Some w \<and> wk_owner w = i)) \<and>
     (\<forall>i\<in>mp_cleared p. \<exists>t. mp_threads p i = Some t \<and> is_finished t \<noteq> 0) \<and>
     vm_ok base p"

lemma mt_invI:
  assumes "\<And>tid w. mp_tasks p tid = Some w \<Longrightarrow> task_ok p w \<and> wk_owner w < c"
    and "\<And>tid tid' v w. mp_tasks p tid = Some v \<Longrightarrow> mp_tasks p tid' = Some w \<Longrightarrow> tid \<noteq> tid' \<Longrightarrow> apart v w"
    and "\<And>i t. mp_threads p i = Some t \<Longrightarrow> is_finished t \<noteq> 0 \<Longrightarrow> \<exists>tid w. mp_tasks p tid = Some w \<and> wk_owner w = i"
    and "\<And>i. i \<in> mp_cleared p \<Longrightarrow> \<exists>t. mp_threads p i = Some t \<and> is_finished t \<noteq> 0"
    and "vm_ok base p"
  shows "mt_inv base c p"
  unfolding mt_inv_def using assms by blast

lemma mt_inv_task: "mt_inv base c p \<Longrightarrow> mp_tasks p tid = Some w \<Longrightarrow> task_ok p w \<and> wk_owner w < c"
  by (simp add: mt_inv_def)

lemma mt_inv_apart:
  "mt_inv base c p \<Longrightarrow> mp_tasks p tid = Some v \<Longrightarrow> mp_tasks p tid' = Some w \<Longrightarrow> tid \<noteq> tid' \<Longrightarrow> apart v w"
  by (simp add: mt_inv_def)

lemma mt_inv_vm: "mt_inv base c p \<Longrightarrow> vm_ok base p"
  by (simp add: mt_inv_def)

lemma vm_okD: "vm_ok base p \<Longrightarrow> mp_tasks p tid = Some w \<Longrightarrow> wk_owner w \<notin> mp_cleared p \<Longrightarrow>
    stack_prot (wk_sp w) x = Some q \<Longrightarrow> mp_vm p x = Some q"
  unfolding vm_ok_def by force

text \<open>A live thread's stack has not been cleared, and so it is mapped.\<close>

lemma live_not_cleared: "mt_inv base c p \<Longrightarrow> mp_tasks p tid = Some w \<Longrightarrow> live w \<Longrightarrow> wk_owner w \<notin> mp_cleared p"
  using mt_inv_task by (fastforce simp: mt_inv_def task_ok_def)

lemma live_stack:
  assumes "mt_inv base c p" "mp_tasks p tid = Some w" "wk_owner w \<notin> mp_cleared p" "0 < depth" "depth \<le> STACK_SIZE"
  shows "touch_stack (mp_vm p) (wk_sp w) depth = Inr ()"
proof -
  have "GUARD_SIZE + STACK_SIZE \<le> wk_sp w" using mt_inv_task [OF assms(1,2)] by (simp add: task_ok_def)
  then have "stack_prot (wk_sp w) (wk_sp w - depth) = Some PROT_RW" using assms(4,5) by (auto simp: stack_prot_def)
  then have "mp_vm p (wk_sp w - depth) = Some PROT_RW"
    by (rule vm_okD [OF mt_inv_vm [OF assms(1)] assms(2,3)])
  then show ?thesis by (simp add: touch_stack_def)
qed

text \<open>A thread that moves, changing its own flag, its own data and the globals.\<close>

lemma mt_inv_move:
  assumes inv: "mt_inv base c p" and w: "mp_tasks p tid = Some w"
    and p': "mp_vm p' = mp_vm p" "mp_cleared p' = mp_cleared p" "mp_tasks p' = (mp_tasks p)(tid \<mapsto> w')"
    and w': "wk_owner w' = wk_owner w" "wk_sp w' = wk_sp w" "wk_data w' = wk_data w" "has_data w' \<Longrightarrow> has_data w"
    and thr: "\<And>i. i \<noteq> wk_owner w \<Longrightarrow> mp_threads p' i = mp_threads p i"
      "\<And>t. mp_threads p (wk_owner w) = Some t \<Longrightarrow> is_finished t \<noteq> 0 \<Longrightarrow>
        \<exists>t'. mp_threads p' (wk_owner w) = Some t' \<and> is_finished t' \<noteq> 0"
    and dat: "\<And>a. a \<noteq> wk_data w \<or> \<not> has_data w \<Longrightarrow> mp_data p' a = mp_data p a"
    and ok: "task_ok p' w'"
  shows "mt_inv base c p'"
proof -
  have other: "task_ok p' v \<and> wk_owner v < c" if v: "mp_tasks p u = Some v" "u \<noteq> tid" for u v
  proof -
    have a: "apart v w" by (rule mt_inv_apart [OF inv v(1) w v(2)])
    then have o: "mp_threads p' (wk_owner v) = mp_threads p (wk_owner v)" using thr(1) by (simp add: apart_def)
    moreover have "mp_data p' (wk_data v) = mp_data p (wk_data v)" if "has_data v"
      using a that by (intro dat) (auto simp: apart_def)
    ultimately show ?thesis using mt_inv_task [OF inv v(1)] by (auto simp: task_ok_def)
  qed
  have ap: "apart x y" if "mp_tasks p' u = Some x" "mp_tasks p' u' = Some y" "u \<noteq> u'" for u u' x y
    using that w' mt_inv_apart [OF inv] w by (auto simp: p' apart_def split: if_splits)
  have fin: "\<exists>u v. mp_tasks p' u = Some v \<and> wk_owner v = i" if f: "mp_threads p' i = Some t" "is_finished t \<noteq> 0" for i t
  proof (cases "i = wk_owner w")
    case True
    then show ?thesis using w'(1) by (auto simp: p' intro: exI [of _ tid])
  next
    case False
    then have "mp_threads p i = Some t" using f thr(1) by simp
    then obtain u v where "mp_tasks p u = Some v" "wk_owner v = i" using inv f(2) unfolding mt_inv_def by blast
    then show ?thesis using w False by (auto simp: p' intro!: exI [of _ u])
  qed
  have clr: "\<exists>t. mp_threads p' i = Some t \<and> is_finished t \<noteq> 0" if "i \<in> mp_cleared p" for i
    using that inv thr unfolding mt_inv_def by metis
  have "vm_ok base p'"
    using mt_inv_vm [OF inv] w w' by (auto simp: vm_ok_def p' split: if_splits) (metis option.inject)+
  moreover have "task_ok p' v \<and> wk_owner v < c" if "mp_tasks p' u = Some v" for u v
    using that mt_inv_task [OF inv w] other ok w'(1) by (auto simp: p' split: if_splits)
  ultimately show ?thesis using ap fin clr by (intro mt_invI) (simp_all only: p'(2))
qed

text \<open>
  No step of a live thread fails, and every step keeps the invariant and the frame of the process.
\<close>

lemma wrapper_exec_ok:
  assumes "task_ok p w"
  shows "\<exists>w' p'. wrapper_exec w p = Inr (w', p')"
  using assms
  by (auto simp: wrapper_exec_def task_ok_def has_data_def res_simps split: wpc.splits list.splits prod.splits)

lemma live_step:
  assumes inv: "mt_inv base c p" and w: "mp_tasks p tid = Some w" "live w"
  shows "\<exists>p'. wrapper_step tid p = Some (Inr p')"
proof -
  have "task_ok p w" using mt_inv_task [OF inv w(1)] ..
  then obtain w' p' where "wrapper_exec w p = Inr (w', p')" using wrapper_exec_ok by blast
  moreover have "touch_stack (mp_vm p) (wk_sp w) 1 = Inr ()"
    by (rule live_stack [OF inv w(1) live_not_cleared [OF inv w]]) (simp_all add: Suc_leI)
  ultimately show ?thesis using w
    by (auto simp: wrapper_step_def live_def res_simps split: wpc.splits)
qed

lemma wrapper_step_exec:
  assumes "wrapper_step tid p = Some (Inr p')"
  shows "\<exists>w w' p1. mp_tasks p tid = Some w \<and> wk_pc w \<noteq> W_Gone \<and> wrapper_exec w p = Inr (w', p1) \<and>
     p' = p1\<lparr>mp_tasks := (mp_tasks p1)(tid \<mapsto> w')\<rparr>"
  using assms by (auto simp: wrapper_step_def ebind_Inr_iff split: option.splits wpc.splits)

lemma wrapper_step_inv:
  assumes inv: "mt_inv base c p" and s: "wrapper_step tid p = Some (Inr p')"
  shows "mt_inv base c p' \<and> mp_cleared p' = mp_cleared p \<and> (\<forall>i\<ge>c. mp_threads p' i = mp_threads p i)"
proof -
  obtain w w' p1 where w: "mp_tasks p tid = Some w" and ng: "wk_pc w \<noteq> W_Gone" and e: "wrapper_exec w p = Inr (w', p1)"
    and p': "p' = p1\<lparr>mp_tasks := (mp_tasks p1)(tid \<mapsto> w')\<rparr>" using wrapper_step_exec [OF s] by blast
  have ok: "task_ok p w" using mt_inv_task [OF inv w] ..
  note move = mt_inv_move [OF inv w, of p' w']
  note defs [simp] = wrapper_exec_def p' task_ok_def has_data_def live_def
  have "mt_inv base c p'"
  proof (cases "wk_pc w")
    case W_Call
    show ?thesis by (rule move) (use W_Call e ok in auto)
  next
    case (W_Body acts)
    show ?thesis by (rule move) (use W_Body e ok in \<open>auto split: list.splits prod.splits\<close>)
  next
    case W_Flag
    show ?thesis by (rule move) (use W_Flag e ok in auto)
  next
    case W_Free_Data
    show ?thesis by (rule move) (use W_Free_Data e ok in auto)
  next
    case W_Set_Flag
    show ?thesis by (rule move) (use W_Set_Flag e ok in auto)
  next
    case W_Return
    show ?thesis by (rule move) (use W_Return e ok in auto)
  qed (use ng in simp)
  moreover have "mp_cleared p1 = mp_cleared p"
    using e by (auto simp: ebind_Inr_iff split: wpc.splits list.splits prod.splits)
  moreover have "mp_threads p1 i = mp_threads p i" if "c \<le> i" for i
    using e ok that mt_inv_task [OF inv w]
    by (auto simp: ebind_Inr_iff store_def split: wpc.splits list.splits prod.splits option.splits)
  ultimately show ?thesis by simp
qed

section \<open>Creating and clearing keep the invariant\<close>

lemma vm_ok_free:
  assumes "vm_ok base p" "mp_cleared p = {}" "mp_vm p x = None"
  shows "base x = None \<and> (\<forall>tid w. mp_tasks p tid = Some w \<longrightarrow> stack_prot (wk_sp w) x = None)"
proof -
  have "stack_prot (wk_sp w) x = None" if "mp_tasks p tid = Some w" for tid w
    using vm_okD [OF assms(1) that, of x] assms(2,3) by (cases "stack_prot (wk_sp w) x") auto
  moreover from this have "mp_vm p x = base x" using assms(1) unfolding vm_ok_def by blast
  ultimately show ?thesis using assms(3) by simp
qed

lemma vm_ok_uncleared:
  assumes "mp_cleared p = {}"
  shows "vm_ok base p \<longleftrightarrow>
    (\<forall>tid w x. mp_tasks p tid = Some w \<and> stack_prot (wk_sp w) x \<noteq> None \<longrightarrow>
        mp_vm p x = stack_prot (wk_sp w) x \<and> base x = None) \<and>
    (\<forall>x. (\<forall>tid w. mp_tasks p tid = Some w \<longrightarrow> stack_prot (wk_sp w) x = None) \<longrightarrow> mp_vm p x = base x)"
  using assms by (simp add: vm_ok_def)

text \<open>A new \<open>mp_vm\<close>, the heap of wrapper data extended, and the fields of one fresh thread object set.\<close>

lemma mt_inv_frame:
  assumes inv: "mt_inv base c p" and p': "mp_tasks p' = mp_tasks p" "mp_cleared p' = mp_cleared p" "vm_ok base' p'"
    and thr: "\<And>i. i \<noteq> c \<Longrightarrow> mp_threads p' i = mp_threads p i" "\<And>t. mp_threads p' c = Some t \<Longrightarrow> is_finished t = 0"
    and dat: "\<And>a d. mp_data p a = Some d \<Longrightarrow> mp_data p' a = Some d" and c: "mp_cleared p = {}"
  shows "mt_inv base' (Suc c) p'"
proof (rule mt_invI)
  fix tid w assume w: "mp_tasks p' tid = Some w"
  then have "task_ok p w" "wk_owner w < c" using mt_inv_task [OF inv] by (auto simp: p')
  then show "task_ok p' w \<and> wk_owner w < Suc c" using thr(1) dat by (fastforce simp: task_ok_def)
next
  fix i t assume "mp_threads p' i = Some t" "is_finished t \<noteq> 0"
  moreover from this have "i \<noteq> c" using thr(2) by auto
  ultimately show "\<exists>tid w. mp_tasks p' tid = Some w \<and> wk_owner w = i"
    using inv thr(1) unfolding mt_inv_def p' by metis
qed (use mt_inv_apart [OF inv] p' c in auto)

lemma create_inv_stack:
  fixes p :: "'s mt_proc"
  assumes inv: "mt_inv base c p" and c: "mp_cleared p = {}" and ok: "mt_env_ok e p"
    and e: "en_mmap e = Some a" "en_malloc e = Some d" "en_clone e = Some tid"
    and t: "is_finished made = 0" "mt_guard made = a"
  shows "mt_inv base (Suc c) (p\<lparr>mp_vm := mprotect_none a GUARD_SIZE (mmap a (STACK_SIZE + GUARD_SIZE) (mp_vm p)),
     mp_data := (mp_data p)(d \<mapsto> \<lparr>wd_thread = c, wd_func = func, wd_arg = arg\<rparr>),
     mp_threads := (mp_threads p)(c \<mapsto> made),
     mp_tasks := (mp_tasks p)(tid \<mapsto> \<lparr>wk_pc = W_Call, wk_data = d, wk_flag = 0, wk_reg = 0,
       wk_sp = a + (GUARD_SIZE + STACK_SIZE), wk_owner = c\<rparr>)\<rparr>)" (is "mt_inv _ _ ?p")
proof -
  define sp where "sp = a + (GUARD_SIZE + STACK_SIZE)"
  define new :: "'s wtask" where "new = \<lparr>wk_pc = W_Call, wk_data = d, wk_flag = 0, wk_reg = 0, wk_sp = sp, wk_owner = c\<rparr>"
  define p' where "p' = p\<lparr>mp_vm := mprotect_none a GUARD_SIZE (mmap a (STACK_SIZE + GUARD_SIZE) (mp_vm p)),
     mp_data := (mp_data p)(d \<mapsto> \<lparr>wd_thread = c, wd_func = func, wd_arg = arg\<rparr>),
     mp_threads := (mp_threads p)(c \<mapsto> made), mp_tasks := (mp_tasks p)(tid \<mapsto> new)\<rparr>"
  have fresh: "mp_data p d = None" "mp_tasks p tid = None" using ok e by (auto simp: mt_env_ok_def)
  have free: "mp_vm p x = None" if "stack_prot sp x \<noteq> None" for x
    using ok e(1) that by (auto simp: mt_env_ok_def mmap_ok_def stack_prot_def sp_def split: if_splits)
  have vm': "mp_vm p' x = (case stack_prot sp x of None \<Rightarrow> mp_vm p x | Some q \<Rightarrow> Some q)" for x
    unfolding p'_def by (simp add: created_vm [OF sp_def])
  note vmp = mt_inv_vm [OF inv, unfolded vm_ok_uncleared [OF c]]
  note gone = vm_ok_free [OF mt_inv_vm [OF inv] c free]
  have tasks: "mp_tasks p' u = (if u = tid then Some new else mp_tasks p u)" for u by (simp add: p'_def)
  have "task_ok p' new" using t by (simp add: task_ok_def new_def p'_def sp_def live_def has_data_def)
  moreover have "task_ok p' w \<and> wk_owner w < c" if "mp_tasks p u = Some w" for u w
  proof -
    have o: "task_ok p w" "wk_owner w < c" using mt_inv_task [OF inv that] by auto
    then have "mp_threads p' (wk_owner w) = mp_threads p (wk_owner w)" by (simp add: p'_def)
    moreover have "mp_data p' (wk_data w) = mp_data p (wk_data w)" if "has_data w"
      using o(1) that fresh(1) by (auto simp: task_ok_def p'_def)
    ultimately show ?thesis using o by (auto simp: task_ok_def)
  qed
  moreover have ap: "apart new w \<and> apart w new" if "mp_tasks p u = Some w" for u w
  proof -
    have o: "task_ok p w" "wk_owner w < c" using mt_inv_task [OF inv that] by auto
    have "\<forall>x. stack_prot sp x = None \<or> stack_prot (wk_sp w) x = None"
    proof
      fix x show "stack_prot sp x = None \<or> stack_prot (wk_sp w) x = None"
        using gone [of x] that by (cases "stack_prot sp x = None") simp_all
    qed
    moreover have "has_data w \<longrightarrow> wk_data w \<noteq> d" using o(1) fresh(1) by (auto simp: task_ok_def)
    ultimately show ?thesis using o(2) unfolding apart_def new_def by simp metis
  qed
  moreover have "vm_ok base p'"
  proof -
    have "mp_vm p' x = stack_prot (wk_sp w) x \<and> base x = None"
      if w: "mp_tasks p' u = Some w" and x: "stack_prot (wk_sp w) x \<noteq> None" for u w x
    proof (cases "u = tid")
      case True
      then show ?thesis using w x gone [of x] by (auto simp: tasks new_def vm')
    next
      case False
      then have "mp_tasks p u = Some w" using w by (simp add: tasks)
      moreover from this have "stack_prot sp x = None" using x gone [of x] by (cases "stack_prot sp x = None") simp_all
      ultimately show ?thesis using vmp x by (simp add: vm')
    qed
    moreover have "mp_vm p' x = base x" if x: "\<And>u w. mp_tasks p' u = Some w \<Longrightarrow> stack_prot (wk_sp w) x = None" for x
    proof -
      have "stack_prot sp x = None" using x [of tid new] by (simp add: tasks new_def)
      moreover have "stack_prot (wk_sp w) x = None" if "mp_tasks p u = Some w" for u w
        using x [of u w] that fresh by (cases "u = tid") (simp_all add: tasks)
      ultimately show ?thesis using vmp by (simp add: vm')
    qed
    moreover have "mp_cleared p' = {}" using c by (simp add: p'_def)
    ultimately show ?thesis unfolding vm_ok_uncleared [OF \<open>mp_cleared p' = {}\<close>] by blast
  qed
  moreover have "\<exists>u w. mp_tasks p' u = Some w \<and> wk_owner w = i" if f: "mp_threads p' i = Some x" "is_finished x \<noteq> 0" for i x
  proof -
    have "i \<noteq> c" using f t by (auto simp: p'_def)
    then have "mp_threads p i = Some x" using f(1) by (simp add: p'_def)
    then obtain u w where "mp_tasks p u = Some w" "wk_owner w = i" using inv f(2) unfolding mt_inv_def by blast
    moreover from this have "u \<noteq> tid" using fresh by auto
    ultimately have "mp_tasks p' u = Some w \<and> wk_owner w = i" by (simp add: tasks)
    then show ?thesis by blast
  qed
  moreover have "mp_cleared p' = {}" using c by (simp add: p'_def)
  moreover have "apart v w" if "mp_tasks p' u = Some v" "mp_tasks p' u' = Some w" "u \<noteq> u'" for u u' v w
    using that ap mt_inv_apart [OF inv] by (auto simp: tasks split: if_splits)
  moreover have "task_ok p' w \<and> wk_owner w < Suc c" if "mp_tasks p' u = Some w" for u w
    using that calculation(1,2) by (cases "u = tid") (auto simp: tasks new_def dest!: less_SucI)
  ultimately have "mt_inv base (Suc c) p'"
    by (intro mt_invI) auto
  then show ?thesis by (simp only: p'_def new_def sp_def)
qed

lemma mythread_create_inv:
  assumes inv: "mt_inv base c p" and cl: "mp_cleared p = {}" and ok: "mt_env_ok e p"
    and t: "mp_threads p c = Some t" "is_finished t = 0"
    and s: "mythread_create e c func arg p = Inr (r, p')"
  shows "\<exists>base'. mt_inv base' (Suc c) p' \<and> base \<subseteq>\<^sub>m base' \<and>
     (base' = base \<or> \<not> en_mprotect e \<and> (\<exists>a. base' = set_range a GUARD_SIZE (Some PROT_RW) base)) \<and> mp_cleared p' = {} \<and>
     (\<forall>i. i \<noteq> c \<longrightarrow> mp_threads p' i = mp_threads p i)"
proof (cases "en_mmap e")
  case None
  then have "p' = p" using s by (simp add: mythread_create_def)
  moreover have "mt_inv base (Suc c) p"
    by (rule mt_inv_frame [OF inv]) (use cl t mt_inv_vm [OF inv] in auto)
  ultimately show ?thesis using cl by (intro exI [of _ base]) simp
next
  case (Some a)
  note s = s [unfolded mythread_create_cases [OF t(1) ok]] and vm = mt_inv_vm [OF inv]
  show ?thesis
  proof (cases "en_mprotect e")
    case False
    let ?L = "set_range (a + STACK_SIZE) GUARD_SIZE (Some PROT_RW)"
    have p': "p' = p\<lparr>mp_vm := ?L (mp_vm p)\<rparr>" using s Some False by simp
    have free: "mp_vm p x = None" if "a + STACK_SIZE \<le> x" "x < a + STACK_SIZE + GUARD_SIZE" for x
      using ok Some that by (simp add: mt_env_ok_def mmap_ok_def)
    note gone = vm_ok_free [OF vm cl free]
    have "vm_ok (?L base) p'"
      using vm [unfolded vm_ok_uncleared [OF cl]] gone cl
      unfolding vm_ok_def p' by (simp add: set_range_def)
    then have "mt_inv (?L base) (Suc c) p'" by (intro mt_inv_frame [OF inv]) (use cl t p' in auto)
    moreover have "base \<subseteq>\<^sub>m ?L base" using gone by (auto simp: map_le_def set_range_def)
    ultimately show ?thesis using False cl p' by (intro exI [of _ "?L base"]) auto
  next
    case True
    then obtain d where d: "en_malloc e = Some d" using s Some by (cases "en_malloc e") auto
    have "mp_data p d = None" using ok d by (simp add: mt_env_ok_def)
    show ?thesis
    proof (cases "en_clone e")
      case None
      then have p': "p' = p\<lparr>mp_data := (mp_data p)(d \<mapsto> \<lparr>wd_thread = c, wd_func = func, wd_arg = arg\<rparr>),
          mp_threads := (mp_threads p)(c \<mapsto> t\<lparr>mt_stack := a + GUARD_SIZE, mt_guard := a, mt_tid := -1\<rparr>)\<rparr>"
        using s Some True d by (auto simp: Let_def)
      have "mt_inv base (Suc c) p'"
        by (rule mt_inv_frame [OF inv]) (use cl t p' vm \<open>mp_data p d = None\<close> in \<open>auto simp: vm_ok_def\<close>)
      then show ?thesis using cl p' by (intro exI [of _ base]) simp
    next
      case (Some tid)
      have "mt_inv base (Suc c) p'"
        using create_inv_stack [OF inv cl ok \<open>en_mmap e = Some a\<close> d Some,
            of "t\<lparr>mt_stack := a + GUARD_SIZE, mt_guard := a, mt_tid := tid\<rparr>" func arg]
          s \<open>en_mmap e = Some a\<close> True d Some t(2) by (auto simp: Let_def)
      then show ?thesis using cl s \<open>en_mmap e = Some a\<close> True d Some by (intro exI [of _ base]) (auto simp: Let_def)
    qed
  qed
qed

lemma clear_inv:
  assumes inv: "mt_inv base c p" and i: "i \<notin> mp_cleared p" and s: "clear unmaps i p = Inr (r, p')"
  shows "mt_inv base c p' \<and> mp_cleared p' \<subseteq> insert i (mp_cleared p)"
proof (cases "p' = p")
  case True
  then show ?thesis using inv by auto
next
  case False
  then obtain t where t: "mp_threads p i = Some t" "is_finished t \<noteq> 0"
    and p': "p' = p\<lparr>mp_vm := munmap (mt_guard t) (STACK_SIZE + GUARD_SIZE) (mp_vm p), mp_cleared := insert i (mp_cleared p)\<rparr>"
    using s by (auto simp: clear_def ebind_Inr_iff load_def split: option.splits if_splits)
  obtain tid w where w: "mp_tasks p tid = Some w" "wk_owner w = i" using inv t unfolding mt_inv_def by blast
  then have sp: "wk_sp w = mt_guard t + (GUARD_SIZE + STACK_SIZE)"
    using mt_inv_task [OF inv w(1)] t by (auto simp: task_ok_def)
  have vm': "mp_vm p' x = (case stack_prot (wk_sp w) x of None \<Rightarrow> mp_vm p x | Some q \<Rightarrow> None)" for x
    unfolding p' by (simp add: munmap_vm [OF sp])
  note vm = mt_inv_vm [OF inv, unfolded vm_ok_def]
  have "vm_ok base p'"
    unfolding vm_ok_def
  proof (intro conjI allI impI; (elim conjE)?)
    fix u v x assume v: "mp_tasks p' u = Some v" "wk_owner v \<notin> mp_cleared p'" "stack_prot (wk_sp v) x \<noteq> None"
    then have "mp_tasks p u = Some v" "u \<noteq> tid" "wk_owner v \<notin> mp_cleared p" using w by (auto simp: p')
    moreover from this have "stack_prot (wk_sp w) x = None"
      using mt_inv_apart [OF inv _ w(1), of u v] v(3) unfolding apart_def by metis
    ultimately show "mp_vm p' x = stack_prot (wk_sp v) x" "base x = None" using vm v(3) by (simp_all add: vm')
  next
    fix x assume x: "\<forall>u v. mp_tasks p' u = Some v \<and> wk_owner v \<notin> mp_cleared p' \<longrightarrow> stack_prot (wk_sp v) x = None"
    show "mp_vm p' x = base x"
    proof (cases "stack_prot (wk_sp w) x")
      case None
      have "stack_prot (wk_sp v) x = None" if v: "mp_tasks p u = Some v" "wk_owner v \<notin> mp_cleared p" for u v
      proof (cases "u = tid")
        case False
        then have "wk_owner v \<noteq> i" using mt_inv_apart [OF inv v(1) w(1)] w(2) by (simp add: apart_def)
        then show ?thesis using x v by (simp add: p')
      qed (use None v w in simp)
      then have "mp_vm p x = base x" using vm by blast
      then show ?thesis using None by (simp add: vm')
    next
      case (Some q)
      moreover have "base x = None" using conjunct1 [OF vm] Some w i by force
      ultimately show ?thesis by (simp add: vm')
    qed
  qed
  moreover have "task_ok p' v = task_ok p v" for v by (simp add: task_ok_def p')
  ultimately have "mt_inv base c p'" using inv t by (simp add: mt_inv_def p')
  then show ?thesis by (simp add: p')
qed

section \<open>The invariant of the program\<close>

lemma mt_inv_globals [simp]:
  "mt_inv base c (p\<lparr>mp_globals := g\<rparr>) = mt_inv base c p" "mt_env_ok e (p\<lparr>mp_globals := g\<rparr>) = mt_env_ok e p"
proof -
  have "task_ok (p\<lparr>mp_globals := g\<rparr>) w = task_ok p w" for w by (simp add: task_ok_def)
  then show "mt_inv base c (p\<lparr>mp_globals := g\<rparr>) = mt_inv base c p" by (simp add: mt_inv_def vm_ok_def)
  show "mt_env_ok e (p\<lparr>mp_globals := g\<rparr>) = mt_env_ok e p" by (simp add: mt_env_ok_def split: option.splits)
qed

definition a6_pc_ok :: "nat \<Rightarrow> nat \<Rightarrow> a6_pc \<Rightarrow> 's mt_proc \<Rightarrow> bool" where
  "a6_pc_ok n c pc p \<longleftrightarrow> (case pc of
      M_Create i \<Rightarrow> c = i \<and> mp_cleared p = {} \<and>
        (\<forall>j. i \<le> j \<and> j < n \<longrightarrow> (\<exists>t. mp_threads p j = Some t \<and> is_finished t = 0))
    | M_Print \<Rightarrow> mp_cleared p = {}
    | M_Clear i \<Rightarrow> mp_cleared p \<subseteq> {..<i}
    | M_Sleep \<Rightarrow> True)"

definition a6_inv :: "bool \<Rightarrow> vm \<Rightarrow> nat \<Rightarrow> a6_state \<Rightarrow> bool" where
  "a6_inv good vm n s \<longleftrightarrow> (\<exists>ls c. vm \<subseteq>\<^sub>m leaked ls vm \<and> (good \<longrightarrow> ls = []) \<and> length ls \<le> c \<and> c \<le> n \<and>
     mt_inv (leaked ls vm) c (snd s) \<and> a6_pc_ok n c (fst s) (snd s))"

lemma a6_invI:
  "vm \<subseteq>\<^sub>m leaked ls vm \<Longrightarrow> (good \<Longrightarrow> ls = []) \<Longrightarrow> length ls \<le> c \<Longrightarrow> c \<le> n \<Longrightarrow> mt_inv (leaked ls vm) c (snd s) \<Longrightarrow>
   a6_pc_ok n c (fst s) (snd s) \<Longrightarrow> a6_inv good vm n s"
  unfolding a6_inv_def by blast

lemma a6_invE:
  assumes "a6_inv good vm n s"
  obtains ls c where "vm \<subseteq>\<^sub>m leaked ls vm" "good \<longrightarrow> ls = []" "length ls \<le> c" "c \<le> n" "mt_inv (leaked ls vm) c (snd s)"
    "a6_pc_ok n c (fst s) (snd s)"
  using assms unfolding a6_inv_def by blast

lemma a6_inv_init: "(\<And>i. i < n \<Longrightarrow> flags i = 0) \<Longrightarrow> a6_inv good vm n (M_Create 0, a6_init n flags vm)"
  by (rule a6_invI [of _ "[]" _ 0]) (auto simp: a6_pc_ok_def mt_inv_def vm_ok_def a6_init_def split: if_splits)

lemma a6_main_inv:
  assumes inv: "a6_inv good vm n (pc, p)" and ok: "mt_env_ok e p" and E: "good \<Longrightarrow> en_mprotect e"
    and s: "a6_main n e unmaps (pc, p) = Inr s"
  shows "a6_inv good vm n s"
proof -
  from inv obtain ls c where b: "vm \<subseteq>\<^sub>m leaked ls vm" "good \<longrightarrow> ls = []" "length ls \<le> c" "c \<le> n"
    and mi: "mt_inv (leaked ls vm) c p" and pc: "a6_pc_ok n c pc p" by (rule a6_invE) simp
  note [simp] = a6_pc_ok_def
  show ?thesis
  proof (cases pc)
    case (M_Create i)
    show ?thesis
    proof (cases "i < n")
      case True
      let ?p = "p\<lparr>mp_globals := (mp_globals p)\<lparr>a6_args := (a6_args (mp_globals p))(i := int i)\<rparr>\<rparr>"
      obtain r p' where c': "mythread_create e i a6_func i ?p = Inr (r, p')" and s': "s = (M_Create (Suc i), p')"
        using s M_Create True by (auto simp: a6_main_def Let_def ebind_Inr_iff)
      obtain t where t: "mp_threads p i = Some t" "is_finished t = 0" using pc M_Create True by auto
      have "\<exists>base'. mt_inv base' (Suc i) p' \<and> leaked ls vm \<subseteq>\<^sub>m base' \<and>
          (base' = leaked ls vm \<or> \<not> en_mprotect e \<and> (\<exists>a. base' = set_range a GUARD_SIZE (Some PROT_RW) (leaked ls vm))) \<and>
          mp_cleared p' = {} \<and> (\<forall>j. j \<noteq> i \<longrightarrow> mp_threads p' j = mp_threads ?p j)"
        by (rule mythread_create_inv [where t = t]) (use mi ok pc M_Create t c' in auto)
      then obtain base' where b': "mt_inv base' (Suc i) p'" "leaked ls vm \<subseteq>\<^sub>m base'"
        "base' = leaked ls vm \<or> \<not> en_mprotect e \<and> (\<exists>a. base' = leaked (a # ls) vm)"
        "mp_cleared p' = {}" "\<And>j. j \<noteq> i \<Longrightarrow> mp_threads p' j = mp_threads p j" by auto
      then obtain ls' where l: "base' = leaked ls' vm" "length ls' \<le> Suc (length ls)" "en_mprotect e \<Longrightarrow> ls' = ls"
        by (metis le_SucI le_refl length_Cons)
      have "\<exists>t. mp_threads p' j = Some t \<and> is_finished t = 0" if "Suc i \<le> j" "j < n" for j
        using pc M_Create b'(5) [of j] that by simp
      moreover have "vm \<subseteq>\<^sub>m leaked ls' vm" using b(1) b'(2) unfolding l(1) by (rule map_le_trans)
      ultimately show ?thesis unfolding s'
        using b' b E l pc M_Create True by (intro a6_invI [of _ ls' _ "Suc i"]) auto
    next
      case False
      then show ?thesis using s M_Create b mi pc by (intro a6_invI [of _ ls _ c]) (auto simp: a6_main_def)
    qed
  next
    case M_Print
    then show ?thesis using s b mi pc by (intro a6_invI [of _ ls _ c]) (auto simp: a6_main_def Let_def)
  next
    case (M_Clear i)
    show ?thesis
    proof (cases "i < n")
      case True
      then obtain r p' where c': "clear unmaps i p = Inr (r, p')" and s': "s = (M_Clear (Suc i), p')"
        using s M_Clear by (auto simp: a6_main_def ebind_Inr_iff)
      have "mt_inv (leaked ls vm) c p' \<and> mp_cleared p' \<subseteq> insert i (mp_cleared p)"
        by (rule clear_inv [OF mi _ c']) (use pc M_Clear in auto)
      then show ?thesis using b pc M_Clear unfolding s' by (intro a6_invI [of _ ls _ c]) auto
    next
      case False
      then show ?thesis using s M_Clear b mi by (intro a6_invI [of _ ls _ c]) (auto simp: a6_main_def)
    qed
  next
    case M_Sleep
    then show ?thesis using s b mi by (intro a6_invI [of _ ls _ c]) (auto simp: a6_main_def)
  qed
qed

lemma a6_step_inv:
  assumes "a6_step n E s s'" "a6_inv good vm n s" "\<And>e. good \<Longrightarrow> E e \<Longrightarrow> en_mprotect e"
  shows "a6_inv good vm n s'"
  using assms(1)
proof cases
  case (a6_main_moves e p unmaps pc)
  then show ?thesis using a6_main_inv [of good vm n pc p e unmaps s'] assms by simp
next
  case (a6_thread_moves tid p p' pc)
  from assms(2) obtain ls c where b: "vm \<subseteq>\<^sub>m leaked ls vm" "good \<longrightarrow> ls = []" "length ls \<le> c" "c \<le> n"
    and mi: "mt_inv (leaked ls vm) c p" and pc: "a6_pc_ok n c pc p" unfolding a6_thread_moves(1) by (rule a6_invE) simp
  have "mt_inv (leaked ls vm) c p' \<and> mp_cleared p' = mp_cleared p \<and> (\<forall>i\<ge>c. mp_threads p' i = mp_threads p i)"
    by (rule wrapper_step_inv [OF mi a6_thread_moves(3)])
  then show ?thesis using b pc unfolding a6_thread_moves
    by (intro a6_invI [of _ ls _ c]) (auto simp: a6_pc_ok_def split: a6_pc.splits)
qed

lemma a6_reach_inv:
  assumes "reach (a6_step n E) (M_Create 0, a6_init n flags vm) s" "\<And>i. i < n \<Longrightarrow> flags i = 0"
    "\<And>e. good \<Longrightarrow> E e \<Longrightarrow> en_mprotect e"
  shows "a6_inv good vm n s"
  using assms(1) a6_inv_init [OF assms(2)]
  by (rule reach_invariant) (use assms(3) a6_step_inv in blast)+

section \<open>Runs for the witnesses\<close>

text \<open>A run given by the moves it makes: those of \<open>main\<close> with the kernel's answers, or of a thread.\<close>

datatype a6_event = Main mt_env bool | Thread int

fun a6_exec :: "nat \<Rightarrow> a6_event list \<Rightarrow> a6_state \<Rightarrow> a6_state option" where
  "a6_exec n [] s = Some s"
| "a6_exec n (Main e u # es) s =
     (case a6_main n e u s of Inl _ \<Rightarrow> None | Inr s' \<Rightarrow> a6_exec n es s')"
| "a6_exec n (Thread tid # es) s =
     (case wrapper_step tid (snd s) of Some (Inr p') \<Rightarrow> a6_exec n es (fst s, p') | _ \<Rightarrow> None)"

text \<open>The answers are possible ones when the calls that do not create a thread are given none.\<close>

fun a6_answers_ok :: "nat \<Rightarrow> a6_event list \<Rightarrow> a6_state \<Rightarrow> bool" where
  "a6_answers_ok n [] s \<longleftrightarrow> True"
| "a6_answers_ok n (Main e u # es) s \<longleftrightarrow> mt_env_ok e (snd s) \<and> en_mprotect e \<and>
     (case a6_main n e u s of Inl _ \<Rightarrow> True | Inr s' \<Rightarrow> a6_answers_ok n es s')"
| "a6_answers_ok n (Thread tid # es) s \<longleftrightarrow>
     (case wrapper_step tid (snd s) of Some (Inr p') \<Rightarrow> a6_answers_ok n es (fst s, p') | _ \<Rightarrow> True)"

lemma a6_exec_reach:
  assumes "a6_exec n es s = Some s'" "a6_answers_ok n es s"
  shows "reach (a6_step n en_mprotect) s s'"
  using assms
proof (induction n es s rule: a6_exec.induct)
  case (1 n s)
  then show ?case by (simp add: reach_refl)
next
  case (2 n e u es s)
  then obtain s1 where s1: "a6_main n e u s = Inr s1" by (auto split: sum.splits)
  then have "a6_step n en_mprotect s s1"
    using 2(3) a6_main_moves [of e "snd s" en_mprotect n u "fst s" s1] by simp
  then show ?case using 2 s1 by (auto intro: reach_trans dest: reach_single)
next
  case (3 n tid es s)
  then obtain p1 where p1: "wrapper_step tid (snd s) = Some (Inr p1)" by (auto split: option.splits sum.splits)
  then have "a6_step n en_mprotect s (fst s, p1)"
    using a6_thread_moves [of tid "snd s" p1 n en_mprotect "fst s"] by simp
  then show ?case using 3 p1 by (auto intro: reach_trans dest: reach_single)
qed

text \<open>One thread; it runs to its end, or to the store of its flag, or not at all, before \<open>main\<close> clears it.\<close>

definition demo_answer :: mt_env where
  "demo_answer = \<lparr>en_mmap = Some 4096, en_mprotect = True, en_malloc = Some 1, en_clone = Some 7\<rparr>"

definition no_answer :: mt_env where
  "no_answer = \<lparr>en_mmap = None, en_mprotect = True, en_malloc = None, en_clone = None\<rparr>"

definition demo_run :: "nat \<Rightarrow> a6_event list" where
  "demo_run k = Main demo_answer True # replicate k (Thread 7)
     @ [Main no_answer True, Main no_answer True, Main no_answer True, Main no_answer True]"

lemmas a6_eval = a6_main_def mythread_create_def clear_def wrapper_step_def wrapper_exec_def
  touch_stack_def check_def load_def store_def release_def a6_func_def a6_init_def demo_answer_def no_answer_def
  mmap_def munmap_def mprotect_none_def set_range_def mt_env_ok_def mmap_ok_def GUARD_SIZE_def STACK_SIZE_def

lemma replicate_8: "replicate 8 x = [x, x, x, x, x, x, x, x]"
  by (simp add: eval_nat_numeral)

lemma demo_run_ok: "a6_answers_ok 1 (demo_run 8) (M_Create 0, a6_init 1 (\<lambda>_. 0) Map.empty)"
  by (simp add: demo_run_def replicate_8 a6_eval Let_def)

section \<open>Properties\<close>

text \<open>C14: Whatever the kernel answers and however the threads are interleaved with \<open>main\<close>, when the
  \<open>is_finished\<close> bytes of the array happened to be 0, a thread that has not yet set its flag never
  fails: its stack is mapped, its wrapper data is allocated, and \<open>clear\<close> has left both alone.\<close>

theorem my_threads_safe:
  assumes "reach (a6_step n E) (M_Create 0, a6_init n flags vm) (pc, p)"
    and "\<And>i. i < n \<Longrightarrow> flags i = 0" and "mp_tasks p tid = Some w" and "live w"
  shows "\<exists>p'. wrapper_step tid p = Some (Inr p')"
proof -
  have "a6_inv False vm n (pc, p)" by (rule a6_reach_inv [OF assms(1,2)]) simp_all
  then obtain base c where "mt_inv base c p" by (auto elim: a6_invE)
  then show ?thesis using assms(3,4) by (rule live_step)
qed

lemma demo_started:
  "\<exists>p w. a6_exec 1 [Main demo_answer True] (M_Create 0, a6_init 1 (\<lambda>_. 0) Map.empty) = Some (M_Create 1, p)
     \<and> mp_tasks p 7 = Some w \<and> live w"
  by (simp add: a6_eval Let_def live_def)

theorem my_threads_safe_witness:
  "\<exists>pc p w p'. reach (a6_step 1 en_mprotect) (M_Create 0, a6_init 1 (\<lambda>_. 0) Map.empty) (pc, p) \<and>
     mp_tasks p 7 = Some w \<and> live w \<and> wrapper_step 7 p = Some (Inr p')"
proof -
  obtain p w where e: "a6_exec 1 [Main demo_answer True] (M_Create 0, a6_init 1 (\<lambda>_. 0) Map.empty) = Some (M_Create 1, p)"
    and w: "mp_tasks p 7 = Some w" "live w" using demo_started by blast
  have r: "reach (a6_step 1 en_mprotect) (M_Create 0, a6_init 1 (\<lambda>_. 0) Map.empty) (M_Create 1, p)"
    by (rule a6_exec_reach [OF e]) (simp add: a6_eval Let_def)
  show ?thesis using my_threads_safe [OF r _ w] r w by blast
qed

text \<open>C13: Whatever the kernel and the allocator answer, when the \<open>is_finished\<close> bytes are initially 0: at
  every moment the address space is the one the process started with, at most one leaked range of
  \<open>GUARD_SIZE\<close> bytes for each creation (none when no \<open>mprotect\<close> fails), and, disjoint from both, the guard
  and the stack of each thread that was created and not yet cleared. Nothing else is mapped, unmapped
  or protected, so that when no \<open>mprotect\<close> fails and every \<open>clear\<close> succeeds \<open>main\<close> ends with the address
  space it started with.\<close>

theorem my_threads_address_space:
  assumes "reach (a6_step n E) (M_Create 0, a6_init n flags vm) (pc, p)"
    and "\<And>i. i < n \<Longrightarrow> flags i = 0"
  shows "\<exists>ls. length ls \<le> n \<and> ((\<forall>e. E e \<longrightarrow> en_mprotect e) \<longrightarrow> ls = []) \<and> vm \<subseteq>\<^sub>m leaked ls vm \<and>
         (\<forall>tid w x q. mp_tasks p tid = Some w \<and> wk_owner w \<notin> mp_cleared p \<and> stack_prot (wk_sp w) x = Some q
            \<longrightarrow> mp_vm p x = Some q \<and> leaked ls vm x = None) \<and>
         (\<forall>x. (\<forall>tid w. mp_tasks p tid = Some w \<and> wk_owner w \<notin> mp_cleared p \<longrightarrow> stack_prot (wk_sp w) x = None)
            \<longrightarrow> mp_vm p x = leaked ls vm x)"
proof -
  have "a6_inv (\<forall>e. E e \<longrightarrow> en_mprotect e) vm n (pc, p)" by (rule a6_reach_inv [OF assms]) simp_all
  then obtain ls c where ls: "length ls \<le> c" "c \<le> n" "(\<forall>e. E e \<longrightarrow> en_mprotect e) \<longrightarrow> ls = []" "vm \<subseteq>\<^sub>m leaked ls vm"
    and "mt_inv (leaked ls vm) c p" by (rule a6_invE) simp
  then have ok: "vm_ok (leaked ls vm) p" and n: "length ls \<le> n" by (simp_all add: mt_inv_vm)
  have "leaked ls vm x = None" if "mp_tasks p tid = Some w" "wk_owner w \<notin> mp_cleared p" "stack_prot (wk_sp w) x = Some q" for tid w x q
    using ok that unfolding vm_ok_def by force
  moreover have "mp_vm p x = Some q"
    if "mp_tasks p tid = Some w" "wk_owner w \<notin> mp_cleared p" "stack_prot (wk_sp w) x = Some q" for tid w x q
    using that by (rule vm_okD [OF ok])
  ultimately show ?thesis
    by (intro exI [of _ ls] conjI n ls(3,4) conjunct2 [OF ok [unfolded vm_ok_def]]) blast
qed

lemma demo_cleared:
  "\<exists>p. a6_exec 1 (demo_run 8) (M_Create 0, a6_init 1 (\<lambda>_. 0) Map.empty) = Some (M_Sleep, p) \<and>
     (\<exists>w. mp_tasks p 7 = Some w \<and> wk_pc w = W_Return \<and> wk_owner w \<in> mp_cleared p \<and> mp_tasks p = [7 \<mapsto> w]) \<and>
     wrapper_step 7 p = Some (Inl (Bad_Addr 8396799))"
  by (simp add: demo_run_def replicate_8 a6_eval Let_def)

lemma demo_cleared_reach:
  "\<exists>p w. reach (a6_step 1 en_mprotect) (M_Create 0, a6_init 1 (\<lambda>_. 0) Map.empty) (M_Sleep, p) \<and>
     mp_tasks p = [7 \<mapsto> w] \<and> wk_pc w = W_Return \<and> wk_owner w \<in> mp_cleared p \<and>
     wrapper_step 7 p = Some (Inl (Bad_Addr 8396799))"
  using demo_cleared a6_exec_reach [OF _ demo_run_ok] by blast

theorem my_threads_address_space_witness:
  "\<exists>p. reach (a6_step 1 en_mprotect) (M_Create 0, a6_init 1 (\<lambda>_. 0) Map.empty) (M_Sleep, p) \<and> mp_vm p = Map.empty"
proof -
  obtain p w where r: "reach (a6_step 1 en_mprotect) (M_Create 0, a6_init 1 (\<lambda>_. 0) Map.empty) (M_Sleep, p)"
    and w: "mp_tasks p = [7 \<mapsto> w]" "wk_owner w \<in> mp_cleared p" using demo_cleared_reach by blast
  from my_threads_address_space [OF r] obtain ls :: "addr list" where "ls = []"
    and e: "\<forall>x. (\<forall>tid w. mp_tasks p tid = Some w \<and> wk_owner w \<notin> mp_cleared p \<longrightarrow> stack_prot (wk_sp w) x = None)
      \<longrightarrow> mp_vm p x = leaked ls Map.empty x" by auto
  have "mp_vm p x = None" for x using e w \<open>ls = []\<close> by auto
  then show ?thesis using r by blast
qed

text \<open>The flag is set too early. There is a run, with no call failing, in which \<open>clear\<close> finds the
  flag of a thread set and unmaps its stack while the thread still has to return from \<open>wrapper\<close>
  and end: its next access to its stack is a fault, which ends the process.\<close>

theorem clear_unmaps_stack_in_use:
  "\<exists>p w sp. reach (a6_step 1 en_mprotect) (M_Create 0, a6_init 1 (\<lambda>_. 0) Map.empty) (M_Sleep, p) \<and>
     mp_tasks p 7 = Some w \<and> wk_pc w = W_Return \<and> wrapper_step 7 p = Some (Inl (Bad_Addr sp))"
  using demo_cleared_reach by fastforce

text \<open>
  \<open>mythread_create\<close> does not set \<open>is_finished\<close> to 0: when the byte was not 0, \<open>clear\<close> unmaps the
  stack of a thread that has not run yet.
\<close>

lemma garbage_flag_unmaps:
  "\<exists>p w. reach (a6_step 1 en_mprotect) (M_Create 0, a6_init 1 (\<lambda>_. 1) Map.empty) (M_Sleep, p) \<and>
     mp_tasks p 7 = Some w \<and> wk_pc w = W_Call \<and> wrapper_step 7 p = Some (Inl (Bad_Addr 8396799))"
proof -
  have ok: "a6_answers_ok 1 (demo_run 0) (M_Create 0, a6_init 1 (\<lambda>_. 1) Map.empty)"
    by (simp add: demo_run_def a6_eval Let_def)
  have "\<exists>p w. a6_exec 1 (demo_run 0) (M_Create 0, a6_init 1 (\<lambda>_. 1) Map.empty) = Some (M_Sleep, p) \<and>
      mp_tasks p 7 = Some w \<and> wk_pc w = W_Call \<and> wrapper_step 7 p = Some (Inl (Bad_Addr 8396799))"
    by (simp add: demo_run_def a6_eval Let_def)
  then show ?thesis using a6_exec_reach [OF _ ok] by blast
qed

end
