(* ===== verification/Pthreads.thy ===== *)
theory Pthreads
  imports Prelude
begin

text \<open>
  The POSIX threads machine on which the demonstrations of \<open>lab1/src/1\<close> to \<open>lab1/src/4\<close> run. A
  demonstration is a list of statements for \<open>main\<close> and one for each thread function, translated
  from its file statement by statement; \<open>thread_exec\<close> gives the effect of each of them on the threads, the
  global counter, the memory and the output.

  A thread has an entry in \<open>mc_threads\<close> as long as the system holds its resources: until it is
  joined or, if detached, until it ends. Memory is a map from addresses to blocks of cells: one
  cell for an \<open>int\<close>, a pointer or a \<open>char\<close>. Automatic variables whose address is passed on are
  blocks that end with their thread. What \<open>malloc\<close> and \<open>pthread_create\<close> answer is a choice.
\<close>

section \<open>Statements\<close>

datatype cell = Uninit | Int_Cell int | Char_Cell char | Ptr_Cell ptr

text \<open>
  Pointer variables are numbered by \<open>x\<close>, \<open>y\<close>, \<open>pthread_t\<close> variables by \<open>i\<close>, the cells of a block by
  \<open>off\<close>. \<open>Create i body detached x rc\<close> is \<open>pthread_create(&i, attr, body, x)\<close>, \<open>Join i x rc\<close> stores the result in
  \<open>x\<close>, \<open>Frame x k\<close> declares an automatic variable of \<open>k\<close> cells, \<open>Malloc x k\<close> allocates \<open>k\<close> cells,
  \<open>Put x off c\<close> and \<open>Put_Ptr x off y\<close> store into \<open>x[off]\<close>, \<open>Puts x s\<close> is \<open>strcpy\<close> or \<open>sprintf\<close>, \<open>Get y x off\<close> and
  \<open>Get_Num x off\<close> load from it, \<open>Null x\<close> sets a pointer to \<open>NULL\<close>. Variable 0 of a thread function is its argument. \<open>Create\<close> and \<open>Join\<close>
  carry what \<open>main\<close> returns when the call fails (\<open>None\<close>: the failure is not noticed).
\<close>

datatype stmt =
    Show_Ids                              \<comment> \<open>a \<open>printf\<close> of process and thread identifiers or fixed text\<close>
  | Show_Local | Show_Static | Show_Const | Show_Global
  | Set_Locals                            \<comment> \<open>\<open>local = 12 * mod; local_const = 13 * mod\<close>\<close>
  | Inc_Local | Load_Global | Store_Global
  | Sleep
  | Create nat "stmt list" bool nat "int option"
  | Join nat nat "int option"
  | Detach nat
  | Cancel nat
  | Set_Async
  | Cleanup_Push nat
  | Frame nat nat
  | Malloc nat nat
  | Put nat nat cell
  | Put_Ptr nat nat nat
  | Puts nat string
  | Get nat nat nat
  | Get_Num nat nat
  | Show_Num nat nat
  | Show_Str nat
  | Free nat
  | Null nat
  | Loop "stmt list"
  | Thread_Exit
  | Return_Ptr nat
  | Return int

section \<open>State\<close>

type_synonym tid = nat

record thread =
  pt_todo :: "stmt list"
  pt_ended :: bool
  pt_detached :: bool
  pt_mod :: int
  pt_local :: int
  pt_const :: int
  pt_reg :: int
  pt_var :: "nat \<Rightarrow> ptr"
  pt_frame :: "addr list"
  pt_result :: ptr
  pt_cancelled :: bool
  pt_async :: bool
  pt_cleanup :: "ptr list"

datatype shown = Ids | Local_Val int | Static_Val int | Const_Val int | Global_Val int | Num int | Str string

record machine =
  mc_threads :: "tid \<rightharpoonup> thread"
  mc_next :: tid
  mc_slot :: "nat \<rightharpoonup> tid"
  mc_global :: int
  mc_heap :: "addr \<rightharpoonup> cell list"
  mc_out :: "(tid \<times> shown) list"
  mc_exit :: "int option"

text \<open>The answers of the system: whether a thread can be created, its \<open>gettid() % 100\<close>, the block of \<open>malloc\<close>.\<close>

record sys_answer =
  an_created :: bool
  an_mod :: int
  an_block :: ptr

definition new_thread :: "stmt list \<Rightarrow> bool \<Rightarrow> int \<Rightarrow> ptr \<Rightarrow> thread" where
  "new_thread body detached md arg = \<lparr>pt_todo = body, pt_ended = False, pt_detached = detached, pt_mod = md,
     pt_local = 0, pt_const = 0, pt_reg = 0, pt_var = (\<lambda>_. None)(0 := arg), pt_frame = [], pt_result = None,
     pt_cancelled = False, pt_async = False, pt_cleanup = []\<rparr>"

text \<open>\<open>main\<close> is thread 0.\<close>

definition machine_init :: "stmt list \<Rightarrow> int \<Rightarrow> machine" where
  "machine_init main global = \<lparr>mc_threads = [0 \<mapsto> new_thread main False 0 None], mc_next = 1, mc_slot = Map.empty,
     mc_global = global, mc_heap = Map.empty, mc_out = [], mc_exit = None\<rparr>"

definition set_thread :: "tid \<Rightarrow> thread \<Rightarrow> machine \<Rightarrow> machine" where
  "set_thread t T m = m\<lparr>mc_threads := (mc_threads m)(t \<mapsto> T)\<rparr>"

definition set_threads :: "((tid \<rightharpoonup> thread) \<Rightarrow> (tid \<rightharpoonup> thread)) \<Rightarrow> machine \<Rightarrow> machine" where
  "set_threads f m = m\<lparr>mc_threads := f (mc_threads m)\<rparr>"

definition show_out :: "tid \<Rightarrow> shown \<Rightarrow> machine \<Rightarrow> machine" where
  "show_out t v m = m\<lparr>mc_out := mc_out m @ [(t, v)]\<rparr>"

section \<open>Memory\<close>

definition load_cell :: "(addr \<rightharpoonup> cell list) \<Rightarrow> ptr \<Rightarrow> nat \<Rightarrow> fault + cell" where
  "load_cell h p off = ebind (load h p) (\<lambda>b. if off < length b then Inr (b ! off) else Inl Out_Of_Bounds)"

definition store_cell :: "(addr \<rightharpoonup> cell list) \<Rightarrow> ptr \<Rightarrow> nat \<Rightarrow> cell \<Rightarrow> fault + (addr \<rightharpoonup> cell list)" where
  "store_cell h p off c = ebind (load h p) (\<lambda>b. if off < length b then store h p (\<lambda>b. b[off := c]) else Inl Out_Of_Bounds)"

text \<open>\<open>strcpy(p, s)\<close> and \<open>sprintf(p, "%s", s)\<close>: the characters of \<open>s\<close> and the terminating zero.\<close>

fun store_chars :: "(addr \<rightharpoonup> cell list) \<Rightarrow> ptr \<Rightarrow> nat \<Rightarrow> string \<Rightarrow> fault + (addr \<rightharpoonup> cell list)" where
  "store_chars h p off [] = store_cell h p off (Char_Cell (CHR 0x00))"
| "store_chars h p off (c # s) = ebind (store_cell h p off (Char_Cell c)) (\<lambda>h. store_chars h p (off + 1) s)"

text \<open>Reading a string up to its zero; the fuel is the number of cells that are left in the block.\<close>

fun read_chars :: "cell list \<Rightarrow> fault + string" where
  "read_chars [] = Inl Out_Of_Bounds"
| "read_chars (Char_Cell c # b) = (if c = CHR 0x00 then Inr [] else ebind (read_chars b) (\<lambda>s. Inr (c # s)))"
| "read_chars (_ # b) = Inl Out_Of_Bounds"

fun release_all :: "ptr list \<Rightarrow> (addr \<rightharpoonup> cell list) \<Rightarrow> fault + (addr \<rightharpoonup> cell list)" where
  "release_all [] h = Inr h"
| "release_all (p # ps) h = ebind (release h p) (release_all ps)"

section \<open>Steps\<close>

text \<open>The end of a thread: its automatic variables end; a detached thread leaves nothing behind.\<close>

definition end_thread :: "tid \<Rightarrow> thread \<Rightarrow> machine \<Rightarrow> fault + machine" where
  "end_thread t T m = ebind (release_all (map Some (pt_frame T)) (mc_heap m)) (\<lambda>h.
     let m = m\<lparr>mc_heap := h\<rparr> in
     Inr (if pt_detached T then m\<lparr>mc_threads := (mc_threads m)(t := None)\<rparr>
          else set_thread t (T\<lparr>pt_ended := True, pt_todo := []\<rparr>) m))"

text \<open>A cancellation request is acted upon at once by an asynchronous thread, else at a cancellation point.\<close>

fun cancellation_point :: "stmt list \<Rightarrow> bool" where
  "cancellation_point (Sleep # _) = True"
| "cancellation_point (Show_Ids # _) = True"
| "cancellation_point (Show_Str _ # _) = True"
| "cancellation_point (Join _ _ _ # _) = True"
| "cancellation_point _ = False"

definition act_on_cancel :: "tid \<Rightarrow> thread \<Rightarrow> machine \<Rightarrow> fault + machine" where
  "act_on_cancel t T m = ebind (release_all (pt_cleanup T) (mc_heap m)) (\<lambda>h. end_thread t T (m\<lparr>mc_heap := h\<rparr>))"

definition fail_with :: "int option \<Rightarrow> machine \<Rightarrow> fault + machine" where
  "fail_with rc m = Inr (m\<lparr>mc_exit := rc\<rparr>)"

text \<open>\<open>on_heap\<close>: a statement that only changes the memory.\<close>

definition on_heap :: "machine \<Rightarrow> fault + (addr \<rightharpoonup> cell list) \<Rightarrow> fault + machine" where
  "on_heap m r = ebind r (\<lambda>h. Inr (m\<lparr>mc_heap := h\<rparr>))"

fun as_ptr :: "cell \<Rightarrow> ptr" where
  "as_ptr (Ptr_Cell p) = p"
| "as_ptr _ = None"

fun as_int :: "cell \<Rightarrow> int" where
  "as_int (Int_Cell i) = i"
| "as_int _ = 0"

text \<open>The thread that a \<open>pthread_t\<close> variable stands for; using one that was never set is a fault.\<close>

definition on_slot :: "machine \<Rightarrow> nat \<Rightarrow> (tid \<Rightarrow> (fault + machine) option) \<Rightarrow> (fault + machine) option" where
  "on_slot m i f = (case mc_slot m i of None \<Rightarrow> Some (Inl (Bad_Addr i)) | Some u \<Rightarrow> f u)"

text \<open>One statement of thread \<open>t\<close>, \<open>T\<close> being the thread without that statement; \<open>None\<close> when it blocks.\<close>

definition exec_stmt :: "sys_answer \<Rightarrow> tid \<Rightarrow> thread \<Rightarrow> stmt \<Rightarrow> machine \<Rightarrow> (fault + machine) option" where
  "exec_stmt a t T s m = (let go = (\<lambda>T. set_thread t T m); var = pt_var T; h = mc_heap m in case s of
       Show_Ids \<Rightarrow> Some (Inr (show_out t Ids (go T)))
     | Show_Local \<Rightarrow> Some (Inr (show_out t (Local_Val (pt_local T)) (go T)))
     | Show_Static \<Rightarrow> Some (Inr (show_out t (Static_Val 11) (go T)))
     | Show_Const \<Rightarrow> Some (Inr (show_out t (Const_Val (pt_const T)) (go T)))
     | Show_Global \<Rightarrow> Some (Inr (show_out t (Global_Val (mc_global m)) (go T)))
     | Set_Locals \<Rightarrow> Some (Inr (go (T\<lparr>pt_local := 12 * pt_mod T, pt_const := 13 * pt_mod T\<rparr>)))
     | Inc_Local \<Rightarrow> Some (Inr (go (T\<lparr>pt_local := pt_local T + 1\<rparr>)))
     | Load_Global \<Rightarrow> Some (Inr (go (T\<lparr>pt_reg := mc_global m\<rparr>)))
     | Store_Global \<Rightarrow> Some (Inr ((go T)\<lparr>mc_global := pt_reg T + 1\<rparr>))
     | Sleep \<Rightarrow> Some (Inr (go T))
     | Create i body detached x rc \<Rightarrow>
         if an_created a then Some (Inr ((set_threads (\<lambda>ths. ths(mc_next m \<mapsto> new_thread body detached (an_mod a) (var x))) (go T))\<lparr>
              mc_slot := (mc_slot m)(i \<mapsto> mc_next m), mc_next := mc_next m + 1\<rparr>))
         else Some (fail_with rc (go T))
     | Join i x rc \<Rightarrow> on_slot m i (\<lambda>u. case mc_threads m u of
           None \<Rightarrow> Some (fail_with rc (go T))
         | Some U \<Rightarrow> if pt_ended U
             then Some (Inr (set_threads (\<lambda>ths. ths(u := None)) (go (T\<lparr>pt_var := var(x := pt_result U)\<rparr>))))
             else None)
     | Detach i \<Rightarrow> on_slot m i (\<lambda>u. case mc_threads m u of
           None \<Rightarrow> Some (Inr (go T))
         | Some U \<Rightarrow> Some (Inr (set_threads (\<lambda>ths. ths(u := (if pt_ended U then None else Some (U\<lparr>pt_detached := True\<rparr>)))) (go T))))
     | Cancel i \<Rightarrow> on_slot m i (\<lambda>u. case mc_threads m u of
           None \<Rightarrow> Some (Inr (go T))
         | Some U \<Rightarrow> Some (Inr (set_threads (\<lambda>ths. ths(u \<mapsto> U\<lparr>pt_cancelled := True\<rparr>)) (go T))))
     | Set_Async \<Rightarrow> Some (Inr (go (T\<lparr>pt_async := True\<rparr>)))
     | Cleanup_Push x \<Rightarrow> Some (Inr (go (T\<lparr>pt_cleanup := var x # pt_cleanup T\<rparr>)))
     | Frame x k \<Rightarrow> (case an_block a of None \<Rightarrow> None
         | Some b \<Rightarrow> Some (Inr ((go (T\<lparr>pt_var := var(x := Some b), pt_frame := b # pt_frame T\<rparr>))\<lparr>mc_heap := h(b \<mapsto> replicate k Uninit)\<rparr>)))
     | Malloc x k \<Rightarrow> Some (Inr ((go (T\<lparr>pt_var := var(x := an_block a)\<rparr>))\<lparr>mc_heap :=
           (case an_block a of None \<Rightarrow> h | Some b \<Rightarrow> h(b \<mapsto> replicate k Uninit))\<rparr>))
     | Put x off c \<Rightarrow> Some (on_heap (go T) (store_cell h (var x) off c))
     | Put_Ptr x off y \<Rightarrow> Some (on_heap (go T) (store_cell h (var x) off (Ptr_Cell (var y))))
     | Puts x str \<Rightarrow> Some (on_heap (go T) (store_chars h (var x) 0 str))
     | Get y x off \<Rightarrow> Some (ebind (load_cell h (var x) off) (\<lambda>c. Inr (go (T\<lparr>pt_var := var(y := as_ptr c)\<rparr>))))
     | Get_Num x off \<Rightarrow> Some (ebind (load_cell h (var x) off) (\<lambda>c. Inr (go (T\<lparr>pt_local := as_int c\<rparr>))))
     | Show_Num x off \<Rightarrow> Some (ebind (load_cell h (var x) off) (\<lambda>c. Inr (show_out t (Num (as_int c)) (go T))))
     | Show_Str x \<Rightarrow> Some (ebind (load h (var x)) (\<lambda>b. ebind (read_chars b) (\<lambda>str. Inr (show_out t (Str str) (go T)))))
     | Free x \<Rightarrow> Some (on_heap (go T) (release h (var x)))
     | Null x \<Rightarrow> Some (Inr (go (T\<lparr>pt_var := var(x := None)\<rparr>)))
     | Loop body \<Rightarrow> Some (Inr (go (T\<lparr>pt_todo := body @ Loop body # pt_todo T\<rparr>)))
     | Thread_Exit \<Rightarrow> Some (end_thread t T m)
     | Return_Ptr x \<Rightarrow> Some (end_thread t (T\<lparr>pt_result := var x\<rparr>) m)
     | Return rc \<Rightarrow> Some (fail_with (Some rc) (go T)))"

text \<open>
  A step of thread \<open>t\<close>: acting on a cancellation request, the next statement, or the end of its
  function. Nothing moves after the end of the process.
\<close>

definition thread_exec :: "sys_answer \<Rightarrow> tid \<Rightarrow> machine \<Rightarrow> (fault + machine) option" where
  "thread_exec a t m = (if mc_exit m \<noteq> None then None else case mc_threads m t of
       None \<Rightarrow> None
     | Some T \<Rightarrow> if pt_ended T then None
         else if pt_cancelled T \<and> (pt_async T \<or> cancellation_point (pt_todo T)) then Some (act_on_cancel t T m)
         else (case pt_todo T of [] \<Rightarrow> Some (end_thread t T m)
               | s # todo \<Rightarrow> exec_stmt a t (T\<lparr>pt_todo := todo\<rparr>) s m))"

text \<open>
  At most \<open>limit\<close> threads at a time have resources; \<open>malloc\<close> and automatic variables get an unused
  address.
\<close>

definition answer_ok :: "nat \<Rightarrow> sys_answer \<Rightarrow> machine \<Rightarrow> bool" where
  "answer_ok limit a m \<longleftrightarrow> (an_created a \<longrightarrow> card (dom (mc_threads m)) < limit) \<and> malloc_ok (mc_heap m) (an_block a)"

inductive machine_step :: "nat \<Rightarrow> machine \<Rightarrow> machine \<Rightarrow> bool" for limit where
  machine_moves: "answer_ok limit a m \<Longrightarrow> thread_exec a t m = Some (Inr m') \<Longrightarrow> machine_step limit m m'"

section \<open>Runs for the witnesses\<close>

text \<open>A run given by the answers and the threads that move; \<open>None\<close> when it is not one.\<close>

fun machine_run :: "nat \<Rightarrow> (sys_answer \<times> tid) list \<Rightarrow> machine \<Rightarrow> machine option" where
  "machine_run limit [] m = Some m"
| "machine_run limit ((a, t) # ms) m = (if answer_ok limit a m
     then (case thread_exec a t m of Some (Inr m') \<Rightarrow> machine_run limit ms m' | _ \<Rightarrow> None) else None)"

lemma machine_run_reach: "machine_run limit ms m = Some m' \<Longrightarrow> reach (machine_step limit) m m'"
proof (induction limit ms m rule: machine_run.induct)
  case (1 limit m)
  then show ?case by (simp add: reach_refl)
next
  case (2 limit a t ms m)
  then obtain m1 where m1: "answer_ok limit a m" "thread_exec a t m = Some (Inr m1)"
    by (auto split: if_splits option.splits sum.splits)
  then have "reach (machine_step limit) m1 m'" using 2 by simp
  then show ?case using machine_moves [OF m1] by (auto intro: reach_trans dest: reach_single)
qed

lemmas machine_eval = thread_exec_def exec_stmt_def end_thread_def act_on_cancel_def set_thread_def set_threads_def
  on_slot_def show_out_def fail_with_def on_heap_def new_thread_def machine_init_def answer_ok_def

lemma replicate_9_4: "replicate 9 x = [x, x, x, x, x, x, x, x, x]" "replicate 4 x = [x, x, x, x]"
  by (simp_all add: eval_nat_numeral)

lemma replicate_13: "replicate 13 x = [x, x, x, x, x, x, x, x, x, x, x, x, x]"
  by (simp add: eval_nat_numeral)

end
