(* ===== verification/Demo_Counter.thy ===== *)
theory Demo_Counter
  imports Pthreads
begin

text \<open>
  The programs of \<open>lab1/src/1\<close> (and the identical \<open>lab1/src/2/a.c\<close>): \<open>main\<close> creates threads and joins them;
  in \<open>b.c\<close>, \<open>d.c\<close> and \<open>e.c\<close> each thread executes \<open>global++\<close>, a load and a store, without a lock. The loops
  of \<open>main\<close> are unrolled.
\<close>

section \<open>Programs\<close>

definition hello_thread :: "stmt list" where
  "hello_thread = [Show_Ids]"

definition hello_main :: "stmt list" where
  "hello_main = [Show_Ids, Create 0 hello_thread False 0 (Some (-1)), Join 0 1 (Some (-1)), Return 0]"

definition create_all :: "nat \<Rightarrow> stmt list \<Rightarrow> stmt list" where
  "create_all n body = map (\<lambda>i. Create i body False 0 (Some 1)) [0..<n]"

definition join_all :: "nat \<Rightarrow> stmt list" where
  "join_all n = map (\<lambda>i. Join i 1 (Some 1)) [0..<n]"

definition b_thread :: "stmt list" where
  "b_thread = [Show_Global, Load_Global, Store_Global]"

definition b_main :: "stmt list" where
  "b_main = Show_Ids # create_all 5 b_thread @ join_all 5 @ [Return 0]"

definition c1_main :: "stmt list" where
  "c1_main = Show_Ids # create_all 5 hello_thread @ join_all 5 @ replicate 5 Show_Ids @ [Return 0]"

definition c2_thread :: "stmt list" where
  "c2_thread = [Show_Ids, Set_Locals, Show_Local, Show_Static, Show_Const, Show_Global]"

definition c2_main :: "stmt list" where
  "c2_main = Show_Ids # create_all 2 c2_thread @ join_all 2 @ [Return 0]"

definition d_thread :: "stmt list" where
  "d_thread = [Show_Ids, Set_Locals, Show_Local, Show_Static, Show_Const, Show_Global,
     Show_Ids, Inc_Local, Load_Global, Store_Global, Show_Local, Show_Global]"

definition d_main :: "stmt list" where
  "d_main = Show_Ids # create_all 3 d_thread @ join_all 3 @ [Show_Global, Return 0]"

definition e_thread :: "stmt list" where
  "e_thread = [Show_Ids, Set_Locals, Show_Local, Show_Static, Show_Const, Show_Global,
     Show_Ids, Inc_Local, Load_Global, Store_Global, Show_Local, Show_Global, Sleep]"

definition e_main :: "stmt list" where
  "e_main = Show_Ids # create_all 15 e_thread @ join_all 15 @ [Show_Global, Return 0]"

section \<open>A main that creates, joins and prints\<close>

definition count_main :: "nat \<Rightarrow> stmt list \<Rightarrow> stmt list" where
  "count_main n body = Show_Ids # create_all n body @ join_all n @ [Show_Global, Return 0]"

lemma d_main_count: "d_main = count_main 3 d_thread"
  by (simp add: d_main_def count_main_def)

lemma e_main_count: "e_main = count_main 15 e_thread"
  by (simp add: e_main_def count_main_def)

definition plain :: "stmt \<Rightarrow> bool" where
  "plain s \<longleftrightarrow> s \<in> {Show_Ids, Show_Local, Show_Static, Show_Const, Show_Global, Set_Locals, Inc_Local, Sleep}"

text \<open>What is left of a thread that increments once: plain statements around a load and a store.\<close>

fun increments_once :: "stmt list \<Rightarrow> bool" where
  "increments_once [] = True"
| "increments_once (s # todo) = (case s of
     Load_Global \<Rightarrow> todo \<noteq> [] \<and> hd todo = Store_Global \<and> list_all plain (tl todo)
   | Store_Global \<Rightarrow> list_all plain todo
   | _ \<Rightarrow> plain s \<and> increments_once todo \<and> (todo = [] \<or> hd todo \<noteq> Store_Global))"

lemma plain_increments: "list_all plain todo \<Longrightarrow> increments_once todo \<and> Store_Global \<notin> set todo"
proof (induction todo)
  case (Cons s todo)
  then show ?case by (cases todo) (auto simp: plain_def)
qed simp

text \<open>The threads that have been created and have stored, whether they still run or not.\<close>

definition stored :: "machine \<Rightarrow> tid set" where
  "stored m = {t \<in> {1..<mc_next m}. case mc_threads m t of None \<Rightarrow> True | Some T \<Rightarrow> Store_Global \<notin> set (pt_todo T)}"

definition worker_ok :: "int \<Rightarrow> machine \<Rightarrow> thread \<Rightarrow> bool" where
  "worker_ok g0 m T \<longleftrightarrow> increments_once (pt_todo T) \<and> \<not> pt_cancelled T \<and> \<not> pt_detached T \<and> pt_frame T = [] \<and>
     (pt_ended T \<longrightarrow> pt_todo T = []) \<and>
     (pt_todo T \<noteq> [] \<and> hd (pt_todo T) = Store_Global \<longrightarrow> g0 \<le> pt_reg T \<and> pt_reg T \<le> g0 + int (card (stored m)))"

text \<open>\<open>main\<close> has executed \<open>k\<close> statements.\<close>

definition main_ok :: "nat \<Rightarrow> stmt list \<Rightarrow> machine \<Rightarrow> nat \<Rightarrow> thread \<Rightarrow> bool" where
  "main_ok n body m k M \<longleftrightarrow> k < 2 * n + 3 \<and> pt_todo M = drop k (count_main n body) \<and> \<not> pt_cancelled M \<and> \<not> pt_ended M \<and>
     mc_next m = 1 + min (k - 1) n \<and> (\<forall>i < min (k - 1) n. mc_slot m i = Some (i + 1)) \<and>
     (\<forall>t. t \<noteq> 0 \<longrightarrow> (mc_threads m t \<noteq> None \<longleftrightarrow> k - 1 - n < t \<and> t < mc_next m))"

definition count_inv :: "nat \<Rightarrow> int \<Rightarrow> stmt list \<Rightarrow> machine \<Rightarrow> bool" where
  "count_inv n g0 body m \<longleftrightarrow>
     (mc_exit m = None \<longrightarrow> (\<exists>k M. mc_threads m 0 = Some M \<and> main_ok n body m k M)) \<and>
     (\<forall>t T. t \<noteq> 0 \<and> mc_threads m t = Some T \<longrightarrow> worker_ok g0 m T) \<and>
     g0 \<le> mc_global m \<and> mc_global m \<le> g0 + int (card (stored m)) \<and> (stored m \<noteq> {} \<longrightarrow> g0 < mc_global m) \<and>
     mc_next m \<le> n + 1 \<and>
     (\<forall>v. (0, Global_Val v) \<in> set (mc_out m) \<longrightarrow> (0 < n \<longrightarrow> g0 < v) \<and> v \<le> g0 + int n)"

lemma count_invI:
  assumes "mc_exit m = None \<Longrightarrow> mc_threads m 0 = Some M \<and> main_ok n body m k M"
    and "\<And>t T. t \<noteq> 0 \<Longrightarrow> mc_threads m t = Some T \<Longrightarrow> worker_ok g0 m T"
    and "g0 \<le> mc_global m" "mc_global m \<le> g0 + int (card (stored m))" "stored m \<noteq> {} \<Longrightarrow> g0 < mc_global m"
    and "mc_next m \<le> n + 1"
    and "\<And>v. (0, Global_Val v) \<in> set (mc_out m) \<Longrightarrow> (0 < n \<longrightarrow> g0 < v) \<and> v \<le> g0 + int n"
  shows "count_inv n g0 body m"
  unfolding count_inv_def using assms by (intro conjI allI impI) blast+

lemma finite_stored [simp]: "finite (stored m)"
  by (simp add: stored_def)

lemma card_stored: "mc_next m \<le> n + 1 \<Longrightarrow> card (stored m) \<le> n"
proof -
  assume "mc_next m \<le> n + 1"
  then have "stored m \<subseteq> {1..<n + 1}" by (auto simp: stored_def)
  then have "card (stored m) \<le> card {1..<n + 1}" by (rule card_mono [rotated]) simp
  then show ?thesis by simp
qed

lemma count_inv_init: "count_inv n g0 body (machine_init (count_main n body) g0)"
  by (auto simp: count_inv_def machine_init_def main_ok_def new_thread_def stored_def intro!: exI [of _ 0])

section \<open>A step of a thread\<close>

lemma stored_same:
  assumes "mc_threads m' = (mc_threads m)(t \<mapsto> T')" "mc_next m' = mc_next m" "mc_threads m t = Some T"
    "Store_Global \<in> set (pt_todo T') \<longleftrightarrow> Store_Global \<in> set (pt_todo T)"
  shows "stored m' = stored m"
proof -
  have "t' \<in> stored m' \<longleftrightarrow> t' \<in> stored m" for t' using assms by (cases "t' = t") (simp_all add: stored_def)
  then show ?thesis by blast
qed

lemma stored_insert:
  assumes "mc_threads m' = (mc_threads m)(t \<mapsto> T')" "mc_next m' = mc_next m" "t \<in> {1..<mc_next m}"
    "Store_Global \<notin> set (pt_todo T')"
  shows "stored m' = insert t (stored m)"
proof -
  have "t' \<in> stored m' \<longleftrightarrow> t' \<in> insert t (stored m)" for t' using assms by (cases "t' = t") (simp_all add: stored_def)
  then show ?thesis by blast
qed

text \<open>What a step of a thread other than \<open>main\<close> may change.\<close>

definition worker_frame :: "tid \<Rightarrow> thread \<Rightarrow> machine \<Rightarrow> machine \<Rightarrow> bool" where
  "worker_frame t T' m m' \<longleftrightarrow> mc_threads m' = (mc_threads m)(t \<mapsto> T') \<and> mc_next m' = mc_next m \<and>
     mc_slot m' = mc_slot m \<and> mc_exit m' = mc_exit m \<and> (\<forall>v. (0, v) \<in> set (mc_out m') \<longrightarrow> (0, v) \<in> set (mc_out m))"

lemma count_inv_worker:
  assumes inv: "count_inv n g0 body m" and t: "t \<noteq> 0" "mc_threads m t = Some T" and e: "mc_exit m = None"
    and fr: "worker_frame t T' m m'"
    and c: "card (stored m) \<le> card (stored m')"
    and g: "g0 \<le> mc_global m'" "mc_global m' \<le> g0 + int (card (stored m'))" "stored m' \<noteq> {} \<Longrightarrow> g0 < mc_global m'"
    and T': "worker_ok g0 m' T'"
  shows "count_inv n g0 body m'"
proof -
  note m' = fr [unfolded worker_frame_def]
  have others: "worker_ok g0 m' U" if "u \<noteq> 0" "mc_threads m' u = Some U" for u U
  proof (cases "u = t")
    case False
    then have "worker_ok g0 m U" using inv that m' by (simp add: count_inv_def)
    then show ?thesis using c unfolding worker_ok_def by linarith
  qed (use that T' m' in simp)
  obtain k M where "mc_threads m 0 = Some M" "main_ok n body m k M" using inv e by (auto simp: count_inv_def)
  moreover have "(mc_threads m' u \<noteq> None) = (mc_threads m u \<noteq> None)" for u using t m' by simp
  ultimately have "mc_threads m' 0 = Some M \<and> main_ok n body m' k M" using t m' unfolding main_ok_def by simp
  moreover have "mc_next m' \<le> n + 1" using inv m' by (simp add: count_inv_def)
  moreover have "(0 < n \<longrightarrow> g0 < v) \<and> v \<le> g0 + int n" if "(0, Global_Val v) \<in> set (mc_out m')" for v
    using inv m' that unfolding count_inv_def by blast
  ultimately show ?thesis using others g by (intro count_invI [where k = k and M = M]) simp_all
qed

lemma worker_created: "count_inv n g0 body m \<Longrightarrow> mc_exit m = None \<Longrightarrow> t \<noteq> 0 \<Longrightarrow> mc_threads m t = Some T \<Longrightarrow> t \<in> {1..<mc_next m}"
proof -
  assume inv: "count_inv n g0 body m" "mc_exit m = None" and t: "t \<noteq> 0" "mc_threads m t = Some T"
  then obtain k M where "main_ok n body m k M" unfolding count_inv_def by blast
  then have "t < mc_next m" using t unfolding main_ok_def by blast
  then show ?thesis using t by simp
qed

lemma count_inv_worker_same:
  assumes inv: "count_inv n g0 body m" and t: "t \<noteq> 0" "mc_threads m t = Some T" and e: "mc_exit m = None"
    and fr: "worker_frame t T' m m'" and g: "mc_global m' = mc_global m"
    and s: "Store_Global \<in> set (pt_todo T') \<longleftrightarrow> Store_Global \<in> set (pt_todo T)"
    and T': "worker_ok g0 m T'"
  shows "count_inv n g0 body m'"
proof -
  have "stored m' = stored m" using fr t s by (intro stored_same [of m' m t T' T]) (auto simp: worker_frame_def)
  moreover from this T' have "worker_ok g0 m' T'" by (simp add: worker_ok_def)
  ultimately show ?thesis using inv g by (intro count_inv_worker [OF inv t e fr]) (auto simp: count_inv_def)
qed

lemma increments_once_Cons:
  assumes "increments_once (s # todo)"
  shows "(plain s \<and> increments_once todo \<and> (todo \<noteq> [] \<longrightarrow> hd todo \<noteq> Store_Global)) \<or> s = Load_Global \<and> (\<exists>rest. todo = Store_Global # rest \<and> list_all plain rest) \<or>
    s = Store_Global \<and> list_all plain todo"
  using assms by (cases s) (auto simp: plain_def neq_Nil_conv)

lemma worker_step:
  assumes inv: "count_inv n g0 body m" and t: "t \<noteq> 0" "mc_threads m t = Some T" and x: "thread_exec a t m = Some (Inr m')"
  shows "count_inv n g0 body m'"
proof -
  have e: "mc_exit m = None" and ended: "\<not> pt_ended T" using x t by (auto simp: thread_exec_def split: if_splits)
  have ok: "worker_ok g0 m T" using inv t by (simp add: count_inv_def)
  note same = count_inv_worker_same [OF inv t e]
  show ?thesis
  proof (cases "pt_todo T")
    case Nil
    let ?T' = "T\<lparr>pt_ended := True, pt_todo := []\<rparr>"
    have m': "m' = m\<lparr>mc_heap := mc_heap m, mc_threads := (mc_threads m)(t \<mapsto> ?T')\<rparr>"
      using x t e ok Nil ended by (simp add: thread_exec_def end_thread_def worker_ok_def set_thread_def)
    show ?thesis by (rule same [of ?T']) (use ok Nil in \<open>auto simp: m' worker_frame_def worker_ok_def\<close>)
  next
    case (Cons s todo)
    let ?T = "T\<lparr>pt_todo := todo\<rparr>"
    have ex: "exec_stmt a t ?T s m = Some (Inr m')" using x t e ok ended Cons by (simp add: thread_exec_def worker_ok_def)
    from ok Cons have "increments_once (s # todo)" by (simp add: worker_ok_def)
    then consider "plain s" "increments_once todo" "todo \<noteq> [] \<longrightarrow> hd todo \<noteq> Store_Global"
      | rest where "s = Load_Global" "todo = Store_Global # rest" "list_all plain rest"
      | "s = Store_Global" "list_all plain todo" using increments_once_Cons by blast
    then show ?thesis
    proof cases
      case 1
      obtain T' where fr: "worker_frame t T' m m'" and g: "mc_global m' = mc_global m" and
        T': "pt_todo T' = todo" "pt_reg T' = pt_reg T" "pt_cancelled T' = pt_cancelled T" "pt_ended T' = pt_ended T"
          "pt_detached T' = pt_detached T" "pt_frame T' = pt_frame T"
        using ex \<open>plain s\<close> t by (auto simp: plain_def exec_stmt_def set_thread_def show_out_def worker_frame_def)
      have "worker_ok g0 m T'" using ok 1 T' ended unfolding worker_ok_def by simp blast
      then show ?thesis using 1 Cons T' by (intro same [OF fr g]) (auto simp: plain_def)
    next
      case 2
      let ?T' = "?T\<lparr>pt_reg := mc_global m\<rparr>"
      have m': "m' = m\<lparr>mc_threads := (mc_threads m)(t \<mapsto> ?T')\<rparr>" using ex 2 by (simp add: exec_stmt_def set_thread_def)
      show ?thesis by (rule same [of ?T']) (use ok inv 2 Cons in \<open>auto simp: m' worker_frame_def worker_ok_def count_inv_def\<close>)
    next
      case 3
      have fr: "worker_frame t ?T m m'" and g: "mc_global m' = pt_reg T + 1"
        using ex 3 by (auto simp: exec_stmt_def set_thread_def worker_frame_def)
      have p: "increments_once todo" "Store_Global \<notin> set todo" using plain_increments 3 by auto
      have st: "stored m' = insert t (stored m)"
        by (rule stored_insert [of _ _ _ ?T]) (use fr p worker_created [OF inv e t] in \<open>auto simp: worker_frame_def\<close>)
      have "t \<notin> stored m" using t Cons 3 by (simp add: stored_def)
      then have c: "card (stored m') = card (stored m) + 1" by (simp add: st)
      have r: "g0 \<le> pt_reg T" "pt_reg T \<le> g0 + int (card (stored m))" using ok Cons 3 by (simp_all add: worker_ok_def)
      have "todo \<noteq> [] \<Longrightarrow> hd todo \<noteq> Store_Global" using p by (cases todo) auto
      then have "worker_ok g0 m' ?T" using ok p ended unfolding worker_ok_def by simp blast
      then show ?thesis using c g r by (intro count_inv_worker [OF inv t e fr]) auto
    qed
  qed
qed

section \<open>A step of main\<close>

lemma count_main_nth: "k < 2 * n + 3 \<Longrightarrow> count_main n body ! k =
    (if k = 0 then Show_Ids else if k \<le> n then Create (k - 1) body False 0 (Some 1)
     else if k \<le> 2 * n then Join (k - 1 - n) 1 (Some 1) else if k = 2 * n + 1 then Show_Global else Return 0)"
  by (auto simp: count_main_def create_all_def join_all_def nth_append nth_Cons' not_less)

lemma count_main_drop:
  "drop k (count_main n body) = (if k < 2 * n + 3 then count_main n body ! k # drop (Suc k) (count_main n body) else [])"
  by (simp add: Cons_nth_drop_Suc [symmetric] count_main_def create_all_def join_all_def)

text \<open>A step of \<open>main\<close> that ends the process.\<close>

lemma count_inv_exit:
  assumes inv: "count_inv n g0 body m" and m': "mc_exit m' \<noteq> None" "mc_next m' = mc_next m" "mc_global m' = mc_global m"
    "mc_threads m' = (mc_threads m)(0 \<mapsto> M')" "mc_out m' = mc_out m"
  shows "count_inv n g0 body m'"
proof -
  have "stored m' = stored m" using m' by (auto simp: stored_def)
  then show ?thesis using inv m' by (auto simp: count_inv_def worker_ok_def)
qed

lemma count_inv_facts:
  assumes "count_inv n g0 body m"
  shows "mc_next m \<le> n + 1" "\<And>t T. t \<noteq> 0 \<Longrightarrow> mc_threads m t = Some T \<Longrightarrow> worker_ok g0 m T"
    "\<And>v. (0, Global_Val v) \<in> set (mc_out m) \<Longrightarrow> (0 < n \<longrightarrow> g0 < v) \<and> v \<le> g0 + int n"
    "g0 \<le> mc_global m" "mc_global m \<le> g0 + int (card (stored m))" "stored m \<noteq> {} \<Longrightarrow> g0 < mc_global m"
  using assms unfolding count_inv_def by blast+

lemma main_ok_next: "main_ok n body m k M \<Longrightarrow> k < 2 * n + 3 \<and> mc_next m = 1 + min (k - 1) n"
  by (simp add: main_ok_def)

text \<open>The statements of \<open>main\<close>: \<open>M\<close> is its thread at statement \<open>k\<close>.\<close>

lemma main_create:
  assumes inv: "count_inv n g0 body m" and ok: "main_ok n body m k M" and k: "1 \<le> k" "k \<le> n"
    and M: "mc_threads m 0 = Some M" "M' = M\<lparr>pt_todo := drop (Suc k) (count_main n body)\<rparr>"
    and body: "increments_once body" "Store_Global \<in> set body" "hd body \<noteq> Store_Global"
    and ex: "exec_stmt a 0 M' (Create (k - 1) body False 0 (Some 1)) m = Some (Inr m')"
  shows "count_inv n g0 body m'"
proof (cases "an_created a")
  case True
  note nxt = main_ok_next [OF ok] and ok' = ok [unfolded main_ok_def]
  let ?new = "new_thread body False (an_mod a) (pt_var M 0)"
  have m': "m' = m\<lparr>mc_threads := (mc_threads m)(0 \<mapsto> M', k \<mapsto> ?new), mc_slot := (mc_slot m)(k - 1 \<mapsto> k), mc_next := k + 1\<rparr>"
    using ex True k nxt by (simp add: M exec_stmt_def set_thread_def set_threads_def)
  have "stored m' = stored m" using k nxt body(2) by (auto simp: stored_def m' new_thread_def)
  moreover have "worker_ok g0 m' ?new"
    using body by (cases body) (auto simp: worker_ok_def new_thread_def)
  ultimately show ?thesis using ok' k count_inv_facts [OF inv] nxt
    by (intro count_invI [where k = "Suc k" and M = M'])
      (auto simp: m' M main_ok_def worker_ok_def less_Suc_eq split: if_splits)
next
  case False
  then have m': "m' = set_thread 0 M' m\<lparr>mc_exit := Some 1\<rparr>" using ex by (simp add: exec_stmt_def fail_with_def)
  show ?thesis by (rule count_inv_exit [OF inv]) (simp_all add: m' set_thread_def)
qed

lemma main_join:
  assumes inv: "count_inv n g0 body m" and ok: "main_ok n body m k M" and i: "i < n" "k = n + 1 + i"
    and M: "mc_threads m 0 = Some M" "M' = M\<lparr>pt_todo := drop (Suc k) (count_main n body)\<rparr>"
    and ex: "exec_stmt a 0 M' (Join i 1 (Some 1)) m = Some (Inr m')"
  shows "count_inv n g0 body m'"
proof -
  note ok' = ok [unfolded main_ok_def]
  have sl: "mc_slot m i = Some (Suc i)" and n1: "mc_next m = n + 1" using ok' i by simp_all
  then have "mc_threads m (Suc i) \<noteq> None" using ok' i by simp
  then obtain U where U: "mc_threads m (Suc i) = Some U" by blast
  then have ended: "pt_ended U" using ex sl by (simp add: exec_stmt_def on_slot_def Let_def split: if_splits)
  then have "pt_todo U = []" using count_inv_facts(2) [OF inv, of "Suc i" U] U by (simp add: worker_ok_def)
  let ?M' = "M'\<lparr>pt_var := (pt_var M)(1 := pt_result U)\<rparr>"
  have m': "m' = m\<lparr>mc_threads := (mc_threads m)(0 \<mapsto> ?M', Suc i := None)\<rparr>"
    using ex sl U ended by (simp add: M exec_stmt_def on_slot_def set_thread_def set_threads_def)
  have "stored m' = stored m" using U \<open>pt_todo U = []\<close> by (auto simp: stored_def m' split: if_splits)
  then show ?thesis using ok' i count_inv_facts [OF inv] n1
    by (intro count_invI [where k = "Suc k" and M = ?M'])
      (auto simp: m' M main_ok_def worker_ok_def split: if_splits)
qed

text \<open>When \<open>main\<close> prints the global every thread has been joined, so that all of them have stored.\<close>

lemma main_show:
  assumes inv: "count_inv n g0 body m" and ok: "main_ok n body m k M" and k: "k = 2 * n + 1"
    and M: "mc_threads m 0 = Some M" "M' = M\<lparr>pt_todo := drop (Suc k) (count_main n body)\<rparr>"
    and m': "m' = show_out 0 (Global_Val (mc_global m)) (set_thread 0 M' m)"
  shows "count_inv n g0 body m'"
proof -
  note ok' = ok [unfolded main_ok_def] and facts = count_inv_facts [OF inv]
  have "mc_threads m t = None" if "t \<noteq> 0" for t
  proof (rule ccontr)
    assume "mc_threads m t \<noteq> None"
    then have "k - 1 - n < t \<and> t < mc_next m" using ok' that by blast
    then show False using k main_ok_next [OF ok] by auto
  qed
  then have "stored m = {1..<n + 1}" using k main_ok_next [OF ok] by (auto simp: stored_def)
  then have v: "(0 < n \<longrightarrow> g0 < mc_global m) \<and> mc_global m \<le> g0 + int n" using facts(4-6) by auto
  have "stored m' = stored m" by (auto simp: stored_def m' show_out_def set_thread_def)
  then show ?thesis using ok' k facts v
    by (intro count_invI [where k = "Suc k" and M = M'])
      (auto simp: m' M show_out_def set_thread_def main_ok_def worker_ok_def)
qed

lemma main_step:
  assumes inv: "count_inv n g0 body m" and x: "thread_exec a 0 m = Some (Inr m')"
    and body: "increments_once body" "Store_Global \<in> set body" "hd body \<noteq> Store_Global"
  shows "count_inv n g0 body m'"
proof -
  have e: "mc_exit m = None" using x by (simp add: thread_exec_def split: if_splits)
  then obtain k M where M: "mc_threads m 0 = Some M" and ok: "main_ok n body m k M"
    using inv unfolding count_inv_def by blast
  note ok' = ok [unfolded main_ok_def] and facts = count_inv_facts [OF inv]
  have k: "k < 2 * n + 3" using main_ok_next [OF ok] by simp
  let ?M = "M\<lparr>pt_todo := drop (Suc k) (count_main n body)\<rparr>"
  have ex: "exec_stmt a 0 ?M (count_main n body ! k) m = Some (Inr m')"
    using x M ok' e k by (simp add: thread_exec_def count_main_drop [of k])
  consider "k = 0" | "1 \<le> k" "k \<le> n" | "n < k" "k \<le> 2 * n" | "k = 2 * n + 1" | "k = 2 * n + 2" using k by linarith
  then show ?thesis
  proof cases
    case 1
    then have m': "m' = show_out 0 Ids (set_thread 0 ?M m)" using ex by (simp add: count_main_nth exec_stmt_def)
    have "stored m' = stored m" by (auto simp: stored_def m' show_out_def set_thread_def)
    then show ?thesis using ok' 1 facts
      by (intro count_invI [where k = "Suc k" and M = ?M])
        (auto simp: m' show_out_def set_thread_def main_ok_def worker_ok_def)
  next
    case 2
    then show ?thesis using ex by (intro main_create [OF inv ok 2 M refl body]) (simp add: count_main_nth)
  next
    case 3
    then show ?thesis using ex by (intro main_join [OF inv ok _ _ M refl, of "k - 1 - n"]) (simp_all add: count_main_nth)
  next
    case 4
    then show ?thesis using ex by (intro main_show [OF inv ok 4 M refl]) (simp add: count_main_nth exec_stmt_def)
  next
    case 5
    then have m': "m' = set_thread 0 ?M m\<lparr>mc_exit := Some 0\<rparr>" using ex by (simp add: count_main_nth exec_stmt_def fail_with_def)
    show ?thesis by (rule count_inv_exit [OF inv]) (simp_all add: m' set_thread_def)
  qed
qed

lemma count_step:
  assumes "machine_step limit m m'" "count_inv n g0 body m"
    and "increments_once body" "Store_Global \<in> set body" "hd body \<noteq> Store_Global"
  shows "count_inv n g0 body m'"
  using assms(1)
proof cases
  case (machine_moves a t)
  show ?thesis
  proof (cases "t = 0")
    case True
    then show ?thesis using main_step [OF assms(2) _ assms(3-5)] machine_moves(2) by simp
  next
    case False
    obtain T where "mc_threads m t = Some T"
      using machine_moves(2) by (auto simp: thread_exec_def split: if_splits option.splits)
    then show ?thesis using worker_step [OF assms(2) False _ machine_moves(2)] by simp
  qed
qed

section \<open>Properties\<close>

text \<open>
  The value that \<open>main\<close> prints for \<open>global\<close>: at least one increment is seen, and at most \<open>n\<close>.
\<close>

lemma count_bounds:
  assumes "reach (machine_step limit) (machine_init (count_main n body) g0) m" "(0, Global_Val v) \<in> set (mc_out m)"
    and "increments_once body" "Store_Global \<in> set body" "hd body \<noteq> Store_Global" "0 < n"
  shows "g0 + 1 \<le> v \<and> v \<le> g0 + int n"
proof -
  have "count_inv n g0 body m"
    using assms(1) count_inv_init by (rule reach_invariant) (rule count_step [OF _ _ assms(3-5)])
  then have "g0 < v \<and> v \<le> g0 + int n" using assms(2,6) unfolding count_inv_def by blast
  then show ?thesis by simp
qed

text \<open>C37: Whatever the interleaving of the threads, the last line of \<open>d.c\<close> shows a global between 15 and
  17, that of \<open>e.c\<close> one between 15 and 29: increments may be lost, but never all of them.\<close>

theorem printed_global_bounds:
  assumes "reach (machine_step limit) (machine_init main 14) m" and "(0, Global_Val v) \<in> set (mc_out m)"
    and "(main, n) \<in> {(d_main, 3), (e_main, 15)}"
  shows "15 \<le> v \<and> v \<le> 14 + n"
proof (cases "main = d_main \<and> n = 3")
  case True
  then show ?thesis using count_bounds [of limit 3 d_thread 14 m v] assms
    by (simp add: d_main_count d_thread_def plain_def)
next
  case False
  then show ?thesis using count_bounds [of limit 15 e_thread 14 m v] assms
    by (auto simp: e_main_count e_thread_def plain_def)
qed

text \<open>Both bounds of \<open>d.c\<close> are reached: all three threads load 14, or they run one after the other.\<close>

definition yes :: sys_answer where
  "yes = \<lparr>an_created = True, an_mod = 7, an_block = None\<rparr>"

definition no :: sys_answer where
  "no = \<lparr>an_created = False, an_mod = 0, an_block = None\<rparr>"

definition d_start :: "(sys_answer \<times> tid) list" where
  "d_start = [(no, 0), (yes, 0), (yes, 0), (yes, 0)]"

definition d_end :: "(sys_answer \<times> tid) list" where
  "d_end = [(no, 0), (no, 0), (no, 0), (no, 0)]"

lemma d_sequential:
  "\<exists>m. machine_run 4 (d_start @ replicate 13 (no, 1) @ replicate 13 (no, 2) @ replicate 13 (no, 3) @ d_end) (machine_init d_main 14) = Some m \<and>
     (0, Global_Val 17) \<in> set (mc_out m)"
  by (simp add: replicate_13 machine_eval d_start_def d_end_def yes_def no_def d_main_def create_all_def join_all_def d_thread_def upt_rec)

lemma d_lost_updates:
  "\<exists>m. machine_run 4 (d_start @ replicate 9 (no, 1) @ replicate 9 (no, 2) @ replicate 9 (no, 3)
        @ replicate 4 (no, 1) @ replicate 4 (no, 2) @ replicate 4 (no, 3) @ d_end) (machine_init d_main 14) = Some m \<and>
     (0, Global_Val 15) \<in> set (mc_out m)"
  by (simp add: replicate_9_4 machine_eval d_start_def d_end_def yes_def no_def d_main_def create_all_def join_all_def d_thread_def upt_rec)

lemma d_extremes:
  "\<exists>m. reach (machine_step 4) (machine_init d_main 14) m \<and> (0, Global_Val 15) \<in> set (mc_out m)"
  "\<exists>m. reach (machine_step 4) (machine_init d_main 14) m \<and> (0, Global_Val 17) \<in> set (mc_out m)"
  using d_lost_updates d_sequential machine_run_reach by blast+

theorem printed_global_bounds_witness:
  "\<exists>m. reach (machine_step 4) (machine_init d_main 14) m \<and> (0, Global_Val 15) \<in> set (mc_out m) \<and> 15 \<le> (15::int)"
proof -
  obtain m where r: "reach (machine_step 4) (machine_init d_main 14) m" and o: "(0, Global_Val 15) \<in> set (mc_out m)"
    using d_extremes by blast
  have "15 \<le> (15::int) \<and> (15::int) \<le> 14 + 3" by (rule printed_global_bounds [OF r o]) simp
  then show ?thesis using r o by blast
qed

end
