(* ===== verification/Demo_Resources.thy ===== *)
theory Demo_Resources
  imports Pthreads
begin

text \<open>
  \<open>lab1/src/2/d.c\<close>, \<open>e.c\<close> and \<open>f.c\<close>: \<open>main\<close> creates threads in an endless loop. In \<open>d.c\<close> they are neither
  joined nor detached, so that the system keeps the resources of each of them; in \<open>e.c\<close> each is
  detached after its creation, in \<open>f.c\<close> created detached. The attribute object of \<open>f.c\<close> is the flag of
  \<open>Create\<close>.
\<close>

section \<open>Programs\<close>

definition idle_thread :: "stmt list" where
  "idle_thread = [Show_Ids]"

definition joinable_main :: "stmt list" where
  "joinable_main = [Show_Ids, Loop [Create 0 idle_thread False 0 (Some 1)], Return 1]"

definition detach_main :: "stmt list" where
  "detach_main = [Show_Ids, Loop [Create 0 idle_thread False 0 (Some 1), Detach 0], Return 1]"

definition detached_main :: "stmt list" where
  "detached_main = [Show_Ids, Loop [Create 0 idle_thread True 0 (Some 1)], Return 1]"

section \<open>Threads that are never joined\<close>

text \<open>Every thread that was created is still there.\<close>

definition joinable_ok :: "bool \<Rightarrow> tid \<Rightarrow> thread \<Rightarrow> bool" where
  "joinable_ok running t T \<longleftrightarrow> \<not> pt_detached T \<and> \<not> pt_cancelled T \<and> pt_frame T = [] \<and>
     (if t = 0 then \<not> pt_ended T \<and> (running \<longrightarrow>
        pt_todo T \<in> {joinable_main, tl joinable_main, Create 0 idle_thread False 0 (Some 1) # tl joinable_main})
      else pt_todo T \<in> {idle_thread, []})"

definition joinable_inv :: "nat \<Rightarrow> machine \<Rightarrow> bool" where
  "joinable_inv limit m \<longleftrightarrow> dom (mc_threads m) = {..<mc_next m} \<and> 0 < mc_next m \<and> mc_next m \<le> max 1 limit \<and>
     (\<forall>t T. mc_threads m t = Some T \<longrightarrow> joinable_ok (mc_exit m = None) t T)"

lemma joinable_inv_init: "joinable_inv limit (machine_init joinable_main g)"
  by (auto simp: joinable_inv_def joinable_ok_def machine_init_def new_thread_def)

lemma joinable_create:
  assumes inv: "joinable_inv limit m" and a: "card (dom (mc_threads m)) < limit"
  shows "dom ((mc_threads m)(0 \<mapsto> M, mc_next m \<mapsto> U)) = {..<Suc (mc_next m)} \<and> Suc (mc_next m) \<le> max 1 limit"
proof -
  have "dom (mc_threads m) = {..<mc_next m}" "0 < mc_next m" using inv by (auto simp: joinable_inv_def)
  then show ?thesis using a by auto
qed

text \<open>A step of thread \<open>t\<close> that creates nothing.\<close>

lemma joinable_same:
  assumes inv: "joinable_inv limit m" and e: "mc_exit m = None" and T: "mc_threads m t = Some T"
    and m1: "mc_threads m1 = (mc_threads m)(t \<mapsto> T')" "mc_next m1 = mc_next m" "mc_exit m1 = None \<or> t = 0"
    and T': "joinable_ok (mc_exit m1 = None) t T'"
  shows "joinable_inv limit m1"
proof -
  have "joinable_ok (mc_exit m1 = None) u U" if "mc_threads m1 u = Some U" for u U
  proof (cases "u = t")
    case False
    then have "joinable_ok True u U" using inv that m1 e by (simp add: joinable_inv_def)
    then show ?thesis using m1(3) False by (auto simp: joinable_ok_def)
  qed (use that m1 T' in simp)
  moreover have d: "dom (mc_threads m) = {..<mc_next m}" using inv by (simp add: joinable_inv_def)
  then have "t < mc_next m" using T by blast
  then have "dom (mc_threads m1) = {..<mc_next m1}" using m1 d by auto
  ultimately show ?thesis using inv m1(2) by (simp add: joinable_inv_def)
qed

lemma joinable_created:
  assumes inv: "joinable_inv limit m" and e: "mc_exit m = None" and T: "mc_threads m 0 = Some T" "\<not> pt_ended T"
    and T0: "\<not> pt_detached T \<and> \<not> pt_cancelled T \<and> pt_frame T = []"
    and room: "card (dom (mc_threads m)) < limit"
    and m': "m' = m\<lparr>mc_threads := (mc_threads m)(0 \<mapsto> T\<lparr>pt_todo := tl joinable_main\<rparr>,
      mc_next m \<mapsto> new_thread idle_thread False md v), mc_slot := (mc_slot m)(0 \<mapsto> mc_next m), mc_next := mc_next m + 1\<rparr>"
  shows "joinable_inv limit m'"
proof -
  have "dom (mc_threads m') = {..<mc_next m'} \<and> mc_next m' \<le> max 1 limit"
    using joinable_create [OF inv] room by (simp add: m')
  moreover have "joinable_ok True u U" if "mc_threads m' u = Some U" for u U
  proof -
    consider "u = mc_next m" | "u = 0" "u \<noteq> mc_next m" | "u \<noteq> 0" "mc_threads m u = Some U"
      using \<open>mc_threads m' u = Some U\<close> by (auto simp: m' split: if_splits)
    then show ?thesis
    proof cases
      case 1
      with \<open>mc_threads m' u = Some U\<close> inv show ?thesis
        by (auto simp: m' joinable_inv_def joinable_ok_def new_thread_def)
    next
      case 2
      with \<open>mc_threads m' u = Some U\<close> have "U = T\<lparr>pt_todo := tl joinable_main\<rparr>" by (simp add: m')
      with 2 T T0 show ?thesis by (simp add: joinable_ok_def)
    next
      case 3
      with inv e show ?thesis by (simp add: joinable_inv_def)
    qed
  qed
  ultimately show ?thesis using e by (simp add: joinable_inv_def m')
qed

lemma joinable_main_step:
  assumes inv: "joinable_inv limit m" and e: "mc_exit m = None" and T: "mc_threads m 0 = Some T" "\<not> pt_ended T"
    and x: "thread_exec a 0 m = Some (Inr m')" and room: "answer_ok limit a m"
  shows "joinable_inv limit m'"
proof -
  note same = joinable_same [OF inv e T(1)]
  have ok: "joinable_ok True 0 T" using inv T e by (simp add: joinable_inv_def)
  then have T0: "\<not> pt_detached T \<and> \<not> pt_cancelled T \<and> pt_frame T = []" by (auto simp: joinable_ok_def)
  from ok T(2) consider "pt_todo T = joinable_main" | "pt_todo T = tl joinable_main"
    | "pt_todo T = Create 0 idle_thread False 0 (Some 1) # tl joinable_main" by (auto simp: joinable_ok_def)
  then show ?thesis
  proof cases
    case 1
    then show ?thesis using x T T0 e
      by (intro same [of _ "T\<lparr>pt_todo := tl joinable_main\<rparr>"]) (auto simp: machine_eval joinable_ok_def joinable_main_def)
  next
    case 2
    then show ?thesis using x T T0 e
      by (intro same [of _ "T\<lparr>pt_todo := Create 0 idle_thread False 0 (Some 1) # tl joinable_main\<rparr>"])
        (auto simp: machine_eval joinable_ok_def joinable_main_def)
  next
    case 3
    show ?thesis
    proof (cases "an_created a")
      case False
      then show ?thesis using x T T0 e 3
        by (intro same [of _ "T\<lparr>pt_todo := tl joinable_main\<rparr>"]) (auto simp: machine_eval joinable_ok_def joinable_main_def)
    next
      case True
      then have "card (dom (mc_threads m)) < limit" using room by (simp add: answer_ok_def)
      then show ?thesis
        by (rule joinable_created [OF inv e T T0, where md = "an_mod a" and v = "pt_var T 0"])
          (use x T T0 e 3 True in \<open>simp add: thread_exec_def exec_stmt_def set_thread_def set_threads_def joinable_main_def\<close>)
    qed
  qed
qed

lemma joinable_step:
  assumes s: "machine_step limit m m'" and inv: "joinable_inv limit m"
  shows "joinable_inv limit m'"
  using s
proof cases
  case (machine_moves a t)
  have e: "mc_exit m = None" using machine_moves(2) by (simp add: thread_exec_def split: if_splits)
  obtain T where T: "mc_threads m t = Some T" and run: "\<not> pt_ended T"
    using machine_moves(2) by (auto simp: thread_exec_def split: if_splits option.splits)
  show ?thesis
  proof (cases "t = 0")
    case True
    with machine_moves T show ?thesis by (intro joinable_main_step [OF inv e _ run]) simp_all
  next
    case False
    have "joinable_ok True t T" using inv T e by (simp add: joinable_inv_def)
    then have "pt_todo T = idle_thread \<or> pt_todo T = []" and T0: "\<not> pt_detached T \<and> \<not> pt_cancelled T \<and> pt_frame T = []"
      using False by (auto simp: joinable_ok_def)
    then obtain T' where "mc_threads m' = (mc_threads m)(t \<mapsto> T')" "mc_next m' = mc_next m" "mc_exit m' = None"
      "\<not> pt_detached T' \<and> \<not> pt_cancelled T' \<and> pt_frame T' = []" "pt_todo T' = []"
      using machine_moves(2) T run e by (auto simp: machine_eval idle_thread_def)
    then show ?thesis using False by (intro joinable_same [OF inv e T]) (auto simp: joinable_ok_def)
  qed
qed

text \<open>C38: The program of \<open>d.c\<close> runs out of threads: whatever the threads do, no resource is ever given
  back, so that at most \<open>limit - 1\<close> threads are created besides \<open>main\<close>, however long it runs, and once
  that many exist \<open>pthread_create\<close> cannot succeed again.\<close>

theorem joinable_threads_exhaust:
  assumes "reach (machine_step limit) (machine_init joinable_main g) m" and "0 < limit"
  shows "mc_next m \<le> limit \<and> dom (mc_threads m) = {..<mc_next m} \<and>
     (mc_next m = limit \<longrightarrow> (\<forall>a. answer_ok limit a m \<longrightarrow> \<not> an_created a))"
proof -
  have "joinable_inv limit m" using assms(1) joinable_inv_init by (rule reach_invariant) (rule joinable_step)
  then show ?thesis using assms(2) by (auto simp: joinable_inv_def answer_ok_def)
qed

text \<open>Two threads besides \<open>main\<close> are the most that \<open>d.c\<close> gets from a system with room for three.\<close>

lemma joinable_demo:
  "\<exists>m. machine_run 3 [(\<lparr>an_created = True, an_mod = 0, an_block = None\<rparr>, 0), (\<lparr>an_created = True, an_mod = 0, an_block = None\<rparr>, 0),
     (\<lparr>an_created = True, an_mod = 0, an_block = None\<rparr>, 0), (\<lparr>an_created = False, an_mod = 0, an_block = None\<rparr>, 0),
     (\<lparr>an_created = True, an_mod = 0, an_block = None\<rparr>, 0)] (machine_init joinable_main 0) = Some m \<and> mc_next m = 3"
  by (simp add: machine_eval joinable_main_def)

theorem joinable_threads_exhaust_witness:
  "\<exists>m. reach (machine_step 3) (machine_init joinable_main 0) m \<and> mc_next m = 3 \<and>
     (\<forall>a. answer_ok 3 a m \<longrightarrow> \<not> an_created a)"
proof -
  obtain m where r: "reach (machine_step 3) (machine_init joinable_main 0) m" and n: "mc_next m = 3"
    using joinable_demo machine_run_reach by blast
  then show ?thesis using joinable_threads_exhaust [OF r] by auto
qed

section \<open>Detached threads\<close>

lemma loop_round:
  assumes m: "mc_threads m = [0 \<mapsto> M]" "mc_exit m = None" and M: "pt_todo M = Loop body # rest" "\<not> pt_ended M" "\<not> pt_cancelled M"
    and body: "body = [Create 0 idle_thread True 0 (Some 1)] \<or> body = [Create 0 idle_thread False 0 (Some 1), Detach 0]"
    and n: "mc_next m \<noteq> 0"
  shows "\<exists>m' M'. reach (machine_step 2) m m' \<and> mc_threads m' = [0 \<mapsto> M'] \<and> mc_exit m' = None \<and>
     pt_todo M' = Loop body # rest \<and> \<not> pt_ended M' \<and> \<not> pt_cancelled M' \<and> mc_next m' = mc_next m + 1"
proof -
  let ?yes = "\<lparr>an_created = True, an_mod = 0, an_block = None\<rparr>" and ?no = "\<lparr>an_created = False, an_mod = 0, an_block = None\<rparr>"
  let ?run = "if body = [Create 0 idle_thread True 0 (Some 1)] then [(?no, 0), (?yes, 0), (?no, mc_next m), (?no, mc_next m)]
     else [(?no, 0), (?yes, 0), (?no, 0), (?no, mc_next m), (?no, mc_next m)]"
  have "\<exists>m' M'. machine_run 2 ?run m = Some m' \<and> mc_threads m' = [0 \<mapsto> M'] \<and> mc_exit m' = None \<and>
     pt_todo M' = Loop body # rest \<and> \<not> pt_ended M' \<and> \<not> pt_cancelled M' \<and> mc_next m' = mc_next m + 1"
    using body m M n by (elim disjE) (auto simp: machine_eval idle_thread_def)
  then show ?thesis using machine_run_reach by blast
qed

definition at_loop :: "stmt list \<Rightarrow> machine \<Rightarrow> nat \<Rightarrow> bool" where
  "at_loop body m k \<longleftrightarrow> (\<exists>M. mc_threads m = [0 \<mapsto> M] \<and> mc_exit m = None \<and>
     pt_todo M = [Loop body, Return 1] \<and> \<not> pt_ended M \<and> \<not> pt_cancelled M \<and> mc_next m = Suc k)"

lemma detached_rounds:
  assumes body: "body = [Create 0 idle_thread True 0 (Some 1)] \<or> body = [Create 0 idle_thread False 0 (Some 1), Detach 0]"
  shows "\<exists>m. reach (machine_step 2) (machine_init [Show_Ids, Loop body, Return 1] g) m \<and> at_loop body m k"
proof (induction k)
  case 0
  have "\<exists>m. machine_run 2 [(\<lparr>an_created = False, an_mod = 0, an_block = None\<rparr>, 0)] (machine_init [Show_Ids, Loop body, Return 1] g) = Some m \<and>
      at_loop body m 0"
    by (auto simp: machine_eval at_loop_def)
  then show ?case using machine_run_reach by blast
next
  case (Suc k)
  then obtain m M where r: "reach (machine_step 2) (machine_init [Show_Ids, Loop body, Return 1] g) m"
    and M: "mc_threads m = [0 \<mapsto> M]" "mc_exit m = None" "pt_todo M = [Loop body, Return 1]" "\<not> pt_ended M"
      "\<not> pt_cancelled M" "mc_next m = Suc k" unfolding at_loop_def by blast
  obtain m' M' where r': "reach (machine_step 2) m m'" and "mc_threads m' = [0 \<mapsto> M']" "mc_exit m' = None"
    "pt_todo M' = [Loop body, Return 1]" "\<not> pt_ended M'" "\<not> pt_cancelled M'" "mc_next m' = Suc (Suc k)"
    using loop_round [OF M(1-5) body] M(6) by auto
  then have "at_loop body m' (Suc k)" unfolding at_loop_def by blast
  then show ?case using reach_trans [OF r' r] by blast
qed

text \<open>The programs of \<open>e.c\<close> and \<open>f.c\<close> can go on for ever: however many threads they have created, there
  is a run in which the system never holds more than \<open>main\<close> and one other thread and \<open>main\<close> is again at
  the head of its loop with the resources of all other threads given back.\<close>

theorem detached_threads_recycle:
  assumes "main \<in> {detach_main, detached_main}"
  shows "\<exists>m. reach (machine_step 2) (machine_init main g) m \<and> mc_next m = k + 1 \<and> dom (mc_threads m) = {0} \<and> mc_exit m = None"
proof -
  define body where "body = (if main = detached_main then [Create 0 idle_thread True 0 (Some 1)]
    else [Create 0 idle_thread False 0 (Some 1), Detach 0])"
  have b: "main = [Show_Ids, Loop body, Return 1]"
    using assms by (auto simp: body_def detach_main_def detached_main_def)
  have "\<exists>m. reach (machine_step 2) (machine_init main g) m \<and> at_loop body m k"
    unfolding b by (rule detached_rounds) (simp add: body_def)
  then obtain m M where "reach (machine_step 2) (machine_init main g) m" "mc_threads m = [0 \<mapsto> M]" "mc_exit m = None"
    "mc_next m = Suc k" unfolding at_loop_def by blast
  then show ?thesis by (intro exI [of _ m]) simp
qed

theorem detached_threads_recycle_witness:
  "\<exists>m. reach (machine_step 2) (machine_init detached_main 0) m \<and> mc_next m = 1001 \<and> dom (mc_threads m) = {0} \<and> mc_exit m = None"
  using detached_threads_recycle [of detached_main 0 1000] by simp

end
