(* ===== verification/Demo_Memory.thy ===== *)
theory Demo_Memory
  imports Pthreads
begin

text \<open>
  The demonstrations that hand memory from one thread to another: a result returned to
  \<open>pthread_join\<close> (\<open>lab1/src/2/b.c\<close>, \<open>c.c\<close>) and an argument used by a detached thread after \<open>main\<close> has ended
  (\<open>lab1/src/3/a.c\<close>, \<open>b.c\<close>).
\<close>

section \<open>Programs\<close>

definition result_thread :: "stmt list" where
  "result_thread = [Show_Ids, Malloc 1 1, Put 1 0 (Int_Cell 42), Return_Ptr 1]"

definition result_main :: "stmt list" where
  "result_main = [Show_Ids, Create 0 result_thread False 0 (Some (-1)), Join 0 1 (Some (-1)), Show_Num 1 0, Return 0]"

definition message_thread :: "stmt list" where
  "message_thread = [Show_Ids, Malloc 1 (length ''hello world''), Puts 1 ''hello world'', Return_Ptr 1]"

definition message_main :: "stmt list" where
  "message_main = [Show_Ids, Create 0 message_thread False 0 (Some (-1)), Join 0 1 (Some (-1)), Show_Str 1, Return 0]"

text \<open>\<open>data_t\<close> is two cells, \<open>number\<close> and \<open>message\<close>. In \<open>a.c\<close> it is a variable of \<open>main\<close>.\<close>

definition stack_data_thread :: "stmt list" where
  "stack_data_thread = [Show_Ids, Get_Num 0 0, Get 1 0 1, Sleep, Show_Str 1, Show_Local]"

definition stack_data_main :: "stmt list" where
  "stack_data_main = [Frame 1 2, Put 1 0 (Int_Cell 10), Malloc 2 20, Put_Ptr 1 1 2, Puts 2 ''hello world'', Show_Ids,
     Create 0 stack_data_thread True 1 (Some (-1)), Thread_Exit, Free 2, Return 0]"

definition heap_data_thread :: "stmt list" where
  "heap_data_thread = [Show_Ids, Get 1 0 1, Show_Str 1, Show_Num 0 0, Get 1 0 1, Free 1, Free 0]"

definition heap_data_main :: "stmt list" where
  "heap_data_main = [Malloc 1 2, Put 1 0 (Int_Cell 10), Malloc 2 20, Put_Ptr 1 1 2, Puts 2 ''hello world'', Show_Ids,
     Create 0 heap_data_thread True 1 (Some (-1)), Thread_Exit, Return 0]"

section \<open>Shared lemmas\<close>

lemma store_cell_Inr: "store_cell h p off c = Inr h' \<longleftrightarrow>
    (\<exists>b cs. p = Some b \<and> h b = Some cs \<and> off < length cs \<and> h' = h(b \<mapsto> cs[off := c]))"
  by (auto simp: store_cell_def load_def store_def ebind_Inr_iff split: option.splits)

text \<open>A string fits only if there is room for its terminating zero.\<close>

lemma store_chars_length:
  "store_chars h (Some b) off s = Inr h' \<Longrightarrow> h b = Some cs \<Longrightarrow>
     off + length s < length cs \<and> (\<exists>cs'. h' = h(b \<mapsto> cs') \<and> length cs' = length cs)"
proof (induction s arbitrary: h off cs)
  case Nil
  then show ?case by (auto simp: store_cell_Inr)
next
  case (Cons c s)
  from Cons.prems have off: "off < length cs" and rest: "store_chars (h(b \<mapsto> cs[off := Char_Cell c])) (Some b) (off + 1) s = Inr h'"
    by (auto simp: ebind_Inr_iff store_cell_Inr)
  have "off + 1 + length s < length (cs[off := Char_Cell c]) \<and>
      (\<exists>cs'. h' = (h(b \<mapsto> cs[off := Char_Cell c]))(b \<mapsto> cs') \<and> length cs' = length (cs[off := Char_Cell c]))"
    by (rule Cons.IH [OF rest]) simp
  then obtain cs' where "off + 1 + length s < length cs" "h' = (h(b \<mapsto> cs[off := Char_Cell c]))(b \<mapsto> cs')" "length cs' = length cs"
    unfolding length_list_update by (elim conjE exE) blast
  then show ?case by (intro conjI exI [of _ cs']) simp_all
qed

lemma store_chars_None: "store_chars h None off s = Inl Null_Deref"
  by (cases s) (simp_all add: store_cell_def)

lemma step_thread:
  assumes "machine_step limit m m'"
  obtains a t T where "answer_ok limit a m" "thread_exec a t m = Some (Inr m')" "mc_threads m t = Some T"
    "mc_exit m = None" "\<not> pt_ended T"
  using assms by cases (auto simp: thread_exec_def split: if_splits option.splits)

definition quiet :: "thread \<Rightarrow> bool" where
  "quiet T \<longleftrightarrow> \<not> pt_cancelled T \<and> pt_frame T = []"

text \<open>Only \<open>main\<close>; \<open>main\<close> and one other thread.\<close>

definition alone :: "machine \<Rightarrow> bool" where
  "alone m \<longleftrightarrow> (\<forall>t. t \<noteq> 0 \<longrightarrow> mc_threads m t = None)"

definition pair :: "machine \<Rightarrow> bool" where
  "pair m \<longleftrightarrow> (\<forall>t. t \<noteq> 0 \<and> t \<noteq> 1 \<longrightarrow> mc_threads m t = None)"

section \<open>A returned string\<close>

definition message_before :: "machine \<Rightarrow> bool" where
  "message_before m \<longleftrightarrow> alone m \<and> mc_next m = 1 \<and> (\<exists>M. mc_threads m 0 = Some M \<and> quiet M \<and> \<not> pt_ended M \<and>
     (pt_todo M = message_main \<or> pt_todo M = drop 1 message_main))"

definition message_during :: "machine \<Rightarrow> bool" where
  "message_during m \<longleftrightarrow> pair m \<and> mc_slot m 0 = Some 1 \<and>
     (\<exists>M. mc_threads m 0 = Some M \<and> quiet M \<and> \<not> pt_ended M \<and> pt_todo M = drop 2 message_main) \<and>
     (\<exists>T. mc_threads m 1 = Some T \<and> quiet T \<and> \<not> pt_ended T \<and>
         (pt_todo T = message_thread \<or> pt_todo T = drop 1 message_thread \<or>
          pt_todo T = drop 2 message_thread \<and>
            (\<forall>b. pt_var T 1 = Some b \<longrightarrow> (\<exists>cs. mc_heap m b = Some cs \<and> length cs = length ''hello world''))))"

definition message_inv :: "machine \<Rightarrow> bool" where
  "message_inv m \<longleftrightarrow> mc_exit m = Some (-1) \<or> mc_exit m = None \<and> (message_before m \<or> message_during m)"

lemma message_step:
  assumes s: "machine_step limit m m'" and inv: "message_inv m"
  shows "message_inv m'"
proof -
  obtain a t T where x: "thread_exec a t m = Some (Inr m')" and T: "mc_threads m t = Some T" "\<not> pt_ended T" and e: "mc_exit m = None"
    using s by (rule step_thread)
  note [simp] = machine_eval Let_def message_main_def message_thread_def quiet_def alone_def pair_def
  consider "message_before m" | "message_during m" using inv e by (auto simp: message_inv_def)
  then show ?thesis
  proof cases
    case 1
    then have "t = 0" using T by (auto simp: message_before_def)
    then show ?thesis using 1 x T e
      by (auto simp: message_before_def message_inv_def message_during_def split: if_splits)
  next
    case 2
    then obtain M U where M: "mc_threads m 0 = Some M" "quiet M" "\<not> pt_ended M" "pt_todo M = drop 2 message_main"
      and U: "mc_threads m 1 = Some U" "quiet U" "\<not> pt_ended U" and sl: "mc_slot m 0 = Some 1" "pair m"
      and todo: "pt_todo U = message_thread \<or> pt_todo U = drop 1 message_thread \<or>
          pt_todo U = drop 2 message_thread \<and>
            (\<forall>b. pt_var U 1 = Some b \<longrightarrow> (\<exists>cs. mc_heap m b = Some cs \<and> length cs = length ''hello world''))"
      unfolding message_during_def by blast
    have "t = 0 \<or> t = 1" using T sl(2) unfolding pair_def by (cases "t = 0 \<or> t = 1") auto
    moreover have "t \<noteq> 0" using x M U sl e by auto
    ultimately have t: "t = 1" by simp
    from todo show ?thesis
    proof (elim disjE conjE)
      assume a: "pt_todo U = message_thread"
      then show ?thesis using x t M U sl e by (auto simp: message_inv_def message_during_def)
    next
      assume a: "pt_todo U = drop 1 message_thread"
      define U' where "U' = U\<lparr>pt_todo := drop 2 message_thread, pt_var := (pt_var U)(1 := an_block a)\<rparr>"
      have m': "mc_threads m' = (mc_threads m)(1 \<mapsto> U')" "mc_slot m' = mc_slot m" "mc_exit m' = None"
        "\<forall>b. an_block a = Some b \<longrightarrow> mc_heap m' b = Some (replicate (length ''hello world'') Uninit)"
        using x t U e a by (auto simp: U'_def)
      then show ?thesis using M U sl
        by (simp add: message_inv_def message_during_def U'_def)
    next
      assume a: "pt_todo U = drop 2 message_thread"
        and v: "\<forall>b. pt_var U 1 = Some b \<longrightarrow> (\<exists>cs. mc_heap m b = Some cs \<and> length cs = length ''hello world'')"
      have "\<exists>h. store_chars (mc_heap m) (pt_var U 1) 0 ''hello world'' = Inr h"
        using x t U e a by (auto simp: ebind_Inr_iff simp del: store_chars.simps)
      then obtain h b where h: "store_chars (mc_heap m) (pt_var U 1) 0 ''hello world'' = Inr h" and b: "pt_var U 1 = Some b"
        by (cases "pt_var U 1") (auto simp: store_chars_None simp del: store_chars.simps)
      then show ?thesis using v store_chars_length [of "mc_heap m" b 0 "''hello world''" h] by auto
    qed
  qed
qed

lemma message_inv_init: "message_inv (machine_init message_main g)"
  by (simp add: message_inv_def message_before_def machine_init_def new_thread_def alone_def quiet_def)

lemma store_chars_overflow:
  "h b = Some cs \<Longrightarrow> off + length s = length cs \<Longrightarrow> store_chars h (Some b) off s = Inl Out_Of_Bounds"
  by (induction s arbitrary: h off cs) (auto simp: store_cell_def)

text \<open>The thread of \<open>lab1/src/2/c.c\<close> always writes past its block: \<open>strlen(RESULT)\<close> bytes leave no room for
  the zero that \<open>sprintf\<close> appends, so that the call is a fault in every run in which \<open>malloc\<close> succeeds,
  and \<open>main\<close> never gets to return 0.\<close>

theorem message_thread_overflows:
  assumes "reach (machine_step limit) (machine_init message_main g) m"
  shows "mc_exit m \<noteq> Some 0 \<and>
    (\<forall>a T b. mc_exit m = None \<and> mc_threads m 1 = Some T \<and> pt_todo T = drop 2 message_thread \<and> pt_var T 1 = Some b \<longrightarrow>
       thread_exec a 1 m = Some (Inl Out_Of_Bounds))"
proof -
  have inv: "message_inv m" using assms message_inv_init by (rule reach_invariant) (rule message_step)
  have "thread_exec a 1 m = Some (Inl Out_Of_Bounds)"
    if e: "mc_exit m = None" and T: "mc_threads m 1 = Some T" "pt_todo T = drop 2 message_thread" "pt_var T 1 = Some b" for a T b
  proof -
    have "message_during m" using inv e T(1) by (auto simp: message_inv_def message_before_def alone_def)
    then have q: "quiet T" "\<not> pt_ended T" and "\<exists>cs. mc_heap m b = Some cs \<and> length cs = length ''hello world''"
      using T by (auto simp: message_during_def message_thread_def)
    then have "store_chars (mc_heap m) (Some b) 0 ''hello world'' = Inl Out_Of_Bounds"
      using store_chars_overflow [of "mc_heap m" b _ 0 "''hello world''"] by fastforce
    then show ?thesis using e T q
      by (simp add: thread_exec_def exec_stmt_def message_thread_def quiet_def on_heap_def Let_def del: store_chars.simps)
  qed
  then show ?thesis using inv by (auto simp: message_inv_def)
qed

definition demo_no :: sys_answer where
  "demo_no = \<lparr>an_created = False, an_mod = 0, an_block = None\<rparr>"

definition demo_yes :: sys_answer where
  "demo_yes = \<lparr>an_created = True, an_mod = 0, an_block = None\<rparr>"

definition demo_at :: "addr \<Rightarrow> sys_answer" where
  "demo_at b = \<lparr>an_created = False, an_mod = 0, an_block = Some b\<rparr>"

lemmas demo_answers = demo_no_def demo_yes_def demo_at_def

lemma message_demo:
  "\<exists>m T. machine_run 2 [(demo_no, 0), (demo_yes, 0), (demo_no, 1), (demo_at 5, 1)] (machine_init message_main 0) = Some m \<and>
     mc_exit m = None \<and> mc_threads m 1 = Some T \<and> pt_todo T = drop 2 message_thread \<and> pt_var T 1 = Some 5"
  by (simp add: machine_eval Let_def demo_answers message_main_def message_thread_def)

theorem message_thread_overflows_witness:
  "\<exists>m. reach (machine_step 2) (machine_init message_main 0) m \<and> thread_exec demo_no 1 m = Some (Inl Out_Of_Bounds)"
proof -
  obtain m T where r: "reach (machine_step 2) (machine_init message_main 0) m" and m: "mc_exit m = None"
    "mc_threads m 1 = Some T" "pt_todo T = drop 2 message_thread" "pt_var T 1 = Some 5"
    using message_demo machine_run_reach by blast
  then show ?thesis using message_thread_overflows [OF r] by blast
qed

section \<open>A structure on the stack of main\<close>

text \<open>
  In \<open>lab1/src/3/a.c\<close> the detached thread may read the structure after \<open>main\<close> has called \<open>pthread_exit\<close>,
  when the variable no longer exists; and \<open>free(data.message)\<close> is not reached.
\<close>

definition stack_setup :: "(sys_answer \<times> tid) list" where
  "stack_setup = [(demo_at 1, 0), (demo_no, 0), (demo_at 2, 0), (demo_no, 0), (demo_no, 0), (demo_no, 0), (demo_yes, 0), (demo_no, 1), (demo_no, 0)]"

theorem stack_data_dangling:
  "\<exists>m. reach (machine_step 2) (machine_init stack_data_main 0) m \<and> thread_exec demo_no 1 m = Some (Inl (Bad_Addr 1)) \<and> mc_heap m 2 \<noteq> None"
proof -
  have "\<exists>m. machine_run 2 stack_setup (machine_init stack_data_main 0) = Some m \<and> thread_exec demo_no 1 m = Some (Inl (Bad_Addr 1)) \<and> mc_heap m 2 \<noteq> None"
    by (simp add: stack_setup_def machine_eval Let_def demo_answers stack_data_main_def stack_data_thread_def
        store_cell_def load_cell_def numeral_2_eq_2)
  then show ?thesis using machine_run_reach by blast
qed

section \<open>A structure on the heap\<close>

definition text_cells :: "cell list" where
  "text_cells = map Char_Cell ''hello world'' @ Char_Cell (CHR 0x00) # replicate 8 Uninit"

definition data_heap :: "addr \<Rightarrow> addr \<Rightarrow> addr \<rightharpoonup> cell list" where
  "data_heap d s = [d \<mapsto> [Int_Cell 10, Ptr_Cell (Some s)], s \<mapsto> text_cells]"

definition setup_heap :: "thread \<Rightarrow> (addr \<rightharpoonup> cell list) \<Rightarrow> bool" where
  "setup_heap M h \<longleftrightarrow>
     pt_todo M = heap_data_main \<and> h = Map.empty \<or>
     pt_todo M = drop 1 heap_data_main \<and> (\<forall>d. pt_var M 1 = Some d \<longrightarrow> h = [d \<mapsto> [Uninit, Uninit]]) \<or>
     pt_todo M = drop 2 heap_data_main \<and> (\<exists>d. pt_var M 1 = Some d \<and> h = [d \<mapsto> [Int_Cell 10, Uninit]]) \<or>
     pt_todo M = drop 3 heap_data_main \<and> (\<exists>d. pt_var M 1 = Some d \<and> h d = Some [Int_Cell 10, Uninit] \<and>
       (\<forall>s. pt_var M 2 = Some s \<longrightarrow> s \<noteq> d \<and> h = [d \<mapsto> [Int_Cell 10, Uninit], s \<mapsto> replicate 20 Uninit])) \<or>
     pt_todo M = drop 4 heap_data_main \<and> (\<exists>d. pt_var M 1 = Some d \<and>
       (\<forall>s. pt_var M 2 = Some s \<longrightarrow> s \<noteq> d \<and> h = [d \<mapsto> [Int_Cell 10, Ptr_Cell (Some s)], s \<mapsto> replicate 20 Uninit])) \<or>
     (pt_todo M = drop 5 heap_data_main \<or> pt_todo M = drop 6 heap_data_main) \<and>
       (\<exists>d s. s \<noteq> d \<and> pt_var M 1 = Some d \<and> h = data_heap d s)"

definition heap_setup :: "machine \<Rightarrow> bool" where
  "heap_setup m \<longleftrightarrow> alone m \<and> mc_next m = 1 \<and>
     (\<exists>M. mc_threads m 0 = Some M \<and> quiet M \<and> \<not> pt_ended M \<and> \<not> pt_detached M \<and> setup_heap M (mc_heap m))"

definition thread_heap :: "thread \<Rightarrow> (addr \<rightharpoonup> cell list) \<Rightarrow> bool" where
  "thread_heap T h \<longleftrightarrow> (\<exists>d s. s \<noteq> d \<and> pt_var T 0 = Some d \<and>
     (pt_todo T \<in> {heap_data_thread, drop 1 heap_data_thread} \<and> h = data_heap d s \<or>
      pt_todo T \<in> {drop 2 heap_data_thread, drop 3 heap_data_thread, drop 4 heap_data_thread, drop 5 heap_data_thread} \<and>
        pt_var T 1 = Some s \<and> h = data_heap d s \<or>
      pt_todo T = drop 6 heap_data_thread \<and> h = [d \<mapsto> [Int_Cell 10, Ptr_Cell (Some s)]] \<or>
      pt_todo T = [] \<and> h = Map.empty))"

definition heap_running :: "machine \<Rightarrow> bool" where
  "heap_running m \<longleftrightarrow> pair m \<and>
     (\<exists>M. mc_threads m 0 = Some M \<and> quiet M \<and> \<not> pt_detached M \<and> (pt_ended M \<or> pt_todo M = drop 7 heap_data_main)) \<and>
     (case mc_threads m 1 of None \<Rightarrow> mc_heap m = Map.empty
      | Some T \<Rightarrow> quiet T \<and> \<not> pt_ended T \<and> pt_detached T \<and> thread_heap T (mc_heap m))"

definition heap_inv :: "machine \<Rightarrow> bool" where
  "heap_inv m \<longleftrightarrow> mc_exit m = Some (-1) \<or> mc_exit m = None \<and> (heap_setup m \<or> heap_running m)"

text \<open>
  \<open>main\<close> is about to use the block of a \<open>malloc\<close> that returned \<open>NULL\<close>: to fill \<open>data->number\<close>, or to copy
  the text into \<open>data->message\<close>.
\<close>

definition malloc_failed :: "machine \<Rightarrow> bool" where
  "malloc_failed m \<longleftrightarrow> (\<exists>M. mc_threads m 0 = Some M \<and>
     (pt_todo M = drop 1 heap_data_main \<and> pt_var M 1 = None \<or> pt_todo M = drop 4 heap_data_main \<and> pt_var M 2 = None))"

text \<open>A fault is that use by \<open>main\<close>; otherwise the invariant holds again.\<close>

fun keeps :: "machine \<Rightarrow> tid \<Rightarrow> (fault + machine) option \<Rightarrow> bool" where
  "keeps m t None = True"
| "keeps m t (Some (Inl f)) = (f = Null_Deref \<and> t = 0 \<and> malloc_failed m)"
| "keeps m t (Some (Inr m')) = heap_inv m'"

lemma store_hello: "s \<noteq> d \<Longrightarrow> store_chars [d \<mapsto> x, s \<mapsto> replicate 20 Uninit] (Some s) 0 ''hello world'' = Inr [d \<mapsto> x, s \<mapsto> text_cells]"
  by (simp add: store_cell_def text_cells_def eval_nat_numeral)

lemma read_hello: "read_chars text_cells = Inr ''hello world''"
  by (simp add: text_cells_def)

lemma heap_setup_step:
  assumes inv: "heap_setup m" and e: "mc_exit m = None" and ok: "answer_ok limit a m"
  shows "keeps m t (thread_exec a t m)"
proof (cases "t = 0")
  case False
  then show ?thesis using inv by (simp add: heap_setup_def alone_def thread_exec_def)
next
  case t: True
  obtain M where M: "mc_threads m 0 = Some M" "quiet M" "\<not> pt_ended M" "\<not> pt_detached M" and al: "alone m" "mc_next m = 1"
    and su: "setup_heap M (mc_heap m)" using inv unfolding heap_setup_def by blast
  note [simp] = machine_eval Let_def heap_data_main_def quiet_def alone_def heap_inv_def heap_setup_def malloc_failed_def
  from su show ?thesis
    unfolding setup_heap_def
  proof (elim disjE conjE exE)
    assume "pt_todo M = heap_data_main" "mc_heap m = Map.empty"
    then show ?thesis using M al e t by (cases "an_block a") (auto simp: setup_heap_def numeral_2_eq_2)
  next
    assume "pt_todo M = drop 1 heap_data_main" "\<forall>d. pt_var M 1 = Some d \<longrightarrow> mc_heap m = [d \<mapsto> [Uninit, Uninit]]"
    then show ?thesis using M al e t by (cases "pt_var M 1") (auto simp: setup_heap_def store_cell_def)
  next
    fix d assume "pt_todo M = drop 2 heap_data_main" "pt_var M 1 = Some d" "mc_heap m = [d \<mapsto> [Int_Cell 10, Uninit]]"
    then show ?thesis using M al e t ok by (cases "an_block a") (auto simp: setup_heap_def)
  next
    fix d assume "pt_todo M = drop 3 heap_data_main" "pt_var M 1 = Some d" "mc_heap m d = Some [Int_Cell 10, Uninit]"
      "\<forall>s. pt_var M 2 = Some s \<longrightarrow> s \<noteq> d \<and> mc_heap m = [d \<mapsto> [Int_Cell 10, Uninit], s \<mapsto> replicate 20 Uninit]"
    then show ?thesis using M al e t by (auto simp: setup_heap_def store_cell_def)
  next
    fix d assume "pt_todo M = drop 4 heap_data_main" "pt_var M 1 = Some d"
      "\<forall>s. pt_var M 2 = Some s \<longrightarrow> s \<noteq> d \<and> mc_heap m = [d \<mapsto> [Int_Cell 10, Ptr_Cell (Some s)], s \<mapsto> replicate 20 Uninit]"
    then show ?thesis using M al e t
      by (cases "pt_var M 2") (auto simp: setup_heap_def store_chars_None store_hello data_heap_def simp del: store_chars.simps)
  next
    fix d s assume "pt_todo M = drop 5 heap_data_main" "s \<noteq> d" "pt_var M 1 = Some d" "mc_heap m = data_heap d s"
    then show ?thesis using M al e t by (auto simp: setup_heap_def)
  next
    fix d s assume "pt_todo M = drop 6 heap_data_main" "s \<noteq> d" "pt_var M 1 = Some d" "mc_heap m = data_heap d s"
    then show ?thesis using M al e t by (auto simp: heap_running_def pair_def thread_heap_def)
  qed
qed

lemmas heap_thread_eval = machine_eval Let_def quiet_def heap_data_thread_def

lemma heap_main_step:
  assumes inv: "heap_running m" and e: "mc_exit m = None"
  shows "keeps m 0 (thread_exec a 0 m)"
proof -
  obtain M where M: "mc_threads m 0 = Some M" "quiet M" "\<not> pt_detached M" "pt_ended M \<or> pt_todo M = drop 7 heap_data_main"
    and p: "pair m" using inv unfolding heap_running_def by blast
  show ?thesis
  proof (cases "pt_ended M")
    case False
    let ?m = "m\<lparr>mc_heap := mc_heap m, mc_threads := (mc_threads m)(0 \<mapsto> M\<lparr>pt_ended := True, pt_todo := []\<rparr>)\<rparr>"
    have x: "thread_exec a 0 m = Some (Inr ?m)"
      using False M e by (simp add: heap_data_main_def machine_eval Let_def quiet_def)
    have "heap_running ?m" using inv M p by (simp add: heap_running_def pair_def quiet_def split: option.splits)
    then show ?thesis unfolding x using e by (simp only: keeps.simps heap_inv_def) simp
  qed (use M e in \<open>simp add: thread_exec_def\<close>)
qed

text \<open>A step of the thread: its locals and the heap fit together afterwards.\<close>

lemma heap_thread_keeps:
  assumes inv: "heap_running m"
    and x: "thread_exec a 1 m = Some (Inr m')" and m': "mc_threads m' = (mc_threads m)(1 \<mapsto> T')" "mc_exit m' = None"
    and T': "quiet T'" "\<not> pt_ended T'" "pt_detached T'" "thread_heap T' (mc_heap m')"
  shows "keeps m 1 (thread_exec a 1 m)"
proof -
  have "heap_running m'" using inv m' T' unfolding heap_running_def pair_def by simp
  then show ?thesis unfolding x using m' by (simp only: keeps.simps heap_inv_def) simp
qed

lemma thread_heapI:
  assumes "s \<noteq> d" and "pt_var T 0 = Some d"
    and "pt_todo T \<in> {heap_data_thread, drop 1 heap_data_thread} \<and> h = data_heap d s \<or>
      pt_todo T \<in> {drop 2 heap_data_thread, drop 3 heap_data_thread, drop 4 heap_data_thread, drop 5 heap_data_thread} \<and>
        pt_var T 1 = Some s \<and> h = data_heap d s \<or>
      pt_todo T = drop 6 heap_data_thread \<and> h = [d \<mapsto> [Int_Cell 10, Ptr_Cell (Some s)]] \<or>
      pt_todo T = [] \<and> h = Map.empty"
  shows "thread_heap T h"
  unfolding thread_heap_def using assms by blast

lemma thread_heapE:
  assumes "thread_heap T h"
  obtains (at0) d s where "s \<noteq> d" "pt_var T 0 = Some d" "pt_todo T = heap_data_thread" "h = data_heap d s"
    | (at1) d s where "s \<noteq> d" "pt_var T 0 = Some d" "pt_todo T = drop 1 heap_data_thread" "h = data_heap d s"
    | (at2) d s where "s \<noteq> d" "pt_var T 0 = Some d" "pt_todo T = drop 2 heap_data_thread" "pt_var T 1 = Some s" "h = data_heap d s"
    | (at3) d s where "s \<noteq> d" "pt_var T 0 = Some d" "pt_todo T = drop 3 heap_data_thread" "pt_var T 1 = Some s" "h = data_heap d s"
    | (at4) d s where "s \<noteq> d" "pt_var T 0 = Some d" "pt_todo T = drop 4 heap_data_thread" "pt_var T 1 = Some s" "h = data_heap d s"
    | (at5) d s where "s \<noteq> d" "pt_var T 0 = Some d" "pt_todo T = drop 5 heap_data_thread" "pt_var T 1 = Some s" "h = data_heap d s"
    | (at6) d s where "s \<noteq> d" "pt_var T 0 = Some d" "pt_todo T = drop 6 heap_data_thread"
        "h = [d \<mapsto> [Int_Cell 10, Ptr_Cell (Some s)]]"
    | (at7) "pt_todo T = []" "h = Map.empty"
proof -
  from assms obtain d s where ds: "s \<noteq> d" "pt_var T 0 = Some d" and
    h: "pt_todo T \<in> {heap_data_thread, drop 1 heap_data_thread} \<and> h = data_heap d s \<or>
      pt_todo T \<in> {drop 2 heap_data_thread, drop 3 heap_data_thread, drop 4 heap_data_thread, drop 5 heap_data_thread} \<and>
        pt_var T 1 = Some s \<and> h = data_heap d s \<or>
      pt_todo T = drop 6 heap_data_thread \<and> h = [d \<mapsto> [Int_Cell 10, Ptr_Cell (Some s)]] \<or>
      pt_todo T = [] \<and> h = Map.empty" unfolding thread_heap_def by blast
  from h show thesis
    by (elim disjE conjE insertE emptyE) (rule at0 [OF ds] at1 [OF ds] at2 [OF ds] at3 [OF ds] at4 [OF ds] at5 [OF ds]
        at6 [OF ds] at7; assumption)+
qed

lemma data_heap_cells:
  assumes "s \<noteq> d"
  shows "data_heap d s d = Some [Int_Cell 10, Ptr_Cell (Some s)]" "data_heap d s s = Some text_cells"
    "(data_heap d s)(s := None) = [d \<mapsto> [Int_Cell 10, Ptr_Cell (Some s)]]"
  using assms by (auto simp: data_heap_def)

lemma heap_thread_step:
  assumes inv: "heap_running m" and e: "mc_exit m = None" and t: "mc_threads m 1 = Some T"
  shows "keeps m 1 (thread_exec a 1 m)"
proof -
  have T: "quiet T" "\<not> pt_ended T" "pt_detached T" and th: "thread_heap T (mc_heap m)"
    using inv t by (simp_all add: heap_running_def)
  note go = heap_thread_keeps [OF inv] and run = t T e
  let ?go = "\<lambda>k. T\<lparr>pt_todo := drop k heap_data_thread\<rparr>"
  from th show ?thesis
  proof (cases rule: thread_heapE)
    case (at0 d s)
    show ?thesis by (rule go [where m' = "show_out 1 Ids (set_thread 1 (?go 1) m)" and T' = "?go 1"])
      (use at0 run in \<open>simp_all add: heap_thread_eval thread_heapI\<close>)
  next
    case (at1 d s)
    show ?thesis by (rule go [where m' = "set_thread 1 (?go 2\<lparr>pt_var := (pt_var T)(1 := Some s)\<rparr>) m" and
        T' = "?go 2\<lparr>pt_var := (pt_var T)(1 := Some s)\<rparr>"])
      (use at1 run in \<open>simp_all add: heap_thread_eval thread_heapI load_cell_def data_heap_cells\<close>)
  next
    case (at2 d s)
    show ?thesis by (rule go [where m' = "show_out 1 (Str ''hello world'') (set_thread 1 (?go 3) m)" and T' = "?go 3"])
      (use at2 run in \<open>simp_all add: heap_thread_eval thread_heapI read_hello data_heap_cells\<close>)
  next
    case (at3 d s)
    show ?thesis by (rule go [where m' = "show_out 1 (Num 10) (set_thread 1 (?go 4) m)" and T' = "?go 4"])
      (use at3 run in \<open>simp_all add: heap_thread_eval thread_heapI load_cell_def data_heap_cells\<close>)
  next
    case (at4 d s)
    show ?thesis by (rule go [where m' = "set_thread 1 (?go 5\<lparr>pt_var := (pt_var T)(1 := Some s)\<rparr>) m" and
        T' = "?go 5\<lparr>pt_var := (pt_var T)(1 := Some s)\<rparr>"])
      (use at4 run in \<open>simp_all add: heap_thread_eval thread_heapI load_cell_def data_heap_cells\<close>)
  next
    case (at5 d s)
    show ?thesis by (rule go [where m' = "(set_thread 1 (?go 6) m)\<lparr>mc_heap := [d \<mapsto> [Int_Cell 10, Ptr_Cell (Some s)]]\<rparr>" and
        T' = "?go 6"])
      (use at5 run in \<open>simp_all add: heap_thread_eval thread_heapI data_heap_cells\<close>)
  next
    case (at6 d s)
    show ?thesis by (rule go [where m' = "(set_thread 1 (?go 7) m)\<lparr>mc_heap := Map.empty\<rparr>" and T' = "?go 7"])
      (use at6 run in \<open>simp_all add: heap_thread_eval thread_heapI\<close>)
  next
    case at7
    let ?m = "m\<lparr>mc_heap := mc_heap m, mc_threads := (mc_threads m)(1 := None)\<rparr>"
    have x: "thread_exec a 1 m = Some (Inr ?m)" using at7 run by (simp add: heap_thread_eval)
    have "heap_running ?m" using inv at7 unfolding heap_running_def pair_def by simp
    then show ?thesis unfolding x using run by (simp only: keeps.simps heap_inv_def) simp
  qed
qed

lemma heap_running_step:
  assumes inv: "heap_running m" and e: "mc_exit m = None"
  shows "keeps m t (thread_exec a t m)"
proof -
  from inv consider "t = 0" | T where "t = 1" "mc_threads m 1 = Some T" | "mc_threads m t = None"
    unfolding heap_running_def pair_def by (metis option.exhaust)
  then show ?thesis
    using heap_main_step [OF inv e] heap_thread_step [OF inv e] by cases (auto simp: thread_exec_def)
qed

lemma heap_inv_keeps:
  assumes "heap_inv m" "answer_ok limit a m"
  shows "keeps m t (thread_exec a t m)"
proof (cases "mc_exit m")
  case None
  then show ?thesis using assms heap_setup_step heap_running_step by (auto simp: heap_inv_def)
qed (simp add: thread_exec_def)

lemma heap_data_reach:
  assumes "reach (machine_step limit) (machine_init heap_data_main g) m"
  shows "heap_inv m"
  using assms
proof (rule reach_invariant)
  show "heap_inv (machine_init heap_data_main g)"
    by (simp add: heap_inv_def heap_setup_def setup_heap_def machine_init_def new_thread_def alone_def quiet_def)
next
  fix u v assume "heap_inv u" "machine_step limit u v"
  then obtain a t where "answer_ok limit a u" "thread_exec a t u = Some (Inr v)" by (auto elim: machine_step.cases)
  then show "heap_inv v" using heap_inv_keeps [OF \<open>heap_inv u\<close>, of limit a t] by simp
qed

text \<open>C39: In \<open>lab1/src/3/b.c\<close> the structure lives on the heap and belongs to the thread: in every
  interleaving of the detached thread with the end of \<open>main\<close> the only access that can be a fault is the
  first use, by \<open>main\<close>, of a block whose \<open>malloc\<close> returned \<open>NULL\<close>; the thread never makes one. When both
  threads have ended everything is freed.\<close>

theorem heap_data_safe:
  assumes "reach (machine_step limit) (machine_init heap_data_main g) m"
  shows "(\<forall>a t f. answer_ok limit a m \<and> thread_exec a t m = Some (Inl f) \<longrightarrow>
      f = Null_Deref \<and> t = 0 \<and> (\<exists>M. mc_threads m 0 = Some M \<and>
        (pt_todo M = drop 1 heap_data_main \<and> pt_var M 1 = None \<or>
         pt_todo M = drop 4 heap_data_main \<and> pt_var M 2 = None))) \<and>
    (mc_exit m = None \<and> (\<forall>T. mc_threads m 0 = Some T \<longrightarrow> pt_ended T) \<and> mc_threads m 1 = None \<longrightarrow> mc_heap m = Map.empty)"
proof -
  have inv: "heap_inv m" by (rule heap_data_reach [OF assms])
  have "f = Null_Deref \<and> t = 0 \<and> malloc_failed m" if "answer_ok limit a m" "thread_exec a t m = Some (Inl f)" for a t f
    using heap_inv_keeps [OF inv that(1), of t] that(2) by simp
  moreover have "mc_heap m = Map.empty"
    if "mc_exit m = None" "\<forall>T. mc_threads m 0 = Some T \<longrightarrow> pt_ended T" "mc_threads m 1 = None"
    using inv that by (auto simp: heap_inv_def heap_setup_def heap_running_def)
  ultimately show ?thesis unfolding malloc_failed_def by blast
qed

definition heap_answers :: "(sys_answer \<times> tid) list" where
  "heap_answers = [(demo_at 1, 0), (demo_no, 0), (demo_at 2, 0), (demo_no, 0), (demo_no, 0), (demo_no, 0)]"

lemma heap_data_demo:
  "\<exists>m. machine_run 2 (heap_answers @ [(demo_yes, 0), (demo_no, 1), (demo_no, 0), (demo_no, 1), (demo_no, 1), (demo_no, 1),
       (demo_no, 1), (demo_no, 1), (demo_no, 1), (demo_no, 1)]) (machine_init heap_data_main 0) = Some m \<and>
     mc_exit m = None \<and> (\<forall>T. mc_threads m 0 = Some T \<longrightarrow> pt_ended T) \<and> mc_threads m 1 = None \<and> mc_out m = [(0, Ids), (1, Ids), (1, Str ''hello world''), (1, Num 10)]"
  by (simp add: heap_answers_def machine_eval Let_def demo_answers heap_data_main_def heap_data_thread_def
      store_cell_def load_cell_def eval_nat_numeral)

theorem heap_data_safe_witness:
  "\<exists>m. reach (machine_step 2) (machine_init heap_data_main 0) m \<and> mc_threads m 1 = None \<and> mc_heap m = Map.empty \<and>
     mc_out m = [(0, Ids), (1, Ids), (1, Str ''hello world''), (1, Num 10)]"
proof -
  obtain m where r: "reach (machine_step 2) (machine_init heap_data_main 0) m" and m: "mc_exit m = None"
    "\<forall>T. mc_threads m 0 = Some T \<longrightarrow> pt_ended T" "mc_threads m 1 = None" "mc_out m = [(0, Ids), (1, Ids), (1, Str ''hello world''), (1, Num 10)]"
    using heap_data_demo machine_run_reach by blast
  then show ?thesis using heap_data_safe [OF r] by blast
qed

text \<open>When the thread cannot be created both blocks are left.\<close>

lemma heap_data_create_fails:
  "\<exists>m. reach (machine_step 2) (machine_init heap_data_main 0) m \<and> mc_exit m = Some (-1) \<and> dom (mc_heap m) = {1, 2}"
proof -
  have "\<exists>m. machine_run 2 (heap_answers @ [(demo_no, 0)]) (machine_init heap_data_main 0) = Some m \<and> mc_exit m = Some (-1) \<and> dom (mc_heap m) = {1, 2}"
    by (simp add: heap_answers_def machine_eval Let_def demo_answers heap_data_main_def
        store_cell_def eval_nat_numeral) auto
  then show ?thesis using machine_run_reach by blast
qed

text \<open>
  The result of \<open>lab1/src/2/b.c\<close> is passed through \<open>pthread_join\<close>: the program shows 42 and leaves the block
  allocated.
\<close>

lemma result_demo:
  "\<exists>m. reach (machine_step 2) (machine_init result_main 0) m \<and> mc_exit m = Some 0 \<and>
     mc_out m = [(0, Ids), (1, Ids), (0, Num 42)] \<and> mc_heap m = [5 \<mapsto> [Int_Cell 42]]"
proof -
  have "\<exists>m. machine_run 2 [(demo_no, 0), (demo_yes, 0), (demo_no, 1), (demo_at 5, 1), (demo_no, 1), (demo_no, 1), (demo_no, 0),
       (demo_no, 0), (demo_no, 0)] (machine_init result_main 0) = Some m \<and> mc_exit m = Some 0 \<and>
     mc_out m = [(0, Ids), (1, Ids), (0, Num 42)] \<and> mc_heap m = [5 \<mapsto> [Int_Cell 42]]"
    by (simp add: machine_eval Let_def demo_answers result_main_def result_thread_def store_cell_def load_cell_def)
  then show ?thesis using machine_run_reach by blast
qed

end
