(* ===== verification/Demo_Cancel.thy ===== *)
theory Demo_Cancel
  imports Demo_Memory
begin

text \<open>
  Cancellation: \<open>lab1/src/4/a.c\<close> (a thread that prints and sleeps), \<open>b.c\<close> (a thread that counts, with
  asynchronous cancellation) and \<open>c.c\<close> (a thread with a cleanup handler). The handler is registered
  with the value that its argument has at that moment. \<open>c.c\<close> compares the result of
  \<open>pthread_create\<close> with -1, which it never is, so that a failure is not noticed. \<open>self\<close> are the digits
  of \<open>pthread_self()\<close>.
\<close>

section \<open>Programs\<close>

definition hello_loop_thread :: "stmt list" where
  "hello_loop_thread = [Loop [Show_Ids, Sleep]]"

definition hello_loop_main :: "stmt list" where
  "hello_loop_main = [Show_Ids, Create 0 hello_loop_thread False 0 (Some (-1)), Sleep, Cancel 0, Join 0 1 None, Return 0]"

definition count_loop_thread :: "stmt list" where
  "count_loop_thread = [Set_Async, Loop [Inc_Local]]"

definition count_loop_main :: "stmt list" where
  "count_loop_main = [Show_Ids, Create 0 count_loop_thread False 0 (Some (-1)), Sleep, Cancel 0, Join 0 1 None, Return 0]"

definition cleanup_thread :: "string \<Rightarrow> stmt list" where
  "cleanup_thread self = [Null 1, Cleanup_Push 1, Malloc 1 1024, Puts 1 (''Hello from thread '' @ self), Loop [Show_Str 1, Sleep]]"

definition cleanup_main :: "string \<Rightarrow> stmt list" where
  "cleanup_main self = [Show_Ids, Create 0 (cleanup_thread self) False 0 None, Sleep, Cancel 0, Join 0 1 None, Return 0]"

section \<open>The cleanup handler\<close>

definition has_message :: "(addr \<rightharpoonup> cell list) \<Rightarrow> bool" where
  "has_message h \<longleftrightarrow> (\<exists>b cs. h b = Some cs \<and> length cs = 1024)"

definition cleanup_thread_ok :: "string \<Rightarrow> thread \<Rightarrow> (addr \<rightharpoonup> cell list) \<Rightarrow> bool" where
  "cleanup_thread_ok self T h \<longleftrightarrow> \<not> pt_detached T \<and> \<not> pt_async T \<and> pt_frame T = [] \<and>
     (pt_todo T = cleanup_thread self \<and> \<not> pt_ended T \<or>
      pt_todo T = drop 1 (cleanup_thread self) \<and> pt_var T 1 = None \<and> pt_cleanup T = [] \<and> \<not> pt_ended T \<or>
      pt_todo T = drop 2 (cleanup_thread self) \<and> pt_cleanup T = [None] \<and> \<not> pt_ended T \<or>
      pt_todo T = drop 3 (cleanup_thread self) \<and> pt_cleanup T = [None] \<and> \<not> pt_ended T \<and>
        (\<forall>b. pt_var T 1 = Some b \<longrightarrow> (\<exists>cs. h b = Some cs \<and> length cs = 1024)) \<or>
      pt_todo T \<in> {[Loop [Show_Str 1, Sleep]], [Show_Str 1, Sleep, Loop [Show_Str 1, Sleep]], [Sleep, Loop [Show_Str 1, Sleep]]}
        \<and> pt_cleanup T = [None] \<and> \<not> pt_ended T \<and> has_message h \<or>
      pt_ended T \<and> has_message h) \<and>
     (pt_todo T = cleanup_thread self \<longrightarrow> pt_cleanup T = [])"

definition cleanup_before :: "string \<Rightarrow> machine \<Rightarrow> bool" where
  "cleanup_before self m \<longleftrightarrow> alone m \<and> mc_next m = 1 \<and> mc_slot m 0 = None \<and>
     (\<exists>M. mc_threads m 0 = Some M \<and> quiet M \<and> \<not> pt_ended M \<and>
       (pt_todo M = cleanup_main self \<or> pt_todo M = drop 1 (cleanup_main self) \<or>
        pt_todo M = drop 2 (cleanup_main self) \<or> pt_todo M = drop 3 (cleanup_main self)))"

definition cleanup_during :: "string \<Rightarrow> machine \<Rightarrow> bool" where
  "cleanup_during self m \<longleftrightarrow> pair m \<and> mc_slot m 0 = Some 1 \<and>
     (\<exists>M. mc_threads m 0 = Some M \<and> quiet M \<and> \<not> pt_ended M \<and>
       (pt_todo M = drop 2 (cleanup_main self) \<or> pt_todo M = drop 3 (cleanup_main self) \<or> pt_todo M = drop 4 (cleanup_main self))) \<and>
     (\<exists>T. mc_threads m 1 = Some T \<and> cleanup_thread_ok self T (mc_heap m))"

definition cleanup_after :: "string \<Rightarrow> machine \<Rightarrow> bool" where
  "cleanup_after self m \<longleftrightarrow> alone m \<and> has_message (mc_heap m) \<and>
     (\<exists>M. mc_threads m 0 = Some M \<and> quiet M \<and> \<not> pt_ended M \<and> pt_todo M = drop 5 (cleanup_main self))"

definition cleanup_inv :: "string \<Rightarrow> machine \<Rightarrow> bool" where
  "cleanup_inv self m \<longleftrightarrow> (case mc_exit m of None \<Rightarrow> cleanup_before self m \<or> cleanup_during self m \<or> cleanup_after self m
     | Some rc \<Rightarrow> has_message (mc_heap m))"

lemma cleanup_thread_step:
  assumes T: "cleanup_thread_ok self T h" "mc_heap m = h" "mc_threads m 1 = Some T" and e: "mc_exit m = None"
    and ok: "answer_ok limit a m" and x: "thread_exec a 1 m = Some (Inr m')"
  shows "\<exists>T'. mc_threads m' = (mc_threads m)(1 \<mapsto> T') \<and> mc_slot m' = mc_slot m \<and> mc_exit m' = None \<and> cleanup_thread_ok self T' (mc_heap m')"
proof -
  have run: "\<not> pt_ended T" using x T e by (auto simp: thread_exec_def)
  note eval = machine_eval Let_def
  from T(1) run show ?thesis
    unfolding cleanup_thread_ok_def [of self T]
  proof (elim conjE disjE)
    assume a: "pt_todo T = cleanup_thread self" "pt_todo T = cleanup_thread self \<longrightarrow> pt_cleanup T = []"
      "\<not> pt_detached T" "\<not> pt_async T" "pt_frame T = []"
    define T' where "T' = T\<lparr>pt_todo := drop 1 (cleanup_thread self), pt_var := (pt_var T)(1 := None)\<rparr>"
    have "m' = set_thread 1 T' m"
      using x T a e run by (simp add: eval T'_def cleanup_thread_def)
    moreover have "cleanup_thread_ok self T' h" using a run by (simp add: cleanup_thread_ok_def T'_def cleanup_thread_def)
    ultimately show ?thesis using T e by (auto simp: set_thread_def)
  next
    assume a: "pt_todo T = drop 1 (cleanup_thread self)" "pt_var T 1 = None" "pt_cleanup T = []"
      "\<not> pt_detached T" "\<not> pt_async T" "pt_frame T = []"
    define T' where "T' = T\<lparr>pt_todo := drop 2 (cleanup_thread self), pt_cleanup := [None]\<rparr>"
    have "m' = set_thread 1 T' m"
      using x T a e run by (simp add: eval T'_def cleanup_thread_def)
    moreover have "cleanup_thread_ok self T' h" using a run by (simp add: cleanup_thread_ok_def T'_def cleanup_thread_def)
    ultimately show ?thesis using T e by (auto simp: set_thread_def)
  next
    assume a: "pt_todo T = drop 2 (cleanup_thread self)" "pt_cleanup T = [None]" "\<not> pt_detached T" "\<not> pt_async T" "pt_frame T = []"
    define T' where "T' = T\<lparr>pt_todo := drop 3 (cleanup_thread self), pt_var := (pt_var T)(1 := an_block a)\<rparr>"
    have m': "m' = (set_thread 1 T' m)\<lparr>mc_heap := (case an_block a of None \<Rightarrow> h | Some b \<Rightarrow> h(b \<mapsto> replicate 1024 Uninit))\<rparr>"
      using x T a e run by (simp add: eval T'_def cleanup_thread_def)
    have "cleanup_thread_ok self T' (mc_heap m')"
      unfolding m' using a run by (simp add: cleanup_thread_ok_def T'_def cleanup_thread_def)
    then show ?thesis using T e by (auto simp: m' set_thread_def)
  next
    assume a: "pt_todo T = drop 3 (cleanup_thread self)" "pt_cleanup T = [None]" "\<not> pt_detached T" "\<not> pt_async T" "pt_frame T = []"
      "\<forall>b. pt_var T 1 = Some b \<longrightarrow> (\<exists>cs. h b = Some cs \<and> length cs = 1024)"
    define T' where "T' = T\<lparr>pt_todo := [Loop [Show_Str 1, Sleep]]\<rparr>"
    obtain h' where s: "store_chars h (pt_var T 1) 0 (''Hello from thread '' @ self) = Inr h'" and m': "m' = (set_thread 1 T' m)\<lparr>mc_heap := h'\<rparr>"
      using x T a e run by (auto simp: eval T'_def cleanup_thread_def ebind_Inr_iff simp del: store_chars.simps append_Cons)
    obtain b where b: "pt_var T 1 = Some b" using s by (cases "pt_var T 1") (auto simp: store_chars_None simp del: store_chars.simps append_Cons)
    then have "has_message h'" using a(6) store_chars_length [of h b 0 _ h'] s unfolding b has_message_def by fastforce
    then have "cleanup_thread_ok self T' h'" using a run by (simp add: cleanup_thread_ok_def T'_def cleanup_thread_def)
    then show ?thesis using T e by (auto simp: m' set_thread_def)
  next
    assume a: "pt_todo T \<in> {[Loop [Show_Str 1, Sleep]], [Show_Str 1, Sleep, Loop [Show_Str 1, Sleep]], [Sleep, Loop [Show_Str 1, Sleep]]}"
      "pt_cleanup T = [None]" "has_message h" "\<not> pt_detached T" "\<not> pt_async T" "pt_frame T = []"
    obtain T' where "mc_threads m' = (mc_threads m)(1 \<mapsto> T')" "mc_slot m' = mc_slot m" "mc_exit m' = None" "mc_heap m' = h"
      and T': "pt_ended T' \<or> \<not> pt_ended T' \<and> pt_cleanup T' = [None] \<and>
        pt_todo T' \<in> {[Loop [Show_Str 1, Sleep]], [Show_Str 1, Sleep, Loop [Show_Str 1, Sleep]], [Sleep, Loop [Show_Str 1, Sleep]]}"
        "\<not> pt_detached T'" "\<not> pt_async T'" "pt_frame T' = []" "pt_todo T' \<noteq> cleanup_thread self"
      using x T a e run by (auto simp: eval cleanup_thread_def ebind_Inr_iff split: if_splits)
    moreover have "cleanup_thread_ok self T' h" using T' a unfolding cleanup_thread_ok_def by blast
    ultimately show ?thesis by auto
  qed (use run in simp)
qed

lemma cleanup_cancelled: "cleanup_thread_ok self (T\<lparr>pt_cancelled := b\<rparr>) h = cleanup_thread_ok self T h"
  by (simp add: cleanup_thread_ok_def)

lemma cleanup_main_before:
  assumes inv: "cleanup_before self m" and e: "mc_exit m = None" and x: "thread_exec a t m = Some (Inr m')"
  shows "cleanup_inv self m'"
proof -
  obtain M where M: "mc_threads m 0 = Some M" "quiet M" "\<not> pt_ended M" and m: "alone m" "mc_next m = 1" "mc_slot m 0 = None"
    and todo: "pt_todo M = cleanup_main self \<or> pt_todo M = drop 1 (cleanup_main self) \<or>
        pt_todo M = drop 2 (cleanup_main self) \<or> pt_todo M = drop 3 (cleanup_main self)"
    using inv unfolding cleanup_before_def by blast
  have t: "t = 0" using x m(1) by (cases "t = 0") (auto simp: alone_def thread_exec_def split: if_splits)
  have stay: "cleanup_inv self m1" if "mc_threads m1 = (mc_threads m)(0 \<mapsto> M')" "mc_next m1 = 1" "mc_slot m1 = mc_slot m" "mc_exit m1 = None"
    "quiet M'" "\<not> pt_ended M'" "pt_todo M' = drop 1 (cleanup_main self) \<or> pt_todo M' = drop 2 (cleanup_main self) \<or> pt_todo M' = drop 3 (cleanup_main self)" for M' m1
    using that m by (auto simp: cleanup_inv_def cleanup_before_def set_thread_def alone_def)
  note eval = machine_eval Let_def quiet_def cleanup_main_def
  from todo show ?thesis
  proof (elim disjE)
    assume a: "pt_todo M = cleanup_main self"
    then have "m' = show_out 0 Ids (set_thread 0 (M\<lparr>pt_todo := drop 1 (cleanup_main self)\<rparr>) m)"
      using x t M e by (simp add: eval)
    then show ?thesis using M e m by (intro stay [where M' = "M\<lparr>pt_todo := drop 1 (cleanup_main self)\<rparr>"]) (auto simp: show_out_def set_thread_def quiet_def)
  next
    assume a: "pt_todo M = drop 1 (cleanup_main self)"
    let ?M = "M\<lparr>pt_todo := drop 2 (cleanup_main self)\<rparr>"
    show ?thesis
    proof (cases "an_created a")
      case True
      then have "m' = m\<lparr>mc_threads := (mc_threads m)(0 \<mapsto> ?M, 1 \<mapsto> new_thread (cleanup_thread self) False (an_mod a) (pt_var M 0)),
          mc_slot := (mc_slot m)(0 \<mapsto> 1), mc_next := Suc (Suc 0)\<rparr>"
        using x t M e a m(2) by (simp add: eval)
      moreover have "cleanup_thread_ok self (new_thread (cleanup_thread self) False (an_mod a) (pt_var M 0)) h" for h
        by (simp add: cleanup_thread_ok_def new_thread_def)
      ultimately show ?thesis using M e m
        by (simp add: cleanup_inv_def cleanup_during_def pair_def alone_def quiet_def)
    next
      case False
      then have "m' = (set_thread 0 ?M m)\<lparr>mc_exit := None\<rparr>" using x t M e a by (simp add: eval)
      then show ?thesis using M e m by (intro stay [where M' = "M\<lparr>pt_todo := drop 2 (cleanup_main self)\<rparr>"]) (auto simp: show_out_def set_thread_def quiet_def)
    qed
  next
    assume a: "pt_todo M = drop 2 (cleanup_main self)"
    then have "m' = set_thread 0 (M\<lparr>pt_todo := drop 3 (cleanup_main self)\<rparr>) m" using x t M e by (simp add: eval)
    then show ?thesis using M e m by (intro stay [where M' = "M\<lparr>pt_todo := drop 3 (cleanup_main self)\<rparr>"]) (auto simp: show_out_def set_thread_def quiet_def)
  next
    assume "pt_todo M = drop 3 (cleanup_main self)"
    then have False using x t M e m by (simp add: eval)
    then show ?thesis ..
  qed
qed

lemma cleanup_main_during:
  assumes inv: "cleanup_during self m" and e: "mc_exit m = None" and ok: "answer_ok limit a m"
    and x: "thread_exec a t m = Some (Inr m')"
  shows "cleanup_inv self m'"
proof -
  obtain M T where M: "mc_threads m 0 = Some M" "quiet M" "\<not> pt_ended M" and T: "mc_threads m 1 = Some T" "cleanup_thread_ok self T (mc_heap m)"
    and m: "pair m" "mc_slot m 0 = Some 1"
    and todo: "pt_todo M = drop 2 (cleanup_main self) \<or> pt_todo M = drop 3 (cleanup_main self) \<or> pt_todo M = drop 4 (cleanup_main self)"
    using inv unfolding cleanup_during_def by blast
  have "t = 0 \<or> t = 1" using x m(1) by (cases "t = 0 \<or> t = 1") (auto simp: pair_def thread_exec_def split: if_splits)
  then show ?thesis
  proof
    assume "t = 1"
    then obtain T' where "mc_threads m' = (mc_threads m)(1 \<mapsto> T')" "mc_slot m' = mc_slot m" "mc_exit m' = None"
      "cleanup_thread_ok self T' (mc_heap m')" using cleanup_thread_step [OF T(2) refl T(1) e ok] x by blast
    then show ?thesis using M m todo by (auto simp: cleanup_inv_def cleanup_during_def pair_def)
  next
    assume t: "t = 0"
    note eval = machine_eval Let_def quiet_def cleanup_main_def
    from todo show ?thesis
    proof (elim disjE)
      assume a: "pt_todo M = drop 2 (cleanup_main self)"
      then have "m' = set_thread 0 (M\<lparr>pt_todo := drop 3 (cleanup_main self)\<rparr>) m" using x t M e by (simp add: eval)
      then show ?thesis using M T e m by (auto simp: cleanup_inv_def cleanup_during_def set_thread_def pair_def quiet_def)
    next
      assume a: "pt_todo M = drop 3 (cleanup_main self)"
      then have "m' = m\<lparr>mc_threads := (mc_threads m)(0 \<mapsto> M\<lparr>pt_todo := drop 4 (cleanup_main self)\<rparr>, 1 \<mapsto> T\<lparr>pt_cancelled := True\<rparr>)\<rparr>"
        using x t M T e m by (simp add: eval)
      then show ?thesis using M T e m
        by (auto simp: cleanup_inv_def cleanup_during_def pair_def quiet_def cleanup_cancelled)
    next
      assume a: "pt_todo M = drop 4 (cleanup_main self)"
      then have en: "pt_ended T" using x t M T e m by (simp add: eval split: if_splits)
      have "m' = m\<lparr>mc_threads := (mc_threads m)(0 \<mapsto> M\<lparr>pt_todo := drop 5 (cleanup_main self), pt_var := (pt_var M)(1 := pt_result T)\<rparr>, 1 := None)\<rparr>"
        using x t M T e m a en by (simp add: eval)
      moreover have "has_message (mc_heap m)" using T(2) en unfolding cleanup_thread_ok_def by blast
      ultimately show ?thesis using M e m
        by (auto simp: cleanup_inv_def cleanup_after_def pair_def alone_def quiet_def)
    qed
  qed
qed

lemma cleanup_inv_step:
  assumes "machine_step limit m m'" "cleanup_inv self m"
  shows "cleanup_inv self m'"
proof -
  obtain a t T where ok: "answer_ok limit a m" and x: "thread_exec a t m = Some (Inr m')" and T: "mc_threads m t = Some T"
    and e: "mc_exit m = None" using assms(1) by (rule step_thread)
  consider "cleanup_before self m" | "cleanup_during self m" | "cleanup_after self m" using assms(2) e by (auto simp: cleanup_inv_def)
  then show ?thesis
  proof cases
    case 3
    then have "t = 0" using T by (cases "t = 0") (auto simp: cleanup_after_def alone_def)
    with 3 x e show ?thesis
      by (auto simp: cleanup_inv_def cleanup_after_def machine_eval Let_def cleanup_main_def quiet_def)
  qed (use cleanup_main_before cleanup_main_during e ok x in blast)+
qed

text \<open>The cleanup handler of \<open>lab1/src/4/c.c\<close> frees nothing: \<open>pthread_cleanup_push(myfree, msg)\<close> is given
  the value that \<open>msg\<close> has before \<open>malloc\<close>, \<open>NULL\<close>. Whenever the program ends, after the thread was
  cancelled and joined, the block of 1024 bytes is still allocated.\<close>

theorem cleanup_handler_leaks:
  assumes "reach (machine_step limit) (machine_init (cleanup_main self) g) m" and "mc_exit m = Some rc"
  shows "\<exists>b cs. mc_heap m b = Some cs \<and> length cs = 1024"
proof -
  have "cleanup_inv self (machine_init (cleanup_main self) g)"
    by (simp add: cleanup_inv_def cleanup_before_def machine_init_def new_thread_def alone_def quiet_def)
  with assms(1) have "cleanup_inv self m" by (rule reach_invariant) (rule cleanup_inv_step)
  then show ?thesis using assms(2) by (simp add: cleanup_inv_def has_message_def)
qed

lemma cleanup_demo:
  "\<exists>m. machine_run 2 ([(demo_no, 0), (demo_yes, 0), (demo_no, 1), (demo_no, 1), (demo_at 5, 1), (demo_no, 1), (demo_no, 0), (demo_no, 0), (demo_no, 1),
       (demo_no, 1), (demo_no, 0), (demo_no, 0)]) (machine_init (cleanup_main ''7'') 0) = Some m \<and> mc_exit m = Some 0"
  by (simp add: machine_eval Let_def demo_answers cleanup_main_def cleanup_thread_def store_cell_def)

theorem cleanup_handler_leaks_witness:
  "\<exists>m b cs. reach (machine_step 2) (machine_init (cleanup_main ''7'') 0) m \<and> mc_exit m = Some 0 \<and> mc_heap m b = Some cs \<and> length cs = 1024"
proof -
  obtain m where r: "reach (machine_step 2) (machine_init (cleanup_main ''7'') 0) m" and e: "mc_exit m = Some 0"
    using cleanup_demo machine_run_reach by blast
  then show ?thesis using cleanup_handler_leaks [OF r e] by blast
qed

section \<open>Cancelled threads end\<close>

definition loop_main :: "stmt list \<Rightarrow> stmt list" where
  "loop_main body = [Show_Ids, Create 0 body False 0 (Some (-1)), Sleep, Cancel 0, Join 0 1 None, Return 0]"

lemma loop_mains: "hello_loop_main = loop_main hello_loop_thread" "count_loop_main = loop_main count_loop_thread"
  by (simp_all add: loop_main_def hello_loop_main_def count_loop_main_def)

definition hello_ok :: "thread \<Rightarrow> bool" where
  "hello_ok T \<longleftrightarrow> pt_todo T \<in> {hello_loop_thread, Show_Ids # Sleep # hello_loop_thread, Sleep # hello_loop_thread}"

definition count_ok :: "thread \<Rightarrow> bool" where
  "count_ok T \<longleftrightarrow> pt_todo T = count_loop_thread \<or> pt_async T \<and> pt_todo T \<in> {drop 1 count_loop_thread, Inc_Local # drop 1 count_loop_thread}"

definition loop_thread_ok :: "stmt list \<Rightarrow> thread \<Rightarrow> bool" where
  "loop_thread_ok body T \<longleftrightarrow> \<not> pt_detached T \<and> pt_frame T = [] \<and> pt_cleanup T = [] \<and>
     (pt_ended T \<or> (if body = hello_loop_thread then hello_ok T else count_ok T))"

definition loop_before :: "stmt list \<Rightarrow> machine \<Rightarrow> bool" where
  "loop_before body m \<longleftrightarrow> alone m \<and> mc_next m = 1 \<and>
     (\<exists>M. mc_threads m 0 = Some M \<and> quiet M \<and> \<not> pt_ended M \<and> (pt_todo M = loop_main body \<or> pt_todo M = drop 1 (loop_main body)))"

definition loop_during :: "stmt list \<Rightarrow> machine \<Rightarrow> bool" where
  "loop_during body m \<longleftrightarrow> pair m \<and> mc_slot m 0 = Some 1 \<and>
     (\<exists>M T. mc_threads m 0 = Some M \<and> quiet M \<and> \<not> pt_ended M \<and> mc_threads m 1 = Some T \<and> loop_thread_ok body T \<and>
       (pt_todo M = drop 2 (loop_main body) \<or> pt_todo M = drop 3 (loop_main body) \<or>
        pt_todo M = drop 4 (loop_main body) \<and> pt_cancelled T))"

definition loop_after :: "stmt list \<Rightarrow> machine \<Rightarrow> bool" where
  "loop_after body m \<longleftrightarrow> alone m \<and> (\<exists>M. mc_threads m 0 = Some M \<and> quiet M \<and> \<not> pt_ended M \<and> pt_todo M = drop 5 (loop_main body))"

definition loop_inv :: "stmt list \<Rightarrow> machine \<Rightarrow> bool" where
  "loop_inv body m \<longleftrightarrow> mc_exit m \<noteq> None \<or> loop_before body m \<or> loop_during body m \<or> loop_after body m"

lemma loop_cancelled: "loop_thread_ok body (T\<lparr>pt_cancelled := b\<rparr>) = loop_thread_ok body T"
  by (simp add: loop_thread_ok_def hello_ok_def count_ok_def)

lemma loop_thread_step:
  assumes T: "loop_thread_ok body T" "mc_threads m 1 = Some T" and e: "mc_exit m = None"
    and body: "body = hello_loop_thread \<or> body = count_loop_thread" and x: "thread_exec a 1 m = Some (Inr m')"
  shows "(\<forall>u. u \<noteq> 1 \<longrightarrow> mc_threads m' u = mc_threads m u) \<and> (\<exists>T'. mc_threads m' 1 = Some T' \<and> mc_slot m' = mc_slot m \<and> mc_exit m' = None \<and>
     loop_thread_ok body T' \<and> pt_cancelled T' = pt_cancelled T)"
proof -
  have run: "\<not> pt_ended T" using x T e by (auto simp: thread_exec_def)
  from body show ?thesis
  proof
    assume b: "body = hello_loop_thread"
    then have "hello_ok T" using T run by (simp add: loop_thread_ok_def)
    then show ?thesis using T run e x b
      by (auto simp: hello_ok_def loop_thread_ok_def machine_eval Let_def hello_loop_thread_def split: if_splits)
  next
    assume b: "body = count_loop_thread"
    then have n: "body \<noteq> hello_loop_thread" by (simp add: hello_loop_thread_def count_loop_thread_def)
    then have "count_ok T" using T run by (simp add: loop_thread_ok_def)
    then show ?thesis using T run e x n unfolding loop_thread_ok_def
      by (auto simp: count_ok_def machine_eval Let_def count_loop_thread_def split: if_splits)
  qed
qed

lemma loop_step:
  assumes s: "machine_step limit m m'" and inv: "loop_inv body m" and body: "body = hello_loop_thread \<or> body = count_loop_thread"
  shows "loop_inv body m'"
proof -
  obtain a t U where x: "thread_exec a t m = Some (Inr m')" and U: "mc_threads m t = Some U" and e: "mc_exit m = None"
    using s by (rule step_thread)
  note eval = machine_eval Let_def quiet_def loop_main_def
  have new: "loop_thread_ok body (new_thread body False md p)" for md p
    using body by (auto simp: loop_thread_ok_def new_thread_def hello_ok_def count_ok_def)
  consider "loop_before body m" | "loop_during body m" | "loop_after body m" using inv e by (auto simp: loop_inv_def)
  then show ?thesis
  proof cases
    case 1
    then have "t = 0" using U by (cases "t = 0") (auto simp: loop_before_def alone_def)
    then show ?thesis using 1 x e new unfolding loop_inv_def loop_before_def
      by (auto simp: loop_during_def pair_def alone_def eval split: if_splits)
  next
    case 2
    then obtain M T where M: "mc_threads m 0 = Some M" "quiet M" "\<not> pt_ended M" and T: "mc_threads m 1 = Some T" "loop_thread_ok body T"
      and m: "pair m" "mc_slot m 0 = Some 1" and todo: "pt_todo M = drop 2 (loop_main body) \<or> pt_todo M = drop 3 (loop_main body) \<or>
        pt_todo M = drop 4 (loop_main body) \<and> pt_cancelled T" unfolding loop_during_def by blast
    have "t = 0 \<or> t = 1" using U m(1) unfolding pair_def by (metis option.distinct(1))
    then show ?thesis
    proof
      assume "t = 1"
      then obtain T' where "\<And>u. u \<noteq> 1 \<Longrightarrow> mc_threads m' u = mc_threads m u" "mc_threads m' 1 = Some T'" "mc_slot m' = mc_slot m" "mc_exit m' = None"
        "loop_thread_ok body T'" "pt_cancelled T' = pt_cancelled T" using loop_thread_step [OF T(2,1) e body] x by blast
      then show ?thesis using M m todo by (auto simp: loop_inv_def loop_during_def pair_def)
    next
      assume "t = 0"
      then show ?thesis using todo x M T e m unfolding loop_inv_def
        by (auto simp: loop_during_def loop_after_def loop_thread_ok_def hello_ok_def count_ok_def pair_def alone_def eval split: if_splits)
    qed
  next
    case 3
    then have "t = 0" using U by (cases "t = 0") (auto simp: loop_after_def alone_def)
    with 3 x e show ?thesis by (auto simp: loop_inv_def loop_after_def eval)
  qed
qed

text \<open>A step in which no thread is created and nothing is allocated is always possible.\<close>

lemma plain_step: "thread_exec demo_no t m = Some (Inr m') \<Longrightarrow> machine_step limit m m'"
  by (rule machine_moves [of limit demo_no]) (simp_all add: answer_ok_def demo_no_def)

definition can_end :: "nat \<Rightarrow> machine \<Rightarrow> bool" where
  "can_end limit m \<longleftrightarrow> (\<exists>m'. reach (machine_step limit) m m' \<and> mc_exit m' \<noteq> None)"

lemma can_end_step: "thread_exec demo_no t m = Some (Inr m') \<Longrightarrow> can_end limit m' \<Longrightarrow> can_end limit m"
  unfolding can_end_def by (meson plain_step reach_single reach_trans)

lemma can_end_now: "mc_exit m \<noteq> None \<Longrightarrow> can_end limit m"
  unfolding can_end_def by (blast intro: reach_refl)

lemma can_end_after: "loop_after body m \<Longrightarrow> mc_exit m = None \<Longrightarrow> can_end limit m"
  unfolding loop_after_def
  by (elim conjE exE, rule can_end_step [of 0]) (auto simp: machine_eval Let_def loop_main_def quiet_def intro!: can_end_now)

lemma can_end_before: "loop_before body m \<Longrightarrow> mc_exit m = None \<Longrightarrow> can_end limit m"
proof -
  have last: "can_end limit m" if "mc_threads m 0 = Some M" "quiet M" "\<not> pt_ended M" "pt_todo M = drop 1 (loop_main body)" "mc_exit m = None" for m M
    by (rule can_end_step [of 0]) (use that in \<open>auto simp: machine_eval Let_def loop_main_def quiet_def demo_no_def intro!: can_end_now\<close>)
  assume b: "loop_before body m" and e: "mc_exit m = None"
  then obtain M where M: "mc_threads m 0 = Some M" "quiet M" "\<not> pt_ended M" and "pt_todo M = loop_main body \<or> pt_todo M = drop 1 (loop_main body)"
    unfolding loop_before_def by blast
  then show ?thesis
  proof (elim disjE)
    assume a: "pt_todo M = loop_main body"
    let ?M = "M\<lparr>pt_todo := drop 1 (loop_main body)\<rparr>"
    have "thread_exec demo_no 0 m = Some (Inr (show_out 0 Ids (set_thread 0 ?M m)))"
      using a M e by (simp add: machine_eval Let_def loop_main_def quiet_def)
    then show ?thesis
      by (rule can_end_step) (rule last [of _ ?M], use M e in \<open>simp_all add: show_out_def set_thread_def quiet_def\<close>)
  qed (use last M e in blast)
qed

text \<open>A thread with a pending request acts on it after at most one more of its steps.\<close>

lemma can_end_cancelled:
  assumes m: "pair m" "mc_slot m 0 = Some 1" "mc_exit m = None"
    and M: "mc_threads m 0 = Some M" "quiet M" "\<not> pt_ended M" "pt_todo M = drop 4 (loop_main body)"
    and T: "mc_threads m 1 = Some T" "loop_thread_ok body T" "pt_cancelled T"
    and body: "body = hello_loop_thread \<or> body = count_loop_thread"
  shows "can_end limit m"
proof -
  have ended: "can_end limit m" if "pair m" "mc_slot m 0 = Some 1" "mc_exit m = None" "mc_threads m 0 = Some M"
    "mc_threads m 1 = Some T" "pt_ended T" for m T
  proof (rule can_end_step [of 0])
    let ?m = "m\<lparr>mc_threads := (mc_threads m)(0 \<mapsto> M\<lparr>pt_todo := drop 5 (loop_main body), pt_var := (pt_var M)(1 := pt_result T)\<rparr>, 1 := None)\<rparr>"
    show "thread_exec demo_no 0 m = Some (Inr ?m)" using that M by (simp add: machine_eval Let_def loop_main_def quiet_def)
    show "can_end limit ?m"
      by (rule can_end_after [of body]) (use that M in \<open>auto simp: loop_after_def alone_def pair_def quiet_def\<close>)
  qed
  have act: "can_end limit m" if p: "pair m" "mc_slot m 0 = Some 1" "mc_exit m = None" "mc_threads m 0 = Some M"
    "mc_threads m 1 = Some T" "\<not> pt_detached T" "pt_frame T = []" "pt_cleanup T = []" "\<not> pt_ended T" "pt_cancelled T"
    "pt_async T \<or> cancellation_point (pt_todo T)" for m T
  proof (rule can_end_step [of 1])
    let ?m = "m\<lparr>mc_heap := mc_heap m, mc_heap := mc_heap m, mc_threads := (mc_threads m)(1 \<mapsto> T\<lparr>pt_ended := True, pt_todo := []\<rparr>)\<rparr>"
    show "thread_exec demo_no 1 m = Some (Inr ?m)" using p by (simp add: machine_eval Let_def)
    show "can_end limit ?m" by (rule ended) (use p in \<open>auto simp: pair_def\<close>)
  qed
  show ?thesis
  proof (cases "pt_ended T")
    case True
    then show ?thesis by (rule ended [OF m M(1) T(1)])
  next
    case False
    note flags = T(2) [unfolded loop_thread_ok_def]
    show ?thesis
    proof (cases "pt_async T \<or> cancellation_point (pt_todo T)")
      case True
      then show ?thesis using act [OF m M(1) T(1)] flags False T(3) by simp
    next
      case na: False
      have "pt_todo T = hello_loop_thread \<or> pt_todo T = count_loop_thread"
        using flags na False body by (auto simp: hello_ok_def count_ok_def split: if_splits)
      then show ?thesis
      proof
        assume a: "pt_todo T = hello_loop_thread"
        let ?T = "T\<lparr>pt_todo := Show_Ids # Sleep # hello_loop_thread\<rparr>"
        have "thread_exec demo_no 1 m = Some (Inr (set_thread 1 ?T m))"
          using a T na False m by (simp add: machine_eval Let_def hello_loop_thread_def)
        then show ?thesis
          by (rule can_end_step) (rule act [of _ ?T], use m M T flags False in \<open>simp_all add: set_thread_def pair_def\<close>)
      next
        assume a: "pt_todo T = count_loop_thread"
        let ?T = "T\<lparr>pt_todo := drop 1 count_loop_thread, pt_async := True\<rparr>"
        have "thread_exec demo_no 1 m = Some (Inr (set_thread 1 ?T m))"
          using a T na False m by (simp add: machine_eval Let_def count_loop_thread_def)
        then show ?thesis
          by (rule can_end_step) (rule act [of _ ?T], use m M T flags False in \<open>simp_all add: set_thread_def pair_def\<close>)
      qed
    qed
  qed
qed

lemma can_end_during:
  assumes d: "loop_during body m" and e: "mc_exit m = None" and body: "body = hello_loop_thread \<or> body = count_loop_thread"
  shows "can_end limit m"
proof -
  obtain M T where M: "mc_threads m 0 = Some M" "quiet M" "\<not> pt_ended M" and T: "mc_threads m 1 = Some T" "loop_thread_ok body T"
      and m: "pair m" "mc_slot m 0 = Some 1" and todo: "pt_todo M = drop 2 (loop_main body) \<or> pt_todo M = drop 3 (loop_main body) \<or>
        pt_todo M = drop 4 (loop_main body) \<and> pt_cancelled T" using d unfolding loop_during_def by blast
  note eval = machine_eval Let_def quiet_def loop_main_def
  have third: "can_end limit m" if "mc_threads m 0 = Some M" "quiet M" "\<not> pt_ended M" "pt_todo M = drop 3 (loop_main body)"
    "mc_threads m 1 = Some T" "pair m" "mc_slot m 0 = Some 1" "mc_exit m = None" for m M
  proof (rule can_end_step [of 0])
    let ?M = "M\<lparr>pt_todo := drop 4 (loop_main body)\<rparr>" and ?T = "T\<lparr>pt_cancelled := True\<rparr>"
    let ?m = "m\<lparr>mc_threads := (mc_threads m)(0 \<mapsto> ?M, 1 \<mapsto> ?T)\<rparr>"
    show "thread_exec demo_no 0 m = Some (Inr ?m)" using that by (simp add: eval)
    have "loop_thread_ok body ?T" using T(2) by (simp add: loop_cancelled)
    then show "can_end limit ?m"
      by (intro can_end_cancelled [of _ ?M body ?T]) (use that body in \<open>simp_all add: pair_def quiet_def\<close>)
  qed
  from todo show ?thesis
  proof (elim disjE conjE)
    assume a: "pt_todo M = drop 2 (loop_main body)"
    let ?M = "M\<lparr>pt_todo := drop 3 (loop_main body)\<rparr>"
    have "thread_exec demo_no 0 m = Some (Inr (set_thread 0 ?M m))" using a M e by (simp add: eval)
    then show ?thesis
      by (rule can_end_step) (rule third [of _ ?M], use M T m e in \<open>simp_all add: set_thread_def pair_def quiet_def\<close>)
  qed (use third can_end_cancelled M T m e body in blast)+
qed

text \<open>C40: In \<open>lab1/src/4/a.c\<close> and \<open>b.c\<close> the cancelled thread always ends, at a cancellation point or at once:
  from every reachable state \<open>main\<close> can still join it and return.\<close>

theorem cancelled_thread_joined:
  assumes "reach (machine_step limit) (machine_init main g) m" and "main \<in> {hello_loop_main, count_loop_main}"
  shows "\<exists>m'. reach (machine_step limit) m m' \<and> mc_exit m' \<noteq> None"
proof -
  obtain body where b: "main = loop_main body" and body: "body = hello_loop_thread \<or> body = count_loop_thread"
    using assms(2) loop_mains by blast
  have "loop_inv body (machine_init (loop_main body) g)"
    by (simp add: loop_inv_def loop_before_def machine_init_def new_thread_def alone_def quiet_def)
  with assms(1) have "loop_inv body m" unfolding b by (rule reach_invariant) (rule loop_step [OF _ _ body])
  then have "can_end limit m"
    using can_end_now can_end_before can_end_during [OF _ _ body] can_end_after by (cases "mc_exit m") (auto simp: loop_inv_def)
  then show ?thesis by (simp add: can_end_def)
qed

theorem cancelled_thread_joined_witness:
  "\<exists>m. reach (machine_step 2) (machine_init count_loop_main 0) m \<and> mc_exit m \<noteq> None"
  using cancelled_thread_joined [OF reach_refl, of count_loop_main 2 0] by simp

end
