(* ===== verification/Demo_Signals.thy ===== *)
theory Demo_Signals
  imports Prelude
begin

text \<open>
  The signals of \<open>lab1/src/5/a.c\<close>: four thread functions that block, handle or wait for a signal, and
  a \<open>main\<close> that sends signals to its own process. A signal sent to the process is delivered at once
  if some thread does not block it, runs the handler or else ends the process (the default action of
  the three signals), and stays pending if all threads block it. A new thread inherits the mask of its
  creator. The results of \<open>pthread_create\<close> are ignored by the program; here it succeeds.
\<close>

section \<open>Statements and state\<close>

datatype signal = SIGINT | SIGQUIT | SIGUSR1

datatype sstmt =
    Print_Mask | Print string | Block "signal list" | Handle signal string | Kill signal
  | Sigwait signal | Spawn "sstmt list" | Nap | Pause | Join_Thread nat | Forever "sstmt list" | Exit_Process

record sthread_state =
  sg_todo :: "sstmt list"
  sg_mask :: "signal set"

datatype sshown = Text string | Blocked "signal list"

record sproc =
  sp_threads :: "sthread_state list"
  sp_pending :: "signal set"
  sp_handler :: "signal \<rightharpoonup> string"
  sp_out :: "sshown list"
  sp_killed :: "signal option"
  sp_exit :: bool

section \<open>The program\<close>

definition print_sigmask :: "signal set \<Rightarrow> signal list" where
  "print_sigmask blocked = filter (\<lambda>s. s \<in> blocked) [SIGINT, SIGQUIT, SIGUSR1]"

definition block_signals :: "sstmt list" where
  "block_signals = [Block [SIGINT, SIGQUIT], Print ''Thread 1: Signals blocked (SIGINT and SIGQUIT)'', Forever [Nap]]"

definition handle_sigint :: "sstmt list" where
  "handle_sigint = [Handle SIGINT ''Thread 2: Caught SIGINT'', Print ''Thread 2: Waiting for SIGINT...'', Forever [Pause]]"

definition wait_sigquit :: "sstmt list" where
  "wait_sigquit = [Print ''Thread 3: Waiting for SIGQUIT...'', Forever [Sigwait SIGQUIT, Print ''Thread 3: Caught SIGQUIT'']]"

definition wait_sigusr1 :: "sstmt list" where
  "wait_sigusr1 = [Print ''Thread 4: Waiting for SIGUSR1...'', Forever [Sigwait SIGUSR1, Print ''Thread 4: Caught SIGUSR1'']]"

definition signals_main :: "sstmt list" where
  "signals_main = [Print_Mask, Print ''main: Hello from main!'', Block [SIGUSR1], Spawn block_signals, Spawn handle_sigint,
     Kill SIGQUIT, Nap, Kill SIGUSR1, Nap, Spawn wait_sigquit, Spawn wait_sigusr1,
     Join_Thread 1, Join_Thread 2, Join_Thread 3, Exit_Process]"

section \<open>Steps\<close>

definition sproc_init :: sproc where
  "sproc_init = \<lparr>sp_threads = [\<lparr>sg_todo = signals_main, sg_mask = {}\<rparr>], sp_pending = {}, sp_handler = Map.empty,
     sp_out = [], sp_killed = None, sp_exit = False\<rparr>"

definition set_sthread :: "nat \<Rightarrow> sthread_state \<Rightarrow> sproc \<Rightarrow> sproc" where
  "set_sthread t T p = p\<lparr>sp_threads := (sp_threads p)[t := T]\<rparr>"

text \<open>\<open>kill(getpid(), s)\<close>.\<close>

definition send_signal :: "signal \<Rightarrow> sproc \<Rightarrow> sproc" where
  "send_signal s p =
     (if list_ex (\<lambda>T. s \<notin> sg_mask T) (sp_threads p) then
        (case sp_handler p s of None \<Rightarrow> p\<lparr>sp_killed := Some s\<rparr> | Some msg \<Rightarrow> p\<lparr>sp_out := sp_out p @ [Text msg]\<rparr>)
      else p\<lparr>sp_pending := insert s (sp_pending p)\<rparr>)"

text \<open>One statement of thread \<open>t\<close>, \<open>T\<close> being the thread behind it; \<open>None\<close> when it waits.\<close>

definition sstmt_exec :: "nat \<Rightarrow> sthread_state \<Rightarrow> sstmt \<Rightarrow> sproc \<Rightarrow> sproc option" where
  "sstmt_exec t T s p = (let q = set_sthread t T p in case s of
       Print_Mask \<Rightarrow> Some (q\<lparr>sp_out := sp_out p @ [Blocked (print_sigmask (sg_mask T))]\<rparr>)
     | Print str \<Rightarrow> Some (q\<lparr>sp_out := sp_out p @ [Text str]\<rparr>)
     | Block ss \<Rightarrow> Some (set_sthread t (T\<lparr>sg_mask := sg_mask T \<union> set ss\<rparr>) p)
     | Handle sg msg \<Rightarrow> Some (q\<lparr>sp_handler := (sp_handler p)(sg \<mapsto> msg)\<rparr>)
     | Kill sg \<Rightarrow> Some (send_signal sg q)
     | Sigwait sg \<Rightarrow> if sg \<in> sp_pending p then Some (q\<lparr>sp_pending := sp_pending p - {sg}\<rparr>) else None
     | Spawn body \<Rightarrow> Some (q\<lparr>sp_threads := sp_threads q @ [\<lparr>sg_todo = body, sg_mask = sg_mask T\<rparr>]\<rparr>)
     | Nap \<Rightarrow> Some q
     | Pause \<Rightarrow> None
     | Join_Thread u \<Rightarrow> if u < length (sp_threads p) \<and> sg_todo (sp_threads p ! u) = [] then Some q else None
     | Forever body \<Rightarrow> Some (set_sthread t (T\<lparr>sg_todo := body @ [Forever body]\<rparr>) p)
     | Exit_Process \<Rightarrow> Some (q\<lparr>sp_exit := True\<rparr>))"

definition sproc_move :: "nat \<Rightarrow> sproc \<Rightarrow> sproc option" where
  "sproc_move t p = (if sp_killed p \<noteq> None \<or> sp_exit p \<or> length (sp_threads p) \<le> t then None
     else case sg_todo (sp_threads p ! t) of [] \<Rightarrow> None
       | s # todo \<Rightarrow> sstmt_exec t ((sp_threads p ! t)\<lparr>sg_todo := todo\<rparr>) s p)"

inductive sproc_step :: "sproc \<Rightarrow> sproc \<Rightarrow> bool" where
  sproc_moves: "sproc_move t p = Some p' \<Longrightarrow> sproc_step p p'"

section \<open>The process does not survive its first signal\<close>

definition early_thread :: "sthread_state \<Rightarrow> bool" where
  "early_thread T \<longleftrightarrow> (\<exists>k\<le>2. sg_todo T = drop k block_signals \<or> sg_todo T = drop k handle_sigint) \<or> sg_todo T = [Nap, Forever [Nap]]
     \<or> sg_todo T = [Pause, Forever [Pause]]"

text \<open>\<open>main\<close> has executed \<open>k\<close> statements, none of them a \<open>kill\<close>.\<close>

definition early_at :: "nat \<Rightarrow> sproc \<Rightarrow> bool" where
  "early_at k p \<longleftrightarrow> k \<le> 5 \<and> (\<exists>M Ts. sp_threads p = M # Ts \<and> sg_mask M \<subseteq> {SIGUSR1} \<and> sg_todo M = drop k signals_main \<and>
       length Ts = k - 3 \<and> list_all early_thread Ts) \<and>
     sp_handler p SIGQUIT = None \<and> \<not> sp_exit p \<and> sp_killed p = None"

definition early :: "sproc \<Rightarrow> bool" where
  "early p \<longleftrightarrow> length (sp_threads p) \<le> 3 \<and> \<not> sp_exit p \<and> (sp_killed p = Some SIGQUIT \<or> (\<exists>k. early_at k p))"

lemma early_init: "early sproc_init"
  by (auto simp: early_def early_at_def sproc_init_def intro!: exI [of _ 0])

lemma early_thread_move:
  assumes T: "early_thread T" "sg_todo T = s # todo" and x: "sstmt_exec t (T\<lparr>sg_todo := todo\<rparr>) s p = Some p'"
  shows "\<exists>T'. early_thread T' \<and> sp_threads p' = (sp_threads p)[t := T'] \<and> sp_killed p' = sp_killed p \<and> sp_exit p' = sp_exit p \<and>
     sp_handler p' SIGQUIT = sp_handler p SIGQUIT"
proof -
  note eval = sstmt_exec_def Let_def set_sthread_def
  have T': "early_thread T'" if "sg_todo T' \<in> {drop 1 block_signals, drop 2 block_signals, drop 1 handle_sigint, drop 2 handle_sigint,
      [Nap, Forever [Nap]], [Pause, Forever [Pause]]}" for T' :: sthread_state
    using that unfolding early_thread_def by (auto intro: exI [of _ 1] exI [of _ 2])
  from T consider "sg_todo T = block_signals" | "sg_todo T = drop 1 block_signals" | "sg_todo T = drop 2 block_signals"
    | "sg_todo T = handle_sigint" | "sg_todo T = drop 1 handle_sigint" | "sg_todo T = drop 2 handle_sigint"
    | "sg_todo T = [Nap, Forever [Nap]]" | "sg_todo T = [Pause, Forever [Pause]]"
    by (auto simp: early_thread_def le_Suc_eq numeral_2_eq_2)
  then show ?thesis
  proof cases
    case 1
    then show ?thesis using x T(2)
      by (intro exI [of _ "T\<lparr>sg_todo := drop 1 block_signals, sg_mask := sg_mask T \<union> {SIGINT, SIGQUIT}\<rparr>"])
        (auto simp: eval block_signals_def intro!: T')
  next
    case 2
    then show ?thesis using x T(2)
      by (intro exI [of _ "T\<lparr>sg_todo := drop 2 block_signals\<rparr>"]) (auto simp: eval block_signals_def intro!: T')
  next
    case 3
    then show ?thesis using x T(2)
      by (intro exI [of _ "T\<lparr>sg_todo := [Nap, Forever [Nap]]\<rparr>"]) (auto simp: eval block_signals_def intro!: T')
  next
    case 4
    then show ?thesis using x T(2)
      by (intro exI [of _ "T\<lparr>sg_todo := drop 1 handle_sigint\<rparr>"]) (auto simp: eval handle_sigint_def intro!: T')
  next
    case 5
    then show ?thesis using x T(2)
      by (intro exI [of _ "T\<lparr>sg_todo := drop 2 handle_sigint\<rparr>"]) (auto simp: eval handle_sigint_def intro!: T')
  next
    case 6
    then show ?thesis using x T(2)
      by (intro exI [of _ "T\<lparr>sg_todo := [Pause, Forever [Pause]]\<rparr>"]) (auto simp: eval handle_sigint_def intro!: T')
  next
    case 7
    then show ?thesis using x T(2)
      by (intro exI [of _ "T\<lparr>sg_todo := drop 2 block_signals\<rparr>"]) (auto simp: eval block_signals_def intro!: T')
  next
    case 8
    then show ?thesis using x T(2) by (simp add: eval)
  qed
qed

text \<open>The next step of \<open>main\<close> exists, and leads to the next statement or to the end of the process.\<close>

lemma main_signal_move:
  assumes k: "early_at k p"
  shows "\<exists>p'. sproc_move 0 p = Some p' \<and> early p' \<and> (if k = 5 then sp_killed p' = Some SIGQUIT else early_at (Suc k) p')"
proof -
  obtain M Ts where p: "sp_threads p = M # Ts" and M: "sg_mask M \<subseteq> {SIGUSR1}" "sg_todo M = drop k signals_main"
    and Ts: "length Ts = k - 3" "list_all early_thread Ts" and r: "sp_handler p SIGQUIT = None" "\<not> sp_exit p" "sp_killed p = None" "k \<le> 5"
    using k unfolding early_at_def by blast
  note eval = sproc_move_def sstmt_exec_def Let_def set_sthread_def send_signal_def signals_main_def
  have new: "early_thread \<lparr>sg_todo = block_signals, sg_mask = ms\<rparr>" "early_thread \<lparr>sg_todo = handle_sigint, sg_mask = ms\<rparr>" for ms
    by (auto simp: early_thread_def intro!: exI [of _ 0])
  have cons: "early p'" if "early_at (Suc k) p'" "k < 5" for p'
    unfolding early_def using that by (intro conjI disjI2 exI [of _ "Suc k"]) (auto simp: early_at_def)
  consider "k = 0" | "k = 1" | "k = 2" | "k = 3" | "k = 4" | "k = 5" using r(4) by linarith
  then show ?thesis
  proof cases
    case 6
    have "SIGQUIT \<notin> sg_mask M" using M(1) by auto
    then show ?thesis using 6 p M Ts r by (simp add: eval early_def)
  qed (use p M Ts r new in \<open>auto simp: eval early_at_def intro!: cons\<close>)
qed

lemma early_step:
  assumes "sproc_step p p'" "early p"
  shows "early p'"
  using assms(1)
proof cases
  case (sproc_moves t)
  then have alive: "sp_killed p = None" by (simp add: sproc_move_def split: if_splits)
  then obtain k where k: "early_at k p" using assms(2) by (auto simp: early_def)
  show ?thesis
  proof (cases t)
    case 0
    then show ?thesis using main_signal_move [OF k] sproc_moves by auto
  next
    case (Suc u)
    obtain M Ts where p: "sp_threads p = M # Ts" and Ts: "list_all early_thread Ts" using k unfolding early_at_def by blast
    then have u: "u < length Ts" using sproc_moves Suc by (auto simp: sproc_move_def split: if_splits)
    then have "early_thread (Ts ! u)" using Ts by (simp add: list_all_length)
    moreover obtain s todo where "sg_todo (Ts ! u) = s # todo" "sstmt_exec t ((Ts ! u)\<lparr>sg_todo := todo\<rparr>) s p = Some p'"
      using sproc_moves Suc p by (auto simp: sproc_move_def split: if_splits list.splits)
    ultimately obtain T' where T': "early_thread T'" and p': "sp_threads p' = M # Ts[u := T']" "sp_killed p' = sp_killed p"
      "sp_exit p' = sp_exit p" "sp_handler p' SIGQUIT = sp_handler p SIGQUIT"
      using early_thread_move [of "Ts ! u" s todo t p p'] Suc p by auto
    have "list_all early_thread (Ts[u := T'])" using Ts T' u by (auto simp: list_all_length nth_list_update)
    then have "early_at k p'" using k p p' by (auto simp: early_at_def)
    then show ?thesis using assms(2) p p' alive by (auto simp: early_def)
  qed
qed

lemma early_killed: "early_at k p \<Longrightarrow> \<exists>p'. reach sproc_step p p' \<and> sp_killed p' = Some SIGQUIT"
proof (induction "5 - k" arbitrary: k p)
  case 0
  then have "k = 5" by (simp add: early_at_def)
  then show ?case using main_signal_move [OF 0(2)] by (auto intro: reach_single sproc_moves)
next
  case (Suc n)
  then obtain p1 where "sproc_move 0 p = Some p1" "early_at (Suc k) p1" using main_signal_move [OF Suc(3)] by auto
  moreover have "n = 5 - Suc k" using Suc(2) by simp
  ultimately obtain p' where "reach sproc_step p1 p'" "sp_killed p' = Some SIGQUIT" using Suc(1) by blast
  then show ?case using reach_trans [of sproc_step p1 p' p] reach_single [of sproc_step p p1] sproc_moves \<open>sproc_move 0 p = Some p1\<close>
    by blast
qed

text \<open>\<open>lab1/src/5/a.c\<close> never demonstrates \<open>sigwait\<close>: \<open>main\<close> has blocked \<open>SIGUSR1\<close> only, so that its
  \<open>kill(getpid(), SIGQUIT)\<close> ends the process. Whatever the interleaving, the third and the fourth
  thread are never created, \<open>main\<close> never returns, and the process can only end by \<open>SIGQUIT\<close>, which it
  always can.\<close>

theorem signals_killed_by_sigquit:
  assumes "reach sproc_step sproc_init p"
  shows "length (sp_threads p) \<le> 3 \<and> \<not> sp_exit p \<and> (sp_killed p = None \<or> sp_killed p = Some SIGQUIT) \<and>
    (\<exists>p'. reach sproc_step p p' \<and> sp_killed p' = Some SIGQUIT)"
proof -
  have "early p" using assms early_init by (rule reach_invariant) (rule early_step)
  then show ?thesis using early_killed by (auto simp: early_def early_at_def intro: reach_refl)
qed

theorem signals_killed_by_sigquit_witness:
  "\<exists>p'. reach sproc_step sproc_init p' \<and> sp_killed p' = Some SIGQUIT"
  using signals_killed_by_sigquit [OF reach_refl] by blast

end
